(* ===== verification/Eventic_Prelude.thy ===== *)
theory Eventic_Prelude
  imports Complex_Main "HOL-Library.AList" "HOL-Library.Sublist" "HOL-Library.Word"
    "HOL-Library.Char_ord" "HOL-Library.List_Lexorder" "HOL-Library.Product_Lexorder"
begin

text \<open>
  Shared vocabulary of the development.

  Python code that may raise is a value of a sum type: \<open>Inl\<close> carries the exception, \<open>Inr\<close> the
  result, and \<open>rbind\<close> sequences two such computations the way Python statements follow each
  other.  A Python \<open>dict\<close> is an association list in insertion order with distinct keys
  (\<open>dict_ok\<close>): \<open>map_of\<close> looks a key up, \<open>AList.update\<close> stores one (an existing key keeps its place,
  a new one goes last) and \<open>AList.delete\<close> is \<open>pop\<close>.  A Python \<open>str\<close> is the list of the bytes of its
  UTF-8 encoding, for which equality, order and concatenation agree with Python's.
\<close>

named_theorems result_simps \<open>unfolding of sequenced computations that may raise\<close>
named_theorems dict_simps \<open>lookups in updated dictionaries\<close>

section \<open>Computations that may raise\<close>

definition rbind :: "'e + 'a \<Rightarrow> ('a \<Rightarrow> 'e + 'b) \<Rightarrow> 'e + 'b" where
  "rbind m f = (case m of Inl e \<Rightarrow> Inl e | Inr x \<Rightarrow> f x)"

definition is_ok :: "'e + 'a \<Rightarrow> bool" where
  "is_ok m = (case m of Inl _ \<Rightarrow> False | Inr _ \<Rightarrow> True)"

lemma rbind_simps [simp, result_simps]:
  "rbind (Inl e) f = Inl e"
  "rbind (Inr x) f = f x"
  by (simp_all add: rbind_def)

lemma rbind_Inr_iff [result_simps]:
  "rbind m f = Inr y \<longleftrightarrow> (\<exists>x. m = Inr x \<and> f x = Inr y)"
  by (cases m) simp_all

lemma rbind_Inr_E [elim!]:
  assumes "rbind m f = Inr y"
  obtains x where "m = Inr x" "f x = Inr y"
  using assms by (auto simp: rbind_Inr_iff)

lemma is_ok_simps [simp]: "is_ok (Inr x)" "\<not> is_ok (Inl e)"
  by (simp_all add: is_ok_def)

lemma is_ok_iff: "is_ok m \<longleftrightarrow> (\<exists>x. m = Inr x)"
  by (cases m) simp_all

text \<open>Run a fallible step over a list, threading a state, stopping at the first exception.\<close>

fun rfold :: "('s \<Rightarrow> 'a \<Rightarrow> 'e + ('s \<times> 'b)) \<Rightarrow> 's \<Rightarrow> 'a list \<Rightarrow> 'e + ('s \<times> 'b list)" where
  "rfold f s [] = Inr (s, [])"
| "rfold f s (x # xs) =
     rbind (f s x) (\<lambda>(s', y). rbind (rfold f s' xs) (\<lambda>(s'', ys). Inr (s'', y # ys)))"

lemma rfold_Inr_Cons:
  assumes "rfold f s (x # xs) = Inr (t, zs)"
  obtains s' y ys where "f s x = Inr (s', y)" "rfold f s' xs = Inr (t, ys)" "zs = y # ys"
  using assms by (auto split: prod.splits)

lemma rfold_length: "rfold f s xs = Inr (t, ys) \<Longrightarrow> length ys = length xs"
  by (induction xs arbitrary: s ys) (auto split: prod.splits)

text \<open>An invariant of each step is an invariant of the whole run.\<close>

lemma rfold_invariant:
  assumes step: "\<And>s x s' y. I s \<Longrightarrow> x \<in> set xs \<Longrightarrow> f s x = Inr (s', y) \<Longrightarrow> I s'"
    and "I s" and "rfold f s xs = Inr (t, ys)"
  shows "I t"
  using assms
proof (induction xs arbitrary: s ys)
  case Nil
  then show ?case by simp
next
  case (Cons x xs)
  from Cons.prems(3) obtain s' y zs where s': "f s x = Inr (s', y)" "rfold f s' xs = Inr (t, zs)"
    by (rule rfold_Inr_Cons)
  show ?case
  proof (rule Cons.IH)
    show "I s'" by (rule Cons.prems(1) [OF Cons.prems(2) _ s'(1)]) simp
    show "rfold f s' xs = Inr (t, zs)" by (rule s'(2))
  qed (use Cons.prems(1) in auto)
qed

section \<open>Dictionaries\<close>

abbreviation dict_ok :: "('k \<times> 'v) list \<Rightarrow> bool" where
  "dict_ok d \<equiv> distinct (map fst d)"

abbreviation keys :: "('k \<times> 'v) list \<Rightarrow> 'k list" where
  "keys d \<equiv> map fst d"

definition dict_of :: "('k \<times> 'v) list \<Rightarrow> ('k \<times> 'v) list" where
  "dict_of ms = foldl (\<lambda>d (k, v). AList.update k v d) [] ms"

lemma map_of_delete [dict_simps]: "map_of (AList.delete k d) = (map_of d)(k := None)"
  by (simp add: delete_conv' fun_eq_iff)

lemma map_of_update [dict_simps]: "map_of (AList.update k v d) = (map_of d)(k \<mapsto> v)"
  by (simp add: update_conv' fun_eq_iff)

lemma update_fresh: "k \<notin> fst ` set d \<Longrightarrow> AList.update k v d = d @ [(k, v)]"
  by (induction d) auto

lemma dict_of_aux:
  "dict_ok (acc @ ms) \<Longrightarrow> foldl (\<lambda>d (k, v). AList.update k v d) acc ms = acc @ ms"
proof (induction ms arbitrary: acc)
  case Nil
  then show ?case by simp
next
  case (Cons m ms)
  obtain k v where m: "m = (k, v)" by fastforce
  from Cons.prems m have "k \<notin> fst ` set acc" by auto
  then have "AList.update k v acc = acc @ [(k, v)]" by (rule update_fresh)
  moreover have "foldl (\<lambda>d (k, v). AList.update k v d) (acc @ [(k, v)]) ms = (acc @ [(k, v)]) @ ms"
    by (rule Cons.IH) (use Cons.prems m in simp)
  ultimately show ?case by (simp add: m)
qed

lemma dict_of_distinct: "dict_ok ms \<Longrightarrow> dict_of ms = ms"
  using dict_of_aux [of "[]" ms] by (simp add: dict_of_def)

text \<open>Two dictionaries with the same lookups have the same set of entries.\<close>

lemma map_of_eq_set:
  assumes "dict_ok d" "dict_ok e" "map_of d = map_of e"
  shows "set d = set e"
proof -
  have "(k, v) \<in> set d \<longleftrightarrow> (k, v) \<in> set e" for k v
    using assms by (metis map_of_eq_Some_iff)
  then show ?thesis by auto
qed

section \<open>Sorting by a key\<close>

text \<open>Sorting entries by their (distinct) keys depends only on the set of entries.\<close>

lemma sort_key_fst_unique:
  fixes d :: "('k :: linorder \<times> 'v) list"
  assumes "dict_ok d" "dict_ok e" "set d = set e"
  shows "sort_key fst d = sort_key fst e"
proof (rule map_sorted_distinct_set_unique [of fst])
  show "inj_on fst (set (sort_key fst d) \<union> set (sort_key fst e))"
    using assms by (simp add: distinct_map)
  show "distinct (map fst (sort_key fst d))" "distinct (map fst (sort_key fst e))"
    using assms by (simp_all add: distinct_map)
  show "set (sort_key fst d) = set (sort_key fst e)" using assms(3) by simp
qed simp_all

lemma dict_ok_sort_key: "dict_ok (sort_key fst d) \<longleftrightarrow> dict_ok d"
  by (simp add: distinct_map)

lemma sort_key_id_if_sorted: "sorted (map f xs) \<Longrightarrow> sort_key f xs = xs"
  by (induction xs) (auto simp: insort_is_Cons)

lemma map_of_sort_key: "dict_ok d \<Longrightarrow> map_of (sort_key fst d) = map_of d"
  by (rule map_of_inject_set [THEN iffD2]) (auto simp: distinct_map)

lemma filter_sort_key: "filter P (sort_key f xs) = sort_key f (filter P xs)"
  by (simp add: filter_sort)

section \<open>First match in a list\<close>

lemma find_append:
  "List.find P (xs @ ys) = (case List.find P xs of None \<Rightarrow> List.find P ys | Some x \<Rightarrow> Some x)"
  by (induction xs) auto

lemma find_None: "List.find P xs = None \<longleftrightarrow> (\<forall>x \<in> set xs. \<not> P x)"
  by (induction xs) auto

lemma find_SomeD: "List.find P xs = Some x \<Longrightarrow> x \<in> set xs \<and> P x"
  by (induction xs) (auto split: if_splits)

text \<open>Where a key determines the element, the first match is the match.\<close>

lemma find_unique:
  assumes "distinct (map f xs)" "x \<in> set xs" "P x" "\<And>y. y \<in> set xs \<Longrightarrow> P y \<Longrightarrow> f y = f x"
  shows "List.find P xs = Some x"
proof (cases "List.find P xs")
  case None
  with assms(2,3) show ?thesis by (auto simp: find_None)
next
  case (Some y)
  then have "y \<in> set xs" "f y = f x" using assms(4) by (auto dest: find_SomeD)
  with assms(1,2) Some show ?thesis by (auto dest: distinct_map [THEN iffD1] inj_onD)
qed

lemma find_cong_ext: "(\<And>x. x \<in> set xs \<Longrightarrow> P x = Q x) \<Longrightarrow> List.find P xs = List.find Q xs"
  by (induction xs) auto

section \<open>Text\<close>

definition digit :: "char \<Rightarrow> bool" where
  "digit c \<longleftrightarrow> 48 \<le> (of_char c :: nat) \<and> (of_char c :: nat) \<le> 57"

definition digit_char :: "nat \<Rightarrow> char" where
  "digit_char n = char_of (48 + n mod 10)"

definition digit_val :: "char \<Rightarrow> nat" where
  "digit_val c = of_char c - 48"

lemma of_char_digit_char [simp]: "of_char (digit_char n) = (48 + n mod 10 :: nat)"
proof -
  have "of_char (char_of (48 + n mod 10)) = (48 + n mod 10 :: nat)"
    by (subst of_char_of) (simp add: take_bit_nat_def)
  then show ?thesis by (simp add: digit_char_def)
qed

lemma digit_digit_char [simp]: "digit (digit_char n)"
  by (simp add: digit_def) 

lemma digit_val_digit_char [simp]: "digit_val (digit_char n) = n mod 10"
  by (simp add: digit_val_def)

text \<open>Decimal notation, as \<open>str(n)\<close> writes it and \<open>int(s)\<close> reads it.\<close>

fun show_nat :: "nat \<Rightarrow> string" where
  "show_nat n = (if n < 10 then [digit_char n] else show_nat (n div 10) @ [digit_char n])"

declare show_nat.simps [simp del]

definition show_int :: "int \<Rightarrow> string" where
  "show_int i = (if i < 0 then CHR ''-'' # show_nat (nat (- i)) else show_nat (nat i))"

definition read_nat :: "string \<Rightarrow> nat" where
  "read_nat s = foldl (\<lambda>a c. 10 * a + digit_val c) 0 s"

lemma show_nat_nonempty [simp]: "show_nat n \<noteq> []"
  by (subst show_nat.simps) simp

lemma show_nat_digits: "c \<in> set (show_nat n) \<Longrightarrow> digit c"
proof (induction n rule: show_nat.induct)
  case (1 n)
  then show ?case by (subst (asm) (2) show_nat.simps) (auto split: if_splits)
qed

lemma read_show_nat [simp]: "read_nat (show_nat n) = n"
proof (induction n rule: show_nat.induct)
  case (1 n)
  show ?case
  proof (cases "n < 10")
    case True
    then show ?thesis by (subst show_nat.simps) (simp add: read_nat_def)
  next
    case False
    then have "read_nat (show_nat (n div 10)) = n div 10" using 1 by simp
    with False show ?thesis
      by (subst show_nat.simps) (simp add: read_nat_def)
  qed
qed

lemma show_nat_inject [simp]: "show_nat m = show_nat n \<longleftrightarrow> m = n"
  by (metis read_show_nat)

text \<open>No superfluous leading zero, which the JSON grammar needs.\<close>

lemma hd_show_nat_zero: "hd (show_nat n) = digit_char 0 \<longleftrightarrow> n = 0"
proof (induction n rule: show_nat.induct)
  case (1 n)
  have inj: "digit_char m = digit_char 0 \<longleftrightarrow> m mod 10 = 0" for m
    by (metis digit_val_digit_char mod_0 digit_char_def)
  show ?case
  proof (cases "n < 10")
    case True
    then show ?thesis by (subst show_nat.simps) (simp add: inj)
  next
    case False
    with 1 have "hd (show_nat (n div 10)) = digit_char 0 \<longleftrightarrow> n div 10 = 0" by simp
    with False show ?thesis by (subst show_nat.simps) simp
  qed
qed

lemma digit_char_zero: "digit_char 0 = CHR ''0''"
  by code_simp

lemma show_nat_zero: "show_nat 0 = ''0''"
  by (simp add: show_nat.simps digit_char_zero)

lemma show_int_inject [simp]: "show_int i = show_int j \<longleftrightarrow> i = j"
proof -
  have neg: "show_nat n \<noteq> CHR ''-'' # s" for n s
    using show_nat_digits [of "CHR ''-''" n] by (auto simp: digit_def)
  show ?thesis by (auto simp: show_int_def neg neg [symmetric])
qed

end
