(* ===== verification/Json.thy ===== *)
theory Json
  imports Eventic_Prelude
begin

text \<open>
  JSON values and canonical bytes (\<open>src/eventic/jsonx.py\<close>).

  \<open>json\<close> is Python's \<open>JsonValue\<close>: a \<open>dict\<close> is an association list in insertion order, an \<open>int\<close> is
  unbounded, a \<open>float\<close> is its 64 bits (IEEE 754 binary64) and a \<open>str\<close> is its UTF-8 bytes.
  \<open>py_eq\<close> is Python's \<open>==\<close> on such values, which compares numbers by value across \<open>bool\<close>, \<open>int\<close> and
  \<open>float\<close> and dictionaries without regard to order; it is coarser than equality of canonical bytes,
  and the store uses both.  \<open>dumps\<close> is \<open>json.dumps\<close> with the arguments \<open>canonical_bytes\<close> passes,
  \<open>loads\<close> is \<open>json.loads\<close>.

  The interpreter's own number formatting and hash functions are the fields of a \<open>platform\<close>, an
  argument of every definition that uses them.
\<close>

section \<open>Values\<close>

datatype json =
    JNull
  | JBool bool
  | JInt int
  | JFloat "64 word"
  | JStr string
  | JList "json list"
  | JObj "(string \<times> json) list"

type_synonym doc = "(string \<times> json) list"

text \<open>
  What the code takes from the Python standard library: \<open>repr\<close> and \<open>float\<close> of a float, SHA-256 in
  hex, and \<open>uuid.uuid5\<close>.
\<close>

type_synonym uuid = "128 word"

record platform =
  float_repr :: "64 word \<Rightarrow> string"
  float_parse :: "string \<Rightarrow> 64 word"
  sha256_hex :: "string \<Rightarrow> string"
  uuid5 :: "uuid \<Rightarrow> string \<Rightarrow> uuid"

text \<open>
  A binary64 value from its bits: \<open>float_exp = 2047\<close> marks infinities and NaN; every other value is
  \<open>float_scaled\<close> divided by \<open>2 ^ 1075\<close>.
\<close>

definition float_exp :: "64 word \<Rightarrow> nat" where
  "float_exp w = unat w div 2 ^ 52 mod 2048"

definition float_frac :: "64 word \<Rightarrow> nat" where
  "float_frac w = unat w mod 2 ^ 52"

definition float_neg :: "64 word \<Rightarrow> bool" where
  "float_neg w \<longleftrightarrow> 2 ^ 63 \<le> unat w"

definition float_finite :: "64 word \<Rightarrow> bool" where
  "float_finite w \<longleftrightarrow> float_exp w \<noteq> 2047"

definition float_nan :: "64 word \<Rightarrow> bool" where
  "float_nan w \<longleftrightarrow> float_exp w = 2047 \<and> float_frac w \<noteq> 0"

definition float_scaled :: "64 word \<Rightarrow> int" where
  "float_scaled w =
     (if float_neg w then - 1 else 1) *
     (if float_exp w = 0 then int (float_frac w) * 2
      else int (2 ^ 52 + float_frac w) * 2 ^ float_exp w)"

text \<open>\<open>num_scaled v\<close>: the value of a finite number, times \<open>2 ^ 1075\<close>; \<open>bool\<close> is a subclass of \<open>int\<close>.\<close>

fun num_scaled :: "json \<Rightarrow> int option" where
  "num_scaled (JBool b) = Some (if b then 2 ^ 1075 else 0)"
| "num_scaled (JInt i) = Some (i * 2 ^ 1075)"
| "num_scaled (JFloat f) = (if float_finite f then Some (float_scaled f) else None)"
| "num_scaled _ = None"

definition scalar_eq :: "json \<Rightarrow> json \<Rightarrow> bool" where
  "scalar_eq v w =
     (case (num_scaled v, num_scaled w) of
        (Some a, Some b) \<Rightarrow> a = b
      | (None, None) \<Rightarrow> (case (v, w) of
            (JNull, JNull) \<Rightarrow> True
          | (JStr s, JStr t) \<Rightarrow> s = t
          | (JFloat f, JFloat g) \<Rightarrow> f = g \<and> \<not> float_nan f
          | _ \<Rightarrow> False)
      | _ \<Rightarrow> False)"

text \<open>Python's \<open>==\<close>.\<close>

primrec py_eq :: "json \<Rightarrow> json \<Rightarrow> bool" where
  "py_eq JNull = scalar_eq JNull"
| "py_eq (JBool b) = scalar_eq (JBool b)"
| "py_eq (JInt i) = scalar_eq (JInt i)"
| "py_eq (JFloat f) = scalar_eq (JFloat f)"
| "py_eq (JStr s) = scalar_eq (JStr s)"
| "py_eq (JList xs) = (\<lambda>w. case w of
      JList ys \<Rightarrow> list_all2 (\<lambda>f y. f y) (map py_eq xs) ys
    | _ \<Rightarrow> False)"
| "py_eq (JObj d) = (\<lambda>w. case w of
      JObj e \<Rightarrow> length d = length e \<and>
        list_all (\<lambda>(k, f). case map_of e k of None \<Rightarrow> False | Some v \<Rightarrow> f v)
          (map (map_prod id py_eq) d)
    | _ \<Rightarrow> False)"

text \<open>Python's truth value of a JSON value.\<close>

fun truthy :: "json \<Rightarrow> bool" where
  "truthy JNull = False"
| "truthy (JBool b) = b"
| "truthy (JInt i) = (i \<noteq> 0)"
| "truthy (JFloat f) = (num_scaled (JFloat f) \<noteq> Some 0)"
| "truthy (JStr s) = (s \<noteq> [])"
| "truthy (JList xs) = (xs \<noteq> [])"
| "truthy (JObj d) = (d \<noteq> [])"

text \<open>Every dictionary in the value has distinct keys, as every Python dictionary has.\<close>

primrec json_ok :: "json \<Rightarrow> bool" where
  "json_ok JNull = True"
| "json_ok (JBool b) = True"
| "json_ok (JInt i) = True"
| "json_ok (JFloat f) = True"
| "json_ok (JStr s) = True"
| "json_ok (JList xs) = list_all id (map json_ok xs)"
| "json_ok (JObj d) = (dict_ok d \<and> list_all snd (map (map_prod id json_ok) d))"

primrec json_finite :: "json \<Rightarrow> bool" where
  "json_finite JNull = True"
| "json_finite (JBool b) = True"
| "json_finite (JInt i) = True"
| "json_finite (JFloat f) = float_finite f"
| "json_finite (JStr s) = True"
| "json_finite (JList xs) = list_all id (map json_finite xs)"
| "json_finite (JObj d) = list_all snd (map (map_prod id json_finite) d)"

text \<open>\<open>sort_keys=True\<close>: every dictionary with its items in key order.\<close>

primrec canon :: "json \<Rightarrow> json" where
  "canon JNull = JNull"
| "canon (JBool b) = JBool b"
| "canon (JInt i) = JInt i"
| "canon (JFloat f) = JFloat f"
| "canon (JStr s) = JStr s"
| "canon (JList xs) = JList (map canon xs)"
| "canon (JObj d) = JObj (sort_key fst (map (map_prod id canon) d))"

section \<open>Writing\<close>

definition hex_digit :: "nat \<Rightarrow> char" where
  "hex_digit n = (if n < 10 then char_of (48 + n) else char_of (87 + n))"

text \<open>\<open>ensure_ascii=False\<close>: only the quote, the backslash and the control characters are escaped.\<close>

definition escape_char :: "char \<Rightarrow> string" where
  "escape_char c =
     (let n = (of_char c :: nat) in
      if c = CHR 0x22 then [CHR 0x5C, CHR 0x22]
      else if c = CHR 0x5C then [CHR 0x5C, CHR 0x5C]
      else if n = 8 then [CHR 0x5C, CHR ''b'']
      else if n = 9 then [CHR 0x5C, CHR ''t'']
      else if n = 10 then [CHR 0x5C, CHR ''n'']
      else if n = 12 then [CHR 0x5C, CHR ''f'']
      else if n = 13 then [CHR 0x5C, CHR ''r'']
      else if n < 32 then [CHR 0x5C, CHR ''u'', CHR ''0'', CHR ''0'', hex_digit (n div 16), hex_digit (n mod 16)]
      else [c])"

definition quote :: "string \<Rightarrow> string" where
  "quote s = CHR 0x22 # concat (map escape_char s) @ [CHR 0x22]"

fun join :: "string list \<Rightarrow> string" where
  "join [] = []"
| "join [s] = s"
| "join (s # t # ts) = s @ CHR '','' # join (t # ts)"

definition member_text :: "string \<times> string \<Rightarrow> string" where
  "member_text m = quote (fst m) @ CHR '':'' # snd m"

primrec dumps :: "platform \<Rightarrow> json \<Rightarrow> string" where
  "dumps P JNull = ''null''"
| "dumps P (JBool b) = (if b then ''true'' else ''false'')"
| "dumps P (JInt i) = show_int i"
| "dumps P (JFloat f) = float_repr P f"
| "dumps P (JStr s) = quote s"
| "dumps P (JList xs) = CHR ''['' # join (map (dumps P) xs) @ [CHR '']'']"
| "dumps P (JObj d) = CHR ''{'' # join (map member_text (map (map_prod id (dumps P)) d)) @ [CHR ''}'']"

section \<open>Reading\<close>

definition is_ws :: "char \<Rightarrow> bool" where
  "is_ws c \<longleftrightarrow> c \<in> {CHR '' '', CHR 0x09, CHR 0x0A, CHR 0x0D}"

definition skip_ws :: "string \<Rightarrow> string" where
  "skip_ws s = dropWhile is_ws s"

definition hex_val :: "char \<Rightarrow> nat option" where
  "hex_val c =
     (let n = (of_char c :: nat) in
      if 48 \<le> n \<and> n \<le> 57 then Some (n - 48)
      else if 97 \<le> n \<and> n \<le> 102 then Some (n - 87)
      else if 65 \<le> n \<and> n \<le> 70 then Some (n - 55)
      else None)"

definition hex4 :: "char \<Rightarrow> char \<Rightarrow> char \<Rightarrow> char \<Rightarrow> nat option" where
  "hex4 a b c d =
     (case (hex_val a, hex_val b, hex_val c, hex_val d) of
        (Some p, Some q, Some r, Some s) \<Rightarrow> Some (4096 * p + 256 * q + 16 * r + s)
      | _ \<Rightarrow> None)"

definition utf8_encode :: "nat \<Rightarrow> string" where
  "utf8_encode n =
     (if n < 128 then [char_of n]
      else if n < 2048 then [char_of (192 + n div 64), char_of (128 + n mod 64)]
      else if n < 65536 then
        [char_of (224 + n div 4096), char_of (128 + n div 64 mod 64), char_of (128 + n mod 64)]
      else
        [char_of (240 + n div 262144), char_of (128 + n div 4096 mod 64),
         char_of (128 + n div 64 mod 64), char_of (128 + n mod 64)])"

definition simple_escape :: "char \<Rightarrow> char option" where
  "simple_escape c =
     (if c = CHR 0x22 \<or> c = CHR 0x5C \<or> c = CHR ''/'' then Some c
      else if c = CHR ''b'' then Some (CHR 0x08)
      else if c = CHR ''f'' then Some (CHR 0x0C)
      else if c = CHR ''n'' then Some (CHR 0x0A)
      else if c = CHR ''r'' then Some (CHR 0x0D)
      else if c = CHR ''t'' then Some (CHR 0x09)
      else None)"

definition high_surrogate :: "nat \<Rightarrow> bool" where
  "high_surrogate n \<longleftrightarrow> 55296 \<le> n \<and> n < 56320"

definition low_surrogate :: "nat \<Rightarrow> bool" where
  "low_surrogate n \<longleftrightarrow> 56320 \<le> n \<and> n < 57344"

text \<open>The text of one \<open>\\uXXXX\<close> escape (or of a surrogate pair of them), after the \<open>u\<close>.\<close>

definition unicode_escape :: "string \<Rightarrow> (string \<times> string) option" where
  "unicode_escape s =
     (case s of
        a # b # c # d # r \<Rightarrow>
          (case hex4 a b c d of
             None \<Rightarrow> None
           | Some n \<Rightarrow>
               (case r of
                  x # y # e # f # g # h # r' \<Rightarrow>
                    (if high_surrogate n \<and> x = CHR 0x5C \<and> y = CHR ''u'' then
                       (case hex4 e f g h of
                          None \<Rightarrow> None
                        | Some m \<Rightarrow>
                            if low_surrogate m
                            then Some (utf8_encode (65536 + (n - 55296) * 1024 + (m - 56320)), r')
                            else Some (utf8_encode n, r))
                     else Some (utf8_encode n, r))
                | _ \<Rightarrow> Some (utf8_encode n, r)))
      | _ \<Rightarrow> None)"

lemma unicode_escape_shorter: "unicode_escape s = Some (t, r) \<Longrightarrow> length r < length s"
  by (auto simp: unicode_escape_def split: list.splits option.splits if_splits)

text \<open>The characters of a string literal after its opening quote, and what follows it.\<close>

function (sequential) scan_string :: "string \<Rightarrow> (string \<times> string) option" where
  "scan_string [] = None"
| "scan_string (c # s) =
     (if c = CHR 0x22 then Some ([], s)
      else if c = CHR 0x5C then
        (case s of
           [] \<Rightarrow> None
         | e # r \<Rightarrow>
             (if e = CHR ''u'' then
                (case unicode_escape r of
                   None \<Rightarrow> None
                 | Some (t, r') \<Rightarrow> map_option (map_prod ((@) t) id) (scan_string r'))
              else
                (case simple_escape e of
                   None \<Rightarrow> None
                 | Some c' \<Rightarrow> map_option (map_prod ((#) c') id) (scan_string r))))
      else if (of_char c :: nat) < 32 then None
      else map_option (map_prod ((#) c) id) (scan_string s))"
  by pat_completeness auto
termination
  by (relation "measure length") (auto dest: unicode_escape_shorter)

text \<open>
  Numbers: \<open>-?(0|[1-9][0-9]*)(\.[0-9]+)?([eE][-+]?[0-9]+)?\<close>, as the text matched, whether it has a
  fraction or an exponent, and the rest.
\<close>

definition scan_sign :: "string \<Rightarrow> string \<times> string" where
  "scan_sign s = (case s of c # r \<Rightarrow> if c = CHR ''-'' then ([c], r) else ([], s) | [] \<Rightarrow> ([], []))"

definition scan_int :: "string \<Rightarrow> (string \<times> string) option" where
  "scan_int s =
     (case s of
        [] \<Rightarrow> None
      | c # r \<Rightarrow> if c = CHR ''0'' then Some ([c], r)
                else if digit c then Some (takeWhile digit s, dropWhile digit s)
                else None)"

definition scan_frac :: "string \<Rightarrow> string \<times> string" where
  "scan_frac s =
     (case s of
        c # d # r \<Rightarrow>
          if c = CHR ''.'' \<and> digit d then (c # takeWhile digit (d # r), dropWhile digit (d # r))
          else ([], s)
      | _ \<Rightarrow> ([], s))"

definition scan_exp_sign :: "string \<Rightarrow> string \<times> string" where
  "scan_exp_sign s =
     (case s of c # r \<Rightarrow> if c = CHR ''-'' \<or> c = CHR ''+'' then ([c], r) else ([], s) | [] \<Rightarrow> ([], []))"

definition scan_exp :: "string \<Rightarrow> string \<times> string" where
  "scan_exp s =
     (case s of
        [] \<Rightarrow> ([], [])
      | c # r \<Rightarrow>
          if c = CHR ''e'' \<or> c = CHR ''E'' then
            (case scan_exp_sign r of (sg, r') \<Rightarrow>
               if takeWhile digit r' = [] then ([], s)
               else (c # sg @ takeWhile digit r', dropWhile digit r'))
          else ([], s))"

definition scan_number :: "string \<Rightarrow> (string \<times> bool \<times> string) option" where
  "scan_number s =
     (case scan_sign s of (sg, r) \<Rightarrow>
        (case scan_int r of
           None \<Rightarrow> None
         | Some (ds, r1) \<Rightarrow>
             (case scan_frac r1 of (fr, r2) \<Rightarrow>
                (case scan_exp r2 of (ex, r3) \<Rightarrow>
                   Some (sg @ ds @ fr @ ex, fr @ ex \<noteq> [], r3)))))"

definition read_int :: "string \<Rightarrow> int" where
  "read_int s = (case s of c # r \<Rightarrow> if c = CHR ''-'' then - int (read_nat r) else int (read_nat s) | [] \<Rightarrow> 0)"

definition infinity_bits :: "64 word" where "infinity_bits = 0x7FF0000000000000"
definition neg_infinity_bits :: "64 word" where "neg_infinity_bits = 0xFFF0000000000000"
definition nan_bits :: "64 word" where "nan_bits = 0x7FF8000000000000"

text \<open>Words and numbers.\<close>

definition scan_atom :: "platform \<Rightarrow> string \<Rightarrow> (json \<times> string) option" where
  "scan_atom P s =
     (if prefix ''null'' s then Some (JNull, drop 4 s)
      else if prefix ''true'' s then Some (JBool True, drop 4 s)
      else if prefix ''false'' s then Some (JBool False, drop 5 s)
      else (case scan_number s of
              Some (t, is_float, r) \<Rightarrow>
                Some (if is_float then JFloat (float_parse P t) else JInt (read_int t), r)
            | None \<Rightarrow>
                if prefix ''NaN'' s then Some (JFloat nan_bits, drop 3 s)
                else if prefix ''Infinity'' s then Some (JFloat infinity_bits, drop 8 s)
                else if prefix ''-Infinity'' s then Some (JFloat neg_infinity_bits, drop 9 s)
                else None))"

text \<open>
  A value, the elements of a non-empty list up to its bracket, the members of a non-empty object up
  to its brace.  The first argument bounds the nesting of calls; \<open>loads\<close> gives one more than the
  length of the text, and every call but the outermost reads at least one character.
\<close>

fun scan_value :: "platform \<Rightarrow> nat \<Rightarrow> string \<Rightarrow> (json \<times> string) option"
  and scan_elems :: "platform \<Rightarrow> nat \<Rightarrow> string \<Rightarrow> (json list \<times> string) option"
  and scan_members :: "platform \<Rightarrow> nat \<Rightarrow> string \<Rightarrow> (doc \<times> string) option" where
  "scan_value P 0 s = None"
| "scan_value P (Suc n) [] = None"
| "scan_value P (Suc n) (c # s) =
     (if c = CHR 0x22 then map_option (map_prod JStr id) (scan_string s)
      else if c = CHR ''['' then
        (case skip_ws s of
           [] \<Rightarrow> None
         | d # r \<Rightarrow> if d = CHR '']'' then Some (JList [], r)
                   else map_option (map_prod JList id) (scan_elems P n (d # r)))
      else if c = CHR ''{'' then
        (case skip_ws s of
           [] \<Rightarrow> None
         | d # r \<Rightarrow> if d = CHR ''}'' then Some (JObj [], r)
                   else map_option (map_prod (\<lambda>ms. JObj (dict_of ms)) id) (scan_members P n (d # r)))
      else scan_atom P (c # s))"
| "scan_elems P 0 s = None"
| "scan_elems P (Suc n) s =
     (case scan_value P n s of
        None \<Rightarrow> None
      | Some (v, r) \<Rightarrow>
          (case skip_ws r of
             [] \<Rightarrow> None
           | d # r' \<Rightarrow>
               if d = CHR '']'' then Some ([v], r')
               else if d = CHR '','' then
                 map_option (map_prod ((#) v) id) (scan_elems P n (skip_ws r'))
               else None))"
| "scan_members P 0 s = None"
| "scan_members P (Suc n) s =
     (case s of
        [] \<Rightarrow> None
      | q # s' \<Rightarrow>
          if q \<noteq> CHR 0x22 then None
          else
            (case scan_string s' of
               None \<Rightarrow> None
             | Some (k, r) \<Rightarrow>
                 (case skip_ws r of
                    [] \<Rightarrow> None
                  | d # r1 \<Rightarrow>
                      if d \<noteq> CHR '':'' then None
                      else
                        (case scan_value P n (skip_ws r1) of
                           None \<Rightarrow> None
                         | Some (v, r2) \<Rightarrow>
                             (case skip_ws r2 of
                                [] \<Rightarrow> None
                              | e # r3 \<Rightarrow>
                                  if e = CHR ''}'' then Some ([(k, v)], r3)
                                  else if e = CHR '','' then
                                    map_option (map_prod ((#) (k, v)) id)
                                      (scan_members P n (skip_ws r3))
                                  else None)))))"

text \<open>\<open>json.loads\<close>: one value, blank space around it, nothing else; \<open>None\<close> is \<open>JSONDecodeError\<close>.\<close>

definition loads :: "platform \<Rightarrow> string \<Rightarrow> json option" where
  "loads P s =
     (case scan_value P (Suc (length s)) (skip_ws s) of
        Some (v, r) \<Rightarrow> if skip_ws r = [] then Some v else None
      | None \<Rightarrow> None)"

section \<open>Canonical bytes and the digest\<close>

text \<open>
  \<open>canonical_bytes\<close> raises \<open>ValueError\<close>, here \<open>None\<close>, when the tree has an infinity or a NaN anywhere:
  at the top by its own check, deeper by \<open>allow_nan=False\<close>.
\<close>

definition canonical_bytes :: "platform \<Rightarrow> json \<Rightarrow> string option" where
  "canonical_bytes P tree =
     (if (case tree of JFloat f \<Rightarrow> \<not> float_finite f | _ \<Rightarrow> False) then None
      else if \<not> json_finite tree then None
      else Some (dumps P (canon tree)))"

definition digest :: "platform \<Rightarrow> string \<Rightarrow> string" where
  "digest P payload = sha256_hex P payload"

end
