(* ===== verification/Errors.thy ===== *)
theory Errors
  imports Eventic_Prelude
begin

text \<open>
  The exception tree of \<open>src/eventic/errors.py\<close> and the exceptions that cross it.

  \<open>eventic_error\<close> has one constructor per class of the tree; \<open>base_of\<close> gives each class's direct base
  and \<open>is_a\<close> is \<open>isinstance\<close>.  Messages are left out, and of the structured attributes only those
  of \<open>UndecodableRevision\<close> that a caller tells causes apart by are kept: the JSON pointer of a failed round
  trip and the two versions of a row that is too new.  Inside a database transaction other exceptions can
  occur: \<open>exn\<close> is one of ours, a violated table constraint (\<open>sqlalchemy.exc.IntegrityError\<close>, by the
  constraint's name), or any other Python exception.
\<close>

datatype undecodable = AtPointer string | Versions int int

datatype eventic_error =
    EventicError
  | ConfigError
  | DuplicateId
  | UnknownStream
  | UnsupportedHandler
  | IncompleteUpcasterChain
  | UsageError
  | NotFound
  | RevisionConflict
  | EncodingError
  | UndecodableRevision "undecodable option"
  | CapabilityUnsupported
  | StoreError
  | DeliveryError
  | InlineDispatchError
  | DeadLettered

fun base_of :: "eventic_error \<Rightarrow> eventic_error option" where
  "base_of EventicError = None"
| "base_of DuplicateId = Some ConfigError"
| "base_of UnknownStream = Some ConfigError"
| "base_of UnsupportedHandler = Some ConfigError"
| "base_of IncompleteUpcasterChain = Some ConfigError"
| "base_of InlineDispatchError = Some DeliveryError"
| "base_of DeadLettered = Some DeliveryError"
| "base_of _ = Some EventicError"

text \<open>The tree is three levels deep, so two steps up reach every ancestor.\<close>

definition ancestors :: "eventic_error \<Rightarrow> eventic_error list" where
  "ancestors e =
     e # (case base_of e of
            None \<Rightarrow> []
          | Some b \<Rightarrow> b # (case base_of b of None \<Rightarrow> [] | Some c \<Rightarrow> [c]))"

definition is_a :: "eventic_error \<Rightarrow> eventic_error \<Rightarrow> bool" where
  "is_a e c \<longleftrightarrow> c \<in> set (ancestors e)"

lemma every_error_is_EventicError: "is_a e EventicError"
  by (cases e) (simp_all add: is_a_def ancestors_def)

datatype py_error = ValueError | TypeError | KeyError | AttributeError | OverflowError | OtherException

text \<open>The constraints of the tables, by the names \<open>tables.py\<close> gives them.\<close>

datatype constraint =
    Ck_revision_nonneg
  | Ck_kind
  | Ck_schema_version
  | Ck_encoding
  | Ck_create_at_zero
  | Ck_stream_nonempty
  | Revision_pkey
  | Uq_revision
  | Ck_intent_queue
  | Ck_intent_status
  | Intent_pkey
  | Uq_intent_sub_rev

datatype exn = Eventic eventic_error | Integrity constraint | Python py_error

end
