(* ===== verification/Ids.thy ===== *)
theory Ids
  imports Json Errors
begin

text \<open>
  Identity primitives (\<open>src/eventic/ids.py\<close>): stream names, aggregate keys, revision ids.

  A UUID is a 128-bit word; \<open>uuid_str\<close> is \<open>str(uuid)\<close> and \<open>uuid_of_str\<close> is \<open>UUID(text)\<close>.  The hash
  inside \<open>uuid.uuid5\<close> is a field of the platform, so what is proved here is about the name that is
  hashed: different aggregates and revisions hash different names.
\<close>

section \<open>UUIDs\<close>

definition NS :: uuid where
  "NS = 0x6ba7b8109dad11d180b400c04fd430c8"

definition hex_lower :: "nat \<Rightarrow> char" where
  "hex_lower n = (if n mod 16 < 10 then char_of (48 + n mod 16) else char_of (87 + n mod 16))"

text \<open>\<open>hex_width w n\<close>: the last \<open>w\<close> hexadecimal digits of \<open>n\<close>.\<close>

primrec hex_width :: "nat \<Rightarrow> nat \<Rightarrow> string" where
  "hex_width 0 n = []"
| "hex_width (Suc w) n = hex_width w (n div 16) @ [hex_lower n]"

definition uuid_hex :: "uuid \<Rightarrow> string" where
  "uuid_hex u = hex_width 32 (unat u)"

definition uuid_str :: "uuid \<Rightarrow> string" where
  "uuid_str u =
     (let h = uuid_hex u in
      take 8 h @ ''-'' @ take 4 (drop 8 h) @ ''-'' @ take 4 (drop 12 h) @ ''-'' @
      take 4 (drop 16 h) @ ''-'' @ drop 20 h)"

text \<open>
  \<open>UUID(text)\<close> drops \<open>urn:\<close> and \<open>uuid:\<close>, braces at the ends and hyphens, wants 32 characters and reads them with
  \<open>int(text, 16)\<close>, which allows blanks around, a sign, \<open>0x\<close> and single underscores.  Blanks and digits
  outside ASCII are refused here.
\<close>

primrec drop_all :: "string \<Rightarrow> nat \<Rightarrow> string \<Rightarrow> string" where
  "drop_all p k [] = []"
| "drop_all p k (c # s) =
     (if 0 < k then drop_all p (k - 1) s
      else if take (length p) (c # s) = p then drop_all p (length p - 1) s
      else c # drop_all p 0 s)"

definition strip_chars :: "(char \<Rightarrow> bool) \<Rightarrow> string \<Rightarrow> string" where
  "strip_chars f s = rev (dropWhile f (rev (dropWhile f s)))"

definition is_blank :: "char \<Rightarrow> bool" where
  "is_blank c \<longleftrightarrow> c = CHR '' '' \<or> (9 \<le> (of_char c :: nat) \<and> (of_char c :: nat) \<le> 13) \<or>
     (28 \<le> (of_char c :: nat) \<and> (of_char c :: nat) \<le> 31)"

fun read_hex :: "nat \<Rightarrow> string \<Rightarrow> nat option" where
  "read_hex a [] = Some a"
| "read_hex a (c # s) =
     (if c = CHR ''_'' then
        (case s of [] \<Rightarrow> None | d # _ \<Rightarrow> if hex_val d = None then None else read_hex a s)
      else (case hex_val c of None \<Rightarrow> None | Some v \<Rightarrow> read_hex (16 * a + v) s))"

definition int_base16 :: "string \<Rightarrow> nat option" where
  "int_base16 text =
     (let s = strip_chars is_blank text;
          s = (case s of c # r \<Rightarrow> if c = CHR ''+'' then r else s | [] \<Rightarrow> s);
          s = (case s of
                 c # x # r \<Rightarrow>
                   if c = CHR ''0'' \<and> (x = CHR ''x'' \<or> x = CHR ''X'')
                   then (case r of u # r' \<Rightarrow> if u = CHR ''_'' then r' else r | [] \<Rightarrow> r)
                   else s
               | _ \<Rightarrow> s)
      in case s of [] \<Rightarrow> None | c # _ \<Rightarrow> if c = CHR ''_'' then None else read_hex 0 s)"

definition uuid_of_str :: "string \<Rightarrow> uuid option" where
  "uuid_of_str s =
     (let h = filter (\<lambda>c. c \<noteq> CHR ''-'')
            (strip_chars (\<lambda>c. c = CHR ''{'' \<or> c = CHR ''}'') (drop_all ''uuid:'' 0 (drop_all ''urn:'' 0 s))) in
      if length h = 32 then map_option of_nat (int_base16 h) else None)"

section \<open>Stream names\<close>

definition name_first :: "char \<Rightarrow> bool" where
  "name_first c \<longleftrightarrow> digit c \<or> (97 \<le> (of_char c :: nat) \<and> (of_char c :: nat) \<le> 122)"

definition name_rest :: "char \<Rightarrow> bool" where
  "name_rest c \<longleftrightarrow> name_first c \<or> c = CHR ''_'' \<or> c = CHR ''.'' \<or> c = CHR ''-''"

text \<open>The set \<open>[a-z0-9][a-z0-9_.-]{0,63}\<close> the error message names.\<close>

definition name_shape :: "string \<Rightarrow> bool" where
  "name_shape s =
     (case s of [] \<Rightarrow> False | c # r \<Rightarrow> name_first c \<and> list_all name_rest r \<and> length r \<le> 63)"

text \<open>
  \<open>_STREAM_NAME_RE.match(value)\<close>: the pattern ends in \<open>$\<close>, which in Python matches at the end of the
  text and also before a newline that ends it.
\<close>

definition stream_name_re_match :: "string \<Rightarrow> bool" where
  "stream_name_re_match s \<longleftrightarrow>
     name_shape s \<or> (s \<noteq> [] \<and> last s = CHR 0x0A \<and> name_shape (butlast s))"

definition validate_stream_name :: "string \<Rightarrow> py_error + string" where
  "validate_stream_name value = (if stream_name_re_match value then Inr value else Inl ValueError)"

section \<open>Aggregate keys and revision ids\<close>

datatype aggregate_key = AggregateKey (ak_stream: string) (ak_id: uuid)

text \<open>The constructor validates the name.\<close>

definition make_aggregate_key :: "string \<Rightarrow> uuid \<Rightarrow> py_error + aggregate_key" where
  "make_aggregate_key stream aggregate_id =
     rbind (validate_stream_name stream) (\<lambda>s. Inr (AggregateKey s aggregate_id))"

text \<open>The name that \<open>revision_id\<close> hashes: \<open>f"{stream}:{aggregate_id}:{revision}"\<close>.\<close>

definition revision_name :: "string \<Rightarrow> uuid \<Rightarrow> int \<Rightarrow> string" where
  "revision_name stream aggregate_id revision =
     stream @ '':'' @ uuid_str aggregate_id @ '':'' @ show_int revision"

definition revision_id :: "platform \<Rightarrow> string \<Rightarrow> uuid \<Rightarrow> int \<Rightarrow> uuid" where
  "revision_id P stream aggregate_id revision = uuid5 P NS (revision_name stream aggregate_id revision)"

section \<open>Facts\<close>

instantiation aggregate_key :: linorder
begin

definition less_eq_aggregate_key :: "aggregate_key \<Rightarrow> aggregate_key \<Rightarrow> bool" where
  "less_eq_aggregate_key a b \<longleftrightarrow> (ak_stream a, ak_id a) \<le> (ak_stream b, ak_id b)"

definition less_aggregate_key :: "aggregate_key \<Rightarrow> aggregate_key \<Rightarrow> bool" where
  "less_aggregate_key a b \<longleftrightarrow> (ak_stream a, ak_id a) < (ak_stream b, ak_id b)"

instance
proof
  fix a b c :: aggregate_key
  show "(a < b) = (a \<le> b \<and> \<not> b \<le> a)"
    unfolding less_eq_aggregate_key_def less_aggregate_key_def by (rule less_le_not_le)
  show "a \<le> a" by (simp add: less_eq_aggregate_key_def)
  show "a \<le> c" if "a \<le> b" "b \<le> c"
    using that unfolding less_eq_aggregate_key_def by (rule order_trans)
  show "a = b" if "a \<le> b" "b \<le> a"
    using order_antisym [OF that [unfolded less_eq_aggregate_key_def]]
    by (cases a; cases b) simp
  show "a \<le> b \<or> b \<le> a" unfolding less_eq_aggregate_key_def by (rule linear)
qed

end

lemma hex_lower_val: "hex_val (hex_lower n) = Some (n mod 16)"
proof -
  have "(of_char (hex_lower n) :: nat) = (if n mod 16 < 10 then 48 + n mod 16 else 87 + n mod 16)"
    by (auto simp: hex_lower_def of_char_of take_bit_nat_def)
  then show ?thesis by (auto simp: hex_val_def Let_def)
qed

lemma length_hex_width [simp]: "length (hex_width w n) = w"
  by (induction w arbitrary: n) auto

lemma hex_width_hex: "c \<in> set (hex_width w n) \<Longrightarrow> hex_val c \<noteq> None"
  by (induction w arbitrary: n) (auto simp: hex_lower_val)

lemma read_hex_width:
  "foldl (\<lambda>a c. 16 * a + the (hex_val c)) 0 (hex_width w n) = n mod 16 ^ w"
proof (induction w arbitrary: n)
  case (Suc w)
  have "n mod 16 ^ Suc w = 16 * (n div 16 mod 16 ^ w) + n mod 16"
    using mod_mult2_eq [of n 16 "16 ^ w"] by simp
  with Suc show ?case by (simp add: hex_lower_val)
qed simp

lemma hex_not_dash: "hex_val c \<noteq> None \<Longrightarrow> c \<noteq> CHR ''-'' \<and> c \<noteq> CHR '':''"
  by (auto simp: hex_val_def)

lemma filter_dash_hex: "list_all (\<lambda>c. hex_val c \<noteq> None) s \<Longrightarrow> filter (\<lambda>c. c \<noteq> CHR ''-'') s = s"
  by (induction s) (use hex_not_dash in auto)

lemma uuid_str_hex: "filter (\<lambda>c. c \<noteq> CHR ''-'') (uuid_str u) = uuid_hex u"
proof -
  let ?h = "uuid_hex u"
  have all: "list_all (\<lambda>c. hex_val c \<noteq> None) ?h"
    unfolding uuid_hex_def using hex_width_hex by (auto simp: list_all_iff)
  have part: "filter (\<lambda>c. c \<noteq> CHR ''-'') (take n (drop m ?h)) = take n (drop m ?h)" for n m
    by (rule filter_dash_hex) (use all in \<open>auto simp: list_all_iff dest!: in_set_takeD in_set_dropD\<close>)
  have rest: "filter (\<lambda>c. c \<noteq> CHR ''-'') (drop m ?h) = drop m ?h" for m
    by (rule filter_dash_hex) (use all in \<open>auto simp: list_all_iff dest!: in_set_dropD\<close>)
  have "filter (\<lambda>c. c \<noteq> CHR ''-'') (uuid_str u) =
      take 8 ?h @ take 4 (drop 8 ?h) @ take 4 (drop 12 ?h) @ take 4 (drop 16 ?h) @ drop 20 ?h"
    using part [of 8 0] by (simp add: uuid_str_def Let_def part rest)
  also have "\<dots> = ?h"
  proof -
    have "take n (drop m ?h) @ drop (n + m) ?h = drop m ?h" for n m
      by (metis append_take_drop_id drop_drop)
    from this [of 4 16] this [of 4 12] this [of 4 8] this [of 8 0] show ?thesis by simp
  qed
  finally show ?thesis .
qed

lemma uuid_str_no_colon: "CHR '':'' \<notin> set (uuid_str u)"
proof -
  have "CHR '':'' \<notin> set (uuid_hex u)"
    unfolding uuid_hex_def using hex_width_hex hex_not_dash by blast
  then show ?thesis
    by (auto simp: uuid_str_def Let_def dest!: in_set_takeD in_set_dropD)
qed

lemma drop_all_absent:
  assumes "c \<in> set p" "c \<notin> set s"
  shows "drop_all p 0 s = s"
  using assms(2)
proof (induction s)
  case (Cons d s)
  have "take (length p) (d # s) \<noteq> p"
    using assms(1) Cons.prems by (metis in_set_takeD)
  with Cons show ?case by simp
qed simp

lemma strip_chars_absent:
  assumes "\<forall>c \<in> set s. \<not> f c" shows "strip_chars f s = s"
proof -
  have keep: "dropWhile f t = t" if "set t = set s" for t
    using assms that by (cases t) auto
  show ?thesis using keep [of s] keep [of "rev s"] by (simp add: strip_chars_def)
qed

lemma hex_not_special:
  "hex_val c \<noteq> None \<Longrightarrow> \<not> is_blank c \<and> c \<noteq> CHR ''+'' \<and> c \<noteq> CHR ''_'' \<and> c \<noteq> CHR ''x'' \<and> c \<noteq> CHR ''X'' \<and>
     c \<noteq> CHR ''{'' \<and> c \<noteq> CHR ''}''"
  by (auto simp: hex_val_def is_blank_def Let_def split: if_splits)

lemma read_hex_digits:
  "list_all (\<lambda>c. hex_val c \<noteq> None) s \<Longrightarrow> read_hex a s = Some (foldl (\<lambda>a c. 16 * a + the (hex_val c)) a s)"
  by (induction s arbitrary: a) (use hex_not_special in auto)

lemma int_base16_digits:
  assumes "list_all (\<lambda>c. hex_val c \<noteq> None) s" "s \<noteq> []"
  shows "int_base16 s = Some (foldl (\<lambda>a c. 16 * a + the (hex_val c)) 0 s)"
proof -
  obtain c r where s: "s = c # r" using assms(2) by (cases s) simp_all
  have not: "\<not> is_blank d" "d \<noteq> CHR ''+''" "d \<noteq> CHR ''_''" "d \<noteq> CHR ''x''" "d \<noteq> CHR ''X''" if "d \<in> set s" for d
    using hex_not_special [of d] assms(1) that by (simp_all add: list_all_iff)
  have "strip_chars is_blank s = s" by (rule strip_chars_absent) (use not in blast)
  with not s show ?thesis
    unfolding int_base16_def read_hex_digits [OF assms(1), symmetric]
    by (cases r) (simp_all add: Let_def)
qed

lemma uuid_of_str_inverse [simp]: "uuid_of_str (uuid_str u) = Some u"
proof -
  have all: "list_all (\<lambda>c. hex_val c \<noteq> None) (uuid_hex u)"
    unfolding uuid_hex_def using hex_width_hex by (auto simp: list_all_iff)
  have len: "length (uuid_hex u) = 32" by (simp add: uuid_hex_def)
  then have "uuid_hex u \<noteq> []" by auto
  from int_base16_digits [OF all this]
  have "int_base16 (uuid_hex u) = Some (unat u)"
    using unsigned_less [of u, where ?'a = nat] by (simp add: uuid_hex_def read_hex_width)
  moreover have "drop_all ''uuid:'' 0 (drop_all ''urn:'' 0 (uuid_str u)) = uuid_str u"
    using uuid_str_no_colon [of u] by (simp add: drop_all_absent [where c = "CHR '':''"])
  moreover have "strip_chars (\<lambda>c. c = CHR ''{'' \<or> c = CHR ''}'') (uuid_str u) = uuid_str u"
  proof (rule strip_chars_absent)
    have "c = CHR ''-'' \<or> hex_val c \<noteq> None" if "c \<in> set (uuid_str u)" for c
    proof -
      have "c = CHR ''-'' \<or> c \<in> set (uuid_hex u)"
        using that by (auto simp: uuid_str_def Let_def dest!: in_set_takeD in_set_dropD)
      with all show ?thesis by (auto simp: list_all_iff)
    qed
    with hex_not_special show "\<forall>c \<in> set (uuid_str u). \<not> (c = CHR ''{'' \<or> c = CHR ''}'')" by fastforce
  qed
  ultimately show ?thesis
    by (simp add: uuid_of_str_def uuid_str_hex Let_def len)
qed

lemma uuid_str_inject [simp]: "uuid_str u = uuid_str v \<longleftrightarrow> u = v"
  by (metis option.inject uuid_of_str_inverse)

lemma name_shape_no_colon: "name_shape s \<Longrightarrow> CHR '':'' \<notin> set s"
  by (cases s) (auto simp: name_shape_def name_first_def name_rest_def digit_def list_all_iff)

lemma valid_name_no_colon:
  assumes "validate_stream_name s = Inr t" shows "CHR '':'' \<notin> set s"
proof (cases "name_shape s")
  case False
  with assms have "s \<noteq> []" "last s = CHR 0x0A" "name_shape (butlast s)"
    by (auto simp: validate_stream_name_def stream_name_re_match_def split: if_splits)
  then obtain r where "s = r @ [CHR 0x0A]" "name_shape r"
    by (metis append_butlast_last_id)
  then show ?thesis using name_shape_no_colon [of r] by auto
qed (rule name_shape_no_colon)

lemma split_at_colon:
  assumes "CHR '':'' \<notin> set a" "CHR '':'' \<notin> set b" "a @ CHR '':'' # s = b @ CHR '':'' # t"
  shows "a = b \<and> s = t"
  using assms
proof (induction a arbitrary: b)
  case Nil
  then show ?case by (cases b) auto
next
  case (Cons c a)
  then show ?case by (cases b) auto
qed

text \<open>Distinct revisions of valid streams hash distinct names.\<close>

lemma revision_name_inject:
  assumes "validate_stream_name s = Inr s'" "validate_stream_name t = Inr t'"
  shows "revision_name s a n = revision_name t b m \<longleftrightarrow> s = t \<and> a = b \<and> n = m"
proof
  assume eq: "revision_name s a n = revision_name t b m"
  from split_at_colon [OF valid_name_no_colon [OF assms(1)] valid_name_no_colon [OF assms(2)]] eq
  have "s = t" and r: "uuid_str a @ CHR '':'' # show_int n = uuid_str b @ CHR '':'' # show_int m"
    unfolding revision_name_def by fastforce+
  with split_at_colon [OF uuid_str_no_colon uuid_str_no_colon r]
  show "s = t \<and> a = b \<and> n = m" by simp
qed simp

end
