(* ===== verification/Wire.thy ===== *)
theory Wire
  imports Ids
begin

text \<open>
  The values that cross the store boundary (\<open>src/eventic/wire.py\<close>) and the page envelope
  (\<open>src/eventic/envelopes.py\<close>).

  Payload and metadata of a request are canonical bytes; those of a stored revision are documents.
  Kinds, statuses and encoding ids are strings, as in the code, where only the tables' check
  constraints restrict them.  Time is in microseconds since the epoch, UTC.
\<close>

type_synonym time = int

record intent_request =
  ir_subscription_id :: string
  ir_revision_id :: uuid
  ir_queue :: string

record commit_request =
  cq_stream :: string
  cq_aggregate_id :: uuid
  cq_expected_revision :: "int option"
  cq_kind :: string
  cq_schema_version :: int
  cq_payload :: string
  cq_digest :: string
  cq_meta :: string
  cq_meta_version :: int
  cq_fingerprint :: string
  cq_intents :: "intent_request list"

record commit_result =
  cr_stream :: string
  cr_aggregate_id :: uuid
  cr_revision :: int
  cr_revision_id :: uuid
  cr_committed_at :: time
  cr_replayed :: bool

record stored_revision =
  sr_stream :: string
  sr_aggregate_id :: uuid
  sr_revision :: int
  sr_revision_id :: uuid
  sr_kind :: string
  sr_schema_version :: int
  sr_meta_version :: int
  sr_encoding :: string
  sr_payload :: json
  sr_digest :: string
  sr_meta :: json
  sr_committed_at :: time

record claimed_intent =
  ci_intent_id :: uuid
  ci_subscription_id :: string
  ci_revision_id :: uuid
  ci_queue :: string
  ci_attempts :: int
  ci_stream :: string
  ci_aggregate_id :: "uuid option"
  ci_revision :: int

record settlement =
  st_intent_id :: uuid
  st_status :: string
  st_available_at :: "time option"
  st_error :: "string option"

record 'x page =
  pg_items :: "'x list"
  pg_cursor :: "string option"

end
