(* ===== verification/Json_Facts.thy ===== *)
theory Json_Facts
  imports Json
begin

text \<open>
  Facts about JSON values: \<open>==\<close> at each constructor, the canonical form, and the reader's inverse of
  the writer, \<open>loads (dumps v) = v\<close>, from which canonical bytes determine the canonical value.
\<close>

section \<open>Induction and the nested recursions\<close>

lemma json_induct [case_names Null Bool Int Float Str List Obj]:
  assumes "P JNull" "\<And>b. P (JBool b)" "\<And>i. P (JInt i)" "\<And>f. P (JFloat f)" "\<And>s. P (JStr s)"
    and "\<And>xs. (\<And>x. x \<in> set xs \<Longrightarrow> P x) \<Longrightarrow> P (JList xs)"
    and "\<And>d. (\<And>k v. (k, v) \<in> set d \<Longrightarrow> P v) \<Longrightarrow> P (JObj d)"
  shows "P v"
proof (induction v)
  case (JObj d)
  show ?case by (rule assms(7)) (use JObj in force)
qed (use assms in auto)

lemma keys_map_prod [simp]: "keys (map (map_prod id f) d) = keys d"
  by (simp add: comp_def)

lemma map_of_map_prod: "map_of (map (map_prod id f) d) k = map_option f (map_of d k)"
  by (induction d) auto

lemma json_ok_simps [simp]:
  "json_ok (JList xs) \<longleftrightarrow> (\<forall>x \<in> set xs. json_ok x)"
  "json_ok (JObj d) \<longleftrightarrow> dict_ok d \<and> (\<forall>(k, v) \<in> set d. json_ok v)"
  by (auto simp: list_all_iff)

lemma json_finite_simps [simp]:
  "json_finite (JList xs) \<longleftrightarrow> (\<forall>x \<in> set xs. json_finite x)"
  "json_finite (JObj d) \<longleftrightarrow> (\<forall>(k, v) \<in> set d. json_finite v)"
  by (auto simp: list_all_iff)

declare json_ok.simps(6,7) [simp del] json_finite.simps(6,7) [simp del]

lemma json_member:
  "json_ok (JObj d) \<Longrightarrow> (k, v) \<in> set d \<Longrightarrow> json_ok v"
  "json_finite (JObj d) \<Longrightarrow> (k, v) \<in> set d \<Longrightarrow> json_finite v"
  by auto

lemma json_lookup:
  "json_ok (JObj d) \<Longrightarrow> map_of d k = Some v \<Longrightarrow> json_ok v"
  "json_finite (JObj d) \<Longrightarrow> map_of d k = Some v \<Longrightarrow> json_finite v"
  by (auto dest!: map_of_SomeD)

section \<open>Python's equality\<close>

lemma py_eq_list: "py_eq (JList xs) (JList ys) \<longleftrightarrow> list_all2 py_eq xs ys"
  by (simp add: list_all2_map1)

lemma py_eq_obj:
  "py_eq (JObj d) (JObj e) \<longleftrightarrow>
     length d = length e \<and> (\<forall>(k, v) \<in> set d. \<exists>w. map_of e k = Some w \<and> py_eq v w)"
  by (fastforce simp: list_all_iff split: option.splits)

declare py_eq.simps(6,7) [simp del]

lemmas py_eq_simps = py_eq.simps(1-5) py_eq_list py_eq_obj scalar_eq_def

lemma scalar_eq_refl: "json_finite v \<Longrightarrow> (case v of JList _ \<Rightarrow> False | JObj _ \<Rightarrow> False | _ \<Rightarrow> True) \<Longrightarrow> scalar_eq v v"
  by (cases v) (auto simp: scalar_eq_def)

text \<open>A value without NaN equals itself.\<close>

lemma py_eq_refl: "json_ok v \<Longrightarrow> json_finite v \<Longrightarrow> py_eq v v"
proof (induction v rule: json_induct)
  case (List xs)
  then show ?case by (auto simp: py_eq_list list_all2_same)
next
  case (Obj d)
  have "\<exists>w. map_of d k = Some w \<and> py_eq v w" if "(k, v) \<in> set d" for k v
    using Obj.IH [OF that] json_member [OF _ that] Obj.prems that by auto
  then show ?case by (auto simp: py_eq_obj)
qed (auto simp: scalar_eq_refl)

text \<open>\<open>==\<close> does not separate \<open>1\<close>, \<open>1.0\<close> and \<open>True\<close>, nor \<open>0.0\<close> and \<open>-0.0\<close>.\<close>

lemma py_eq_one_true: "py_eq (JInt 1) (JBool True)"
  by (simp add: scalar_eq_def)

lemma py_eq_one_float: "py_eq (JInt 1) (JFloat 0x3FF0000000000000)"
proof -
  have "float_exp 0x3FF0000000000000 = 1023" "float_frac 0x3FF0000000000000 = 0"
    "\<not> float_neg 0x3FF0000000000000"
    by (simp_all add: float_exp_def float_frac_def float_neg_def)
  then show ?thesis
    by (simp add: scalar_eq_def float_finite_def float_scaled_def)
qed

lemma py_eq_zero_neg_zero: "py_eq (JFloat 0) (JFloat 0x8000000000000000)"
proof -
  have "float_exp 0 = 0" "float_frac 0 = 0" "float_exp 0x8000000000000000 = 0"
    "float_frac 0x8000000000000000 = 0"
    by (simp_all add: float_exp_def float_frac_def)
  then show ?thesis
    by (simp add: scalar_eq_def float_finite_def float_scaled_def)
qed

section \<open>The canonical form\<close>

lemma canon_obj: "canon (JObj d) = JObj (sort_key fst (map (map_prod id canon) d))"
  by simp

lemma set_canon_obj: "set (sort_key fst (map (map_prod id canon) d)) = map_prod id canon ` set d"
  by simp

lemma json_finite_canon [simp]: "json_finite (canon v) = json_finite v"
  by (induction v rule: json_induct) (force simp: split_beta)+

lemma json_ok_canon [simp]: "json_ok v \<Longrightarrow> json_ok (canon v)"
proof (induction v rule: json_induct)
  case (Obj d)
  then have "dict_ok (sort_key fst (map (map_prod id canon) d))"
    by (simp add: dict_ok_sort_key comp_def)
  moreover have "json_ok (canon v)" if "(k, v) \<in> set d" for k v
    using that Obj by auto
  ultimately show ?case by auto
qed auto

lemma canon_idem [simp]: "canon (canon v) = canon v"
proof (induction v rule: json_induct)
  case (Obj d)
  let ?e = "sort_key fst (map (map_prod id canon) d)"
  have same: "map_prod id canon m = m" if "m \<in> set ?e" for m
    using that Obj by auto
  have e: "map (map_prod id canon) ?e = ?e"
    by (rule map_idI) (rule same)
  have "canon (JObj ?e) = JObj (sort_key fst ?e)"
    by (subst canon_obj) (simp only: e)
  then show ?case by (simp only: canon_obj sort_key_id_if_sorted [OF sorted_sort_key])
qed auto

text \<open>Objects with equal canonical values under every key have equal canonical forms.\<close>

lemma canon_obj_eqI:
  assumes "dict_ok d" "dict_ok e"
    and "\<And>k. map_option canon (map_of d k) = map_option canon (map_of e k)"
  shows "canon (JObj d) = canon (JObj e)"
proof -
  let ?m = "map (map_prod id canon)"
  have "dict_ok (?m d)" "dict_ok (?m e)" using assms(1,2) by (simp_all add: comp_def)
  moreover have "map_of (?m d) = map_of (?m e)"
    using assms(3) by (auto simp: fun_eq_iff map_of_map_prod)
  ultimately show ?thesis
    by (simp only: canon_obj json.inject) (intro sort_key_fst_unique map_of_eq_set)
qed

lemma canon_obj_eqD:
  assumes "dict_ok d" "dict_ok e" "canon (JObj d) = canon (JObj e)"
  shows "map_option canon (map_of d k) = map_option canon (map_of e k)"
proof -
  let ?m = "map (map_prod id canon)"
  have "dict_ok (?m d)" "dict_ok (?m e)" using assms(1,2) by (simp_all add: comp_def)
  then have d: "map_of (sort_key fst (?m d)) = map_of (?m d)"
    and e: "map_of (sort_key fst (?m e)) = map_of (?m e)"
    by (simp_all only: map_of_sort_key)
  have "sort_key fst (?m d) = sort_key fst (?m e)"
    using assms(3) by (simp only: canon_obj json.inject)
  with d e have "map_of (?m d) k = map_of (?m e) k" by simp
  then show ?thesis by (simp only: map_of_map_prod)
qed

section \<open>The reader inverts the writer\<close>

text \<open>
  What Python documents of floats: the text \<open>repr\<close> writes is a JSON number with a fraction or an
  exponent, and \<open>float\<close> reads it back to the same value.
\<close>

definition float_codec :: "platform \<Rightarrow> bool" where
  "float_codec P \<longleftrightarrow>
     (\<forall>f. float_finite f \<longrightarrow>
        scan_number (float_repr P f) = Some (float_repr P f, True, []) \<and>
        float_parse P (float_repr P f) = f)"

subsection \<open>Strings\<close>

lemma hex_val_hex_digit: "n < 16 \<Longrightarrow> hex_val (hex_digit n) = Some n"
proof -
  assume n: "n < 16"
  have "(of_char (hex_digit n) :: nat) = (if n < 10 then 48 + n else 87 + n)"
    using n by (auto simp: hex_digit_def of_char_of take_bit_nat_def)
  with n show ?thesis by (auto simp: hex_val_def Let_def)
qed

lemma hex_val_zero: "hex_val (CHR ''0'') = Some 0"
  by (simp add: hex_val_def)

lemma unicode_escape_control:
  assumes "n < 32"
  shows "unicode_escape (CHR ''0'' # CHR ''0'' # hex_digit (n div 16) # hex_digit (n mod 16) # t)
    = Some ([char_of n], t)"
proof -
  have "hex4 (CHR ''0'') (CHR ''0'') (hex_digit (n div 16)) (hex_digit (n mod 16)) = Some n"
    using assms by (simp add: hex4_def hex_val_zero hex_val_hex_digit)
  moreover have "\<not> high_surrogate n" using assms by (simp add: high_surrogate_def)
  moreover have "utf8_encode n = [char_of n]" using assms by (simp add: utf8_encode_def)
  ultimately show ?thesis by (auto simp: unicode_escape_def split: list.split)
qed

lemma char_eq_by_code: "(of_char c :: nat) = of_char d \<Longrightarrow> c = d"
  by simp

lemma scan_escape_char:
  "scan_string (escape_char c @ t) = map_option (map_prod ((#) c) id) (scan_string t)"
proof -
  let ?n = "of_char c :: nat"
  have named: "?n = 8 \<Longrightarrow> c = CHR 0x08" "?n = 9 \<Longrightarrow> c = CHR 0x09" "?n = 10 \<Longrightarrow> c = CHR 0x0A"
    "?n = 12 \<Longrightarrow> c = CHR 0x0C" "?n = 13 \<Longrightarrow> c = CHR 0x0D"
    by (auto intro: char_eq_by_code)
  consider "c = CHR 0x22" | "c = CHR 0x5C" | "?n \<in> {8, 9, 10, 12, 13}"
    | "c \<noteq> CHR 0x22" "c \<noteq> CHR 0x5C" "?n \<notin> {8, 9, 10, 12, 13}" "?n < 32"
    | "c \<noteq> CHR 0x22" "c \<noteq> CHR 0x5C" "?n \<ge> 32"
    by fastforce
  then show ?thesis
  proof cases
    case 3
    then have "c \<in> {CHR 0x08, CHR 0x09, CHR 0x0A, CHR 0x0C, CHR 0x0D}" using named by auto
    then show ?thesis by (auto simp: escape_char_def simple_escape_def)
  next
    case 4
    have u: "unicode_escape (CHR ''0'' # CHR ''0'' # hex_digit (?n div 16) # hex_digit (?n mod 16) # t)
      = Some ([c], t)"
      using unicode_escape_control [OF 4(4)] by simp
    have "escape_char c = [CHR 0x5C, CHR ''u'', CHR ''0'', CHR ''0'', hex_digit (?n div 16), hex_digit (?n mod 16)]"
      using 4 by (simp add: escape_char_def Let_def)
    then have "scan_string (escape_char c @ t) = map_option (map_prod ((@) [c]) id) (scan_string t)"
      using u by simp
    moreover have "(@) [c] = (#) c" by (simp add: fun_eq_iff)
    ultimately show ?thesis by simp
  next
    case 5
    then have "escape_char c = [c]" by (auto simp: escape_char_def Let_def)
    with 5 show ?thesis by simp
  qed (simp_all add: escape_char_def simple_escape_def)
qed

lemma scan_quote: "scan_string (concat (map escape_char s) @ CHR 0x22 # r) = Some (s, r)"
proof (induction s)
  case (Cons c s)
  then show ?case by (simp add: scan_escape_char del: scan_string.simps)
qed simp

subsection \<open>Numbers\<close>

text \<open>What may follow a number in a document.\<close>

definition num_stop :: "string \<Rightarrow> bool" where
  "num_stop r \<longleftrightarrow> (r = [] \<or> hd r \<in> {CHR '','', CHR '']'', CHR ''}''})"

lemma num_stop_simps [simp]:
  "num_stop []" "num_stop (CHR '','' # r)" "num_stop (CHR '']'' # r)" "num_stop (CHR ''}'' # r)"
  by (simp_all add: num_stop_def)

lemma num_stop_not_digit: "num_stop r \<Longrightarrow> r = [] \<or> \<not> digit (hd r)"
  by (auto simp: num_stop_def digit_def)

lemma takeWhile_stop: "num_stop r \<Longrightarrow> takeWhile digit (s @ r) = takeWhile digit s"
  using num_stop_not_digit [of r] by (induction s) (cases r; auto)+

lemma dropWhile_stop: "num_stop r \<Longrightarrow> dropWhile digit (s @ r) = dropWhile digit s @ r"
  using num_stop_not_digit [of r] by (induction s) (cases r; auto)+

lemma scan_sign_append: "s \<noteq> [] \<Longrightarrow> scan_sign (s @ r) = (fst (scan_sign s), snd (scan_sign s) @ r)"
  by (cases s) (auto simp: scan_sign_def)

lemma scan_int_append:
  "num_stop r \<Longrightarrow> scan_int s = Some (t, u) \<Longrightarrow> scan_int (s @ r) = Some (t, u @ r)"
  using takeWhile_stop [of r s] dropWhile_stop [of r s]
  by (cases s) (auto simp: scan_int_def split: if_splits)

lemma scan_frac_append:
  assumes "num_stop r" shows "scan_frac (s @ r) = (fst (scan_frac s), snd (scan_frac s) @ r)"
proof (cases s)
  case Nil
  then show ?thesis using assms by (cases r) (auto simp: scan_frac_def num_stop_def split: list.split)
next
  case (Cons c s')
  show ?thesis
  proof (cases s')
    case Nil
    then show ?thesis using assms Cons num_stop_not_digit [OF assms]
      by (cases r) (auto simp: scan_frac_def)
  next
    case (Cons d s'')
    then show ?thesis
      using \<open>s = c # s'\<close> takeWhile_stop [OF assms, of s''] dropWhile_stop [OF assms, of s'']
      by (auto simp: scan_frac_def)
  qed
qed

lemma scan_exp_sign_append:
  "num_stop r \<Longrightarrow> scan_exp_sign (s @ r) = (fst (scan_exp_sign s), snd (scan_exp_sign s) @ r)"
  by (cases s; cases r) (auto simp: scan_exp_sign_def num_stop_def)

lemma scan_exp_append:
  assumes "num_stop r" shows "scan_exp (s @ r) = (fst (scan_exp s), snd (scan_exp s) @ r)"
proof (cases s)
  case Nil
  then show ?thesis using assms by (cases r) (auto simp: scan_exp_def num_stop_def)
next
  case (Cons c s')
  obtain sg u where sg: "scan_exp_sign s' = (sg, u)" by fastforce
  with scan_exp_sign_append [OF assms, of s'] have "scan_exp_sign (s' @ r) = (sg, u @ r)" by simp
  with sg Cons show ?thesis
    by (auto simp: scan_exp_def takeWhile_stop [OF assms] dropWhile_stop [OF assms])
qed

lemma scan_number_append:
  assumes "num_stop r" "scan_number s = Some (t, b, [])"
  shows "scan_number (s @ r) = Some (t, b, r)"
proof -
  obtain sg u where sg: "scan_sign s = (sg, u)" by fastforce
  obtain ds r1 where ds: "scan_int u = Some (ds, r1)"
    using assms(2) sg by (cases "scan_int u") (auto simp: scan_number_def)
  obtain fr r2 where fr: "scan_frac r1 = (fr, r2)" by fastforce
  obtain ex r3 where ex: "scan_exp r2 = (ex, r3)" by fastforce
  have s: "s \<noteq> []" using assms(2) by (auto simp: scan_number_def scan_sign_def scan_int_def)
  have parts: "t = sg @ ds @ fr @ ex" "b = (fr @ ex \<noteq> [])" "r3 = []"
    using assms(2) sg ds fr ex by (auto simp: scan_number_def)
  have "scan_sign (s @ r) = (sg, u @ r)" using scan_sign_append [OF s] sg by simp
  moreover have "scan_int (u @ r) = Some (ds, r1 @ r)" by (rule scan_int_append [OF assms(1) ds])
  moreover have "scan_frac (r1 @ r) = (fr, r2 @ r)" using scan_frac_append [OF assms(1)] fr by simp
  moreover have "scan_exp (r2 @ r) = (ex, r3 @ r)" using scan_exp_append [OF assms(1)] ex by simp
  ultimately show ?thesis using parts by (simp add: scan_number_def)
qed

lemma scan_int_show_nat: "scan_int (show_nat n) = Some (show_nat n, [])"
proof -
  have all: "takeWhile digit (show_nat n) = show_nat n" "dropWhile digit (show_nat n) = []"
    using show_nat_digits by (auto simp: takeWhile_eq_all_conv dropWhile_eq_Nil_conv)
  obtain c s where cs: "show_nat n = c # s" by (cases "show_nat n") auto
  show ?thesis
  proof (cases "n = 0")
    case True
    then show ?thesis by (simp add: show_nat_zero scan_int_def)
  next
    case False
    then have "c \<noteq> CHR ''0''" using hd_show_nat_zero [of n] cs digit_char_zero by simp
    moreover have "digit c" using show_nat_digits [of c n] cs by simp
    ultimately show ?thesis using all cs by (simp add: scan_int_def)
  qed
qed

lemma show_nat_no_minus: "show_nat n \<noteq> CHR ''-'' # s"
  using show_nat_digits [of "CHR ''-''" n] by (auto simp: digit_def)

lemma scan_number_show_int: "scan_number (show_int i) = Some (show_int i, False, [])"
proof (cases "i < 0")
  case True
  then show ?thesis
    by (simp add: scan_number_def show_int_def scan_sign_def scan_int_show_nat scan_frac_def scan_exp_def)
next
  case False
  have "scan_sign (show_nat (nat i)) = ([], show_nat (nat i))"
    using show_nat_no_minus [of "nat i"] by (cases "show_nat (nat i)") (auto simp: scan_sign_def)
  with False show ?thesis
    by (simp add: scan_number_def show_int_def scan_int_show_nat scan_frac_def scan_exp_def)
qed

lemma read_show_int [simp]: "read_int (show_int i) = i"
proof (cases "i < 0")
  case False
  obtain c s where cs: "show_nat (nat i) = c # s" by (cases "show_nat (nat i)") auto
  then have "c \<noteq> CHR ''-''" using show_nat_no_minus [of "nat i" s] by auto
  then have "read_int (show_nat (nat i)) = int (read_nat (show_nat (nat i)))"
    by (simp add: read_int_def cs)
  with False show ?thesis by (simp add: show_int_def)
qed (simp add: show_int_def read_int_def)

text \<open>A text that is a number is none of the other values.\<close>

lemma scan_number_hd:
  "scan_number s = Some x \<Longrightarrow> s \<noteq> [] \<and> (hd s = CHR ''-'' \<or> digit (hd s))"
  by (cases s) (auto simp: scan_number_def scan_sign_def scan_int_def digit_def split: if_splits option.splits)

lemma scan_value_number:
  assumes "scan_number s = Some (t, b, r)"
  shows "scan_value P (Suc n) s = Some (if b then JFloat (float_parse P t) else JInt (read_int t), r)"
proof -
  obtain c s' where s: "s = c # s'" using scan_number_hd [OF assms] by (cases s) auto
  have c: "c = CHR ''-'' \<or> digit c" using scan_number_hd [OF assms] s by simp
  then have "c \<notin> {CHR 0x22, CHR ''['', CHR ''{'', CHR ''n'', CHR ''t'', CHR ''f''}"
    by (auto simp: digit_def)
  then show ?thesis using assms s by (auto simp: scan_atom_def)
qed

subsection \<open>Values\<close>

text \<open>A value's text starts with none of the characters the reader looks for around values.\<close>

definition value_start :: "char \<Rightarrow> bool" where
  "value_start c \<longleftrightarrow> \<not> is_ws c \<and> c \<noteq> CHR '']'' \<and> c \<noteq> CHR ''}''"

lemma value_start_number: "c = CHR ''-'' \<or> digit c \<Longrightarrow> value_start c"
  by (auto simp: value_start_def is_ws_def digit_def)

lemma dumps_start:
  assumes "float_codec P" "json_finite v"
  obtains c s where "dumps P v = c # s" "value_start c"
proof -
  have "\<exists>c s. dumps P v = c # s \<and> value_start c"
  proof (cases v)
    case (JInt i)
    then show ?thesis
      using scan_number_hd [OF scan_number_show_int [of i]]
      by (cases "show_int i") (auto simp: value_start_number)
  next
    case (JFloat f)
    with assms have "scan_number (float_repr P f) = Some (float_repr P f, True, [])"
      by (auto simp: float_codec_def)
    from scan_number_hd [OF this] JFloat show ?thesis
      by (cases "float_repr P f") (auto simp: value_start_number)
  qed (auto simp: quote_def value_start_def is_ws_def)
  then show ?thesis using that by blast
qed

lemma skip_ws_start [simp]: "value_start c \<Longrightarrow> skip_ws (c # s) = c # s"
  by (simp add: skip_ws_def value_start_def)

lemma skip_ws_punct [simp]:
  "skip_ws (CHR '','' # r) = CHR '','' # r" "skip_ws (CHR '']'' # r) = CHR '']'' # r"
  "skip_ws (CHR ''}'' # r) = CHR ''}'' # r" "skip_ws (CHR '':'' # r) = CHR '':'' # r"
  "skip_ws (CHR 0x22 # r) = CHR 0x22 # r" "skip_ws [] = []"
  by (simp_all add: skip_ws_def is_ws_def)

lemma skip_ws_dumps:
  "float_codec P \<Longrightarrow> json_finite v \<Longrightarrow> skip_ws (dumps P v @ r) = dumps P v @ r"
  by (erule (1) dumps_start) simp

text \<open>\<open>reads P v\<close>: with enough fuel the reader takes exactly the text of \<open>v\<close>.\<close>

definition reads :: "platform \<Rightarrow> json \<Rightarrow> bool" where
  "reads P v \<longleftrightarrow>
     (\<forall>n r. length (dumps P v) \<le> n \<longrightarrow> num_stop r \<longrightarrow> scan_value P (Suc n) (dumps P v @ r) = Some (v, r))"

definition elems_text :: "platform \<Rightarrow> json list \<Rightarrow> string" where
  "elems_text P xs = join (map (dumps P) xs)"

definition members_text :: "platform \<Rightarrow> doc \<Rightarrow> string" where
  "members_text P d = join (map member_text (map (map_prod id (dumps P)) d))"

lemma dumps_list: "dumps P (JList xs) = CHR ''['' # elems_text P xs @ [CHR '']'']"
  by (simp add: elems_text_def)

lemma dumps_obj: "dumps P (JObj d) = CHR ''{'' # members_text P d @ [CHR ''}'']"
  by (simp add: members_text_def)

declare dumps.simps(6,7) [simp del]

lemma join_Cons2: "ts \<noteq> [] \<Longrightarrow> join (s # ts) = s @ CHR '','' # join ts"
  by (cases ts) auto

lemma elems_text_Nil [simp]: "elems_text P [] = []"
  by (simp add: elems_text_def)

lemma elems_text_Cons [simp]:
  "elems_text P (x # xs) = dumps P x @ (if xs = [] then [] else CHR '','' # elems_text P xs)"
  by (simp add: elems_text_def join_Cons2)

lemma members_text_Nil [simp]: "members_text P [] = []"
  by (simp add: members_text_def)

lemma members_text_Cons [simp]:
  "members_text P ((k, v) # d) =
     quote k @ CHR '':'' # dumps P v @ (if d = [] then [] else CHR '','' # members_text P d)"
  by (simp add: members_text_def join_Cons2 member_text_def)

lemma elems_text_start:
  assumes "float_codec P" "xs \<noteq> []" "\<And>x. x \<in> set xs \<Longrightarrow> json_finite x"
  obtains c s where "elems_text P xs = c # s" "value_start c"
proof -
  obtain y ys where xs: "xs = y # ys" using assms(2) by (cases xs) auto
  obtain c s where "dumps P y = c # s" "value_start c"
    using dumps_start [OF assms(1), of y] assms(3) xs by auto
  then show ?thesis using that xs by auto
qed

lemma members_text_start: "d \<noteq> [] \<Longrightarrow> \<exists>s. members_text P d = CHR 0x22 # s"
  by (cases d) (auto simp: quote_def)

lemma scan_elems_text:
  assumes "float_codec P" "xs \<noteq> []" "\<And>x. x \<in> set xs \<Longrightarrow> reads P x" "\<And>x. x \<in> set xs \<Longrightarrow> json_finite x"
    and "length (elems_text P xs) < n"
  shows "scan_elems P (Suc n) (elems_text P xs @ CHR '']'' # r) = Some (xs, r)"
  using assms(2-)
proof (induction xs arbitrary: n)
  case Nil
  then show ?case by simp
next
  case (Cons x xs)
  have rd: "scan_value P n (dumps P x @ r) = Some (x, r)" if "num_stop r" for r
    using Cons.prems(2) [of x] Cons.prems(4) that by (cases n) (auto simp: reads_def)
  show ?case
  proof (cases "xs = []")
    case False
    have "scan_elems P n (elems_text P xs @ CHR '']'' # r) = Some (xs, r)"
    proof (cases n)
      case (Suc m)
      show ?thesis unfolding Suc by (rule Cons.IH) (use False Cons.prems Suc in auto)
    qed (use Cons.prems in simp)
    moreover have "skip_ws (elems_text P xs @ CHR '']'' # r) = elems_text P xs @ CHR '']'' # r"
      by (rule elems_text_start [OF assms(1) False]) (use Cons.prems in auto)
    ultimately show ?thesis using False by (simp add: rd)
  qed (simp add: rd)
qed

lemma scan_members_text:
  assumes "float_codec P" "d \<noteq> []" "\<And>k v. (k, v) \<in> set d \<Longrightarrow> reads P v"
    "\<And>k v. (k, v) \<in> set d \<Longrightarrow> json_finite v"
    and "length (members_text P d) < n"
  shows "scan_members P (Suc n) (members_text P d @ CHR ''}'' # r) = Some (d, r)"
  using assms(2-)
proof (induction d arbitrary: n)
  case Nil
  then show ?case by simp
next
  case (Cons m d)
  obtain k v where m: "m = (k, v)" by fastforce
  have rd: "scan_value P n (dumps P v @ r) = Some (v, r)" if "num_stop r" for r
    using Cons.prems(2) [of k v] Cons.prems(4) that m by (cases n) (auto simp: reads_def)
  have ws: "skip_ws (dumps P v @ r) = dumps P v @ r" for r
    using skip_ws_dumps [OF assms(1)] Cons.prems(3) [of k v] m by simp
  have q: "quote k @ t = CHR 0x22 # concat (map escape_char k) @ CHR 0x22 # t" for t
    by (simp add: quote_def)
  show ?case
  proof (cases "d = []")
    case True
    then show ?thesis by (simp add: m q scan_quote ws rd)
  next
    case False
    have "scan_members P n (members_text P d @ CHR ''}'' # r) = Some (d, r)"
    proof (cases n)
      case (Suc n')
      show ?thesis unfolding Suc
      proof (rule Cons.IH)
        show "reads P v" "json_finite v" if "(k, v) \<in> set d" for k v
          using Cons.prems(2,3) [of k v] that by auto
      qed (use False Cons.prems(4) Suc m in auto)
    qed (use Cons.prems in simp)
    moreover have "skip_ws (members_text P d @ CHR ''}'' # r) = members_text P d @ CHR ''}'' # r"
      using members_text_start [OF False, of P] by auto
    ultimately show ?thesis using False by (simp add: m q scan_quote ws rd)
  qed
qed

lemma reads_all:
  assumes P: "float_codec P"
  shows "json_ok v \<Longrightarrow> json_finite v \<Longrightarrow> reads P v"
proof (induction v rule: json_induct)
  case (Int i)
  show ?case
    unfolding reads_def
    by (auto simp del: scan_value.simps
        simp: scan_value_number [OF scan_number_append [OF _ scan_number_show_int]])
next
  case (Float f)
  then have f: "scan_number (float_repr P f) = Some (float_repr P f, True, [])"
    "float_parse P (float_repr P f) = f"
    using P by (auto simp: float_codec_def)
  show ?case
    unfolding reads_def
    by (auto simp del: scan_value.simps
        simp: f(2) scan_value_number [OF scan_number_append [OF _ f(1)]])
next
  case (Str s)
  then show ?case by (simp add: reads_def quote_def scan_quote)
next
  case (List xs)
  show ?case
  proof (cases "xs = []")
    case False
    obtain c s where cs: "elems_text P xs = c # s" "value_start c"
      by (rule elems_text_start [OF P False]) (use List.prems in auto)
    have "c \<noteq> CHR '']''" using cs(2) by (simp add: value_start_def)
    have "scan_value P (Suc n) (dumps P (JList xs) @ r) = Some (JList xs, r)"
      if len: "length (dumps P (JList xs)) \<le> n" for n r
    proof -
      obtain m where n: "n = Suc m" "length (elems_text P xs) < m"
        using len by (cases n) (auto simp: dumps_list)
      have "scan_elems P n (elems_text P xs @ CHR '']'' # r) = Some (xs, r)"
        unfolding n(1) by (rule scan_elems_text [OF P False _ _ n(2)]) (use List in auto)
      with cs \<open>c \<noteq> CHR '']''\<close> show ?thesis unfolding dumps_list by simp
    qed
    then show ?thesis by (simp add: reads_def)
  qed (simp add: reads_def dumps_list)
next
  case (Obj d)
  show ?case
  proof (cases "d = []")
    case False
    obtain s where s: "members_text P d = CHR 0x22 # s"
      using members_text_start [OF False] by blast
    have d: "dict_of d = d" using Obj.prems by (intro dict_of_distinct) auto
    have "scan_value P (Suc n) (dumps P (JObj d) @ r) = Some (JObj d, r)"
      if len: "length (dumps P (JObj d)) \<le> n" for n r
    proof -
      obtain m where n: "n = Suc m" "length (members_text P d) < m"
        using len by (cases n) (auto simp: dumps_obj)
      have "scan_members P n (members_text P d @ CHR ''}'' # r) = Some (d, r)"
        unfolding n(1)
        by (rule scan_members_text [OF P False _ _ n(2)])
          (use Obj.IH Obj.prems json_member in blast)+
      with s d show ?thesis unfolding dumps_obj by simp
    qed
    then show ?thesis by (simp add: reads_def)
  qed (simp add: reads_def dict_of_def dumps_obj)
qed (auto simp: reads_def scan_atom_def)

theorem loads_dumps:
  assumes "float_codec P" "json_ok v" "json_finite v"
  shows "loads P (dumps P v) = Some v"
proof -
  have "scan_value P (Suc (length (dumps P v))) (dumps P v @ []) = Some (v, [])"
    using reads_all [OF assms] unfolding reads_def by (meson num_stop_simps(1) order_refl)
  then show ?thesis
    using skip_ws_dumps [OF assms(1,3), of "[]"] by (simp add: loads_def)
qed

section \<open>Canonical bytes\<close>

lemma canonical_bytes_alt:
  "canonical_bytes P v = (if json_finite v then Some (dumps P (canon v)) else None)"
  by (cases v) (auto simp: canonical_bytes_def)

lemma loads_canonical:
  assumes "float_codec P" "json_ok v" "canonical_bytes P v = Some b"
  shows "loads P b = Some (canon v)"
  using assms loads_dumps [of P "canon v"] by (auto simp: canonical_bytes_alt split: if_splits)

lemma canonical_bytes_eq_iff:
  assumes "float_codec P" "json_ok v" "json_ok w" "json_finite v" "json_finite w"
  shows "canonical_bytes P v = canonical_bytes P w \<longleftrightarrow> canon v = canon w"
proof
  assume "canonical_bytes P v = canonical_bytes P w"
  with assms have "loads P (dumps P (canon v)) = loads P (dumps P (canon w))"
    by (simp add: canonical_bytes_alt)
  with assms show "canon v = canon w" by (simp add: loads_dumps)
qed (use assms in \<open>simp add: canonical_bytes_alt\<close>)

lemma canonical_bytes_canon [simp]: "canonical_bytes P (canon v) = canonical_bytes P v"
  by (simp add: canonical_bytes_alt)

end
