(* ===== verification/Encodings.thy ===== *)
theory Encodings
  imports Json_Facts Errors
begin

text \<open>
  The physical encodings of log payloads (\<open>src/eventic/encodings\<close>): \<open>snapshot/1\<close> stores the document,
  \<open>delta/1\<close> the top-level keys that differ from the base document and the keys that are gone.

  The registry is closed, so an encoding is a value of \<open>encoding\<close>; the methods dispatch on it.
  \<open>enc_encode\<close> and \<open>enc_decode\<close> work on the documents the store passes, which are JSON values that the
  methods use as dictionaries: on anything else the Python attribute access raises.
\<close>

datatype encoding = Snapshot | Delta int

definition snapshot_id :: string where "snapshot_id = ''snapshot/1''"
definition delta_id :: string where "delta_id = ''delta/1''"

fun encoding_id :: "encoding \<Rightarrow> string" where
  "encoding_id Snapshot = snapshot_id"
| "encoding_id (Delta every) = delta_id"

text \<open>\<open>Delta.__post_init__\<close>, and the registry with its default instances.\<close>

definition make_delta :: "int \<Rightarrow> py_error + encoding" where
  "make_delta every = (if every < 1 then Inl ValueError else Inr (Delta every))"

definition get_encoding :: "string \<Rightarrow> eventic_error + encoding" where
  "get_encoding i =
     (if i = snapshot_id then Inr Snapshot
      else if i = delta_id then Inr (Delta 20)
      else Inl (UndecodableRevision None))"

fun is_checkpoint :: "encoding \<Rightarrow> int \<Rightarrow> bool" where
  "is_checkpoint Snapshot revision = True"
| "is_checkpoint (Delta every) revision = (revision = 0 \<or> revision mod every = 0)"

section \<open>Snapshot\<close>

definition snapshot_encode :: "json \<Rightarrow> json option \<Rightarrow> int option \<Rightarrow> py_error + json" where
  "snapshot_encode doc base base_revision = Inr doc"

definition snapshot_decode :: "json \<Rightarrow> json option \<Rightarrow> py_error + json" where
  "snapshot_decode payload base = (case payload of JObj d \<Rightarrow> Inr (JObj d) | _ \<Rightarrow> Inl ValueError)"

section \<open>Delta\<close>

text \<open>\<open>base[key] != value\<close> is Python's comparison of JSON values.\<close>

definition delta_changed :: "doc \<Rightarrow> doc \<Rightarrow> doc" where
  "delta_changed doc base =
     filter (\<lambda>(key, value). case map_of base key of None \<Rightarrow> True | Some old \<Rightarrow> \<not> py_eq old value) doc"

definition delta_removed :: "doc \<Rightarrow> doc \<Rightarrow> string list" where
  "delta_removed doc base = filter (\<lambda>key. key \<notin> set (keys doc)) (keys base)"

definition json_of_int_option :: "int option \<Rightarrow> json" where
  "json_of_int_option i = (case i of None \<Rightarrow> JNull | Some n \<Rightarrow> JInt n)"

definition delta_payload :: "int \<Rightarrow> doc \<Rightarrow> doc \<Rightarrow> int option \<Rightarrow> doc" where
  "delta_payload every doc base base_revision =
     [(''every'', JInt every), (''base'', json_of_int_option base_revision),
      (''set'', JObj (delta_changed doc base)),
      (''del'', JList (map JStr (delta_removed doc base)))]"

definition delta_encode :: "int \<Rightarrow> json \<Rightarrow> json option \<Rightarrow> int option \<Rightarrow> py_error + json" where
  "delta_encode every doc base base_revision =
     (case base of
        None \<Rightarrow> Inr doc
      | Some b \<Rightarrow>
          (case (doc, b) of
             (JObj d, JObj e) \<Rightarrow> Inr (JObj (delta_payload every d e base_revision))
           | (JObj d, _) \<Rightarrow> Inl TypeError
           | _ \<Rightarrow> Inl AttributeError))"

text \<open>
  \<open>for key in tombstones: result.pop(key, None)\<close>: a tombstone that is not a string is no key of a JSON
  object, and an unhashable one raises.
\<close>

fun pop_tombstones :: "json list \<Rightarrow> doc \<Rightarrow> py_error + doc" where
  "pop_tombstones [] result = Inr result"
| "pop_tombstones (key # ks) result =
     (case key of
        JStr k \<Rightarrow> pop_tombstones ks (AList.delete k result)
      | JList _ \<Rightarrow> Inl TypeError
      | JObj _ \<Rightarrow> Inl TypeError
      | _ \<Rightarrow> pop_tombstones ks result)"

definition set_changes :: "doc \<Rightarrow> doc \<Rightarrow> doc" where
  "set_changes changes result = foldl (\<lambda>d (k, v). AList.update k v d) result changes"

text \<open>\<open>isinstance(payload, dict)\<close> and the two lookups, in the order of the code.\<close>

definition delta_decode :: "json \<Rightarrow> json option \<Rightarrow> py_error + json" where
  "delta_decode payload base =
     (case base of
        None \<Rightarrow> Inl ValueError
      | Some b \<Rightarrow>
          (case payload of
             JObj p \<Rightarrow>
               (case map_of p ''set'' of
                  Some (JObj changes) \<Rightarrow>
                    (case map_of p ''del'' of
                       Some (JList tombstones) \<Rightarrow>
                         (case b of
                            JObj d \<Rightarrow>
                              rbind (pop_tombstones tombstones d)
                                (\<lambda>result. Inr (JObj (set_changes changes result)))
                          | _ \<Rightarrow> Inl TypeError)
                     | _ \<Rightarrow> Inl ValueError)
                | _ \<Rightarrow> Inl ValueError)
           | _ \<Rightarrow> Inl ValueError))"

section \<open>Dispatch\<close>

fun enc_encode :: "encoding \<Rightarrow> json \<Rightarrow> json option \<Rightarrow> int option \<Rightarrow> py_error + json" where
  "enc_encode Snapshot doc base base_revision = snapshot_encode doc base base_revision"
| "enc_encode (Delta every) doc base base_revision = delta_encode every doc base base_revision"

fun enc_decode :: "encoding \<Rightarrow> json \<Rightarrow> json option \<Rightarrow> py_error + json" where
  "enc_decode Snapshot payload base = snapshot_decode payload base"
| "enc_decode (Delta every) payload base = delta_decode payload base"

end
