(* ===== verification/Tables.thy ===== *)
theory Tables
  imports Wire Encodings
begin

text \<open>
  The four tables (\<open>src/eventic/sql/tables.py\<close>) and the statements over them
  (\<open>src/eventic/sql/statements.py\<close>, \<open>src/eventic/sql/dialect.py\<close>).

  A table is the list of its rows, oldest first; a JSON column holds the JSON value SQLAlchemy reads
  back from it.  A \<open>SELECT\<close> is a filter and, with \<open>ORDER BY\<close>, a stable sort; where the ordering key has
  ties the database is free to choose and the model takes insertion order, which no theorem relies
  on.  An \<open>INSERT\<close> checks the constraints of its table in the order SQLite and PostgreSQL check them,
  the check constraints before the unique ones, and fails with the first that is violated.
\<close>

section \<open>Rows\<close>

record revision_row =
  rv_revision_id :: uuid
  rv_stream :: string
  rv_aggregate_id :: uuid
  rv_revision :: int
  rv_kind :: string
  rv_schema_version :: int
  rv_meta_version :: int
  rv_encoding :: string
  rv_payload :: json
  rv_digest :: string
  rv_meta :: json
  rv_committed_at :: time

record head_row =
  hd_stream :: string
  hd_aggregate_id :: uuid
  hd_revision :: int
  hd_revision_id :: uuid
  hd_schema_version :: int
  hd_meta_version :: int
  hd_state :: json
  hd_digest :: string
  hd_meta :: json
  hd_committed_at :: time

record intent_row =
  in_intent_id :: uuid
  in_subscription_id :: string
  in_revision_id :: uuid
  in_queue :: string
  in_status :: string
  in_attempts :: int
  in_available_at :: time
  in_leased_until :: "time option"
  in_last_error :: "string option"
  in_created_at :: time

record schema_row =
  fp_stream :: string
  fp_schema_version :: int
  fp_fingerprint :: string
  fp_first_seen :: time

record db =
  db_revisions :: "revision_row list"
  db_heads :: "head_row list"
  db_intents :: "intent_row list"
  db_schemas :: "schema_row list"

definition empty_db :: db where
  "empty_db = \<lparr>db_revisions = [], db_heads = [], db_intents = [], db_schemas = []\<rparr>"

text \<open>The keys of the rows.\<close>

definition rv_key :: "revision_row \<Rightarrow> string \<times> uuid \<times> int" where
  "rv_key r = (rv_stream r, rv_aggregate_id r, rv_revision r)"

definition rv_aggregate :: "revision_row \<Rightarrow> aggregate_key" where
  "rv_aggregate r = AggregateKey (rv_stream r) (rv_aggregate_id r)"

definition hd_aggregate :: "head_row \<Rightarrow> aggregate_key" where
  "hd_aggregate h = AggregateKey (hd_stream h) (hd_aggregate_id h)"

section \<open>Constraints\<close>

fun first_violated :: "(bool \<times> constraint) list \<Rightarrow> constraint option" where
  "first_violated [] = None"
| "first_violated ((holds, c) # cs) = (if holds then first_violated cs else Some c)"

definition revision_violation :: "db \<Rightarrow> revision_row \<Rightarrow> constraint option" where
  "revision_violation d r = first_violated
     [(rv_revision r \<ge> 0, Ck_revision_nonneg),
      (rv_kind r = ''create'' \<or> rv_kind r = ''change'', Ck_kind),
      (rv_schema_version r \<ge> 1, Ck_schema_version),
      (rv_encoding r = snapshot_id \<or> rv_encoding r = delta_id, Ck_encoding),
      ((rv_revision r = 0) = (rv_kind r = ''create''), Ck_create_at_zero),
      (rv_stream r \<noteq> [], Ck_stream_nonempty),
      (rv_revision_id r \<notin> set (map rv_revision_id (db_revisions d)), Revision_pkey),
      (rv_key r \<notin> set (map rv_key (db_revisions d)), Uq_revision)]"

definition intent_violation :: "db \<Rightarrow> intent_row \<Rightarrow> constraint option" where
  "intent_violation d i = first_violated
     [(in_queue i \<noteq> [], Ck_intent_queue),
      (in_status i \<in> set [''pending'', ''leased'', ''dead''], Ck_intent_status),
      (in_intent_id i \<notin> set (map in_intent_id (db_intents d)), Intent_pkey),
      ((in_subscription_id i, in_revision_id i) \<notin>
         set (map (\<lambda>j. (in_subscription_id j, in_revision_id j)) (db_intents d)), Uq_intent_sub_rev)]"

section \<open>Statements on the log\<close>

definition of_aggregate :: "string \<Rightarrow> uuid \<Rightarrow> revision_row \<Rightarrow> bool" where
  "of_aggregate s a r \<longleftrightarrow> rv_stream r = s \<and> rv_aggregate_id r = a"

definition select_revision_row :: "db \<Rightarrow> string \<Rightarrow> uuid \<Rightarrow> int \<Rightarrow> revision_row option" where
  "select_revision_row d s a n =
     List.find (\<lambda>r. of_aggregate s a r \<and> rv_revision r = n) (db_revisions d)"

definition select_window :: "db \<Rightarrow> string \<Rightarrow> uuid \<Rightarrow> int \<Rightarrow> int \<Rightarrow> revision_row list" where
  "select_window d s a start last_rev =
     sort_key rv_revision
       (filter (\<lambda>r. of_aggregate s a r \<and> start \<le> rv_revision r \<and> rv_revision r \<le> last_rev) (db_revisions d))"

definition select_history :: "db \<Rightarrow> string \<Rightarrow> uuid \<Rightarrow> int \<Rightarrow> int \<Rightarrow> revision_row list" where
  "select_history d s a since limit =
     take (nat limit)
       (sort_key rv_revision
         (filter (\<lambda>r. of_aggregate s a r \<and> since < rv_revision r) (db_revisions d)))"

definition select_latest_revision :: "db \<Rightarrow> string \<Rightarrow> uuid \<Rightarrow> revision_row option" where
  "select_latest_revision d s a =
     (case rev (sort_key rv_revision (filter (of_aggregate s a) (db_revisions d))) of
        [] \<Rightarrow> None
      | r # _ \<Rightarrow> Some r)"

definition insert_revision :: "db \<Rightarrow> revision_row \<Rightarrow> exn + db" where
  "insert_revision d r =
     (case revision_violation d r of
        Some c \<Rightarrow> Inl (Integrity c)
      | None \<Rightarrow> Inr (d\<lparr>db_revisions := db_revisions d @ [r]\<rparr>))"

text \<open>
  The next chunk of the log in key order, after a given key.  A negative \<open>LIMIT\<close> is no limit in SQLite;
  \<open>sql_limit\<close> writes that out.
\<close>

definition sql_limit :: "int \<Rightarrow> 'a list \<Rightarrow> 'a list" where
  "sql_limit n xs = (if n < 0 then xs else take (nat n) xs)"

definition in_scope :: "string option \<Rightarrow> string \<Rightarrow> bool" where
  "in_scope stream s = (case stream of None \<Rightarrow> True | Some t \<Rightarrow> s = t)"

definition select_all_log_for ::
  "db \<Rightarrow> string option \<Rightarrow> int \<Rightarrow> (string \<times> uuid \<times> int) option \<Rightarrow> revision_row list" where
  "select_all_log_for d stream chunk after =
     sql_limit chunk
       (sort_key rv_key
         (filter (\<lambda>r. in_scope stream (rv_stream r) \<and>
                      (case after of None \<Rightarrow> True | Some k \<Rightarrow> k < rv_key r))
           (db_revisions d)))"

section \<open>Statements on the heads\<close>

definition select_head :: "db \<Rightarrow> string \<Rightarrow> uuid \<Rightarrow> head_row option" where
  "select_head d s a = List.find (\<lambda>h. hd_stream h = s \<and> hd_aggregate_id h = a) (db_heads d)"

definition select_all_heads_for :: "db \<Rightarrow> string option \<Rightarrow> head_row list" where
  "select_all_heads_for d stream =
     sort_key (\<lambda>h. (hd_stream h, hd_aggregate_id h)) (filter (\<lambda>h. in_scope stream (hd_stream h)) (db_heads d))"

text \<open>\<open>INSERT ... ON CONFLICT (stream, aggregate_id) DO UPDATE\<close> of every other column.\<close>

fun upsert_head_rows :: "head_row \<Rightarrow> head_row list \<Rightarrow> head_row list" where
  "upsert_head_rows h [] = [h]"
| "upsert_head_rows h (g # gs) =
     (if hd_stream g = hd_stream h \<and> hd_aggregate_id g = hd_aggregate_id h then h # gs
      else g # upsert_head_rows h gs)"

definition upsert_head :: "db \<Rightarrow> head_row \<Rightarrow> db" where
  "upsert_head d h = d\<lparr>db_heads := upsert_head_rows h (db_heads d)\<rparr>"

definition delete_heads :: "db \<Rightarrow> string option \<Rightarrow> db" where
  "delete_heads d stream = d\<lparr>db_heads := filter (\<lambda>h. \<not> in_scope stream (hd_stream h)) (db_heads d)\<rparr>"

section \<open>Statements on the intents\<close>

definition insert_intent :: "db \<Rightarrow> intent_row \<Rightarrow> exn + db" where
  "insert_intent d i =
     (case intent_violation d i of
        Some c \<Rightarrow> Inl (Integrity c)
      | None \<Rightarrow> Inr (d\<lparr>db_intents := db_intents d @ [i]\<rparr>))"

definition claimable :: "time \<Rightarrow> intent_row \<Rightarrow> bool" where
  "claimable now i \<longleftrightarrow>
     (in_status i = ''pending'' \<and> in_available_at i \<le> now) \<or>
     (in_status i = ''leased'' \<and> (case in_leased_until i of None \<Rightarrow> False | Some t \<Rightarrow> t < now))"

text \<open>The claim query joins the log row that the intent points at; an intent without one is not returned.\<close>

definition revision_of_intent :: "db \<Rightarrow> intent_row \<Rightarrow> revision_row option" where
  "revision_of_intent d i = List.find (\<lambda>r. rv_revision_id r = in_revision_id i) (db_revisions d)"

definition claim_select :: "db \<Rightarrow> string \<Rightarrow> time \<Rightarrow> int \<Rightarrow> (intent_row \<times> revision_row) list" where
  "claim_select d queue now limit =
     take (nat limit)
       (map (\<lambda>i. (i, the (revision_of_intent d i)))
         (sort_key in_available_at
           (filter (\<lambda>i. in_queue i = queue \<and> claimable now i \<and> revision_of_intent d i \<noteq> None)
             (db_intents d))))"

definition claim_mark_leased :: "db \<Rightarrow> uuid list \<Rightarrow> time \<Rightarrow> db" where
  "claim_mark_leased d intent_ids lease_until =
     d\<lparr>db_intents := map (\<lambda>i.
         if in_intent_id i \<in> set intent_ids
         then i\<lparr>in_status := ''leased'', in_leased_until := Some lease_until, in_attempts := in_attempts i + 1\<rparr>
         else i) (db_intents d)\<rparr>"

text \<open>
  One statement per settlement.  A retry whose time is \<open>NULL\<close> violates \<open>available_at\<close>'s
  \<open>NOT NULL\<close>, which is not a constraint of ours by name; \<open>Python OtherException\<close> stands for it.
\<close>

definition settle_one :: "db \<Rightarrow> settlement \<Rightarrow> exn + db" where
  "settle_one d s =
     (let mine = (\<lambda>i. in_intent_id i = st_intent_id s) in
      if st_status s = ''delivered'' then
        Inr (d\<lparr>db_intents := filter (\<lambda>i. \<not> mine i) (db_intents d)\<rparr>)
      else if st_status s = ''retry'' then
        (case st_available_at s of
           Some t \<Rightarrow>
             Inr (d\<lparr>db_intents := map (\<lambda>i.
                 if mine i
                 then i\<lparr>in_status := ''pending'', in_leased_until := None, in_available_at := t,
                        in_last_error := st_error s\<rparr>
                 else i) (db_intents d)\<rparr>)
         | None \<Rightarrow>
             if (\<exists>i \<in> set (db_intents d). mine i) then Inl (Python OtherException) else Inr d)
      else
        Inr (d\<lparr>db_intents := map (\<lambda>i.
            if mine i
            then i\<lparr>in_status := ''dead'', in_leased_until := None, in_last_error := st_error s\<rparr>
            else i) (db_intents d)\<rparr>))"

section \<open>Statements on the fingerprint ledger\<close>

definition select_fingerprint :: "db \<Rightarrow> string \<Rightarrow> int \<Rightarrow> schema_row option" where
  "select_fingerprint d s v =
     List.find (\<lambda>f. fp_stream f = s \<and> fp_schema_version f = v) (db_schemas d)"

text \<open>\<open>ON CONFLICT DO NOTHING\<close>: the first fingerprint of a version stays.\<close>

definition upsert_fingerprint :: "db \<Rightarrow> schema_row \<Rightarrow> db" where
  "upsert_fingerprint d f =
     (case select_fingerprint d (fp_stream f) (fp_schema_version f) of
        Some _ \<Rightarrow> d
      | None \<Rightarrow> d\<lparr>db_schemas := db_schemas d @ [f]\<rparr>)"

end
