(* ===== verification/Store.thy ===== *)
theory Store
  imports Tables
begin

text \<open>
  The write path and the point reads of the SQL store (\<open>src/eventic/sql/store.py\<close>).

  The database inside a transaction is passed from statement to statement; \<open>commit\<close> keeps the result
  if every request succeeded and the database it started from otherwise, which is what
  \<open>engine.begin()\<close> does.  \<open>encs\<close> is the store's \<open>_encodings\<close>, \<open>now\<close> the database clock read once per
  transaction.  The CAS decision is separate from the writes (\<open>commit_one_from\<close> takes the two rows it
  was decided on), so that a PostgreSQL writer whose reads are stale can be described with the same
  definitions.
\<close>

type_synonym encodings = "string \<rightharpoonup> encoding"

section \<open>Values read from columns\<close>

definition bytes_loads :: "platform \<Rightarrow> string \<Rightarrow> exn + json" where
  "bytes_loads P s = (case loads P s of None \<Rightarrow> Inl (Python ValueError) | Some v \<Rightarrow> Inr v)"

text \<open>
  \<open>_json_loads\<close> of a column's value: a dictionary is returned as it is, text is parsed, and
  \<open>json.loads\<close> of anything else raises.
\<close>

definition column_loads :: "platform \<Rightarrow> json \<Rightarrow> exn + json" where
  "column_loads P v =
     (case v of
        JObj d \<Rightarrow> Inr (JObj d)
      | JStr s \<Rightarrow> bytes_loads P s
      | _ \<Rightarrow> Inl (Python TypeError))"

definition py_canonical_bytes :: "platform \<Rightarrow> json \<Rightarrow> exn + string" where
  "py_canonical_bytes P v =
     (case canonical_bytes P v of None \<Rightarrow> Inl (Python ValueError) | Some b \<Rightarrow> Inr b)"

definition lift_py :: "py_error + 'a \<Rightarrow> exn + 'a" where
  "lift_py m = (case m of Inl e \<Rightarrow> Inl (Python e) | Inr x \<Rightarrow> Inr x)"

text \<open>\<open>int(value)\<close>; of texts, those with an optional sign and decimal digits are read.\<close>

definition signed_decimal :: "string \<Rightarrow> bool" where
  "signed_decimal s =
     (case s of [] \<Rightarrow> False
      | c # r \<Rightarrow> if c = CHR ''-'' then r \<noteq> [] \<and> list_all digit r else list_all digit s)"

fun py_int :: "json \<Rightarrow> py_error + int" where
  "py_int (JInt i) = Inr i"
| "py_int (JBool b) = Inr (if b then 1 else 0)"
| "py_int (JFloat f) =
     (if float_nan f then Inl ValueError
      else if \<not> float_finite f then Inl OverflowError
      else Inr (sgn (float_scaled f) * (\<bar>float_scaled f\<bar> div 2 ^ 1075)))"
| "py_int (JStr s) = (if signed_decimal s then Inr (read_int s) else Inl ValueError)"
| "py_int _ = Inl TypeError"

text \<open>\<open>int(payload.get("every") or 20)\<close>.\<close>

definition payload_every :: "json \<Rightarrow> exn + int" where
  "payload_every payload =
     (case payload of
        JObj p \<Rightarrow>
          (case map_of p ''every'' of
             None \<Rightarrow> Inr 20
           | Some v \<Rightarrow> if truthy v then lift_py (py_int v) else Inr 20)
      | _ \<Rightarrow> Inl (Python AttributeError))"

section \<open>Decoding a window of the log\<close>

text \<open>\<open>payload.get("base") != prev\<close>, a comparison by Python's \<open>==\<close>.\<close>

definition base_is :: "doc \<Rightarrow> int \<Rightarrow> bool" where
  "base_is p prev = (case map_of p ''base'' of None \<Rightarrow> False | Some b \<Rightarrow> py_eq b (JInt prev))"

definition delta_decode_row :: "json \<Rightarrow> json \<Rightarrow> exn + json" where
  "delta_decode_row payload base =
     rbind (payload_every payload) (\<lambda>every.
     rbind (lift_py (make_delta every)) (\<lambda>enc.
       lift_py (enc_decode enc payload (Some base))))"

text \<open>The loop over the window: \<open>c\<close> is the checkpoint's revision.\<close>

fun window_loop :: "platform \<Rightarrow> int \<Rightarrow> revision_row list \<Rightarrow> json \<Rightarrow> int \<Rightarrow> exn + json" where
  "window_loop P c [] doc prev = Inr doc"
| "window_loop P c (r # rs) doc prev =
     (if rv_revision r \<le> c then window_loop P c rs doc prev
      else if rv_encoding r = snapshot_id then
        rbind (column_loads P (rv_payload r)) (\<lambda>doc'. window_loop P c rs doc' (rv_revision r))
      else
        rbind (column_loads P (rv_payload r)) (\<lambda>payload.
          case payload of
            JObj p \<Rightarrow>
              if \<not> base_is p prev then Inl (Eventic (UndecodableRevision None))
              else rbind (delta_decode_row payload doc) (\<lambda>doc'. window_loop P c rs doc' (rv_revision r))
          | _ \<Rightarrow> Inl (Python AttributeError)))"

definition decode_window :: "platform \<Rightarrow> int \<Rightarrow> revision_row list \<Rightarrow> exn + json" where
  "decode_window P revision window =
     (if window = [] \<or> rv_revision (last window) \<noteq> revision then Inl (Eventic NotFound)
      else
        (case List.find (\<lambda>r. rv_encoding r = snapshot_id) (rev window) of
           None \<Rightarrow> Inl (Eventic (UndecodableRevision None))
         | Some checkpoint \<Rightarrow>
             rbind (column_loads P (rv_payload checkpoint)) (\<lambda>doc.
               window_loop P (rv_revision checkpoint) window doc (rv_revision checkpoint))))"

definition window_start :: "int \<Rightarrow> int \<Rightarrow> int" where
  "window_start every revision =
     (if revision = 0 \<or> revision mod every = 0 then revision else max 0 (revision - every))"

definition decode_log_revision :: "platform \<Rightarrow> encodings \<Rightarrow> db \<Rightarrow> string \<Rightarrow> uuid \<Rightarrow> int \<Rightarrow> exn + json" where
  "decode_log_revision P encs d s a revision =
     (case encs s of
        Some (Delta every) \<Rightarrow>
          decode_window P revision (select_window d s a (window_start every revision) revision)
      | _ \<Rightarrow>
          (case select_revision_row d s a revision of
             None \<Rightarrow> Inl (Eventic NotFound)
           | Some row \<Rightarrow>
               if rv_encoding row = snapshot_id then column_loads P (rv_payload row)
               else
                 rbind (column_loads P (rv_payload row)) (\<lambda>physical.
                 rbind (payload_every physical) (\<lambda>every.
                   decode_window P revision (select_window d s a (max 0 (revision - every)) revision)))))"

section \<open>Committing one request\<close>

definition encoding_for :: "encodings \<Rightarrow> string \<Rightarrow> encoding" where
  "encoding_for encs s = (case encs s of Some e \<Rightarrow> e | None \<Rightarrow> Snapshot)"

definition target_of :: "commit_request \<Rightarrow> int" where
  "target_of req = (case cq_expected_revision req of None \<Rightarrow> 0 | Some e \<Rightarrow> e + 1)"

definition request_rid :: "platform \<Rightarrow> commit_request \<Rightarrow> uuid" where
  "request_rid P req = revision_id P (cq_stream req) (cq_aggregate_id req) (target_of req)"

text \<open>The metadata is parsed and compared only when everything before it agrees.\<close>

definition is_identical :: "platform \<Rightarrow> revision_row \<Rightarrow> commit_request \<Rightarrow> exn + bool" where
  "is_identical P row req =
     (if rv_kind row = cq_kind req \<and> rv_schema_version row = cq_schema_version req \<and>
         rv_meta_version row = cq_meta_version req \<and> rv_digest row = cq_digest req
      then
        rbind (column_loads P (rv_meta row)) (\<lambda>a.
        rbind (bytes_loads P (cq_meta req)) (\<lambda>b. Inr (py_eq a b)))
      else Inr False)"

definition upsert_head_from_row ::
  "platform \<Rightarrow> encodings \<Rightarrow> db \<Rightarrow> revision_row \<Rightarrow> commit_request \<Rightarrow> exn + db" where
  "upsert_head_from_row P encs d row req =
     rbind (decode_log_revision P encs d (cq_stream req) (cq_aggregate_id req) (rv_revision row)) (\<lambda>doc.
     rbind (column_loads P (rv_meta row)) (\<lambda>meta.
       Inr (upsert_head d
         \<lparr>hd_stream = cq_stream req, hd_aggregate_id = cq_aggregate_id req,
          hd_revision = rv_revision row, hd_revision_id = rv_revision_id row,
          hd_schema_version = rv_schema_version row, hd_meta_version = rv_meta_version row,
          hd_state = doc, hd_digest = rv_digest row, hd_meta = meta,
          hd_committed_at = rv_committed_at row\<rparr>)))"

definition intent_id :: "platform \<Rightarrow> intent_request \<Rightarrow> uuid" where
  "intent_id P i =
     uuid5 P NS (''intent:'' @ ir_subscription_id i @ '':'' @ uuid_str (ir_revision_id i))"

definition new_intent_row :: "platform \<Rightarrow> time \<Rightarrow> intent_request \<Rightarrow> intent_row" where
  "new_intent_row P now i =
     \<lparr>in_intent_id = intent_id P i, in_subscription_id = ir_subscription_id i,
      in_revision_id = ir_revision_id i, in_queue = ir_queue i, in_status = ''pending'',
      in_attempts = 0, in_available_at = now, in_leased_until = None, in_last_error = None,
      in_created_at = now\<rparr>"

fun insert_intents :: "platform \<Rightarrow> time \<Rightarrow> intent_request list \<Rightarrow> db \<Rightarrow> exn + db" where
  "insert_intents P now [] d = Inr d"
| "insert_intents P now (i # is) d =
     rbind (insert_intent d (new_intent_row P now i)) (insert_intents P now is)"

definition commit_result_of :: "platform \<Rightarrow> time \<Rightarrow> commit_request \<Rightarrow> bool \<Rightarrow> commit_result" where
  "commit_result_of P now req replayed =
     \<lparr>cr_stream = cq_stream req, cr_aggregate_id = cq_aggregate_id req,
      cr_revision = target_of req, cr_revision_id = request_rid P req,
      cr_committed_at = now, cr_replayed = replayed\<rparr>"

text \<open>The physical payload and the encoding id of the new row, from the head it extends.\<close>

definition physical_payload ::
  "platform \<Rightarrow> encodings \<Rightarrow> commit_request \<Rightarrow> head_row option \<Rightarrow> exn + (json \<times> string)" where
  "physical_payload P encs req head =
     (let encoding = encoding_for encs (cq_stream req); target = target_of req in
      case head of
        None \<Rightarrow> rbind (bytes_loads P (cq_payload req)) (\<lambda>v. Inr (v, snapshot_id))
      | Some h \<Rightarrow>
          rbind (column_loads P (hd_state h)) (\<lambda>base.
            if base = JNull \<or> is_checkpoint encoding target
            then rbind (bytes_loads P (cq_payload req)) (\<lambda>v. Inr (v, snapshot_id))
            else
              rbind (bytes_loads P (cq_payload req)) (\<lambda>v.
              rbind (lift_py (enc_encode encoding v (Some base) (Some (hd_revision h)))) (\<lambda>p.
                Inr (p, encoding_id encoding)))))"

definition new_revision_row ::
  "platform \<Rightarrow> time \<Rightarrow> commit_request \<Rightarrow> json \<Rightarrow> string \<Rightarrow> json \<Rightarrow> revision_row" where
  "new_revision_row P now req physical row_encoding meta =
     \<lparr>rv_revision_id = request_rid P req, rv_stream = cq_stream req,
      rv_aggregate_id = cq_aggregate_id req, rv_revision = target_of req, rv_kind = cq_kind req,
      rv_schema_version = cq_schema_version req, rv_meta_version = cq_meta_version req,
      rv_encoding = row_encoding, rv_payload = physical, rv_digest = cq_digest req,
      rv_meta = meta, rv_committed_at = now\<rparr>"

definition new_head_row :: "platform \<Rightarrow> time \<Rightarrow> commit_request \<Rightarrow> json \<Rightarrow> json \<Rightarrow> head_row" where
  "new_head_row P now req doc meta =
     \<lparr>hd_stream = cq_stream req, hd_aggregate_id = cq_aggregate_id req, hd_revision = target_of req,
      hd_revision_id = request_rid P req, hd_schema_version = cq_schema_version req,
      hd_meta_version = cq_meta_version req, hd_state = doc, hd_digest = cq_digest req,
      hd_meta = meta, hd_committed_at = now\<rparr>"

definition ledger_row :: "time \<Rightarrow> commit_request \<Rightarrow> schema_row" where
  "ledger_row now req =
     \<lparr>fp_stream = cq_stream req, fp_schema_version = cq_schema_version req,
      fp_fingerprint = cq_fingerprint req, fp_first_seen = now\<rparr>"

text \<open>The append: log row, read-back check, head, intents, ledger.\<close>

definition append_revision ::
  "platform \<Rightarrow> encodings \<Rightarrow> time \<Rightarrow> db \<Rightarrow> commit_request \<Rightarrow> head_row option \<Rightarrow> exn + (db \<times> commit_result)" where
  "append_revision P encs now d req head =
     rbind (physical_payload P encs req head) (\<lambda>(physical, row_encoding).
     rbind (bytes_loads P (cq_meta req)) (\<lambda>meta.
     rbind (insert_revision d (new_revision_row P now req physical row_encoding meta)) (\<lambda>d1.
     rbind (decode_log_revision P encs d1 (cq_stream req) (cq_aggregate_id req) (target_of req)) (\<lambda>doc.
     rbind (py_canonical_bytes P doc) (\<lambda>bytes.
       if bytes \<noteq> cq_payload req then Inl (Eventic EncodingError)
       else
         rbind (insert_intents P now (cq_intents req) (upsert_head d1 (new_head_row P now req doc meta)))
           (\<lambda>d2. Inr (upsert_fingerprint d2 (ledger_row now req), commit_result_of P now req False)))))))"

definition cas_ok :: "commit_request \<Rightarrow> head_row option \<Rightarrow> bool" where
  "cas_ok req head =
     (case head of
        None \<Rightarrow> cq_expected_revision req = None
      | Some h \<Rightarrow> cq_expected_revision req = Some (hd_revision h))"

definition commit_one_from ::
  "platform \<Rightarrow> encodings \<Rightarrow> time \<Rightarrow> db \<Rightarrow> commit_request \<Rightarrow> head_row option \<Rightarrow> revision_row option \<Rightarrow>
   exn + (db \<times> commit_result)" where
  "commit_one_from P encs now d req head existing =
     (case existing of
        Some row \<Rightarrow>
          rbind (is_identical P row req) (\<lambda>same.
            if \<not> same then Inl (Eventic RevisionConflict)
            else
              rbind (if (case head of None \<Rightarrow> True | Some h \<Rightarrow> hd_revision h < rv_revision row)
                     then upsert_head_from_row P encs d row req else Inr d)
                (\<lambda>d'. Inr (d', commit_result_of P now req True)))
      | None \<Rightarrow>
          if \<not> cas_ok req head then Inl (Eventic RevisionConflict)
          else append_revision P encs now d req head)"

definition commit_one ::
  "platform \<Rightarrow> encodings \<Rightarrow> time \<Rightarrow> db \<Rightarrow> commit_request \<Rightarrow> exn + (db \<times> commit_result)" where
  "commit_one P encs now d req =
     commit_one_from P encs now d req
       (select_head d (cq_stream req) (cq_aggregate_id req))
       (select_revision_row d (cq_stream req) (cq_aggregate_id req) (target_of req))"

section \<open>Committing a batch\<close>

definition is_revision_race :: "constraint \<Rightarrow> bool" where
  "is_revision_race c \<longleftrightarrow> c = Uq_revision \<or> c = Revision_pkey"

text \<open>The \<open>except\<close> clauses of \<open>commit\<close>.\<close>

definition commit_error :: "exn \<Rightarrow> eventic_error" where
  "commit_error e =
     (case e of
        Eventic x \<Rightarrow> x
      | Integrity c \<Rightarrow> if is_revision_race c then RevisionConflict else StoreError
      | Python _ \<Rightarrow> StoreError)"

definition store_commit ::
  "platform \<Rightarrow> encodings \<Rightarrow> nat \<Rightarrow> time \<Rightarrow> db \<Rightarrow> commit_request list \<Rightarrow>
   (eventic_error + commit_result list) \<times> db" where
  "store_commit P encs max_batch now d requests =
     (if length requests > max_batch then (Inl UsageError, d)
      else
        (case rfold (commit_one P encs now) d requests of
           Inr (d', results) \<Rightarrow> (Inr results, d')
         | Inl e \<Rightarrow> (Inl (commit_error e), d)))"

section \<open>Reading\<close>

text \<open>Reads keep our exceptions and turn every other into \<open>StoreError\<close>.\<close>

definition read_error :: "exn \<Rightarrow> eventic_error" where
  "read_error e = (case e of Eventic x \<Rightarrow> x | _ \<Rightarrow> StoreError)"

definition translate_read :: "exn + 'a \<Rightarrow> exn + 'a" where
  "translate_read m = (case m of Inl e \<Rightarrow> Inl (Eventic (read_error e)) | Inr x \<Rightarrow> Inr x)"

text \<open>A head has no kind column, so \<open>row.get("kind", "change")\<close> is the default.\<close>

definition head_row_to_stored :: "platform \<Rightarrow> head_row \<Rightarrow> exn + stored_revision" where
  "head_row_to_stored P h =
     rbind (column_loads P (hd_state h)) (\<lambda>state.
     rbind (column_loads P (hd_meta h)) (\<lambda>meta.
       Inr \<lparr>sr_stream = hd_stream h, sr_aggregate_id = hd_aggregate_id h,
            sr_revision = hd_revision h, sr_revision_id = hd_revision_id h, sr_kind = ''change'',
            sr_schema_version = hd_schema_version h, sr_meta_version = hd_meta_version h,
            sr_encoding = [], sr_payload = state, sr_digest = hd_digest h, sr_meta = meta,
            sr_committed_at = hd_committed_at h\<rparr>))"

definition log_row_to_stored :: "platform \<Rightarrow> revision_row \<Rightarrow> json \<Rightarrow> exn + stored_revision" where
  "log_row_to_stored P r payload =
     rbind (column_loads P (rv_meta r)) (\<lambda>meta.
       Inr \<lparr>sr_stream = rv_stream r, sr_aggregate_id = rv_aggregate_id r,
            sr_revision = rv_revision r, sr_revision_id = rv_revision_id r, sr_kind = rv_kind r,
            sr_schema_version = rv_schema_version r, sr_meta_version = rv_meta_version r,
            sr_encoding = rv_encoding r, sr_payload = payload, sr_digest = rv_digest r,
            sr_meta = meta, sr_committed_at = rv_committed_at r\<rparr>)"

text \<open>The conversion of a head runs after the \<open>try\<close>, so its exceptions are not translated.\<close>

definition store_head :: "platform \<Rightarrow> db \<Rightarrow> aggregate_key \<Rightarrow> exn + stored_revision option" where
  "store_head P d key =
     (case select_head d (ak_stream key) (ak_id key) of
        None \<Rightarrow> Inr None
      | Some h \<Rightarrow> rbind (head_row_to_stored P h) (\<lambda>r. Inr (Some r)))"

text \<open>
  With a delta encoding the whole read is inside the \<open>try\<close>; otherwise the row's conversion runs after
  it.
\<close>

definition store_revision ::
  "platform \<Rightarrow> encodings \<Rightarrow> db \<Rightarrow> aggregate_key \<Rightarrow> int \<Rightarrow> exn + stored_revision option" where
  "store_revision P encs d key revision =
     (let s = ak_stream key; a = ak_id key in
      if revision < 0 then Inl (Eventic UsageError)
      else
        (case encs s of
           Some (Delta every) \<Rightarrow>
             (let window = select_window d s a (window_start every revision) revision in
              if window = [] \<or> rv_revision (last window) \<noteq> revision then Inr None
              else
                translate_read
                  (rbind (decode_window P revision window) (\<lambda>payload.
                   rbind (log_row_to_stored P (last window) payload) (\<lambda>x. Inr (Some x)))))
         | _ \<Rightarrow>
             (case select_revision_row d s a revision of
                None \<Rightarrow> Inr None
              | Some row \<Rightarrow>
                  rbind (translate_read (decode_log_revision P encs d s a revision)) (\<lambda>payload.
                  rbind (log_row_to_stored P row payload) (\<lambda>x. Inr (Some x))))))"

end
