(* ===== verification/Canonical.thy ===== *)
theory Canonical
  imports Store
begin

text \<open>
  Canonicalization (\<open>src/eventic/canonical.py\<close>): the walks over a model's annotations, canonical bytes
  of a value and the round-trip check.

  A model class is its name; \<open>classes\<close> gives the fields, with their annotations, and the computed fields
  of each.  What a type adapter of Pydantic does with a value is the fields of \<open>adapter\<close>, an argument of
  the definitions that use it; the values themselves are of an arbitrary type.
\<close>

section \<open>Model graphs\<close>

text \<open>
  \<open>Container\<close> is a generic alias whose origin is \<open>list\<close>, \<open>set\<close>, \<open>tuple\<close> or \<open>dict\<close>; \<open>OtherGeneric\<close> any
  other generic alias, such as \<open>frozenset[T]\<close> or \<open>Sequence[T]\<close>.
\<close>

datatype collection = CList | CSet | CTuple | CDict

datatype annotation =
    Secret
  | Plain string
  | Union "annotation list"
  | Annotated annotation
  | ModelRef string
  | Container collection "annotation list"
  | OtherGeneric string "annotation list"

record model_class =
  mc_fields :: "(string \<times> annotation) list"
  mc_computed :: "string list"
  mc_own_annotations :: "annotation list"

type_synonym classes = "(string \<times> model_class) list"

text \<open>How many classes a walk can still enter.\<close>

definition unseen :: "classes \<Rightarrow> string list \<Rightarrow> nat" where
  "unseen G seen = card (fst ` set G - set seen)"

lemma unseen_less: "map_of G m = Some c \<Longrightarrow> m \<notin> set seen \<Longrightarrow> unseen G (m # seen) < unseen G seen"
proof -
  assume "map_of G m = Some c" "m \<notin> set seen"
  then have "m \<in> fst ` set G - set seen" by (force dest: map_of_SomeD)
  then have "fst ` set G - set (m # seen) \<subset> fst ` set G - set seen" by auto
  then show ?thesis unfolding unseen_def by (rule psubset_card_mono [rotated]) simp
qed

section \<open>Secrets\<close>

text \<open>\<open>_annotation_has_secret\<close>, on one annotation and on several, with \<open>_walk_secret\<close> at a model.\<close>

function annotation_has_secret :: "classes \<Rightarrow> string list \<Rightarrow> annotation \<Rightarrow> bool"
  and any_has_secret :: "classes \<Rightarrow> string list \<Rightarrow> annotation list \<Rightarrow> bool" where
  "annotation_has_secret G seen Secret = True"
| "annotation_has_secret G seen (Plain t) = False"
| "annotation_has_secret G seen (Union args) = any_has_secret G seen args"
| "annotation_has_secret G seen (Annotated a) = annotation_has_secret G seen a"
| "annotation_has_secret G seen (ModelRef m) =
     (if m \<in> set seen then False
      else (case map_of G m of
              None \<Rightarrow> False
            | Some c \<Rightarrow> any_has_secret G (m # seen) (map snd (mc_fields c))))"
| "annotation_has_secret G seen (Container k args) = any_has_secret G seen args"
| "annotation_has_secret G seen (OtherGeneric t args) = False"
| "any_has_secret G seen [] = False"
| "any_has_secret G seen (a # as) = (annotation_has_secret G seen a \<or> any_has_secret G seen as)"
  by pat_completeness auto
termination
  by (relation "measures [\<lambda>x. case x of Inl (G, seen, a) \<Rightarrow> unseen G seen | Inr (G, seen, as) \<Rightarrow> unseen G seen,
      \<lambda>x. case x of Inl (G, seen, a) \<Rightarrow> size a | Inr (G, seen, as) \<Rightarrow> size_list size as]")
     (auto intro: unseen_less)

definition walk_secret :: "classes \<Rightarrow> string \<Rightarrow> bool" where
  "walk_secret G m = annotation_has_secret G [] (ModelRef m)"

definition contains_secret :: "classes \<Rightarrow> string \<Rightarrow> bool" where
  "contains_secret G m =
     ((case map_of G m of None \<Rightarrow> False | Some c \<Rightarrow> Secret \<in> set (mc_own_annotations c)) \<or> walk_secret G m)"

text \<open>A secret can be reached from an annotation through the forms the walk knows.\<close>

inductive secret_reachable :: "classes \<Rightarrow> annotation \<Rightarrow> bool" for G where
  here: "secret_reachable G Secret"
| union: "a \<in> set args \<Longrightarrow> secret_reachable G a \<Longrightarrow> secret_reachable G (Union args)"
| annotated: "secret_reachable G a \<Longrightarrow> secret_reachable G (Annotated a)"
| container: "a \<in> set args \<Longrightarrow> secret_reachable G a \<Longrightarrow> secret_reachable G (Container k args)"
| model: "map_of G m = Some c \<Longrightarrow> (f, a) \<in> set (mc_fields c) \<Longrightarrow> secret_reachable G a \<Longrightarrow>
    secret_reachable G (ModelRef m)"

text \<open>The same with a bound on the depth of the path.\<close>

fun parts :: "classes \<Rightarrow> annotation \<Rightarrow> annotation list" where
  "parts G (Union args) = args"
| "parts G (Annotated a) = [a]"
| "parts G (Container k args) = args"
| "parts G (ModelRef m) = (case map_of G m of None \<Rightarrow> [] | Some c \<Rightarrow> map snd (mc_fields c))"
| "parts G _ = []"

fun secret_within :: "classes \<Rightarrow> nat \<Rightarrow> annotation \<Rightarrow> bool" where
  "secret_within G 0 a = False"
| "secret_within G (Suc n) a = (a = Secret \<or> (\<exists>b \<in> set (parts G a). secret_within G n b))"

lemma secret_within_Suc: "secret_within G n a \<Longrightarrow> secret_within G (Suc n) a"
proof (induction n arbitrary: a)
  case (Suc n)
  then show ?case by (metis secret_within.simps(2))
qed simp

lemma secret_within_mono: "secret_within G n a \<Longrightarrow> n \<le> m \<Longrightarrow> secret_within G m a"
  by (induction m) (auto simp: le_Suc_eq simp del: secret_within.simps(2) intro: secret_within_Suc)

lemma secret_reachable_within: "secret_reachable G a \<Longrightarrow> \<exists>n. secret_within G n a"
proof (induction rule: secret_reachable.induct)
  case here
  have "secret_within G (Suc 0) Secret" by simp
  then show ?case ..
next
  case (union a args)
  then obtain n where "secret_within G n a" by blast
  with union have "secret_within G (Suc n) (Union args)" by auto
  then show ?case ..
next
  case (annotated a)
  then obtain n where "secret_within G n a" by blast
  then have "secret_within G (Suc n) (Annotated a)" by simp
  then show ?case ..
next
  case (container a args k)
  then obtain n where "secret_within G n a" by blast
  with container have "secret_within G (Suc n) (Container k args)" by auto
  then show ?case ..
next
  case (model m c f a)
  then obtain n where "secret_within G n a" by blast
  with model have "secret_within G (Suc n) (ModelRef m)" by force
  then show ?case ..
qed

lemma any_has_secret_iff: "any_has_secret G seen as \<longleftrightarrow> (\<exists>a \<in> set as. annotation_has_secret G seen a)"
  by (induction as) auto

text \<open>
  The walk finds every secret although it never enters a class twice on one path: on a shortest path no
  class repeats.
\<close>

lemma walk_finds_secret:
  "secret_within G n a \<Longrightarrow> \<forall>m \<in> set seen. \<not> secret_within G n (ModelRef m) \<Longrightarrow> annotation_has_secret G seen a"
proof (induction n arbitrary: a seen rule: less_induct)
  case (less n)
  have sub: "annotation_has_secret G seen b" if "k < n" "secret_within G k b" for k b
    by (rule less.IH [OF that]) (use less.prems(2) secret_within_mono that(1) in \<open>metis less_imp_le\<close>)
  obtain k where k: "n = Suc k" using less.prems(1) by (cases n) auto
  show ?case
  proof (cases a)
    case (ModelRef m)
    define j where "j = (LEAST j. secret_within G j (ModelRef m))"
    have j: "secret_within G j (ModelRef m)" "j \<le> n"
      unfolding j_def using less.prems(1) ModelRef by (auto intro: LeastI Least_le)
    then obtain i where i: "j = Suc i" by (cases j) auto
    have least: "\<not> secret_within G i (ModelRef m)"
      using i not_less_Least [of i "\<lambda>j. secret_within G j (ModelRef m)"] by (simp add: j_def)
    from j(1) obtain c b where c: "map_of G m = Some c" "b \<in> set (map snd (mc_fields c))" "secret_within G i b"
      by (cases "map_of G m") (auto simp: i)
    have "annotation_has_secret G (m # seen) b"
    proof (rule less.IH [OF _ c(3)])
      show "i < n" using i j(2) by simp
      show "\<forall>x \<in> set (m # seen). \<not> secret_within G i (ModelRef x)"
        using least less.prems(2) secret_within_mono [of G i _ n] i j(2) by auto
    qed
    moreover have "m \<notin> set seen" using less.prems ModelRef by auto
    ultimately show ?thesis using ModelRef c by (auto simp: any_has_secret_iff)
  next
    case (Union args)
    then obtain b where "b \<in> set args" "secret_within G k b" using less.prems(1) k by auto
    with Union sub [of k b] k show ?thesis by (auto simp: any_has_secret_iff)
  next
    case (Annotated b)
    then have "secret_within G k b" using less.prems(1) k by auto
    with Annotated sub [of k b] k show ?thesis by simp
  next
    case (Container c args)
    then obtain b where "b \<in> set args" "secret_within G k b" using less.prems(1) k by auto
    with Container sub [of k b] k show ?thesis by (auto simp: any_has_secret_iff)
  qed (use less.prems(1) k in simp_all)
qed

lemma found_secret_reachable:
  "annotation_has_secret G seen a \<Longrightarrow> secret_reachable G a"
  "any_has_secret G seen as \<Longrightarrow> \<exists>a \<in> set as. secret_reachable G a"
proof (induction G seen a and G seen as rule: annotation_has_secret_any_has_secret.induct)
  case (5 G seen m)
  then show ?case by (auto split: if_splits option.splits intro: secret_reachable.model)
qed (auto intro: secret_reachable.intros)

lemma walk_secret_iff: "walk_secret G m \<longleftrightarrow> secret_reachable G (ModelRef m)"
proof
  assume "secret_reachable G (ModelRef m)"
  then obtain n where "secret_within G n (ModelRef m)" using secret_reachable_within by blast
  from walk_finds_secret [OF this, of "[]"] show "walk_secret G m" by (simp add: walk_secret_def)
qed (unfold walk_secret_def, rule found_secret_reachable)

section \<open>Computed fields\<close>

text \<open>
  Pydantic's \<open>exclude\<close> argument: a field left out, a dictionary of fields, or \<open>__all__\<close> for the members
  of a collection.
\<close>

datatype exclude = ExTrue | ExFields "(string \<times> exclude) list" | ExAll exclude

text \<open>\<open>_walk_annotation\<close>, its loop over the arms of a union, and the loop of \<open>_walk_model\<close> over fields.\<close>

function walk_annotation :: "classes \<Rightarrow> string list \<Rightarrow> annotation \<Rightarrow> exclude option"
  and walk_union :: "classes \<Rightarrow> string list \<Rightarrow> annotation list \<Rightarrow> exclude option"
  and walk_fields :: "classes \<Rightarrow> string list \<Rightarrow> (string \<times> annotation) list \<Rightarrow>
    (string \<times> exclude) list \<Rightarrow> (string \<times> exclude) list" where
  "walk_annotation G seen Secret = None"
| "walk_annotation G seen (Plain t) = None"
| "walk_annotation G seen (Union args) = walk_union G seen args"
| "walk_annotation G seen (Annotated a) = walk_annotation G seen a"
| "walk_annotation G seen (ModelRef m) =
     (if m \<in> set seen then None
      else (case map_of G m of
              None \<Rightarrow> None
            | Some c \<Rightarrow>
                (case walk_fields G (m # seen) (mc_fields c) (map (\<lambda>n. (n, ExTrue)) (mc_computed c)) of
                   [] \<Rightarrow> None
                 | sub \<Rightarrow> Some (ExFields sub))))"
| "walk_annotation G seen (Container k args) =
     (case (k, args) of
        (CDict, _ # v # _) \<Rightarrow> map_option ExAll (walk_annotation G seen v)
      | (CDict, _) \<Rightarrow> None
      | (_, a # _) \<Rightarrow> map_option ExAll (walk_annotation G seen a)
      | (_, []) \<Rightarrow> None)"
| "walk_annotation G seen (OtherGeneric t args) = None"
| "walk_union G seen [] = None"
| "walk_union G seen (a # as) =
     (case walk_annotation G seen a of Some e \<Rightarrow> Some e | None \<Rightarrow> walk_union G seen as)"
| "walk_fields G seen [] ex = ex"
| "walk_fields G seen ((n, a) # fs) ex =
     (case walk_annotation G seen a of
        None \<Rightarrow> walk_fields G seen fs ex
      | Some e \<Rightarrow> walk_fields G seen fs (AList.update n e ex))"
  by pat_completeness auto
termination
  by (relation "measures [\<lambda>x. case x of
        Inl (G, seen, a) \<Rightarrow> unseen G seen
      | Inr (Inl (G, seen, as)) \<Rightarrow> unseen G seen
      | Inr (Inr (G, seen, fs, ex)) \<Rightarrow> unseen G seen,
      \<lambda>x. case x of
        Inl (G, seen, a) \<Rightarrow> size a
      | Inr (Inl (G, seen, as)) \<Rightarrow> size_list size as
      | Inr (Inr (G, seen, fs, ex)) \<Rightarrow> size_list (\<lambda>(n, a). size a) fs]")
     (auto intro: unseen_less)

definition build_exclude_map :: "classes \<Rightarrow> string \<Rightarrow> (string \<times> exclude) list" where
  "build_exclude_map G m =
     (case walk_annotation G [] (ModelRef m) of Some (ExFields ex) \<Rightarrow> ex | _ \<Rightarrow> [])"

section \<open>Canonical bytes of a value\<close>

record 'v adapter =
  ad_dump :: "(string \<times> exclude) list \<Rightarrow> 'v \<Rightarrow> exn + json"
  ad_validate_json :: "string \<Rightarrow> exn + 'v"

definition canonicalize :: "platform \<Rightarrow> 'v adapter \<Rightarrow> (string \<times> exclude) list \<Rightarrow> 'v \<Rightarrow> exn + string" where
  "canonicalize P A ex v = rbind (ad_dump A ex v) (py_canonical_bytes P)"

text \<open>\<open>_first_divergence\<close>, with its loops over keys and positions.\<close>

lemma size_member: "map_of d k = Some v \<Longrightarrow> size v < size (JObj d)"
  by (induction d) (auto split: if_splits)

function first_divergence :: "json \<Rightarrow> json \<Rightarrow> string"
  and divergence_keys :: "doc \<Rightarrow> doc \<Rightarrow> string list \<Rightarrow> string"
  and divergence_items :: "nat \<Rightarrow> json list \<Rightarrow> json list \<Rightarrow> string" where
  "first_divergence a b =
     (case (a, b) of
        (JObj d, JObj e) \<Rightarrow> divergence_keys d e (sort (remdups (keys d @ keys e)))
      | (JList xs, JList ys) \<Rightarrow> divergence_items 0 xs ys
      | _ \<Rightarrow> if py_eq a b then [] else ''/<scalar>'')"
| "divergence_keys d e [] = []"
| "divergence_keys d e (k # ks) =
     (case map_of d k of
        None \<Rightarrow> CHR ''/'' # k
      | Some v \<Rightarrow>
          (case map_of e k of
             None \<Rightarrow> CHR ''/'' # k
           | Some w \<Rightarrow>
               if \<not> py_eq v w then CHR ''/'' # k @ first_divergence v w else divergence_keys d e ks))"
| "divergence_items i [] ys = (if ys = [] then [] else CHR ''/'' # show_nat i)"
| "divergence_items i (x # xs) [] = CHR ''/'' # show_nat (i + length (x # xs))"
| "divergence_items i (x # xs) (y # ys) =
     (if \<not> py_eq x y then CHR ''/'' # show_nat i @ first_divergence x y
      else divergence_items (i + 1) xs ys)"
  by pat_completeness auto
termination
  by (relation "measures [\<lambda>x. case x of
        Inl (a, b) \<Rightarrow> 2 * size a + 1
      | Inr (Inl (d, e, ks)) \<Rightarrow> 2 * size (JObj d)
      | Inr (Inr (i, xs, ys)) \<Rightarrow> 2 * size (JList xs),
      \<lambda>x. case x of Inr (Inl (d, e, ks)) \<Rightarrow> length ks | _ \<Rightarrow> 0]")
     (auto dest: size_member)

definition verify_payload :: "platform \<Rightarrow> 'v adapter \<Rightarrow> (string \<times> exclude) list \<Rightarrow> string \<Rightarrow> exn + unit" where
  "verify_payload P A ex payload =
     rbind (ad_validate_json A payload) (\<lambda>v.
     rbind (canonicalize P A ex v) (\<lambda>again.
       if again = payload then Inr ()
       else
         rbind (bytes_loads P payload) (\<lambda>a.
         rbind (bytes_loads P again) (\<lambda>b.
           Inl (Eventic (UndecodableRevision (Some (AtPointer (first_divergence a b)))))))))"

section \<open>Properties\<close>

text \<open>
  C22: Secrets are found wherever the walk looks: a model is rejected by the walk exactly when a
  \<open>SecretStr\<close> can be reached through fields, unions, \<open>Annotated\<close> and the arguments of lists, sets, tuples
  and dictionaries, at any depth and through recursive models; the walk always ends.
\<close>

theorem walk_secret_is_reachability: "walk_secret G m \<longleftrightarrow> secret_reachable G (ModelRef m)"
  by (rule walk_secret_iff)

text \<open>
  The walk does not look into other generic types: a model whose only secret is inside, say, a
  \<open>frozenset\<close> is accepted, whatever the secret's depth.
\<close>

theorem secret_in_other_generic_is_missed:
  "\<not> contains_secret [(m, \<lparr>mc_fields = [(f, OtherGeneric t [Secret])], mc_computed = [], mc_own_annotations = []\<rparr>)] m"
  by (simp add: contains_secret_def walk_secret_def)

text \<open>
  The exclusion of one arm of a union is applied to every arm: when the first arm has a computed
  field whose name is a stored field of the second, the exclusion for the union leaves that name out
  without telling the arms apart.
\<close>

theorem union_exclusion_ignores_the_arm:
  assumes "a \<noteq> b" "x \<in> set (mc_computed A)" "\<forall>(f, t) \<in> set (mc_fields A). t = Plain ''str''"
    and "(x, t) \<in> set (mc_fields B)"
  shows "\<exists>ex. walk_annotation [(a, A), (b, B)] [] (Union [ModelRef a, ModelRef b]) = Some (ExFields ex) \<and>
    (x, ExTrue) \<in> set ex"
proof -
  have "walk_fields G s fs ex = ex" if "\<forall>(f, t) \<in> set fs. t = Plain ''str''" for G s fs ex
    using that by (induction fs arbitrary: ex) auto
  from this [OF assms(3)] have "walk_annotation [(a, A), (b, B)] [] (ModelRef a) =
      (case map (\<lambda>n. (n, ExTrue)) (mc_computed A) of [] \<Rightarrow> None | sub \<Rightarrow> Some (ExFields sub))"
    by simp
  moreover obtain y ys where ys: "map (\<lambda>n. (n, ExTrue)) (mc_computed A) = y # ys"
    using assms(2) by (cases "mc_computed A") auto
  moreover have "(x, ExTrue) \<in> set (map (\<lambda>n. (n, ExTrue)) (mc_computed A))" using assms(2) by auto
  ultimately show ?thesis by simp
qed

lemma union_exclusion_ignores_the_arm_witness:
  "\<exists>ex. walk_annotation
     [(''Circle'', \<lparr>mc_fields = [(''r'', Plain ''str'')], mc_computed = [''area''], mc_own_annotations = []\<rparr>),
      (''Plot'', \<lparr>mc_fields = [(''area'', Plain ''str'')], mc_computed = [], mc_own_annotations = []\<rparr>)] []
     (Union [ModelRef ''Circle'', ModelRef ''Plot'']) = Some (ExFields ex) \<and> (''area'', ExTrue) \<in> set ex"
  by (rule union_exclusion_ignores_the_arm [where t = "Plain ''str''"]) simp_all

end
