(* ===== verification/Evolution.thy ===== *)
theory Evolution
  imports Wire
begin

text \<open>
  Schema evolution (\<open>src/eventic/evolution.py\<close>) and the version check of hydration
  (\<open>_upcast_tree\<close> of \<open>src/eventic/hydration.py\<close>).

  An upcaster is a deterministic function on JSON trees that may raise; the chain is the declared map from
  versions to upcasters.  \<open>upcast\<close> follows each upcaster's own \<open>to_version\<close> without checking it, so it
  may run forever on a declaration that was not validated: it is a partial function, \<open>None\<close> being the
  run that does not return.
\<close>

record upcaster =
  up_from :: int
  up_to :: int
  up_fn :: "json \<Rightarrow> exn + json"

type_synonym chain = "int \<rightharpoonup> upcaster"

definition make_upcaster :: "int \<Rightarrow> int \<Rightarrow> (json \<Rightarrow> exn + json) \<Rightarrow> upcaster" where
  "make_upcaster from_version to_version fn = \<lparr>up_from = from_version, up_to = to_version, up_fn = fn\<rparr>"

function validate_chain :: "chain \<Rightarrow> int \<Rightarrow> int \<Rightarrow> eventic_error + unit" where
  "validate_chain ups version to_version =
     (if version < to_version then
        (case ups version of
           None \<Rightarrow> Inl IncompleteUpcasterChain
         | Some u \<Rightarrow>
             if up_to u \<noteq> version + 1 then Inl IncompleteUpcasterChain
             else validate_chain ups (up_to u) to_version)
      else Inr ())"
  by pat_completeness auto
termination
  by (relation "measure (\<lambda>(ups, version, to_version). nat (to_version - version))") auto

declare validate_chain.simps [simp del]

partial_function (option) upcast :: "chain \<Rightarrow> json \<Rightarrow> int \<Rightarrow> int \<Rightarrow> (exn + json) option" where
  "upcast ups tree version to_version =
     (if version < to_version then
        (case ups version of
           None \<Rightarrow> Some (Inl (Eventic IncompleteUpcasterChain))
         | Some u \<Rightarrow>
             (case up_fn u tree of
                Inl e \<Rightarrow> Some (Inl e)
              | Inr tree' \<Rightarrow> upcast ups tree' (up_to u) to_version))
      else Some (Inr tree))"

text \<open>
  \<open>_upcast_tree\<close>; the versions named by \<open>UndecodableRevision\<close> are its attributes.
\<close>

definition upcast_tree :: "json \<Rightarrow> int \<Rightarrow> int \<Rightarrow> chain \<Rightarrow> (exn + json) option" where
  "upcast_tree tree from_version to_version ups =
     (if from_version > to_version then Some (Inl (Eventic (UndecodableRevision (Some (Versions from_version to_version)))))
      else if from_version = to_version then Some (Inr tree)
      else upcast ups tree from_version to_version)"

section \<open>Validated chains\<close>

text \<open>A chain is complete between two versions when every version below the last leads to the next.\<close>

definition complete_chain :: "chain \<Rightarrow> int \<Rightarrow> int \<Rightarrow> bool" where
  "complete_chain ups from_version to_version \<longleftrightarrow>
     (\<forall>v \<in> {from_version..<to_version}. case ups v of None \<Rightarrow> False | Some u \<Rightarrow> up_to u = v + 1)"

lemma complete_chain_step:
  "v < t \<Longrightarrow> complete_chain ups v t \<longleftrightarrow>
     (case ups v of None \<Rightarrow> False | Some u \<Rightarrow> up_to u = v + 1) \<and> complete_chain ups (v + 1) t"
proof -
  assume "v < t"
  then have "{v..<t} = insert v {v + 1..<t}" by auto
  then show ?thesis by (simp add: complete_chain_def)
qed

lemma validate_chain_iff: "validate_chain ups v t = Inr () \<longleftrightarrow> complete_chain ups v t"
proof (induction ups v t rule: validate_chain.induct)
  case (1 ups v t)
  show ?case
  proof (cases "v < t")
    case True
    with 1 show ?thesis
      by (subst validate_chain.simps) (auto simp: complete_chain_step split: option.split)
  next
    case False
    then show ?thesis by (subst validate_chain.simps) (simp add: complete_chain_def)
  qed
qed

lemma validate_chain_error: "validate_chain ups v t = Inr () \<or> validate_chain ups v t = Inl IncompleteUpcasterChain"
  by (induction ups v t rule: validate_chain.induct)
     (subst (1 2) validate_chain.simps, auto split: option.split)

lemma complete_chain_mono: "complete_chain ups a t \<Longrightarrow> a \<le> v \<Longrightarrow> w \<le> t \<Longrightarrow> complete_chain ups v w"
  by (auto simp: complete_chain_def)

text \<open>What upcasting along a complete chain computes: the upcasters of the versions passed, in order.\<close>

fun apply_chain :: "chain \<Rightarrow> json \<Rightarrow> int list \<Rightarrow> exn + json" where
  "apply_chain ups tree [] = Inr tree"
| "apply_chain ups tree (v # vs) =
     (case ups v of
        None \<Rightarrow> Inl (Eventic IncompleteUpcasterChain)
      | Some u \<Rightarrow> rbind (up_fn u tree) (\<lambda>tree'. apply_chain ups tree' vs))"

lemma upcast_chain:
  "complete_chain ups v t \<Longrightarrow> upcast ups tree v t = Some (apply_chain ups tree [v..t - 1])"
proof (induction "nat (t - v)" arbitrary: v tree)
  case 0
  then show ?case by (subst upcast.simps) simp
next
  case (Suc n)
  then have lt: "v < t" by simp
  then obtain u where u: "ups v = Some u" "up_to u = v + 1" "complete_chain ups (v + 1) t"
    using Suc.prems by (auto simp: complete_chain_step split: option.splits)
  have "upcast ups tree' (v + 1) t = Some (apply_chain ups tree' [v + 1..t - 1])" for tree'
    by (rule Suc.hyps(1)) (use Suc.hyps(2) u(3) in simp_all)
  moreover have "[v..t - 1] = v # [v + 1..t - 1]" using lt by (simp add: upto_rec1)
  ultimately show ?case
    using lt u by (subst upcast.simps) (simp add: rbind_def split: sum.split)
qed

lemma apply_chain_append:
  "apply_chain ups tree (vs @ ws) = rbind (apply_chain ups tree vs) (\<lambda>t. apply_chain ups t ws)"
proof (induction vs arbitrary: tree)
  case (Cons v vs)
  then show ?case by (auto simp: rbind_def split: option.split sum.split)
qed simp

section \<open>Properties\<close>

text \<open>
  C21: A declaration whose chain was validated from version 1 can read every stored version up to its own:
  upcasting returns, and what it returns is the result of the declared upcasters of the versions in
  between, applied in order; upcasting in two stages gives the same.
\<close>

theorem validated_chains_upcast:
  assumes "validate_chain ups 1 t = Inr ()" "1 \<le> v" "v \<le> w" "w \<le> t"
  shows "upcast_tree tree v t ups = Some (apply_chain ups tree [v..t - 1]) \<and>
    upcast_tree tree v t ups =
      (case upcast_tree tree v w ups of
         Some (Inr tree') \<Rightarrow> upcast_tree tree' w t ups
       | r \<Rightarrow> r)"
proof -
  have "complete_chain ups 1 t" using assms(1) by (simp add: validate_chain_iff)
  then have whole [simp]: "upcast_tree x a b ups = Some (apply_chain ups x [a..b - 1])" if "1 \<le> a" "a \<le> b" "b \<le> t" for x a b
    using upcast_chain [OF complete_chain_mono [of ups 1 t a b]] that by (auto simp: upcast_tree_def)
  have "[v..t - 1] = [v..w - 1] @ [w..t - 1]" using assms upto_split1 [of v w "t - 1"] by (cases "w = t") auto
  then show ?thesis
    using assms by (simp add: apply_chain_append rbind_def split: sum.split)
qed

definition sample_chain :: chain where
  "sample_chain = [1 \<mapsto> make_upcaster 1 2 (\<lambda>t. Inr (JList [t])), 2 \<mapsto> make_upcaster 2 3 (\<lambda>t. Inr (JList [t, t]))]"

lemma validated_chains_upcast_witness:
  "upcast_tree JNull 1 3 sample_chain = Some (Inr (JList [JList [JNull], JList [JNull]]))"
proof -
  have "validate_chain sample_chain 1 3 = Inr ()"
    by (subst validate_chain.simps, simp add: sample_chain_def make_upcaster_def)+
  from validated_chains_upcast [OF this, of 1 1 JNull] show ?thesis
    by (simp add: upto.simps sample_chain_def make_upcaster_def)
qed

text \<open>
  A row written by a newer declaration is never silently reinterpreted: reading it fails with
  \<open>UndecodableRevision\<close> naming both versions, whatever the chain.
\<close>

theorem newer_versions_are_undecodable:
  assumes "declared < stored"
  shows "upcast_tree tree stored declared ups = Some (Inl (Eventic (UndecodableRevision (Some (Versions stored declared)))))"
  using assms by (simp add: upcast_tree_def)

lemma newer_versions_are_undecodable_witness:
  "upcast_tree JNull 2 1 Map.empty = Some (Inl (Eventic (UndecodableRevision (Some (Versions 2 1)))))"
  by (rule newer_versions_are_undecodable) simp

end
