(* ===== verification/Encoding_Facts.thy ===== *)
theory Encoding_Facts
  imports Encodings
begin

text \<open>
  The contract of a document encoding as a locale, and its two implementations.

  \<open>document_encoding\<close> says that decoding what was encoded against the same base gives a document with
  the same canonical form, for the pairs of base and document in \<open>exact\<close>; what the store needs of an
  encoding is proved from that.  \<open>snapshot/1\<close> is exact on all pairs.  \<open>delta/1\<close> leaves out a key whose
  old and new values are equal in Python, so it is exact where Python's \<open>==\<close> does not identify values
  with different canonical forms (\<open>delta_exact\<close>), and only there.
\<close>

section \<open>The contract\<close>

locale document_encoding =
  fixes encode :: "json \<Rightarrow> json option \<Rightarrow> int option \<Rightarrow> py_error + json"
    and decode :: "json \<Rightarrow> json option \<Rightarrow> py_error + json"
    and exact :: "doc \<Rightarrow> doc \<Rightarrow> bool"
  assumes encode_total: "\<exists>p. encode (JObj d) (Some (JObj b)) r = Inr (JObj p)"
    and decode_encode:
      "json_ok (JObj d) \<Longrightarrow> json_ok (JObj b) \<Longrightarrow> exact b d \<Longrightarrow>
       encode (JObj d) (Some (JObj b)) r = Inr p \<Longrightarrow>
       \<exists>e. decode p (Some (JObj b)) = Inr (JObj e) \<and> dict_ok e \<and> canon (JObj e) = canon (JObj d)"
begin

text \<open>The document read back has the canonical bytes of the document written.\<close>

lemma read_back:
  assumes "json_ok (JObj d)" "json_ok (JObj b)" "exact b d"
    and "encode (JObj d) (Some (JObj b)) r = Inr p"
  obtains e where "decode p (Some (JObj b)) = Inr (JObj e)" "dict_ok e"
    "canonical_bytes P (JObj e) = canonical_bytes P (JObj d)"
proof -
  obtain e where e: "decode p (Some (JObj b)) = Inr (JObj e)" "dict_ok e" "canon (JObj e) = canon (JObj d)"
    using decode_encode [OF assms] by blast
  have "canonical_bytes P (JObj e) = canonical_bytes P (JObj d)"
    by (metis canonical_bytes_canon e(3))
  with e that show ?thesis by blast
qed

text \<open>A whole history, each document encoded against the one before, is decoded document by document.\<close>

lemma decode_never_fails:
  assumes "json_ok (JObj d)" "json_ok (JObj b)" "exact b d"
  shows "\<exists>p e. encode (JObj d) (Some (JObj b)) r = Inr p \<and> decode p (Some (JObj b)) = Inr (JObj e)"
  using encode_total [of d b r] read_back [OF assms] by metis

end

section \<open>Snapshots\<close>

interpretation snapshot: document_encoding snapshot_encode snapshot_decode "\<lambda>b d. True"
  by unfold_locales (auto simp: snapshot_encode_def snapshot_decode_def)

section \<open>Deltas\<close>

text \<open>No key keeps its value under \<open>==\<close> while its canonical form changes.\<close>

definition delta_exact :: "doc \<Rightarrow> doc \<Rightarrow> bool" where
  "delta_exact b d \<longleftrightarrow>
     list_all (\<lambda>(k, v). case map_of b k of
         None \<Rightarrow> True
       | Some old \<Rightarrow> py_eq old v \<longrightarrow> canon old = canon v) d"

definition changed_key :: "doc \<Rightarrow> string \<Rightarrow> json \<Rightarrow> bool" where
  "changed_key b k v = (case map_of b k of None \<Rightarrow> True | Some old \<Rightarrow> \<not> py_eq old v)"

lemma delta_changed_alt: "delta_changed d b = filter (\<lambda>(k, v). changed_key b k v) d"
  by (simp add: delta_changed_def changed_key_def split_def)

lemma dict_ok_filter: "dict_ok d \<Longrightarrow> dict_ok (filter P d)"
  by (induction d) auto

lemma map_of_filter_pairs:
  "dict_ok d \<Longrightarrow> map_of (filter (\<lambda>(k, v). P k v) d) k =
     (case map_of d k of None \<Rightarrow> None | Some v \<Rightarrow> if P k v then Some v else None)"
proof (induction d)
  case (Cons m d)
  obtain k' v where m: "m = (k', v)" by fastforce
  with Cons.prems have "map_of d k' = None" by (simp add: map_of_eq_None_iff)
  with Cons m show ?case by (auto split: option.splits)
qed simp

lemma pop_tombstones_strings:
  "pop_tombstones (map JStr ks) d = Inr (foldl (\<lambda>d k. AList.delete k d) d ks)"
  by (induction ks arbitrary: d) auto

lemma map_of_deletes:
  "map_of (foldl (\<lambda>d k. AList.delete k d) d ks) k = (if k \<in> set ks then None else map_of d k)"
  by (induction ks arbitrary: d) (auto simp: dict_simps)

lemma dict_ok_deletes: "dict_ok d \<Longrightarrow> dict_ok (foldl (\<lambda>d k. AList.delete k d) d ks)"
  by (induction ks arbitrary: d) (auto simp: distinct_delete)

lemma map_of_set_changes:
  "dict_ok changes \<Longrightarrow> map_of (set_changes changes d) k =
     (case map_of changes k of None \<Rightarrow> map_of d k | Some v \<Rightarrow> Some v)"
proof (induction changes arbitrary: d)
  case (Cons m changes)
  obtain k' v where m: "m = (k', v)" by fastforce
  with Cons.prems have fresh: "map_of changes k' = None" by (simp add: map_of_eq_None_iff)
  have "map_of (set_changes (m # changes) d) k =
      (case map_of changes k of None \<Rightarrow> map_of (AList.update k' v d) k | Some v \<Rightarrow> Some v)"
    using Cons.IH [of "AList.update k' v d"] Cons.prems m by (simp add: set_changes_def)
  with fresh m show ?case by (auto simp: dict_simps split: option.splits)
qed (simp add: set_changes_def)

lemma dict_ok_set_changes: "dict_ok d \<Longrightarrow> dict_ok (set_changes changes d)"
  unfolding set_changes_def
  by (induction changes arbitrary: d) (auto simp: distinct_update)

text \<open>What decoding a delta computes: the changed keys over the base without the removed ones.\<close>

definition delta_result :: "doc \<Rightarrow> doc \<Rightarrow> doc" where
  "delta_result d b =
     set_changes (delta_changed d b) (foldl (\<lambda>d k. AList.delete k d) b (delta_removed d b))"

lemma delta_decode_encode:
  "delta_decode (JObj (delta_payload every d b r)) (Some (JObj b)) = Inr (JObj (delta_result d b))"
  by (simp add: delta_decode_def delta_payload_def pop_tombstones_strings delta_result_def)

lemma dict_ok_delta_result: "dict_ok b \<Longrightarrow> dict_ok (delta_result d b)"
  by (simp add: delta_result_def dict_ok_set_changes dict_ok_deletes)

lemma map_of_delta_result:
  assumes "dict_ok d"
  shows "map_of (delta_result d b) k =
    (case map_of d k of
       None \<Rightarrow> None
     | Some v \<Rightarrow> if changed_key b k v then Some v else map_of b k)"
proof -
  have "map_of (delta_changed d b) k =
      (case map_of d k of None \<Rightarrow> None | Some v \<Rightarrow> if changed_key b k v then Some v else None)"
    using assms by (simp add: delta_changed_alt map_of_filter_pairs)
  moreover have "k \<in> set (delta_removed d b) \<longleftrightarrow> map_of d k = None \<and> map_of b k \<noteq> None"
    by (auto simp: delta_removed_def map_of_eq_None_iff)
  ultimately show ?thesis
    unfolding delta_result_def
    using map_of_set_changes [of "delta_changed d b"] assms
    by (auto simp: dict_ok_filter delta_changed_alt map_of_deletes split: option.splits)
qed

text \<open>Decoding an encoded document restores its canonical form exactly when the pair is exact.\<close>

lemma delta_result_canon_iff:
  assumes "dict_ok d" "dict_ok b"
  shows "canon (JObj (delta_result d b)) = canon (JObj d) \<longleftrightarrow> delta_exact b d"
proof
  assume eq: "canon (JObj (delta_result d b)) = canon (JObj d)"
  have "canon old = canon v" if "(k, v) \<in> set d" "map_of b k = Some old" "py_eq old v" for k v old
  proof -
    have "map_of d k = Some v" using that(1) assms(1) by simp
    moreover have "\<not> changed_key b k v" using that by (simp add: changed_key_def)
    ultimately have "map_option canon (map_of b k) = Some (canon v)"
      using canon_obj_eqD [OF dict_ok_delta_result [OF assms(2)] assms(1) eq, of k]
      by (simp add: map_of_delta_result [OF assms(1)])
    with that(2) show ?thesis by simp
  qed
  then show "delta_exact b d"
    by (auto simp: delta_exact_def list_all_iff split: option.splits)
next
  assume exact: "delta_exact b d"
  show "canon (JObj (delta_result d b)) = canon (JObj d)"
  proof (rule canon_obj_eqI [OF dict_ok_delta_result [OF assms(2)] assms(1)])
    fix k
    show "map_option canon (map_of (delta_result d b) k) = map_option canon (map_of d k)"
    proof (cases "map_of d k")
      case (Some v)
      then have "(k, v) \<in> set d" by (rule map_of_SomeD)
      with exact Some show ?thesis
        by (auto simp: map_of_delta_result [OF assms(1)] changed_key_def delta_exact_def
            list_all_iff split: option.splits)
    qed (simp add: map_of_delta_result [OF assms(1)])
  qed
qed

interpretation delta: document_encoding "delta_encode every" delta_decode delta_exact for every :: int
proof
  show "\<exists>p. delta_encode every (JObj d) (Some (JObj b)) r = Inr (JObj p)" for d b r
    by (simp add: delta_encode_def)
  show "\<exists>e. delta_decode p (Some (JObj b)) = Inr (JObj e) \<and> dict_ok e \<and> canon (JObj e) = canon (JObj d)"
    if "json_ok (JObj d)" "json_ok (JObj b)" "delta_exact b d"
      "delta_encode every (JObj d) (Some (JObj b)) r = Inr p" for d b r p
  proof -
    have p: "p = JObj (delta_payload every d b r)" using that(4) by (simp add: delta_encode_def)
    show ?thesis
      using that(1-3) delta_result_canon_iff [of d b] dict_ok_delta_result [of b d]
      by (auto simp: p delta_decode_encode)
  qed
qed

text \<open>Writing the same document again is exact.\<close>

lemma delta_exact_self: "dict_ok d \<Longrightarrow> delta_exact d d"
  by (auto simp: delta_exact_def list_all_iff split: option.splits dest: eq_key_imp_eq_value)

end
