(* ===== verification/Store_Effects.thy ===== *)
theory Store_Effects
  imports Store Encoding_Facts
begin

text \<open>
  What the statements and one commit do to the tables: which rows they add, which they keep, and what
  later reads of the changed database return.
\<close>

section \<open>Frame facts\<close>

lemma db_revisions_frame [simp]:
  "db_revisions (upsert_head d h) = db_revisions d"
  "db_revisions (delete_heads d st) = db_revisions d"
  "db_revisions (claim_mark_leased d ids t) = db_revisions d"
  by (simp_all add: upsert_head_def delete_heads_def claim_mark_leased_def)

lemma db_revisions_fingerprint [simp]: "db_revisions (upsert_fingerprint d f) = db_revisions d"
  by (simp add: upsert_fingerprint_def split: option.split)

lemma db_heads_frame [simp]:
  "db_heads (upsert_head d h) = upsert_head_rows h (db_heads d)"
  "db_heads (claim_mark_leased d ids t) = db_heads d"
  by (simp_all add: upsert_head_def claim_mark_leased_def)

lemma db_heads_fingerprint [simp]: "db_heads (upsert_fingerprint d f) = db_heads d"
  by (simp add: upsert_fingerprint_def split: option.split)

lemma db_intents_frame [simp]:
  "db_intents (upsert_head d h) = db_intents d"
  "db_intents (delete_heads d st) = db_intents d"
  by (simp_all add: upsert_head_def delete_heads_def)

lemma db_intents_fingerprint [simp]: "db_intents (upsert_fingerprint d f) = db_intents d"
  by (simp add: upsert_fingerprint_def split: option.split)

lemma db_schemas_frame [simp]:
  "db_schemas (upsert_head d h) = db_schemas d"
  "db_schemas (delete_heads d st) = db_schemas d"
  "db_schemas (claim_mark_leased d ids t) = db_schemas d"
  by (simp_all add: upsert_head_def delete_heads_def claim_mark_leased_def)

text \<open>Reads of the log look at the log only.\<close>

lemma log_reads_cong:
  assumes "db_revisions d = db_revisions d'"
  shows "select_revision_row d = select_revision_row d'"
    and "select_window d = select_window d'"
    and "decode_log_revision P encs d = decode_log_revision P encs d'"
proof -
  show 1: "select_revision_row d = select_revision_row d'"
    by (simp add: fun_eq_iff select_revision_row_def assms)
  show 2: "select_window d = select_window d'"
    by (simp add: fun_eq_iff select_window_def assms)
  show "decode_log_revision P encs d = decode_log_revision P encs d'"
    by (intro ext) (simp only: decode_log_revision_def 1 2)
qed

lemma head_reads_cong: "db_heads d = db_heads d' \<Longrightarrow> select_head d = select_head d'"
  by (simp add: fun_eq_iff select_head_def)

section \<open>Inserting into the log\<close>

lemma insert_revision_Inr:
  "insert_revision d r = Inr d' \<longleftrightarrow>
     revision_violation d r = None \<and> d' = d\<lparr>db_revisions := db_revisions d @ [r]\<rparr>"
  by (auto simp: insert_revision_def split: option.splits)

lemma revision_violation_None:
  "revision_violation d r = None \<longleftrightarrow>
     rv_revision r \<ge> 0 \<and> (rv_kind r = ''create'' \<or> rv_kind r = ''change'') \<and>
     rv_schema_version r \<ge> 1 \<and> (rv_encoding r = snapshot_id \<or> rv_encoding r = delta_id) \<and>
     ((rv_revision r = 0) = (rv_kind r = ''create'')) \<and> rv_stream r \<noteq> [] \<and>
     rv_revision_id r \<notin> rv_revision_id ` set (db_revisions d) \<and>
     rv_key r \<notin> rv_key ` set (db_revisions d)"
  by (simp add: revision_violation_def)

text \<open>A row of another aggregate, or of a later revision, does not change what a revision decodes to.\<close>

lemma window_append_other:
  assumes "\<not> (of_aggregate s a r \<and> rv_revision r \<le> n)" "db_revisions d' = db_revisions d @ [r]"
  shows "select_window d' s a st n = select_window d s a st n"
  using assms by (auto simp: select_window_def)

lemma revision_row_append_other:
  assumes "\<not> (of_aggregate s a r \<and> rv_revision r = n)" "db_revisions d' = db_revisions d @ [r]"
  shows "select_revision_row d' s a n = select_revision_row d s a n"
  using assms by (auto simp: select_revision_row_def find_append split: option.split)

lemma decode_append_other:
  assumes "\<not> (of_aggregate s a r \<and> rv_revision r \<le> n)" "db_revisions d' = db_revisions d @ [r]"
  shows "decode_log_revision P encs d' s a n = decode_log_revision P encs d s a n"
proof -
  have "select_revision_row d' s a n = select_revision_row d s a n"
    by (rule revision_row_append_other [OF _ assms(2)]) (use assms(1) in auto)
  moreover have "select_window d' s a st n = select_window d s a st n" for st
    by (rule window_append_other [OF assms])
  ultimately show ?thesis by (simp only: decode_log_revision_def)
qed

section \<open>Writing a head\<close>

lemma select_head_upsert:
  "select_head (upsert_head d h) s a =
     (if hd_stream h = s \<and> hd_aggregate_id h = a then Some h else select_head d s a)"
proof -
  have "List.find (\<lambda>g. hd_stream g = s \<and> hd_aggregate_id g = a) (upsert_head_rows h gs) =
      (if hd_stream h = s \<and> hd_aggregate_id h = a then Some h
       else List.find (\<lambda>g. hd_stream g = s \<and> hd_aggregate_id g = a) gs)" for gs
    by (induction gs) auto
  then show ?thesis by (simp add: select_head_def)
qed

lemma set_upsert_head_rows:
  "distinct (map hd_aggregate gs) \<Longrightarrow>
   set (upsert_head_rows h gs) = insert h {g \<in> set gs. hd_aggregate g \<noteq> hd_aggregate h}"
proof (induction gs)
  case (Cons g gs)
  show ?case
  proof (cases "hd_aggregate g = hd_aggregate h")
    case True
    then have "hd_aggregate x \<noteq> hd_aggregate h" if "x \<in> set gs" for x
      using Cons.prems that True by (auto simp: image_iff)
    with True show ?thesis by (auto simp: hd_aggregate_def)
  next
    case False
    with Cons show ?thesis by (auto simp: hd_aggregate_def)
  qed
qed simp

lemma keys_upsert_head_rows:
  "hd_aggregate ` set (upsert_head_rows h gs) = insert (hd_aggregate h) (hd_aggregate ` set gs)"
  by (induction gs) (auto simp: hd_aggregate_def)

lemma distinct_upsert_head_rows:
  "distinct (map hd_aggregate gs) \<Longrightarrow> distinct (map hd_aggregate (upsert_head_rows h gs))"
proof (induction gs)
  case (Cons g gs)
  then show ?case
    using keys_upsert_head_rows [of h gs] by (auto simp: hd_aggregate_def)
qed simp

lemma select_head_Some:
  "select_head d s a = Some h \<Longrightarrow> h \<in> set (db_heads d) \<and> hd_stream h = s \<and> hd_aggregate_id h = a"
  unfolding select_head_def by (auto dest: find_SomeD)

lemma select_head_unique:
  assumes "distinct (map hd_aggregate (db_heads d))" "h \<in> set (db_heads d)"
  shows "select_head d (hd_stream h) (hd_aggregate_id h) = Some h"
  unfolding select_head_def
  by (rule find_unique [OF assms]) (simp_all add: hd_aggregate_def)

lemma select_revision_row_Some:
  "select_revision_row d s a n = Some r \<Longrightarrow>
     r \<in> set (db_revisions d) \<and> rv_stream r = s \<and> rv_aggregate_id r = a \<and> rv_revision r = n"
  unfolding select_revision_row_def of_aggregate_def by (auto dest: find_SomeD)

lemma select_revision_row_unique:
  assumes "distinct (map rv_key (db_revisions d))" "r \<in> set (db_revisions d)"
  shows "select_revision_row d (rv_stream r) (rv_aggregate_id r) (rv_revision r) = Some r"
  unfolding select_revision_row_def
  by (rule find_unique [OF assms]) (simp_all add: of_aggregate_def rv_key_def)

lemma select_revision_row_None:
  "select_revision_row d s a n = None \<longleftrightarrow> (s, a, n) \<notin> rv_key ` set (db_revisions d)"
  by (auto simp: select_revision_row_def find_None of_aggregate_def rv_key_def image_iff)

section \<open>Inserting intents\<close>

lemma insert_intent_Inr:
  "insert_intent d i = Inr d' \<longleftrightarrow>
     intent_violation d i = None \<and> d' = d\<lparr>db_intents := db_intents d @ [i]\<rparr>"
  by (auto simp: insert_intent_def split: option.splits)

lemma insert_intents_Inr:
  "insert_intents P now is d = Inr d' \<Longrightarrow>
     d' = d\<lparr>db_intents := db_intents d @ map (new_intent_row P now) is\<rparr>"
proof (induction "is" arbitrary: d)
  case (Cons i "is")
  then obtain d1 where d1: "insert_intent d (new_intent_row P now i) = Inr d1"
    and rest: "insert_intents P now is d1 = Inr d'" by auto
  from Cons.IH [OF rest] d1 show ?case by (auto simp: insert_intent_Inr)
qed simp

section \<open>The append\<close>

text \<open>Everything a successful append has computed and written.\<close>

lemma append_revision_Inr:
  assumes "append_revision P encs now d req head = Inr (d', res)"
  obtains physical row_encoding meta doc d1 where
    "physical_payload P encs req head = Inr (physical, row_encoding)"
    "bytes_loads P (cq_meta req) = Inr meta"
    "revision_violation d (new_revision_row P now req physical row_encoding meta) = None"
    "d1 = d\<lparr>db_revisions := db_revisions d @ [new_revision_row P now req physical row_encoding meta]\<rparr>"
    "decode_log_revision P encs d1 (cq_stream req) (cq_aggregate_id req) (target_of req) = Inr doc"
    "canonical_bytes P doc = Some (cq_payload req)"
    "db_revisions d' = db_revisions d1"
    "db_heads d' = upsert_head_rows (new_head_row P now req doc meta) (db_heads d)"
    "db_intents d' = db_intents d @ map (new_intent_row P now) (cq_intents req)"
    "res = commit_result_of P now req False"
proof -
  from assms obtain physical row_encoding where
    phys: "physical_payload P encs req head = Inr (physical, row_encoding)"
    unfolding append_revision_def by auto
  let ?row = "\<lambda>meta. new_revision_row P now req physical row_encoding meta"
  from assms phys obtain meta d1 doc bytes d2 where
    meta: "bytes_loads P (cq_meta req) = Inr meta"
    and ins: "insert_revision d (?row meta) = Inr d1"
    and dec: "decode_log_revision P encs d1 (cq_stream req) (cq_aggregate_id req) (target_of req) = Inr doc"
    and bytes: "py_canonical_bytes P doc = Inr bytes" "bytes = cq_payload req"
    and ints: "insert_intents P now (cq_intents req) (upsert_head d1 (new_head_row P now req doc meta)) = Inr d2"
    and fin: "d' = upsert_fingerprint d2 (ledger_row now req)" "res = commit_result_of P now req False"
    unfolding append_revision_def by (auto split: if_splits)
  have d1: "revision_violation d (?row meta) = None"
    "d1 = d\<lparr>db_revisions := db_revisions d @ [?row meta]\<rparr>"
    using ins by (simp_all add: insert_revision_Inr)
  have d2: "d2 = (upsert_head d1 (new_head_row P now req doc meta))
      \<lparr>db_intents := db_intents d1 @ map (new_intent_row P now) (cq_intents req)\<rparr>"
    using insert_intents_Inr [OF ints] by simp
  show ?thesis
  proof (rule that [OF phys meta d1 dec])
    show "canonical_bytes P doc = Some (cq_payload req)"
      using bytes by (auto simp: py_canonical_bytes_def split: option.splits)
  qed (simp_all add: fin d2 d1(2) upsert_head_def)
qed

section \<open>One request\<close>

text \<open>A request either replays an existing row or appends exactly one row at its target.\<close>

lemma commit_one_cases:
  assumes "commit_one P encs now d req = Inr (d', res)"
  obtains
    (replay) row where
      "select_revision_row d (cq_stream req) (cq_aggregate_id req) (target_of req) = Some row"
      "is_identical P row req = Inr True" "res = commit_result_of P now req True"
      "case select_head d (cq_stream req) (cq_aggregate_id req) of
         None \<Rightarrow> upsert_head_from_row P encs d row req = Inr d'
       | Some h \<Rightarrow> if hd_revision h < target_of req
                  then upsert_head_from_row P encs d row req = Inr d' else d' = d"
  | (append)
      "select_revision_row d (cq_stream req) (cq_aggregate_id req) (target_of req) = None"
      "cas_ok req (select_head d (cq_stream req) (cq_aggregate_id req))"
      "append_revision P encs now d req (select_head d (cq_stream req) (cq_aggregate_id req)) = Inr (d', res)"
proof -
  let ?head = "select_head d (cq_stream req) (cq_aggregate_id req)"
  show ?thesis
  proof (cases "select_revision_row d (cq_stream req) (cq_aggregate_id req) (target_of req)")
    case None
    then show ?thesis
      using assms append by (auto simp: commit_one_def commit_one_from_def split: if_splits)
  next
    case (Some row)
    have "rv_revision row = target_of req" using select_revision_row_Some [OF Some] by simp
    with assms Some show ?thesis
      by (intro replay [of row])
        (auto simp: commit_one_def commit_one_from_def split: if_splits option.splits)
  qed
qed

lemma upsert_head_from_row_revisions:
  "upsert_head_from_row P encs d row req = Inr d' \<Longrightarrow>
     db_revisions d' = db_revisions d \<and> db_intents d' = db_intents d \<and> db_schemas d' = db_schemas d"
  by (auto simp: upsert_head_from_row_def)

text \<open>The log only grows, by the row at the target of a request that was not replayed.\<close>

lemma commit_one_log:
  assumes "commit_one P encs now d req = Inr (d', res)"
  shows "(cr_replayed res \<and> db_revisions d' = db_revisions d) \<or>
    (\<not> cr_replayed res \<and> (\<exists>r. db_revisions d' = db_revisions d @ [r] \<and>
       rv_key r = (cq_stream req, cq_aggregate_id req, target_of req) \<and>
       rv_digest r = cq_digest req \<and> rv_revision_id r = request_rid P req))"
  using assms
proof (cases rule: commit_one_cases)
  case (replay row)
  then show ?thesis
    using upsert_head_from_row_revisions [of P encs d row req d']
    by (auto simp: commit_result_of_def split: option.splits if_splits)
next
  case append
  show ?thesis
    by (rule append_revision_Inr [OF append(3)])
      (auto simp: commit_result_of_def new_revision_row_def rv_key_def)
qed

lemma commit_one_prefix:
  "commit_one P encs now d req = Inr (d', res) \<Longrightarrow> prefix (db_revisions d) (db_revisions d')"
  using commit_one_log by fastforce

section \<open>A batch\<close>

lemma store_commit_Inr:
  "store_commit P encs m now d reqs = (Inr rs, d') \<longleftrightarrow>
     length reqs \<le> m \<and> rfold (commit_one P encs now) d reqs = Inr (d', rs)"
  by (auto simp: store_commit_def split: sum.splits prod.splits)

lemma store_commit_Inl:
  "store_commit P encs m now d reqs = (Inl e, d') \<Longrightarrow> d' = d"
  by (auto simp: store_commit_def split: sum.splits prod.splits if_splits)

lemma store_commit_prefix:
  assumes "store_commit P encs m now d reqs = (out, d')"
  shows "prefix (db_revisions d) (db_revisions d')"
proof (cases out)
  case (Inl e)
  with assms store_commit_Inl show ?thesis by fastforce
next
  case (Inr rs)
  with assms have run: "rfold (commit_one P encs now) d reqs = Inr (d', rs)"
    by (simp add: store_commit_Inr)
  show ?thesis
  proof (rule rfold_invariant [where I = "\<lambda>x. prefix (db_revisions d) (db_revisions x)", OF _ _ run])
    show "prefix (db_revisions d) (db_revisions t)"
      if "prefix (db_revisions d) (db_revisions s)" "commit_one P encs now s x = Inr (t, y)" for s x t y
      using that commit_one_prefix prefix_order.trans by blast
  qed simp
qed

end
