(* ===== verification/Decode_Facts.thy ===== *)
theory Decode_Facts
  imports Store_Effects
begin

text \<open>
  What decoding a revision yields: well-formed documents from well-formed rows, the same document from
  every window that reaches back to a checkpoint, and one more delta step when the log has grown by a
  delta row.
\<close>

declare json_ok.simps(6,7) [simp del] json_finite.simps(6,7) [simp del]

section \<open>Parsed values are well formed\<close>

lemma set_update_subset: "set (AList.update k v d) \<subseteq> insert (k, v) (set d)"
  by (induction d) auto

lemma set_foldl_update:
  "set (foldl (\<lambda>d (k, v). AList.update k v d) acc ms) \<subseteq> set acc \<union> set ms"
proof (induction ms arbitrary: acc)
  case (Cons m ms)
  obtain k v where m: "m = (k, v)" by fastforce
  show ?case
    using Cons.IH [of "AList.update k v acc"] set_update_subset [of k v acc] by (auto simp: m)
qed simp

lemma dict_ok_foldl_update:
  "dict_ok acc \<Longrightarrow> dict_ok (foldl (\<lambda>d (k, v). AList.update k v d) acc ms)"
  by (induction ms arbitrary: acc) (auto simp: distinct_update)

lemma json_ok_dict_of: "\<forall>(k, v) \<in> set ms. json_ok v \<Longrightarrow> json_ok (JObj (dict_of ms))"
  using set_foldl_update [of "[]" ms] dict_ok_foldl_update [of "[]" ms]
  by (auto simp: dict_of_def)

lemma scan_atom_ok: "scan_atom P s = Some (v, r) \<Longrightarrow> json_ok v"
  by (auto simp: scan_atom_def split: if_splits option.splits)

lemma scan_json_ok:
  "scan_value P n s = Some (v, r) \<Longrightarrow> json_ok v"
  "scan_elems P n s = Some (vs, r) \<Longrightarrow> \<forall>v \<in> set vs. json_ok v"
  "scan_members P n s = Some (ms, r) \<Longrightarrow> \<forall>(k, v) \<in> set ms. json_ok v"
proof (induction P n s and P n s and P n s arbitrary: v r and vs r and ms r
    rule: scan_value_scan_elems_scan_members.induct)
  case (3 P n c s)
  have "json_ok (JObj (dict_of ms))" if "scan_members P n (d # r') = Some (ms, r)" "skip_ws s = d # r'"
    "c = CHR ''{''" "d \<noteq> CHR ''}''" for d r' ms
    by (rule json_ok_dict_of, rule 3(2)) (use that in auto)
  with 3 show ?case
    by (auto split: if_splits list.splits simp del: json_ok_simps(2) intro: scan_atom_ok)
       (simp_all only: json_ok_simps, simp_all)
next
  case (5 P n s)
  then show ?case by (auto split: if_splits list.splits option.splits)
next
  case (7 P n s)
  then show ?case by (fastforce split: if_splits list.splits option.splits)
qed auto

lemma loads_json_ok: "loads P s = Some v \<Longrightarrow> json_ok v"
  by (auto simp: loads_def split: option.splits if_splits dest: scan_json_ok(1))

lemma bytes_loads_Inr: "bytes_loads P s = Inr v \<longleftrightarrow> loads P s = Some v"
  by (auto simp: bytes_loads_def split: option.splits)

lemma column_loads_ok: "column_loads P v = Inr w \<Longrightarrow> json_ok v \<Longrightarrow> json_ok w"
  by (auto simp: column_loads_def bytes_loads_Inr simp del: json_ok_simps split: json.splits
      dest: loads_json_ok)

section \<open>Applying a delta\<close>

lemma pop_tombstones_ok:
  "pop_tombstones ks d = Inr e \<Longrightarrow> json_ok (JObj d) \<Longrightarrow> json_ok (JObj e)"
proof (induction ks arbitrary: d)
  case (Cons k ks)
  have "json_ok (JObj (AList.delete x d))" for x
    using Cons.prems(2) by (auto simp: AList.delete_eq dict_ok_filter)
  with Cons show ?case by (auto split: json.splits simp del: json_ok_simps)
qed simp

lemma set_changes_ok:
  "json_ok (JObj changes) \<Longrightarrow> json_ok (JObj d) \<Longrightarrow> json_ok (JObj (set_changes changes d))"
  using set_foldl_update [of d changes] dict_ok_foldl_update [of d changes]
  by (auto simp: set_changes_def)

lemma delta_decode_ok:
  assumes "delta_decode payload (Some base) = Inr v" "json_ok payload" "json_ok base"
  shows "json_ok v"
proof -
  from assms(1) obtain p changes tombs d e where
    "payload = JObj p" "map_of p ''set'' = Some (JObj changes)" "base = JObj d"
    "pop_tombstones tombs d = Inr e" "v = JObj (set_changes changes e)"
    by (auto simp: delta_decode_def split: json.splits option.splits)
  with assms(2,3) show ?thesis
    using json_lookup(1) [of p "''set''" "JObj changes"] pop_tombstones_ok set_changes_ok by metis
qed

lemma delta_decode_row_Inr:
  "delta_decode_row payload base = Inr v \<longleftrightarrow>
     (\<exists>n. payload_every payload = Inr n \<and> 1 \<le> n \<and> delta_decode payload (Some base) = Inr v)"
  by (auto simp: delta_decode_row_def lift_py_def make_delta_def split: sum.splits if_splits)

lemma window_loop_ok:
  "window_loop P c w doc prev = Inr v \<Longrightarrow> \<forall>r \<in> set w. json_ok (rv_payload r) \<Longrightarrow> json_ok doc \<Longrightarrow> json_ok v"
proof (induction w arbitrary: doc prev)
  case (Cons r w)
  show ?case
  proof (cases "rv_revision r \<le> c")
    case True
    with Cons show ?thesis by simp
  next
    case False
    from Cons.prems(2) have r: "json_ok (rv_payload r)" by simp
    from False Cons.prems(1) obtain doc' where
      "window_loop P c w doc' (rv_revision r) = Inr v"
      "column_loads P (rv_payload r) = Inr doc' \<or>
       (\<exists>x. column_loads P (rv_payload r) = Inr x \<and> delta_decode_row x doc = Inr doc')"
      by (auto split: if_splits json.splits)
    moreover from this(2) have "json_ok doc'"
      using column_loads_ok [OF _ r] delta_decode_ok [OF _ _ Cons.prems(3)]
      by (auto simp: delta_decode_row_Inr)
    ultimately show ?thesis using Cons.IH Cons.prems(2) by simp
  qed
qed simp

lemma find_checkpoint:
  "List.find (\<lambda>r. rv_encoding r = snapshot_id) (rev w) = Some ck \<Longrightarrow> ck \<in> set w \<and> rv_encoding ck = snapshot_id"
  by (auto dest: find_SomeD)

lemma decode_window_ok:
  assumes "decode_window P n w = Inr v" "\<forall>r \<in> set w. json_ok (rv_payload r)"
  shows "json_ok v"
proof -
  from assms(1) obtain ck doc where
    ck: "List.find (\<lambda>r. rv_encoding r = snapshot_id) (rev w) = Some ck"
    and doc: "column_loads P (rv_payload ck) = Inr doc"
    and loop: "window_loop P (rv_revision ck) w doc (rv_revision ck) = Inr v"
    by (auto simp: decode_window_def split: if_splits option.splits)
  have "json_ok doc" using column_loads_ok [OF doc] find_checkpoint [OF ck] assms(2) by blast
  with loop assms(2) show ?thesis by (rule window_loop_ok)
qed

lemma set_select_window:
  "set (select_window d s a st n) =
     {r \<in> set (db_revisions d). of_aggregate s a r \<and> st \<le> rv_revision r \<and> rv_revision r \<le> n}"
  by (simp add: select_window_def)

text \<open>Every document decoded from a log of well-formed rows is well formed.\<close>

theorem decode_log_revision_ok:
  assumes "decode_log_revision P encs d s a n = Inr v"
    and "\<forall>r \<in> set (db_revisions d). json_ok (rv_payload r)"
  shows "json_ok v"
proof -
  have win: "json_ok v" if "decode_window P n (select_window d s a st n) = Inr v" for st
    by (rule decode_window_ok [OF that]) (use assms(2) in \<open>auto simp: set_select_window\<close>)
  have col: "select_revision_row d s a n = Some r \<Longrightarrow> column_loads P (rv_payload r) = Inr v \<Longrightarrow> json_ok v" for r
    using assms(2) column_loads_ok select_revision_row_Some by blast
  from assms(1) show ?thesis
    by (auto simp: decode_log_revision_def win col split: option.splits encoding.splits if_splits)
qed

section \<open>Windows\<close>

lemma sort_key_snoc:
  "(\<And>y. y \<in> set xs \<Longrightarrow> f y \<le> f x) \<Longrightarrow> sort_key f (xs @ [x]) = sort_key f xs @ [x]"
proof (induction xs)
  case (Cons a xs)
  have "f a \<le> f x \<Longrightarrow> insort_key f a (ys @ [x]) = insort_key f a ys @ [x]" for ys
    by (induction ys) auto
  with Cons show ?case by simp
qed simp

lemma select_window_snoc:
  assumes "db_revisions d' = db_revisions d @ [r]" "of_aggregate s a r" "rv_revision r = n" "st \<le> n"
    and "\<And>q. q \<in> set (db_revisions d) \<Longrightarrow> of_aggregate s a q \<Longrightarrow> rv_revision q < n"
  shows "select_window d' s a st n = select_window d s a st (n - 1) @ [r]"
proof -
  have old: "filter (\<lambda>r. of_aggregate s a r \<and> st \<le> rv_revision r \<and> rv_revision r \<le> n) (db_revisions d) =
      filter (\<lambda>r. of_aggregate s a r \<and> st \<le> rv_revision r \<and> rv_revision r \<le> n - 1) (db_revisions d)"
    using assms(5) by (intro filter_cong) fastforce+
  show ?thesis
    using assms(1-4) by (simp add: select_window_def old) (rule sort_key_snoc, use assms(5) in auto)
qed

lemma sorted_split:
  fixes f :: "'a \<Rightarrow> int"
  shows "sorted (map f xs) \<Longrightarrow> xs = filter (\<lambda>x. f x < m) xs @ filter (\<lambda>x. m \<le> f x) xs"
proof (induction xs)
  case (Cons x xs)
  show ?case
  proof (cases "f x < m")
    case True
    with Cons show ?thesis by simp
  next
    case False
    with Cons.prems have "\<forall>y \<in> set xs. m \<le> f y" by fastforce
    with False show ?thesis by (simp add: filter_empty_conv [THEN iffD2] linorder_not_less)
  qed
qed simp

lemma select_window_split:
  assumes "st \<le> m"
  shows "select_window d s a st n = select_window d s a st (min n (m - 1)) @ select_window d s a m n"
proof -
  let ?w = "select_window d s a st n"
  have "sorted (map rv_revision ?w)" by (simp add: select_window_def)
  from sorted_split [OF this, of m]
  have "?w = filter (\<lambda>x. rv_revision x < m) ?w @ filter (\<lambda>x. m \<le> rv_revision x) ?w" .
  moreover have "filter (\<lambda>x. rv_revision x < m) ?w = select_window d s a st (min n (m - 1))"
    unfolding select_window_def filter_sort_key
    by (auto intro!: arg_cong [where f = "sort_key _"] filter_cong)
  moreover have "filter (\<lambda>x. m \<le> rv_revision x) ?w = select_window d s a m n"
    unfolding select_window_def filter_sort_key using assms
    by (auto intro!: arg_cong [where f = "sort_key _"] filter_cong)
  ultimately show ?thesis by simp
qed

text \<open>Rows up to the checkpoint are passed over.\<close>

lemma window_loop_skip:
  "\<forall>r \<in> set xs. rv_revision r \<le> c \<Longrightarrow> window_loop P c (xs @ ys) doc prev = window_loop P c ys doc prev"
  by (induction xs) auto

lemma window_loop_snoc:
  "window_loop P c (xs @ [r]) doc prev =
     rbind (window_loop P c xs doc prev)
       (\<lambda>doc'. window_loop P c [r] doc' (last (prev # filter (\<lambda>v. c < v) (map rv_revision xs))))"
proof (induction xs arbitrary: doc prev)
  case (Cons x xs)
  show ?case
  proof (cases "rv_revision x \<le> c")
    case True
    with Cons.IH show ?thesis by simp
  next
    case False
    have assoc: "rbind (rbind m f) g = rbind m (\<lambda>x. rbind (f x) g)"
      for m :: "exn + 'x" and f :: "'x \<Rightarrow> exn + 'y" and g :: "'y \<Rightarrow> exn + 'z"
      by (cases m) simp_all
    from False show ?thesis
      by (auto simp: Cons.IH assoc rbind_def split: sum.splits json.splits)
  qed
qed simp

text \<open>Every window that reaches back to a checkpoint gives the same document.\<close>

lemma decode_window_reach:
  assumes "st \<le> m" "ck0 \<in> set (select_window d s a m n)" "rv_encoding ck0 = snapshot_id"
  shows "decode_window P n (select_window d s a st n) = decode_window P n (select_window d s a m n)"
proof -
  let ?xs = "select_window d s a st (min n (m - 1))" and ?ys = "select_window d s a m n"
  let ?find = "\<lambda>w. List.find (\<lambda>r. rv_encoding r = snapshot_id) (rev w)"
  have w: "select_window d s a st n = ?xs @ ?ys" by (rule select_window_split [OF assms(1)])
  obtain ck where ck: "?find ?ys = Some ck"
    using assms(2,3) by (cases "?find ?ys") (auto simp: find_None)
  then have "rv_revision r \<le> rv_revision ck" if "r \<in> set ?xs" for r
    using find_checkpoint [OF ck] that by (auto simp: set_select_window)
  then have "window_loop P (rv_revision ck) (?xs @ ?ys) doc prev = window_loop P (rv_revision ck) ?ys doc prev"
    for doc prev by (intro window_loop_skip) blast
  moreover have "?ys \<noteq> []" using assms(2) by auto
  ultimately show ?thesis
    by (simp add: w decode_window_def find_append ck)
qed

text \<open>One more delta row is one more step.\<close>

definition delta_step :: "json \<Rightarrow> int \<Rightarrow> json \<Rightarrow> exn + json" where
  "delta_step payload prev doc =
     (case payload of
        JObj p \<Rightarrow> if \<not> base_is p prev then Inl (Eventic (UndecodableRevision None))
                  else delta_decode_row payload doc
      | _ \<Rightarrow> Inl (Python AttributeError))"

lemma decode_window_snoc:
  assumes "ys \<noteq> []" "rv_revision (last ys) = n - 1" "sorted (map rv_revision ys)"
    and "decode_window P (n - 1) ys = Inr doc" "rv_revision r = n" "rv_encoding r \<noteq> snapshot_id"
  shows "decode_window P n (ys @ [r]) =
    rbind (column_loads P (rv_payload r)) (\<lambda>payload. delta_step payload (n - 1) doc)"
proof -
  obtain zs l where ys: "ys = zs @ [l]" using assms(1) by (cases ys rule: rev_cases) auto
  from assms(1,4) obtain ck base where
    ck: "List.find (\<lambda>r. rv_encoding r = snapshot_id) (rev ys) = Some ck"
    and base: "column_loads P (rv_payload ck) = Inr base"
    and loop: "window_loop P (rv_revision ck) ys base (rv_revision ck) = Inr doc"
    by (auto simp: decode_window_def split: if_splits option.splits)
  have "rv_revision ck \<le> n - 1"
    using find_checkpoint [OF ck] assms(2,3) ys by (auto simp: sorted_append)
  then have prev: "last (rv_revision ck # filter (\<lambda>v. rv_revision ck < v) (map rv_revision ys)) = n - 1"
    and late: "\<not> n \<le> rv_revision ck"
    using assms(2,3) ys by (auto simp: sorted_append filter_empty_conv)
  show ?thesis
    using assms(5,6) late
    by (simp add: decode_window_def ck base window_loop_snoc loop prev delta_step_def del: last.simps)
       (auto simp: rbind_def split: sum.split json.split)
qed

lemma decode_window_step:
  assumes "ys \<noteq> []" "rv_revision (last ys) = n - 1" "sorted (map rv_revision ys)"
    and "decode_window P (n - 1) ys = Inr doc"
    and "rv_revision r = n" "rv_encoding r \<noteq> snapshot_id" "column_loads P (rv_payload r) = Inr (JObj p)"
    and "base_is p (n - 1)"
  shows "decode_window P n (ys @ [r]) = delta_decode_row (JObj p) doc"
  using decode_window_snoc [OF assms(1-6)] assms(7,8) by (simp add: delta_step_def)

text \<open>What a freshly written delta row decodes to over the document before it.\<close>

lemma delta_decode_row_payload:
  assumes "1 \<le> every"
  shows "delta_decode_row (JObj (delta_payload every x b r)) (JObj b) = Inr (JObj (delta_result x b))"
proof -
  have "payload_every (JObj (delta_payload every x b r)) = Inr every"
    using assms by (simp add: payload_every_def delta_payload_def lift_py_def)
  then show ?thesis
    using assms by (auto simp: delta_decode_row_Inr delta_decode_encode)
qed

lemma base_is_delta_payload: "base_is (delta_payload every x b (Some n)) m \<longleftrightarrow> n = m"
  by (auto simp: base_is_def delta_payload_def json_of_int_option_def scalar_eq_def)

section \<open>The checkpoint below a revision\<close>

definition checkpoint_below :: "int \<Rightarrow> int \<Rightarrow> int" where
  "checkpoint_below every n = n - n mod every"

lemma checkpoint_below_bounds:
  assumes "1 \<le> every" "0 \<le> n"
  shows "0 \<le> checkpoint_below every n" "checkpoint_below every n \<le> n"
    "n - every < checkpoint_below every n" "checkpoint_below every n mod every = 0"
proof -
  have "n mod every < every" "0 \<le> n mod every" using assms by simp_all
  moreover have "n mod every \<le> n" using assms by (simp add: zmod_le_nonneg_dividend)
  ultimately show "0 \<le> checkpoint_below every n" "checkpoint_below every n \<le> n"
    "n - every < checkpoint_below every n" by (simp_all add: checkpoint_below_def)
  show "checkpoint_below every n mod every = 0"
    by (simp add: checkpoint_below_def minus_mod_eq_mult_div)
qed

lemma checkpoint_below_pred:
  assumes "1 \<le> every" "0 < n" "n mod every \<noteq> 0"
  shows "checkpoint_below every n = checkpoint_below every (n - 1)"
proof -
  have "n mod every < every" "0 \<le> n mod every" using assms(1) by simp_all
  moreover have "(n mod every - 1 + n div every * every) mod every = (n mod every - 1) mod every"
    by simp
  moreover have "n mod every - 1 + n div every * every = n - 1" by simp
  ultimately have "(n - 1) mod every = n mod every - 1" using assms(3) by simp
  then show ?thesis by (simp add: checkpoint_below_def)
qed

lemma window_start_reach:
  assumes "1 \<le> every" "0 \<le> n"
  shows "window_start every n \<le> checkpoint_below every n"
  using checkpoint_below_bounds [OF assms]
  by (auto simp: window_start_def checkpoint_below_def)

end
