(* ===== verification/Store_Inv.thy ===== *)
theory Store_Inv
  imports Decode_Facts
begin

text \<open>
  The invariant of the store's tables and its preservation by every commit: the log of each aggregate is
  revisions 0 to its head without gaps, every row decodes to a document with the digest it was
  committed with, and the heads are the last rows of the log, decoded.
\<close>

section \<open>Well-formed requests\<close>

definition is_doc :: "json \<Rightarrow> bool" where
  "is_doc v \<longleftrightarrow> (case v of JObj _ \<Rightarrow> json_ok v | _ \<Rightarrow> False)"

lemma is_doc_iff: "is_doc v \<longleftrightarrow> (\<exists>d. v = JObj d \<and> json_ok (JObj d))"
  by (auto simp: is_doc_def split: json.splits)

text \<open>What the planner sends: canonical bytes of a document, their digest, and metadata that is one too.\<close>

definition request_ok :: "platform \<Rightarrow> commit_request \<Rightarrow> bool" where
  "request_ok P req \<longleftrightarrow>
     cq_digest req = digest P (cq_payload req) \<and>
     (case loads P (cq_payload req) of
        Some v \<Rightarrow> is_doc v \<and> canonical_bytes P v = Some (cq_payload req)
      | None \<Rightarrow> False) \<and>
     (case loads P (cq_meta req) of Some v \<Rightarrow> is_doc v | None \<Rightarrow> False)"

lemma request_okE:
  assumes "request_ok P req"
  obtains x where "loads P (cq_payload req) = Some (JObj x)" "json_ok (JObj x)" "json_finite (JObj x)"
    "canonical_bytes P (JObj x) = Some (cq_payload req)" "cq_digest req = digest P (cq_payload req)"
  using assms by (auto simp: request_ok_def is_doc_iff canonical_bytes_alt split: option.splits if_splits)

definition encodings_ok :: "encodings \<Rightarrow> bool" where
  "encodings_ok encs \<longleftrightarrow> (\<forall>s every. encs s = Some (Delta every) \<longrightarrow> 1 \<le> every)"

section \<open>The invariant\<close>

definition row_decodes :: "platform \<Rightarrow> encodings \<Rightarrow> db \<Rightarrow> revision_row \<Rightarrow> exn + json" where
  "row_decodes P encs d r = decode_log_revision P encs d (rv_stream r) (rv_aggregate_id r) (rv_revision r)"

definition digest_agrees :: "platform \<Rightarrow> json \<Rightarrow> string \<Rightarrow> bool" where
  "digest_agrees P doc dig \<longleftrightarrow>
     (case canonical_bytes P doc of None \<Rightarrow> False | Some b \<Rightarrow> digest P b = dig)"

text \<open>A row is a snapshot or a delta that carries the stream's own checkpoint distance.\<close>

definition encoded_by :: "platform \<Rightarrow> encoding \<Rightarrow> string \<Rightarrow> json \<Rightarrow> bool" where
  "encoded_by P enc i payload \<longleftrightarrow>
     i = snapshot_id \<or>
     i = delta_id \<and>
       (case enc of Snapshot \<Rightarrow> False
        | Delta every \<Rightarrow> rbind (column_loads P payload) payload_every = Inr every)"

definition log_row_ok :: "platform \<Rightarrow> encodings \<Rightarrow> db \<Rightarrow> revision_row \<Rightarrow> bool" where
  "log_row_ok P encs d r \<longleftrightarrow>
     0 \<le> rv_revision r \<and>
     rv_revision_id r = revision_id P (rv_stream r) (rv_aggregate_id r) (rv_revision r) \<and>
     json_ok (rv_payload r) \<and> is_doc (rv_meta r) \<and>
     (is_checkpoint (encoding_for encs (rv_stream r)) (rv_revision r) \<longrightarrow> rv_encoding r = snapshot_id) \<and>
     encoded_by P (encoding_for encs (rv_stream r)) (rv_encoding r) (rv_payload r) \<and>
     (case row_decodes P encs d r of
        Inl _ \<Rightarrow> False
      | Inr doc \<Rightarrow> is_doc doc \<and> digest_agrees P doc (rv_digest r))"

definition head_of_row :: "revision_row \<Rightarrow> json \<Rightarrow> head_row" where
  "head_of_row r doc =
     \<lparr>hd_stream = rv_stream r, hd_aggregate_id = rv_aggregate_id r, hd_revision = rv_revision r,
      hd_revision_id = rv_revision_id r, hd_schema_version = rv_schema_version r,
      hd_meta_version = rv_meta_version r, hd_state = doc, hd_digest = rv_digest r,
      hd_meta = rv_meta r, hd_committed_at = rv_committed_at r\<rparr>"

lemma hd_aggregate_head_of_row [simp]: "hd_aggregate (head_of_row r doc) = rv_aggregate r"
  by (simp add: head_of_row_def hd_aggregate_def rv_aggregate_def)

definition last_row :: "db \<Rightarrow> revision_row \<Rightarrow> bool" where
  "last_row d r \<longleftrightarrow>
     r \<in> set (db_revisions d) \<and>
     (\<forall>q \<in> set (db_revisions d). of_aggregate (rv_stream r) (rv_aggregate_id r) q \<longrightarrow> rv_revision q \<le> rv_revision r)"

definition head_row_ok :: "platform \<Rightarrow> encodings \<Rightarrow> db \<Rightarrow> head_row \<Rightarrow> bool" where
  "head_row_ok P encs d h \<longleftrightarrow>
     (\<exists>r \<in> set (db_revisions d). last_row d r \<and>
        (case row_decodes P encs d r of Inl _ \<Rightarrow> False | Inr doc \<Rightarrow> h = head_of_row r doc))"

definition store_ok :: "platform \<Rightarrow> encodings \<Rightarrow> db \<Rightarrow> bool" where
  "store_ok P encs d \<longleftrightarrow>
     encodings_ok encs \<and> distinct (map rv_key (db_revisions d)) \<and> distinct (map rv_revision_id (db_revisions d)) \<and>
     distinct (map hd_aggregate (db_heads d)) \<and>
     (\<forall>r \<in> set (db_revisions d). log_row_ok P encs d r) \<and>
     (\<forall>h \<in> set (db_heads d). head_row_ok P encs d h) \<and>
     rv_aggregate ` set (db_revisions d) \<subseteq> hd_aggregate ` set (db_heads d) \<and>
     (\<forall>r \<in> set (db_revisions d). 0 < rv_revision r \<longrightarrow>
        (rv_stream r, rv_aggregate_id r, rv_revision r - 1) \<in> rv_key ` set (db_revisions d))"

lemma store_ok_empty: "encodings_ok encs \<Longrightarrow> store_ok P encs empty_db"
  by (simp add: store_ok_def empty_db_def)

section \<open>Reading the invariant\<close>

lemma log_row_okE:
  assumes "log_row_ok P encs d r"
  obtains x b where "row_decodes P encs d r = Inr (JObj x)" "json_ok (JObj x)"
    "canonical_bytes P (JObj x) = Some b" "rv_digest r = digest P b"
  using assms
  by (auto simp: log_row_ok_def is_doc_iff digest_agrees_def split: sum.splits option.splits)

lemma head_row_okE:
  assumes "head_row_ok P encs d h"
  obtains r doc where "last_row d r" "row_decodes P encs d r = Inr doc" "h = head_of_row r doc"
proof -
  from assms obtain r where
    "case row_decodes P encs d r of Inl _ \<Rightarrow> False | Inr doc \<Rightarrow> h = head_of_row r doc" "last_row d r"
    by (auto simp: head_row_ok_def)
  then show ?thesis by (cases "row_decodes P encs d r") (auto intro: that)
qed

text \<open>The head of an aggregate and the last row of its log, from the store's own reads.\<close>

lemma store_ok_head:
  assumes "store_ok P encs d" "select_head d s a = Some h"
  obtains r x b where "last_row d r" "rv_stream r = s" "rv_aggregate_id r = a" "log_row_ok P encs d r"
    "row_decodes P encs d r = Inr (JObj x)" "json_ok (JObj x)" "canonical_bytes P (JObj x) = Some b"
    "rv_digest r = digest P b" "h = head_of_row r (JObj x)" "hd_revision h = rv_revision r"
proof -
  have h: "h \<in> set (db_heads d)" "hd_stream h = s" "hd_aggregate_id h = a"
    using select_head_Some [OF assms(2)] by simp_all
  then have "head_row_ok P encs d h" using assms(1) by (simp add: store_ok_def)
  then obtain r doc where r: "last_row d r" "row_decodes P encs d r = Inr doc" "h = head_of_row r doc"
    by (rule head_row_okE)
  then have ok: "log_row_ok P encs d r" using assms(1) by (simp add: store_ok_def last_row_def)
  then obtain x b where "row_decodes P encs d r = Inr (JObj x)" "json_ok (JObj x)"
    "canonical_bytes P (JObj x) = Some b" "rv_digest r = digest P b"
    by (rule log_row_okE)
  with r ok h that show ?thesis by (auto simp: head_of_row_def)
qed

lemma store_ok_head_state:
  assumes "store_ok P encs d" "select_head d s a = Some h"
  obtains x b where "hd_state h = JObj x" "json_ok (JObj x)" "canonical_bytes P (JObj x) = Some b"
    "hd_digest h = digest P b" "decode_log_revision P encs d s a (hd_revision h) = Inr (JObj x)"
  by (rule store_ok_head [OF assms]) (auto simp: head_of_row_def row_decodes_def intro: that)

lemma store_ok_no_head:
  assumes "store_ok P encs d" "select_head d s a = None" "r \<in> set (db_revisions d)"
  shows "\<not> of_aggregate s a r"
proof
  assume "of_aggregate s a r"
  moreover have "rv_aggregate r \<in> hd_aggregate ` set (db_heads d)"
    using assms(1,3) by (auto simp: store_ok_def)
  ultimately obtain h where "h \<in> set (db_heads d)" "hd_stream h = s" "hd_aggregate_id h = a"
    by (auto simp: of_aggregate_def rv_aggregate_def hd_aggregate_def)
  with assms(2) show False by (auto simp: select_head_def find_None)
qed

text \<open>A request that passes the revision check writes behind every row of its aggregate.\<close>

lemma rows_below_target:
  assumes "store_ok P encs d" "cas_ok req (select_head d (cq_stream req) (cq_aggregate_id req))"
    and "q \<in> set (db_revisions d)" "of_aggregate (cq_stream req) (cq_aggregate_id req) q"
  shows "rv_revision q < target_of req"
proof (cases "select_head d (cq_stream req) (cq_aggregate_id req)")
  case None
  with store_ok_no_head [OF assms(1) None assms(3)] assms(4) show ?thesis by simp
next
  case (Some h)
  then obtain r x b where r: "last_row d r" "rv_stream r = cq_stream req"
    "rv_aggregate_id r = cq_aggregate_id req" "hd_revision h = rv_revision r"
    using store_ok_head [OF assms(1) Some] by metis
  then have "rv_revision q \<le> rv_revision r" using assms(3,4) by (auto simp: last_row_def)
  with r assms(2) Some show ?thesis by (auto simp: cas_ok_def target_of_def)
qed

text \<open>The revisions of an aggregate are exactly those from 0 to its head.\<close>

lemma all_revisions_below:
  assumes "store_ok P encs d" "(s, a, n) \<in> rv_key ` set (db_revisions d)" "0 \<le> m" "m \<le> n"
  shows "(s, a, m) \<in> rv_key ` set (db_revisions d)"
proof -
  have "(s, a, n - int k) \<in> rv_key ` set (db_revisions d)" if "int k \<le> n" for k
    using that
  proof (induction k)
    case 0
    then show ?case using assms(2) by simp
  next
    case (Suc k)
    then obtain r where "r \<in> set (db_revisions d)" "rv_key r = (s, a, n - int k)" by auto
    with assms(1) Suc.prems show ?case
      by (auto simp: store_ok_def rv_key_def dest!: bspec [where x = r])
  qed
  from this [of "nat (n - m)"] assms(3,4) show ?thesis by simp
qed

lemma revisions_up_to_head:
  assumes "store_ok P encs d" "select_head d s a = Some h"
  shows "(s, a, m) \<in> rv_key ` set (db_revisions d) \<longleftrightarrow> 0 \<le> m \<and> m \<le> hd_revision h"
proof -
  from assms obtain r where r: "last_row d r" "rv_stream r = s" "rv_aggregate_id r = a"
    "hd_revision h = rv_revision r" by (rule store_ok_head)
  then have key: "(s, a, hd_revision h) \<in> rv_key ` set (db_revisions d)"
    by (force simp: last_row_def rv_key_def)
  show ?thesis
  proof
    assume "(s, a, m) \<in> rv_key ` set (db_revisions d)"
    then obtain q where "q \<in> set (db_revisions d)" "rv_key q = (s, a, m)" by auto
    with r assms(1) show "0 \<le> m \<and> m \<le> hd_revision h"
      by (auto simp: last_row_def of_aggregate_def rv_key_def store_ok_def log_row_ok_def)
  qed (use all_revisions_below [OF assms(1) key] in blast)
qed

section \<open>Preservation\<close>

lemma physical_payload_ok:
  assumes "physical_payload P encs req head = Inr (p, e)"
    and "\<And>h. head = Some h \<Longrightarrow> is_doc (hd_state h)"
  shows "json_ok p" "is_checkpoint (encoding_for encs (cq_stream req)) (target_of req) \<Longrightarrow> e = snapshot_id"
    and "encodings_ok encs \<Longrightarrow> encoded_by P (encoding_for encs (cq_stream req)) e p"
proof -
  have delta: "json_ok (JObj (delta_payload every x b r))" if "json_ok (JObj x)" for every x b r
    using that
    by (auto simp: delta_payload_def json_of_int_option_def delta_changed_alt dict_ok_filter
        split: option.splits)
  show "json_ok p"
    using assms
    by (auto simp: physical_payload_def Let_def bytes_loads_Inr loads_json_ok is_doc_iff column_loads_def
        lift_py_def delta snapshot_encode_def delta_encode_def simp del: json_ok_simps
        split: option.splits if_splits sum.splits json.splits elim!: enc_encode.elims
        dest: loads_json_ok)
  show "e = snapshot_id" if "is_checkpoint (encoding_for encs (cq_stream req)) (target_of req)"
    using assms(1) that by (auto simp: physical_payload_def Let_def split: option.splits if_splits)
  show "encoded_by P (encoding_for encs (cq_stream req)) e p" if "encodings_ok encs"
  proof (cases "e = snapshot_id")
    case False
    then obtain h where h: "head = Some h"
      using assms(1) by (cases head) (auto simp: physical_payload_def)
    obtain b where b: "hd_state h = JObj b" using assms(2) [OF h] by (auto simp: is_doc_iff)
    from False h b assms(1) obtain v where v: "\<not> is_checkpoint (encoding_for encs (cq_stream req)) (target_of req)"
        "bytes_loads P (cq_payload req) = Inr v"
        "enc_encode (encoding_for encs (cq_stream req)) v (Some (JObj b)) (Some (hd_revision h)) = Inr p"
        "e = encoding_id (encoding_for encs (cq_stream req))"
      by (auto simp: physical_payload_def Let_def column_loads_def lift_py_def split: if_splits sum.splits)
    from v(1) obtain every where every: "encoding_for encs (cq_stream req) = Delta every"
      by (cases "encoding_for encs (cq_stream req)") auto
    then have "1 \<le> every"
      using that by (auto simp: encoding_for_def encodings_ok_def split: option.splits)
    moreover from v(3) every obtain x where "p = JObj (delta_payload every x b (Some (hd_revision h)))"
      by (auto simp: delta_encode_def split: json.splits)
    ultimately show ?thesis
      using every v(4) by (simp add: encoded_by_def column_loads_def payload_every_def delta_payload_def lift_py_def)
  qed (simp add: encoded_by_def)
qed

text \<open>One append keeps the invariant.\<close>

lemma row_decodes_append_other:
  assumes "db_revisions d' = db_revisions d @ [r]" "of_aggregate s a r" "q \<in> set (db_revisions d)"
    and "\<And>q. q \<in> set (db_revisions d) \<Longrightarrow> of_aggregate s a q \<Longrightarrow> rv_revision q < rv_revision r"
  shows "row_decodes P encs d' q = row_decodes P encs d q"
  unfolding row_decodes_def
  by (rule decode_append_other [OF _ assms(1)]) (use assms(2-4) in \<open>force simp: of_aggregate_def\<close>)

lemma store_ok_append:
  assumes ok: "store_ok P encs d"
    and log: "db_revisions d' = db_revisions d @ [r]"
    and heads: "db_heads d' = upsert_head_rows (head_of_row r doc) (db_heads d)"
    and new: "revision_violation d r = None" "log_row_ok P encs d' r" "row_decodes P encs d' r = Inr doc"
    and below: "\<And>q. q \<in> set (db_revisions d) \<Longrightarrow> of_aggregate (rv_stream r) (rv_aggregate_id r) q \<Longrightarrow>
        rv_revision q < rv_revision r"
    and pred: "0 < rv_revision r \<Longrightarrow>
        (rv_stream r, rv_aggregate_id r, rv_revision r - 1) \<in> rv_key ` set (db_revisions d)"
  shows "store_ok P encs d'"
proof -
  have dec: "row_decodes P encs d' q = row_decodes P encs d q" if "q \<in> set (db_revisions d)" for q
    by (rule row_decodes_append_other [OF log _ that]) (use below in \<open>auto simp: of_aggregate_def\<close>)
  have heads': "set (db_heads d') =
      insert (head_of_row r doc) {g \<in> set (db_heads d). hd_aggregate g \<noteq> rv_aggregate r}"
    using set_upsert_head_rows [of "db_heads d" "head_of_row r doc"] ok heads
    by (simp add: store_ok_def)
  have new_head: "head_row_ok P encs d' (head_of_row r doc)"
    using new(3) below by (force simp: head_row_ok_def last_row_def log)
  have old_heads: "head_row_ok P encs d' g" if "g \<in> set (db_heads d)" "hd_aggregate g \<noteq> rv_aggregate r" for g
  proof -
    have "head_row_ok P encs d g" using ok that(1) by (simp add: store_ok_def)
    then obtain q v where q: "last_row d q" "row_decodes P encs d q = Inr v" "g = head_of_row q v"
      by (rule head_row_okE)
    moreover from q that(2) have "last_row d' q"
      by (auto simp: last_row_def log of_aggregate_def head_of_row_def hd_aggregate_def rv_aggregate_def)
    moreover have "q \<in> set (db_revisions d)" using q by (simp add: last_row_def)
    ultimately show ?thesis by (auto simp: head_row_ok_def log dec)
  qed
  have rows: "log_row_ok P encs d' q" if "q \<in> set (db_revisions d)" for q
    using ok that by (simp add: store_ok_def log_row_ok_def dec)
  show ?thesis
    unfolding store_ok_def
  proof (intro conjI)
    show "encodings_ok encs" using ok by (simp add: store_ok_def)
    show "distinct (map rv_key (db_revisions d'))" "distinct (map rv_revision_id (db_revisions d'))"
      using ok new(1) by (auto simp: store_ok_def log revision_violation_None)
    show "distinct (map hd_aggregate (db_heads d'))"
      using ok by (simp add: store_ok_def heads distinct_upsert_head_rows)
    show "\<forall>q \<in> set (db_revisions d'). log_row_ok P encs d' q"
      using rows new(2) by (simp add: log)
    show "\<forall>h \<in> set (db_heads d'). head_row_ok P encs d' h"
      using new_head old_heads by (auto simp: heads')
    show "rv_aggregate ` set (db_revisions d') \<subseteq> hd_aggregate ` set (db_heads d')"
      using ok by (auto simp: store_ok_def log heads keys_upsert_head_rows)
    show "\<forall>q \<in> set (db_revisions d'). 0 < rv_revision q \<longrightarrow>
        (rv_stream q, rv_aggregate_id q, rv_revision q - 1) \<in> rv_key ` set (db_revisions d')"
      using ok pred by (auto simp: store_ok_def log)
  qed
qed

lemma target_pred:
  assumes "store_ok P encs d" "cas_ok req (select_head d (cq_stream req) (cq_aggregate_id req))"
    and "0 < target_of req"
  shows "(cq_stream req, cq_aggregate_id req, target_of req - 1) \<in> rv_key ` set (db_revisions d)"
proof -
  from assms(2,3) obtain h where h: "select_head d (cq_stream req) (cq_aggregate_id req) = Some h"
    "cq_expected_revision req = Some (hd_revision h)"
    by (auto simp: cas_ok_def target_of_def split: option.splits)
  from store_ok_head [OF assms(1) h(1)] obtain r where
    "last_row d r" "rv_stream r = cq_stream req" "rv_aggregate_id r = cq_aggregate_id req"
    "hd_revision h = rv_revision r" by metis
  with h show ?thesis by (force simp: target_of_def last_row_def rv_key_def)
qed

lemma append_preserves:
  assumes P: "float_codec P" and ok: "store_ok P encs d" and req: "request_ok P req"
    and cas: "cas_ok req (select_head d (cq_stream req) (cq_aggregate_id req))"
    and run: "append_revision P encs now d req (select_head d (cq_stream req) (cq_aggregate_id req)) = Inr (d', res)"
  shows "store_ok P encs d'"
proof -
  let ?head = "select_head d (cq_stream req) (cq_aggregate_id req)"
  from run obtain physical row_encoding meta doc d1 where
    phys: "physical_payload P encs req ?head = Inr (physical, row_encoding)"
    and meta: "bytes_loads P (cq_meta req) = Inr meta"
    and viol: "revision_violation d (new_revision_row P now req physical row_encoding meta) = None"
    and d1: "d1 = d\<lparr>db_revisions := db_revisions d @ [new_revision_row P now req physical row_encoding meta]\<rparr>"
    and dec: "decode_log_revision P encs d1 (cq_stream req) (cq_aggregate_id req) (target_of req) = Inr doc"
    and bytes: "canonical_bytes P doc = Some (cq_payload req)"
    and log: "db_revisions d' = db_revisions d1"
    and heads: "db_heads d' = upsert_head_rows (new_head_row P now req doc meta) (db_heads d)"
    by (rule append_revision_Inr)
  let ?r = "new_revision_row P now req physical row_encoding meta"
  have log': "db_revisions d' = db_revisions d @ [?r]" by (simp add: log d1)
  have head_doc: "is_doc (hd_state h)" if "?head = Some h" for h
    by (rule store_ok_head_state [OF ok that]) (auto simp: is_doc_iff)
  note phys_ok = physical_payload_ok [OF phys head_doc]
  have encs: "encodings_ok encs" using ok by (simp add: store_ok_def)
  have json: "\<forall>q \<in> set (db_revisions d1). json_ok (rv_payload q)"
    using ok phys_ok(1) by (auto simp: store_ok_def log_row_ok_def d1 new_revision_row_def)
  have dec': "row_decodes P encs d' ?r = Inr doc"
    using dec log_reads_cong(3) [OF log] by (simp add: row_decodes_def new_revision_row_def)
  have doc: "is_doc doc"
  proof -
    obtain x where x: "json_ok (JObj x)" "json_finite (JObj x)"
      "canonical_bytes P (JObj x) = Some (cq_payload req)" using req by (rule request_okE)
    have "json_ok doc" using decode_log_revision_ok [OF dec json] .
    moreover have "json_finite doc" using bytes by (auto simp: canonical_bytes_alt split: if_splits)
    ultimately have "canon doc = canon (JObj x)"
      using canonical_bytes_eq_iff [OF P, of doc "JObj x"] x bytes by simp
    with \<open>json_ok doc\<close> show ?thesis by (cases doc) (auto simp: is_doc_def)
  qed
  have row: "log_row_ok P encs d' ?r"
    using dec' doc bytes phys_ok encs req viol meta
    by (auto simp: log_row_ok_def bytes_loads_Inr new_revision_row_def digest_agrees_def request_ok_def request_rid_def
        revision_violation_None)
  show ?thesis
  proof (rule store_ok_append [OF ok log' _ viol row])
    show "db_heads d' = upsert_head_rows (head_of_row ?r doc) (db_heads d)"
      by (simp add: heads head_of_row_def new_revision_row_def new_head_row_def)
    show "row_decodes P encs d' ?r = Inr doc" by (rule dec')
    show "rv_revision q < rv_revision ?r"
      if "q \<in> set (db_revisions d)" "of_aggregate (rv_stream ?r) (rv_aggregate_id ?r) q" for q
      using rows_below_target [OF ok cas that(1)] that(2) by (simp add: new_revision_row_def)
    show "(rv_stream ?r, rv_aggregate_id ?r, rv_revision ?r - 1) \<in> rv_key ` set (db_revisions d)"
      if "0 < rv_revision ?r"
      using target_pred [OF ok cas] that by (simp add: new_revision_row_def)
  qed
qed

text \<open>On a consistent store a replay writes nothing.\<close>

lemma replay_unchanged:
  assumes ok: "store_ok P encs d"
    and row: "select_revision_row d (cq_stream req) (cq_aggregate_id req) (target_of req) = Some row"
  obtains h where "select_head d (cq_stream req) (cq_aggregate_id req) = Some h"
    "\<not> hd_revision h < target_of req"
proof -
  have r: "row \<in> set (db_revisions d)" "of_aggregate (cq_stream req) (cq_aggregate_id req) row"
    "rv_key row = (cq_stream req, cq_aggregate_id req, target_of req)"
    using select_revision_row_Some [OF row] by (simp_all add: of_aggregate_def rv_key_def)
  then obtain h where h: "select_head d (cq_stream req) (cq_aggregate_id req) = Some h"
    using store_ok_no_head [OF ok] by fastforce
  have "(cq_stream req, cq_aggregate_id req, target_of req) \<in> rv_key ` set (db_revisions d)"
    using r by force
  then show ?thesis using revisions_up_to_head [OF ok h] h that by auto
qed

lemma commit_one_preserves:
  assumes "float_codec P" "store_ok P encs d" "request_ok P req"
    and "commit_one P encs now d req = Inr (d', res)"
  shows "store_ok P encs d'"
  using assms(4)
proof (cases rule: commit_one_cases)
  case (replay row)
  from assms(2) replay(1) obtain h where
    "select_head d (cq_stream req) (cq_aggregate_id req) = Some h" "\<not> hd_revision h < target_of req"
    by (rule replay_unchanged)
  with replay(4) have "d' = d" by simp
  with assms(2) show ?thesis by simp
next
  case append
  show ?thesis by (rule append_preserves [OF assms(1-3) append(2,3)])
qed

lemma store_commit_preserves:
  assumes "float_codec P" "store_ok P encs d" "\<forall>req \<in> set reqs. request_ok P req"
    and "store_commit P encs m now d reqs = (out, d')"
  shows "store_ok P encs d'"
proof (cases out)
  case (Inl e)
  with assms store_commit_Inl show ?thesis by metis
next
  case (Inr rs)
  with assms(4) have "rfold (commit_one P encs now) d reqs = Inr (d', rs)"
    by (simp add: store_commit_Inr)
  then show ?thesis
  proof (rule rfold_invariant [where I = "store_ok P encs", rotated 2])
    show "store_ok P encs t" if "store_ok P encs s" "req \<in> set reqs" "commit_one P encs now s req = Inr (t, y)"
      for s req t y
      by (rule commit_one_preserves [OF assms(1) that(1) _ that(3)]) (use assms(3) that(2) in simp)
  qed (rule assms(2))
qed

end
