(* ===== verification/Store_Cas.thy ===== *)
theory Store_Cas
  imports Store_Inv
begin

text \<open>
  The compare-and-swap of a commit: which requests succeed on a consistent store, what they leave
  behind, and what a writer sees that lost a race.
\<close>

section \<open>Requests that pass the tables' own checks\<close>

definition request_wf :: "platform \<Rightarrow> commit_request \<Rightarrow> bool" where
  "request_wf P req \<longleftrightarrow>
     request_ok P req \<and> cq_stream req \<noteq> [] \<and> 1 \<le> cq_schema_version req \<and>
     cq_kind req = (if cq_expected_revision req = None then ''create'' else ''change'') \<and>
     (case cq_expected_revision req of None \<Rightarrow> True | Some e \<Rightarrow> 0 \<le> e)"

definition intents_fresh :: "platform \<Rightarrow> db \<Rightarrow> intent_request list \<Rightarrow> bool" where
  "intents_fresh P d is \<longleftrightarrow>
     list_all (\<lambda>i. ir_queue i \<noteq> []) is \<and>
     distinct (map (intent_id P) is) \<and> distinct (map (\<lambda>i. (ir_subscription_id i, ir_revision_id i)) is) \<and>
     list_all (\<lambda>i. intent_id P i \<notin> in_intent_id ` set (db_intents d)) is \<and>
     list_all (\<lambda>i. (ir_subscription_id i, ir_revision_id i) \<notin>
       (\<lambda>j. (in_subscription_id j, in_revision_id j)) ` set (db_intents d)) is"

lemma intent_violation_None:
  "intent_violation d i = None \<longleftrightarrow>
     in_queue i \<noteq> [] \<and> in_status i \<in> {''pending'', ''leased'', ''dead''} \<and>
     in_intent_id i \<notin> in_intent_id ` set (db_intents d) \<and>
     (in_subscription_id i, in_revision_id i) \<notin>
       (\<lambda>j. (in_subscription_id j, in_revision_id j)) ` set (db_intents d)"
  by (simp add: intent_violation_def)

lemma intents_fresh_insert:
  "intents_fresh P d is \<Longrightarrow> \<exists>d'. insert_intents P now is d = Inr d'"
proof (induction "is" arbitrary: d)
  case (Cons i "is")
  then have "intent_violation d (new_intent_row P now i) = None"
    by (simp add: intents_fresh_def intent_violation_None new_intent_row_def)
  moreover have "intents_fresh P (d\<lparr>db_intents := db_intents d @ [new_intent_row P now i]\<rparr>) is"
    using Cons.prems by (fastforce simp: intents_fresh_def new_intent_row_def list_all_iff image_iff)
  ultimately show ?case using Cons.IH by (simp add: insert_intent_def)
qed simp

section \<open>What the new row decodes to\<close>

lemma decode_new_snapshot:
  fixes d d' :: db
  assumes log: "db_revisions d' = db_revisions d @ [r]" and enc: "rv_encoding r = snapshot_id"
    and ck: "is_checkpoint (encoding_for encs (rv_stream r)) (rv_revision r)"
    and payload: "rv_payload r = JObj x"
    and below: "\<And>q. q \<in> set (db_revisions d) \<Longrightarrow> of_aggregate (rv_stream r) (rv_aggregate_id r) q \<Longrightarrow>
        rv_revision q < rv_revision r"
  shows "row_decodes P encs d' r = Inr (JObj x)"
proof -
  have fresh: "select_revision_row d (rv_stream r) (rv_aggregate_id r) (rv_revision r) = None"
    using below by (fastforce simp: select_revision_row_def find_None)
  have find: "select_revision_row d' (rv_stream r) (rv_aggregate_id r) (rv_revision r) = Some r"
    using fresh by (simp add: select_revision_row_def log find_append of_aggregate_def)
  have win: "select_window d' (rv_stream r) (rv_aggregate_id r) (rv_revision r) (rv_revision r) = [r]"
    using select_window_snoc [OF log _ refl order_refl below]
    by (simp add: of_aggregate_def select_window_def)
  show ?thesis
    using ck by (cases "encs (rv_stream r)" rule: option.exhaust; cases "the (encs (rv_stream r))")
      (auto simp: row_decodes_def decode_log_revision_def find enc payload column_loads_def
        encoding_for_def window_start_def win decode_window_def)
qed

lemma decode_new_delta:
  assumes ok: "store_ok P encs d" and enc: "encs s = Some (Delta every)" "1 \<le> every"
    and head: "select_head d s a = Some h" "hd_state h = JObj b"
    and log: "db_revisions d' = db_revisions d @ [r]"
    and r: "rv_stream r = s" "rv_aggregate_id r = a" "rv_revision r = hd_revision h + 1"
      "rv_encoding r = delta_id" "rv_payload r = JObj (delta_payload every x b (Some (hd_revision h)))"
    and not_ck: "rv_revision r mod every \<noteq> 0"
  shows "row_decodes P encs d' r = Inr (JObj (delta_result x b))"
proof -
  define n where "n = rv_revision r"
  define m where "m = checkpoint_below every n"
  let ?w = "select_window d s a m (n - 1)"
  obtain l where l: "last_row d l" "rv_stream l = s" "rv_aggregate_id l = a" "rv_revision l = n - 1"
    using store_ok_head [OF ok head(1)] r n_def by (metis add_diff_cancel_right')
  have "0 \<le> n - 1" using ok l by (auto simp: store_ok_def last_row_def log_row_ok_def)
  with not_ck have n: "0 < n" "n mod every \<noteq> 0" by (auto simp: n_def)
  have m: "0 \<le> m" "m \<le> n - 1" "n - every < m" "m mod every = 0" "m = checkpoint_below every (n - 1)"
    using checkpoint_below_bounds [OF enc(2), of "n - 1"] checkpoint_below_bounds [OF enc(2), of n]
      checkpoint_below_pred [OF enc(2) n] n(1) by (simp_all add: m_def)
  have "(s, a, n - 1) \<in> rv_key ` set (db_revisions d)"
    using l by (force simp: last_row_def rv_key_def)
  from all_revisions_below [OF ok this m(1,2)] obtain ck0 where
    ck0: "ck0 \<in> set (db_revisions d)" "rv_key ck0 = (s, a, m)" by auto
  then have ck0_enc: "rv_encoding ck0 = snapshot_id"
    using ok enc m(4) by (auto simp: store_ok_def log_row_ok_def rv_key_def encoding_for_def)
  have reach: "decode_window P k (select_window e s a st k) = decode_window P k (select_window e s a m k)"
    if "st \<le> m" "m \<le> k" "set (db_revisions d) \<subseteq> set (db_revisions e)" for k st e
    by (rule decode_window_reach [OF that(1) _ ck0_enc])
       (use ck0 that in \<open>auto simp: set_select_window of_aggregate_def rv_key_def\<close>)
  have "decode_log_revision P encs d s a (n - 1) = Inr (hd_state h)"
    by (rule store_ok_head_state [OF ok head(1)]) (use r n_def in simp)
  then have prev: "decode_window P (n - 1) ?w = Inr (JObj b)"
    using reach [of "window_start every (n - 1)" "n - 1" d] window_start_reach [OF enc(2), of "n - 1"]
      m(2,5) n(1) by (simp add: decode_log_revision_def enc(1) head(2))
  have below: "rv_revision q < n" if "q \<in> set (db_revisions d)" "of_aggregate s a q" for q
    using l that by (fastforce simp: last_row_def)
  have w: "select_window d' s a m n = ?w @ [r]"
    by (rule select_window_snoc [OF log])
       (use r n_def m(2) below in \<open>auto simp: of_aggregate_def\<close>)
  have last: "?w \<noteq> []" "rv_revision (last ?w) = n - 1"
    using prev by (auto simp: decode_window_def split: if_splits)
  have "decode_window P n (?w @ [r]) = delta_decode_row (rv_payload r) (JObj b)"
    unfolding r(5)
  proof (rule decode_window_step [OF last _ prev])
    show "sorted (map rv_revision ?w)" by (simp add: select_window_def)
    show "base_is (delta_payload every x b (Some (hd_revision h))) (n - 1)"
      using r n_def by (simp add: base_is_delta_payload)
  qed (use r n_def in \<open>simp_all add: column_loads_def delta_id_def snapshot_id_def\<close>)
  moreover have "window_start every n \<le> m"
    using window_start_reach [OF enc(2), of n] n(1) by (simp add: m_def)
  moreover have "m \<le> n" "set (db_revisions d) \<subseteq> set (db_revisions d')"
    using m(2) log by auto
  ultimately have "decode_window P n (select_window d' s a (window_start every n) n) =
      Inr (JObj (delta_result x b))"
    using reach [of "window_start every n" n d'] by (simp add: w r(5) delta_decode_row_payload [OF enc(2)])
  then show ?thesis
    using r(1,2) by (simp add: row_decodes_def decode_log_revision_def enc(1) n_def)
qed

section \<open>When a commit succeeds\<close>

text \<open>
  \<open>encodes_exactly\<close>: the encoding the store picks for the next revision can represent the change.  A
  snapshot always can; a delta can unless Python's \<open>==\<close> hides a change of a key's canonical form.
\<close>

definition encodes_exactly :: "platform \<Rightarrow> encodings \<Rightarrow> db \<Rightarrow> commit_request \<Rightarrow> bool" where
  "encodes_exactly P encs d req =
     (case select_head d (cq_stream req) (cq_aggregate_id req) of
        None \<Rightarrow> True
      | Some h \<Rightarrow>
          is_checkpoint (encoding_for encs (cq_stream req)) (target_of req) \<or>
          (case (hd_state h, loads P (cq_payload req)) of
             (JObj b, Some (JObj x)) \<Rightarrow> delta_exact b x
           | _ \<Rightarrow> False))"

text \<open>The row the append writes, and what it decodes to.\<close>

lemma set_delta_result: "set (delta_result x b) \<subseteq> set x \<union> set b"
proof -
  have "set (foldl (\<lambda>d k. AList.delete k d) b ks) \<subseteq> set b" for ks
    by (induction ks arbitrary: b) (fastforce simp: AList.delete_eq)+
  then show ?thesis
    using set_foldl_update [of "foldl (\<lambda>d k. AList.delete k d) b (delta_removed x b)" "delta_changed x b"]
    unfolding delta_result_def set_changes_def by (auto simp: delta_changed_alt)
qed

lemma delta_result_ok:
  assumes "json_ok (JObj x)" "json_ok (JObj b)"
  shows "json_ok (JObj (delta_result x b))"
    and "json_finite (JObj x) \<Longrightarrow> json_finite (JObj b) \<Longrightarrow> json_finite (JObj (delta_result x b))"
  using set_delta_result [of x b] dict_ok_delta_result [of b x] assms by auto

lemma append_row:
  assumes ok: "store_ok P encs d" and req: "request_wf P req"
    and cas: "cas_ok req (select_head d (cq_stream req) (cq_aggregate_id req))"
    and x: "loads P (cq_payload req) = Some (JObj x)" "json_ok (JObj x)" "json_finite (JObj x)"
  obtains physical enc y where
    "physical_payload P encs req (select_head d (cq_stream req) (cq_aggregate_id req)) = Inr (physical, enc)"
    "enc = snapshot_id \<or> enc = delta_id" "json_ok (JObj y)" "json_finite (JObj y)"
    "\<forall>now meta d'. db_revisions d' = db_revisions d @ [new_revision_row P now req physical enc meta] \<longrightarrow>
       decode_log_revision P encs d' (cq_stream req) (cq_aggregate_id req) (target_of req) = Inr (JObj y)"
    "canon (JObj y) = canon (JObj x) \<longleftrightarrow> encodes_exactly P encs d req"
proof -
  let ?s = "cq_stream req" and ?a = "cq_aggregate_id req" and ?n = "target_of req"
  let ?enc = "encoding_for encs ?s" and ?row = "\<lambda>now p e meta. new_revision_row P now req p e meta"
  note below = rows_below_target [OF ok cas] and intro = that
  have b: "bytes_loads P (cq_payload req) = Inr (JObj x)" by (simp add: bytes_loads_Inr x)
  have snap: thesis if ck: "is_checkpoint ?enc ?n" and
    phys: "physical_payload P encs req (select_head d ?s ?a) = Inr (JObj x, snapshot_id)"
  proof (rule intro [OF phys])
    show "\<forall>now meta d'. db_revisions d' = db_revisions d @ [?row now (JObj x) snapshot_id meta] \<longrightarrow>
        decode_log_revision P encs d' ?s ?a ?n = Inr (JObj x)"
    proof (intro allI impI)
      fix now meta and d' :: db
      assume "db_revisions d' = db_revisions d @ [?row now (JObj x) snapshot_id meta]"
      from decode_new_snapshot [OF this] ck below
      show "decode_log_revision P encs d' ?s ?a ?n = Inr (JObj x)"
        by (simp add: row_decodes_def new_revision_row_def)
    qed
    show "canon (JObj x) = canon (JObj x) \<longleftrightarrow> encodes_exactly P encs d req"
      using ck by (simp add: encodes_exactly_def split: option.split)
  qed (use x in simp_all)
  show thesis
  proof (cases "select_head d ?s ?a")
    case None
    then have "?n = 0" using cas by (simp add: cas_ok_def target_of_def)
    then show thesis using None b by (intro snap) (cases ?enc; simp add: physical_payload_def Let_def)+
  next
    case (Some h)
    obtain base where h: "hd_state h = JObj base" "json_ok (JObj base)" "json_finite (JObj base)"
      by (rule store_ok_head_state [OF ok Some]) (auto simp: canonical_bytes_alt split: if_splits)
    have n: "?n = hd_revision h + 1" using cas Some by (simp add: cas_ok_def target_of_def)
    show thesis
    proof (cases "is_checkpoint ?enc ?n")
      case True
      then show thesis using Some b h by (intro snap) (simp_all add: physical_payload_def column_loads_def Let_def)
    next
      case False
      then obtain every where every: "encs ?s = Some (Delta every)" "?enc = Delta every" "1 \<le> every"
        "?n mod every \<noteq> 0"
        using ok by (cases "encs ?s"; cases "the (encs ?s)") (auto simp: encoding_for_def encodings_ok_def store_ok_def)
      let ?p = "JObj (delta_payload every x base (Some (hd_revision h)))"
      show thesis
      proof (rule intro)
        show "physical_payload P encs req (select_head d ?s ?a) = Inr (?p, delta_id)"
          using Some b h every False
          by (simp add: physical_payload_def column_loads_def Let_def delta_encode_def lift_py_def)
        show "\<forall>now meta d'. db_revisions d' = db_revisions d @ [?row now ?p delta_id meta] \<longrightarrow>
            decode_log_revision P encs d' ?s ?a ?n = Inr (JObj (delta_result x base))"
        proof (intro allI impI)
          fix now meta and d' :: db
          assume "db_revisions d' = db_revisions d @ [?row now ?p delta_id meta]"
          from decode_new_delta [OF ok every(1,3) Some h(1) this] every(4) n
          show "decode_log_revision P encs d' ?s ?a ?n = Inr (JObj (delta_result x base))"
            by (simp add: row_decodes_def new_revision_row_def)
        qed
        show "canon (JObj (delta_result x base)) = canon (JObj x) \<longleftrightarrow> encodes_exactly P encs d req"
          using delta_result_canon_iff [of x base] x h Some False by (simp add: encodes_exactly_def)
        show "json_ok (JObj (delta_result x base))" "json_finite (JObj (delta_result x base))"
          using delta_result_ok [OF x(2) h(2)] x(3) h(3) by simp_all
      qed simp
    qed
  qed
qed

lemma no_row_at_target:
  assumes "store_ok P encs d" "cas_ok req (select_head d (cq_stream req) (cq_aggregate_id req))"
  shows "select_revision_row d (cq_stream req) (cq_aggregate_id req) (target_of req) = None"
  using rows_below_target [OF assms] by (fastforce simp: select_revision_row_def find_None)

lemma new_row_accepted:
  assumes ok: "store_ok P encs d" and req: "request_wf P req"
    and cas: "cas_ok req (select_head d (cq_stream req) (cq_aggregate_id req))"
    and rid: "request_rid P req \<notin> rv_revision_id ` set (db_revisions d)"
    and enc: "enc = snapshot_id \<or> enc = delta_id"
  shows "revision_violation d (new_revision_row P now req physical enc meta) = None"
proof -
  have "(cq_stream req, cq_aggregate_id req, target_of req) \<notin> rv_key ` set (db_revisions d)"
    using no_row_at_target [OF ok cas] by (simp add: select_revision_row_None)
  with req rid enc show ?thesis
    by (auto simp: revision_violation_None new_revision_row_def request_wf_def target_of_def rv_key_def
        split: option.splits)
qed

text \<open>A request that names the head commits, if its encoding can represent the change.\<close>

lemma commit_one_decides:
  assumes P: "float_codec P" and ok: "store_ok P encs d"
    and req: "request_wf P req" and fresh: "intents_fresh P d (cq_intents req)"
    and rid: "request_rid P req \<notin> rv_revision_id ` set (db_revisions d)"
    and cas: "cas_ok req (select_head d (cq_stream req) (cq_aggregate_id req))"
  shows "if encodes_exactly P encs d req
    then \<exists>d'. commit_one P encs now d req = Inr (d', commit_result_of P now req False)
    else commit_one P encs now d req = Inl (Eventic EncodingError)"
proof -
  let ?head = "select_head d (cq_stream req) (cq_aggregate_id req)"
  obtain meta where meta: "bytes_loads P (cq_meta req) = Inr meta"
    using req by (auto simp: request_wf_def request_ok_def bytes_loads_Inr split: option.splits)
  obtain x where x: "loads P (cq_payload req) = Some (JObj x)" "json_ok (JObj x)" "json_finite (JObj x)"
    "canonical_bytes P (JObj x) = Some (cq_payload req)"
    using req by (auto simp: request_wf_def elim: request_okE)
  obtain physical enc y where
    phys: "physical_payload P encs req ?head = Inr (physical, enc)" "enc = snapshot_id \<or> enc = delta_id"
    and y_ok: "json_ok (JObj y)" "json_finite (JObj y)"
    and dec: "\<forall>now meta d'. db_revisions d' = db_revisions d @ [new_revision_row P now req physical enc meta] \<longrightarrow>
       decode_log_revision P encs d' (cq_stream req) (cq_aggregate_id req) (target_of req) = Inr (JObj y)"
    and y: "canon (JObj y) = canon (JObj x) \<longleftrightarrow> encodes_exactly P encs d req"
    by (rule append_row [OF ok req cas x(1-3)])
  let ?r = "new_revision_row P now req physical enc meta"
  let ?d1 = "d\<lparr>db_revisions := db_revisions d @ [?r]\<rparr>"
  have ins: "insert_revision d ?r = Inr ?d1"
    using new_row_accepted [OF ok req cas rid phys(2)] by (simp add: insert_revision_Inr)
  have dec1: "decode_log_revision P encs ?d1 (cq_stream req) (cq_aggregate_id req) (target_of req) = Inr (JObj y)"
    using dec by simp
  have one: "commit_one P encs now d req = append_revision P encs now d req ?head"
    using cas by (simp add: commit_one_def commit_one_from_def no_row_at_target [OF ok cas])
  show ?thesis
  proof (cases "encodes_exactly P encs d req")
    case True
    with y have "py_canonical_bytes P (JObj y) = Inr (cq_payload req)"
      using x(4) by (metis canonical_bytes_canon option.simps(5) py_canonical_bytes_def)
    moreover obtain d2 where "insert_intents P now (cq_intents req) (upsert_head ?d1 (new_head_row P now req (JObj y) meta)) = Inr d2"
      using intents_fresh_insert [of P "upsert_head ?d1 (new_head_row P now req (JObj y) meta)"] fresh
      by (fastforce simp: intents_fresh_def)
    ultimately show ?thesis
      using True by (simp add: one append_revision_def phys(1) meta ins dec1)
  next
    case False
    with y have "canonical_bytes P (JObj y) \<noteq> Some (cq_payload req)"
      using canonical_bytes_eq_iff [OF P, of "JObj y" "JObj x"] x y_ok by simp
    then show ?thesis
      using False y_ok(2)
      by (auto simp: one append_revision_def phys(1) meta ins dec1 py_canonical_bytes_def canonical_bytes_alt)
  qed
qed

section \<open>What a commit leaves behind\<close>

lemma select_head_rows:
  "db_heads d' = upsert_head_rows h (db_heads d) \<Longrightarrow>
     select_head d' s a = (if hd_stream h = s \<and> hd_aggregate_id h = a then Some h else select_head d s a)"
  using select_head_upsert [of d h s a] by (simp add: select_head_def upsert_head_def)

lemma append_effect:
  assumes run: "append_revision P encs now d req head = Inr (d', res)"
  obtains h where "select_head d' (cq_stream req) (cq_aggregate_id req) = Some h"
    "hd_revision h = target_of req" "hd_revision_id h = request_rid P req" "hd_digest h = cq_digest req"
    "canonical_bytes P (hd_state h) = Some (cq_payload req)"
  using run
  by (rule append_revision_Inr) (auto simp: select_head_rows new_head_row_def intro: that)

text \<open>A commit that is not a replay found the head it named and moved it to its target.\<close>

lemma commit_one_effect:
  assumes "commit_one P encs now d req = Inr (d', res)" "\<not> cr_replayed res"
  obtains h where "cas_ok req (select_head d (cq_stream req) (cq_aggregate_id req))"
    "select_head d' (cq_stream req) (cq_aggregate_id req) = Some h"
    "hd_revision h = target_of req" "hd_revision_id h = request_rid P req" "hd_digest h = cq_digest req"
    "canonical_bytes P (hd_state h) = Some (cq_payload req)"
  using assms(1)
proof (cases rule: commit_one_cases)
  case (replay row)
  with assms(2) show ?thesis by (simp add: commit_result_of_def)
next
  case append
  then show ?thesis by (auto elim!: append_effect intro: that)
qed

lemma upsert_head_from_row_heads:
  assumes "upsert_head_from_row P encs d row req = Inr d'"
  obtains h where "db_heads d' = upsert_head_rows h (db_heads d)" "hd_stream h = cq_stream req"
    "hd_aggregate_id h = cq_aggregate_id req" "hd_revision h = rv_revision row"
  using assms by (auto simp: upsert_head_from_row_def intro!: that)

text \<open>No other aggregate is touched.\<close>

lemma commit_one_other:
  assumes "commit_one P encs now d req = Inr (d', res)" "(s, a) \<noteq> (cq_stream req, cq_aggregate_id req)"
  shows "select_head d' s a = select_head d s a"
    and "decode_log_revision P encs d' s a n = decode_log_revision P encs d s a n"
proof -
  have "select_head d' s a = select_head d s a"
    using assms(1)
  proof (cases rule: commit_one_cases)
    case (replay row)
    then have "d' = d \<or> upsert_head_from_row P encs d row req = Inr d'"
      by (auto split: option.splits if_splits)
    then show ?thesis
      using assms(2) by (auto elim!: upsert_head_from_row_heads simp: select_head_rows)
  next
    case append
    from append(3) show ?thesis
      by (rule append_revision_Inr) (use assms(2) in \<open>auto simp: select_head_rows new_head_row_def\<close>)
  qed
  then show "select_head d' s a = select_head d s a" .
  from commit_one_log [OF assms(1)] show "decode_log_revision P encs d' s a n = decode_log_revision P encs d s a n"
  proof (elim disjE conjE exE)
    assume "db_revisions d' = db_revisions d"
    from log_reads_cong(3) [OF this] show ?thesis by simp
  next
    fix r assume "db_revisions d' = db_revisions d @ [r]"
      "rv_key r = (cq_stream req, cq_aggregate_id req, target_of req)"
    then show ?thesis
      using assms(2) by (intro decode_append_other [of s a r]) (auto simp: of_aggregate_def rv_key_def)
  qed
qed

section \<open>Replays and conflicts\<close>

definition same_content :: "platform \<Rightarrow> revision_row \<Rightarrow> commit_request \<Rightarrow> bool" where
  "same_content P row req \<longleftrightarrow>
     rv_kind row = cq_kind req \<and> rv_schema_version row = cq_schema_version req \<and>
     rv_meta_version row = cq_meta_version req \<and> rv_digest row = cq_digest req \<and>
     (case loads P (cq_meta req) of None \<Rightarrow> False | Some m \<Rightarrow> py_eq (rv_meta row) m)"

lemma is_identical_decides:
  assumes "is_doc (rv_meta row)" "request_ok P req"
  shows "is_identical P row req = Inr (same_content P row req)"
proof -
  obtain m where "loads P (cq_meta req) = Some m"
    using assms(2) by (auto simp: request_ok_def split: option.splits)
  moreover obtain e where "rv_meta row = JObj e" using assms(1) by (auto simp: is_doc_iff)
  ultimately show ?thesis
    by (auto simp: is_identical_def same_content_def column_loads_def bytes_loads_def simp del: py_eq.simps)
qed

text \<open>On a consistent store, a request whose target is taken replays or conflicts, and changes nothing.\<close>

lemma commit_one_taken:
  assumes ok: "store_ok P encs d" and req: "request_ok P req"
    and row: "select_revision_row d (cq_stream req) (cq_aggregate_id req) (target_of req) = Some row"
  shows "commit_one P encs now d req =
    (if same_content P row req then Inr (d, commit_result_of P now req True)
     else Inl (Eventic RevisionConflict))"
proof -
  from ok row obtain h where h: "select_head d (cq_stream req) (cq_aggregate_id req) = Some h"
    "\<not> hd_revision h < target_of req"
    by (rule replay_unchanged)
  have "row \<in> set (db_revisions d)" "rv_revision row = target_of req"
    using select_revision_row_Some [OF row] by simp_all
  moreover from this have "is_doc (rv_meta row)" using ok by (simp add: store_ok_def log_row_ok_def)
  ultimately show ?thesis
    using h is_identical_decides [OF _ req] by (simp add: commit_one_def commit_one_from_def row)
qed

lemma commit_one_stale:
  assumes "select_revision_row d (cq_stream req) (cq_aggregate_id req) (target_of req) = None"
    and "\<not> cas_ok req (select_head d (cq_stream req) (cq_aggregate_id req))"
  shows "commit_one P encs now d req = Inl (Eventic RevisionConflict)"
  using assms by (simp add: commit_one_def commit_one_from_def)

text \<open>
  A PostgreSQL writer creating an aggregate reads no head row, so it has locked nothing; when another
  writer creates the aggregate first, the insert fails and the failure is reported as a conflict.
\<close>

lemma lost_create_race_lemma:
  assumes ok: "store_ok P encs d" and req: "request_wf P req"
    and create: "cq_expected_revision req = None"
    and taken: "(cq_stream req, cq_aggregate_id req, 0) \<in> rv_key ` set (db_revisions d)"
  shows "\<exists>e. commit_one_from P encs now d req None None = Inl e \<and> commit_error e = RevisionConflict"
proof -
  obtain x where x: "loads P (cq_payload req) = Some (JObj x)"
    using req by (auto simp: request_wf_def elim: request_okE)
  obtain meta where meta: "bytes_loads P (cq_meta req) = Inr meta"
    using req by (auto simp: request_wf_def request_ok_def bytes_loads_Inr split: option.splits)
  have t: "target_of req = 0" by (simp add: target_of_def create)
  let ?r = "new_revision_row P now req (JObj x) snapshot_id meta"
  have "revision_violation d ?r = Some Revision_pkey \<or> revision_violation d ?r = Some Uq_revision"
    using req taken create
    by (auto simp: revision_violation_def new_revision_row_def request_wf_def t rv_key_def)
  then obtain c where "insert_revision d ?r = Inl (Integrity c)" "is_revision_race c"
    by (auto simp: insert_revision_def is_revision_race_def)
  then show ?thesis
    by (simp add: commit_one_from_def cas_ok_def create append_revision_def physical_payload_def Let_def
        bytes_loads_Inr [THEN iffD2, OF x] meta commit_error_def)
qed

end
