(* ===== verification/Samples.thy ===== *)
theory Samples
  imports Store_Cas
begin

text \<open>
  Concrete instances for the witnesses: a platform whose float text is the bit pattern in decimal, and
  requests to create and change one aggregate.
\<close>

definition sample_platform :: platform where
  "sample_platform =
     \<lparr>float_repr = (\<lambda>f. show_nat (unat f) @ ''.0''),
      float_parse = (\<lambda>s. word_of_nat (read_nat (takeWhile digit s))),
      sha256_hex = (\<lambda>s. s),
      uuid5 = (\<lambda>ns s. word_of_nat (foldl (\<lambda>h c. 257 * h + of_char c) 7 s))\<rparr>"

lemma sample_float_codec: "float_codec sample_platform"
proof -
  have "scan_number (show_nat n @ ''.0'') = Some (show_nat n @ ''.0'', True, [])"
    and "takeWhile digit (show_nat n @ ''.0'') = show_nat n" for n
  proof -
    have digits: "takeWhile digit (show_nat n) = show_nat n" "dropWhile digit (show_nat n) = []"
      using show_nat_digits by (simp_all add: takeWhile_eq_all_conv dropWhile_eq_Nil_conv)
    have dot: "\<not> digit CHR ''.''" by (simp add: digit_def)
    have zero: "digit CHR ''0''" by (simp add: digit_def)
    show tw: "takeWhile digit (show_nat n @ ''.0'') = show_nat n"
      using digits dot show_nat_digits by (simp add: takeWhile_append)
    have dw: "dropWhile digit (show_nat n @ ''.0'') = ''.0''"
      using digits dot show_nat_digits by (simp add: dropWhile_append)
    have int: "scan_int (show_nat n @ ''.0'') = Some (show_nat n, ''.0'')"
    proof (cases "n = 0")
      case True
      then show ?thesis by (simp add: show_nat_zero scan_int_def)
    next
      case False
      obtain c s where cs: "show_nat n = c # s" by (cases "show_nat n") auto
      with False have "c \<noteq> CHR ''0''" using hd_show_nat_zero [of n] digit_char_zero by simp
      moreover have "digit c" using show_nat_digits [of c n] cs by simp
      ultimately show ?thesis using tw dw cs by (simp add: scan_int_def)
    qed
    have sign: "scan_sign (show_nat n @ ''.0'') = ([], show_nat n @ ''.0'')"
      using show_nat_no_minus [of n] by (cases "show_nat n") (auto simp: scan_sign_def)
    show "scan_number (show_nat n @ ''.0'') = Some (show_nat n @ ''.0'', True, [])"
      by (simp add: scan_number_def sign int scan_frac_def scan_exp_def zero dot)
  qed
  then show ?thesis by (simp add: float_codec_def sample_platform_def)
qed

definition sample_create :: commit_request where
  "sample_create =
     \<lparr>cq_stream = ''todos'', cq_aggregate_id = 5, cq_expected_revision = None, cq_kind = ''create'',
      cq_schema_version = 1, cq_payload = [CHR ''{'', CHR 0x22, CHR ''a'', CHR 0x22, CHR '':'', CHR ''1'', CHR ''}''],
      cq_digest = [CHR ''{'', CHR 0x22, CHR ''a'', CHR 0x22, CHR '':'', CHR ''1'', CHR ''}''],
      cq_meta = ''{}'', cq_meta_version = 1, cq_fingerprint = ''f'', cq_intents = []\<rparr>"

definition sample_change :: commit_request where
  "sample_change = sample_create\<lparr>cq_expected_revision := Some 0, cq_kind := ''change'',
     cq_payload := [CHR ''{'', CHR 0x22, CHR ''a'', CHR 0x22, CHR '':'', CHR ''2'', CHR ''}''],
     cq_digest := [CHR ''{'', CHR 0x22, CHR ''a'', CHR 0x22, CHR '':'', CHR ''2'', CHR ''}'']\<rparr>"

lemma sample_requests_wf:
  "request_wf sample_platform sample_create" "request_wf sample_platform sample_change"
  by code_simp+

text \<open>The store after the create.\<close>

definition sample_row :: revision_row where
  "sample_row =
     \<lparr>rv_revision_id = revision_id sample_platform ''todos'' 5 0, rv_stream = ''todos'', rv_aggregate_id = 5,
      rv_revision = 0, rv_kind = ''create'', rv_schema_version = 1, rv_meta_version = 1,
      rv_encoding = snapshot_id, rv_payload = JObj [(''a'', JInt 1)],
      rv_digest = cq_digest sample_create, rv_meta = JObj [], rv_committed_at = 100\<rparr>"

definition sample_db :: db where
  "sample_db =
     \<lparr>db_revisions = [sample_row], db_heads = [head_of_row sample_row (JObj [(''a'', JInt 1)])],
      db_intents = [],
      db_schemas = [\<lparr>fp_stream = ''todos'', fp_schema_version = 1, fp_fingerprint = ''f'', fp_first_seen = 100\<rparr>]\<rparr>"

lemma sample_commit:
  "store_commit sample_platform Map.empty 100 100 empty_db [sample_create] =
     (Inr [commit_result_of sample_platform 100 sample_create False], sample_db)"
proof -
  have loads: "loads sample_platform (cq_payload sample_create) = Some (JObj [(''a'', JInt 1)])"
    "loads sample_platform (cq_meta sample_create) = Some (JObj [])"
    "canonical_bytes sample_platform (JObj [(''a'', JInt 1)]) = Some (cq_payload sample_create)"
    by code_simp+
  have req: "cq_stream sample_create = ''todos''" "cq_aggregate_id sample_create = 5"
    "target_of sample_create = 0" "cq_intents sample_create = []" "cq_expected_revision sample_create = None"
    by (simp_all add: sample_create_def target_of_def)
  have row: "new_revision_row sample_platform 100 sample_create (JObj [(''a'', JInt 1)]) snapshot_id (JObj []) = sample_row"
    "new_head_row sample_platform 100 sample_create (JObj [(''a'', JInt 1)]) (JObj []) =
       head_of_row sample_row (JObj [(''a'', JInt 1)])"
    "ledger_row 100 sample_create = hd (db_schemas sample_db)"
    by (simp_all add: new_revision_row_def new_head_row_def sample_row_def sample_create_def target_of_def
        request_rid_def head_of_row_def ledger_row_def sample_db_def)
  have ins: "insert_revision empty_db sample_row = Inr (empty_db\<lparr>db_revisions := [sample_row]\<rparr>)"
    by (simp add: insert_revision_def revision_violation_def sample_row_def empty_db_def)
  have dec: "decode_log_revision sample_platform Map.empty (empty_db\<lparr>db_revisions := [sample_row]\<rparr>) ''todos'' 5 0
      = Inr (JObj [(''a'', JInt 1)])"
    by (simp add: decode_log_revision_def select_revision_row_def sample_row_def of_aggregate_def column_loads_def)
  have "append_revision sample_platform Map.empty 100 empty_db sample_create None =
      Inr (sample_db, commit_result_of sample_platform 100 sample_create False)"
    by (simp add: append_revision_def physical_payload_def bytes_loads_def loads req row ins dec
        py_canonical_bytes_def Let_def)
       (simp add: upsert_head_def upsert_fingerprint_def select_fingerprint_def empty_db_def sample_db_def)
  then show ?thesis
    by (simp add: store_commit_def commit_one_def commit_one_from_def select_head_def
        select_revision_row_def empty_db_def cas_ok_def req)
qed

lemma sample_empty_ok: "store_ok sample_platform Map.empty empty_db"
  by (rule store_ok_empty) (simp add: encodings_ok_def)

lemma sample_db_ok: "store_ok sample_platform Map.empty sample_db"
  using store_commit_preserves [OF sample_float_codec sample_empty_ok _ sample_commit]
    sample_requests_wf by (simp add: request_wf_def)

end
