(* ===== verification/Declarations.thy ===== *)
theory Declarations
  imports Canonical Evolution Samples
begin

text \<open>
  Declarations: streams (\<open>src/eventic/stream.py\<close>), metadata (\<open>src/eventic/meta.py\<close>), subscriptions
  (\<open>src/eventic/subscription.py\<close>), their envelopes (\<open>src/eventic/envelopes.py\<close>) and the application value
  (\<open>src/eventic/app.py\<close>), whose constructors are validators.

  \<open>'v\<close> is the type of state values, \<open>'m\<close> of metadata values and \<open>'s\<close> of the world a handler runs in.  A
  Pydantic model is a value of \<open>model\<close>: what the program asks of the class and its adapter.  A Python
  value that is a field of a model is of type \<open>'v\<close> too, so \<open>model_dump(mode="python")\<close> is a dictionary of
  such values and \<open>validate_python\<close> takes a dictionary or an instance.
\<close>

section \<open>Models, streams and metadata\<close>

record 'v model =
  md_is_model :: bool
  md_is_root :: bool
  md_class :: string
  md_graph :: classes
  md_schema :: json
  md_adapter :: "'v adapter"
  md_new :: "exn + 'v"
  md_dump_python :: "'v \<Rightarrow> exn + (string \<times> 'v) list"
  md_validate_fields :: "(string \<times> 'v) list \<Rightarrow> exn + 'v"
  md_validate_instance :: "'v \<Rightarrow> exn + 'v"

definition model_fingerprint :: "platform \<Rightarrow> 'v model \<Rightarrow> exn + string" where
  "model_fingerprint P md = rbind (py_canonical_bytes P (md_schema md)) (\<lambda>b. Inr (digest P b))"

record 'v stream =
  sm_model :: "'v model"
  sm_name :: string
  sm_schema_version :: int
  sm_upcasters :: chain
  sm_exclude :: "(string \<times> exclude) list"
  sm_fingerprint :: string

record 'm meta_decl =
  mt_model :: "'m model"
  mt_version :: int
  mt_upcasters :: chain
  mt_exclude :: "(string \<times> exclude) list"
  mt_fingerprint :: string

definition lift_eventic :: "eventic_error + 'a \<Rightarrow> exn + 'a" where
  "lift_eventic m = (case m of Inl e \<Rightarrow> Inl (Eventic e) | Inr x \<Rightarrow> Inr x)"

text \<open>\<open>Stream.__post_init__\<close>.\<close>

definition make_stream :: "platform \<Rightarrow> 'v model \<Rightarrow> string \<Rightarrow> int \<Rightarrow> chain \<Rightarrow> exn + 'v stream" where
  "make_stream P md name version ups =
     (if \<not> md_is_model md then Inl (Eventic ConfigError)
      else if md_is_root md then Inl (Eventic ConfigError)
      else
        rbind (lift_py (validate_stream_name name)) (\<lambda>name'.
          if version < 1 then Inl (Eventic ConfigError)
          else if contains_secret (md_graph md) (md_class md) then Inl (Eventic ConfigError)
          else
            rbind (lift_eventic (validate_chain ups 1 version)) (\<lambda>_.
            rbind (model_fingerprint P md) (\<lambda>fp.
              Inr \<lparr>sm_model = md, sm_name = name', sm_schema_version = version, sm_upcasters = ups,
                   sm_exclude = build_exclude_map (md_graph md) (md_class md), sm_fingerprint = fp\<rparr>))))"

text \<open>\<open>Meta.__post_init__\<close>.\<close>

definition make_meta :: "platform \<Rightarrow> 'm model \<Rightarrow> int \<Rightarrow> chain \<Rightarrow> exn + 'm meta_decl" where
  "make_meta P md version ups =
     (if \<not> md_is_model md then Inl (Eventic ConfigError)
      else if version < 1 then Inl (Eventic ConfigError)
      else if contains_secret (md_graph md) (md_class md) then Inl (Eventic ConfigError)
      else
        rbind (lift_eventic (validate_chain ups 1 version)) (\<lambda>_.
        rbind (model_fingerprint P md) (\<lambda>fp.
          Inr \<lparr>mt_model = md, mt_version = version, mt_upcasters = ups,
               mt_exclude = build_exclude_map (md_graph md) (md_class md), mt_fingerprint = fp\<rparr>)))"

text \<open>Streams are equal when their names are.\<close>

definition stream_eq :: "'v stream \<Rightarrow> 'v stream \<Rightarrow> bool" where
  "stream_eq a b \<longleftrightarrow> sm_name a = sm_name b"

section \<open>Envelopes\<close>

record ('v, 'm) revision =
  re_stream :: string
  re_id :: uuid
  re_revision :: int
  re_revision_id :: uuid
  re_state :: 'v
  re_meta :: 'm
  re_committed_at :: time
  re_digest :: string

record ('v, 'm) commit =
  co_kind :: string
  co_revision :: "('v, 'm) revision"
  co_changed :: "string set"

section \<open>Subscriptions\<close>

record backoff =
  bo_max_attempts :: int
  bo_base :: "64 word"
  bo_factor :: "64 word"
  bo_cap :: "64 word"

text \<open>\<open>Backoff()\<close>: 12 attempts, base 1.0, factor 2.0, cap 3600.0.\<close>

definition default_backoff :: backoff where
  "default_backoff =
     \<lparr>bo_max_attempts = 12, bo_base = 0x3FF0000000000000, bo_factor = 0x4000000000000000, bo_cap = 0x40AC200000000000\<rparr>"

datatype delivery = Inline | Outbox (ob_queue: string) (ob_retry: backoff) (ob_dead_letter: bool)

text \<open>
  What \<open>inspect\<close> tells of a handler: whether it is a coroutine function, how many positional parameters
  it has (\<open>None\<close> when it has no signature) and whether the first one's annotation, if any, is a \<open>Commit\<close>.
\<close>

record handler_signature =
  hs_async :: bool
  hs_positional :: "nat option"
  hs_commit_typed :: "bool option"

record ('v, 'm, 's) subscription =
  sb_id :: string
  sb_stream :: "'v stream"
  sb_signature :: handler_signature
  sb_handler :: "('v, 'm) commit \<Rightarrow> 's \<Rightarrow> (exn + unit) \<times> 's"
  sb_kinds :: "string list"
  sb_delivery :: delivery

section \<open>The application\<close>

datatype inline_error_mode = RaiseErrors | LogErrors

record ('v, 'm, 's) app =
  ap_id :: string
  ap_streams :: "'v stream list"
  ap_meta :: "'m meta_decl"
  ap_subscriptions :: "('v, 'm, 's) subscription list"
  ap_on_inline_error :: inline_error_mode

definition handler_problems :: "handler_signature \<Rightarrow> eventic_error list" where
  "handler_problems h =
     (if hs_async h then [UnsupportedHandler] else []) @
     (if hs_positional h \<noteq> Some 1 then [UnsupportedHandler]
      else (case hs_commit_typed h of Some False \<Rightarrow> [UnsupportedHandler] | _ \<Rightarrow> []))"

text \<open>The two loops, with the names seen so far.\<close>

fun stream_problems :: "string set \<Rightarrow> 'v stream list \<Rightarrow> eventic_error list" where
  "stream_problems seen [] = []"
| "stream_problems seen (s # ss) =
     (if sm_name s \<in> seen then [DuplicateId] else []) @ stream_problems (insert (sm_name s) seen) ss"

fun subscription_problems ::
  "string set \<Rightarrow> string set \<Rightarrow> ('v, 'm, 's) subscription list \<Rightarrow> eventic_error list" where
  "subscription_problems names seen [] = []"
| "subscription_problems names seen (b # bs) =
     (if sb_id b \<in> seen then [DuplicateId] else []) @
     (if sm_name (sb_stream b) \<notin> names then [UnknownStream] else []) @
     handler_problems (sb_signature b) @
     subscription_problems names (insert (sb_id b) seen) bs"

definition app_problems :: "('v, 'm, 's) app \<Rightarrow> eventic_error list" where
  "app_problems A =
     (if ap_id A = [] then [ConfigError] else []) @ stream_problems {} (ap_streams A) @
     subscription_problems (sm_name ` set (ap_streams A)) {} (ap_subscriptions A)"

definition validate_app :: "('v, 'm, 's) app \<Rightarrow> eventic_error + ('v, 'm, 's) app" where
  "validate_app A =
     (case app_problems A of
        [] \<Rightarrow> Inr A
      | p # ps \<Rightarrow> if list_all (\<lambda>q. q = p) ps then Inl p else Inl ConfigError)"

record capabilities =
  cp_outbox :: bool
  cp_json_paths :: bool
  cp_concurrent_drainers :: bool
  cp_max_batch :: nat

definition sqlite_capabilities :: capabilities where
  "sqlite_capabilities = \<lparr>cp_outbox = True, cp_json_paths = True, cp_concurrent_drainers = False, cp_max_batch = 100\<rparr>"

definition postgres_capabilities :: capabilities where
  "postgres_capabilities = \<lparr>cp_outbox = True, cp_json_paths = True, cp_concurrent_drainers = True, cp_max_batch = 1000\<rparr>"

fun is_outbox :: "delivery \<Rightarrow> bool" where
  "is_outbox Inline = False"
| "is_outbox (Outbox q r l) = True"

text \<open>\<open>App.bind\<close>: the check; the runtime it returns holds the application and the store.\<close>

definition bind_check :: "('v, 'm, 's) app \<Rightarrow> capabilities \<Rightarrow> eventic_error + unit" where
  "bind_check A c =
     (if list_ex (\<lambda>b. is_outbox (sb_delivery b)) (ap_subscriptions A) \<and> \<not> cp_outbox c
      then Inl CapabilityUnsupported else Inr ())"

section \<open>What the constructors accept\<close>

lemma make_stream_Inr:
  assumes "make_stream P md name version ups = Inr s"
  shows "sm_name s = name \<and> validate_stream_name name = Inr name \<and> sm_schema_version s = version \<and> 1 \<le> version \<and>
    sm_upcasters s = ups \<and> complete_chain ups 1 version \<and> sm_model s = md \<and>
    \<not> contains_secret (md_graph md) (md_class md) \<and> model_fingerprint P md = Inr (sm_fingerprint s)"
proof -
  from assms have chain: "validate_chain ups 1 version = Inr ()"
    by (auto simp: make_stream_def lift_eventic_def split: if_splits sum.splits)
  from assms show ?thesis
    by (auto simp: make_stream_def lift_py_def validate_stream_name_def validate_chain_iff [symmetric] chain
        split: if_splits sum.splits)
qed

lemma valid_name_nonempty: "validate_stream_name s = Inr t \<Longrightarrow> s \<noteq> []"
  by (auto simp: validate_stream_name_def stream_name_re_match_def name_shape_def split: if_splits)

lemma make_meta_Inr:
  assumes "make_meta P md version ups = Inr t"
  shows "mt_version t = version \<and> 1 \<le> version \<and> mt_upcasters t = ups \<and> complete_chain ups 1 version \<and> mt_model t = md"
proof -
  from assms have chain: "validate_chain ups 1 version = Inr ()"
    by (auto simp: make_meta_def lift_eventic_def split: if_splits sum.splits)
  from assms show ?thesis
    by (auto simp: make_meta_def validate_chain_iff [symmetric] chain split: if_splits sum.splits)
qed

lemma stream_problems_none:
  "stream_problems seen ss = [] \<longleftrightarrow> distinct (map sm_name ss) \<and> seen \<inter> sm_name ` set ss = {}"
  by (induction ss arbitrary: seen) auto

lemma subscription_problems_none:
  "subscription_problems names seen bs = [] \<longleftrightarrow>
     distinct (map sb_id bs) \<and> seen \<inter> sb_id ` set bs = {} \<and>
     (\<forall>b \<in> set bs. sm_name (sb_stream b) \<in> names \<and> handler_problems (sb_signature b) = [])"
  by (induction bs arbitrary: seen) auto

lemma handler_problems_none:
  "handler_problems h = [] \<longleftrightarrow> \<not> hs_async h \<and> hs_positional h = Some 1 \<and> hs_commit_typed h \<noteq> Some False"
  by (auto simp: handler_problems_def split: option.splits bool.splits)

lemma validate_app_Inr: "validate_app A = Inr B \<longleftrightarrow> app_problems A = [] \<and> B = A"
  by (auto simp: validate_app_def split: list.splits)

definition app_ok :: "('v, 'm, 's) app \<Rightarrow> bool" where
  "app_ok A \<longleftrightarrow>
     ap_id A \<noteq> [] \<and> distinct (map sm_name (ap_streams A)) \<and> distinct (map sb_id (ap_subscriptions A)) \<and>
     (\<forall>b \<in> set (ap_subscriptions A).
        sm_name (sb_stream b) \<in> sm_name ` set (ap_streams A) \<and> \<not> hs_async (sb_signature b) \<and>
        hs_positional (sb_signature b) = Some 1 \<and> hs_commit_typed (sb_signature b) \<noteq> Some False)"

lemma app_problems_none: "app_problems A = [] \<longleftrightarrow> app_ok A"
  by (auto simp: app_problems_def app_ok_def stream_problems_none subscription_problems_none handler_problems_none)

section \<open>Concrete declarations\<close>

text \<open>For the witnesses: a model with one field, whose adapter dumps and validates documents unchanged.\<close>

definition sample_model :: "json model" where
  "sample_model =
     \<lparr>md_is_model = True, md_is_root = False, md_class = ''Todo'',
      md_graph = [(''Todo'', \<lparr>mc_fields = [(''a'', Plain ''int'')], mc_computed = [], mc_own_annotations = [Plain ''int'']\<rparr>)],
      md_schema = JObj [],
      md_adapter = \<lparr>ad_dump = (\<lambda>ex v. if is_doc v then Inr v else Inl (Python TypeError)),
        ad_validate_json = bytes_loads sample_platform\<rparr>,
      md_new = Inr (JObj []), md_dump_python = (\<lambda>v. case v of JObj d \<Rightarrow> Inr d | _ \<Rightarrow> Inl (Python TypeError)),
      md_validate_fields = (\<lambda>d. Inr (JObj d)), md_validate_instance = Inr\<rparr>"

definition sample_stream :: "json stream" where
  "sample_stream =
     \<lparr>sm_model = sample_model, sm_name = ''todos'', sm_schema_version = 1, sm_upcasters = Map.empty,
      sm_exclude = [], sm_fingerprint = ''{}''\<rparr>"

definition sample_meta :: "json meta_decl" where
  "sample_meta =
     \<lparr>mt_model = sample_model, mt_version = 1, mt_upcasters = Map.empty, mt_exclude = [], mt_fingerprint = ''{}''\<rparr>"

lemma sample_fingerprint: "model_fingerprint sample_platform sample_model = Inr ''{}''"
  by code_simp

lemma sample_secrets: "\<not> contains_secret (md_graph sample_model) (md_class sample_model)"
  by (simp add: sample_model_def contains_secret_def walk_secret_def)

lemma sample_exclude: "build_exclude_map (md_graph sample_model) (md_class sample_model) = []"
  by (simp add: sample_model_def build_exclude_map_def)

lemma sample_no_chain: "validate_chain Map.empty 1 1 = Inr ()"
  by (simp add: validate_chain.simps)

lemma sample_stream_made: "make_stream sample_platform sample_model ''todos'' 1 Map.empty = Inr sample_stream"
proof -
  have "validate_stream_name ''todos'' = Inr ''todos''" by code_simp
  moreover have "md_is_model sample_model" "\<not> md_is_root sample_model" by (simp_all add: sample_model_def)
  ultimately show ?thesis
    by (simp add: make_stream_def sample_fingerprint sample_secrets sample_exclude sample_no_chain
        lift_py_def lift_eventic_def sample_stream_def)
qed

lemma sample_meta_made: "make_meta sample_platform sample_model 1 Map.empty = Inr sample_meta"
proof -
  have "md_is_model sample_model" by (simp add: sample_model_def)
  then show ?thesis
    by (simp add: make_meta_def sample_fingerprint sample_secrets sample_exclude sample_no_chain
        lift_eventic_def sample_meta_def)
qed

definition sample_app :: "(json, json, 's) app" where
  "sample_app =
     \<lparr>ap_id = ''app'', ap_streams = [sample_stream], ap_meta = sample_meta,
      ap_subscriptions = [\<lparr>sb_id = ''mail'', sb_stream = sample_stream,
        sb_signature = \<lparr>hs_async = False, hs_positional = Some 1, hs_commit_typed = None\<rparr>,
        sb_handler = (\<lambda>c s. (Inr (), s)), sb_kinds = [''create'', ''change''],
        sb_delivery = Outbox ''q'' default_backoff True\<rparr>],
      ap_on_inline_error = RaiseErrors\<rparr>"

section \<open>Properties\<close>

text \<open>
  C25: An application is accepted exactly when its id is not empty, no two streams share a name, no two
  subscriptions an id, every subscription's stream is installed and every handler is a plain function of
  one commit; a refusal is the class of the faults when they are all of one class and \<open>ConfigError\<close>
  otherwise, so it is always a \<open>ConfigError\<close>.
\<close>

theorem app_validation_is_exact:
  "(validate_app A = Inr A \<longleftrightarrow> app_ok A) \<and>
   (\<forall>e. validate_app A = Inl e \<longrightarrow>
      is_a e ConfigError \<and> (set (app_problems A) = {e} \<or> e = ConfigError \<and> \<not> (\<exists>p. set (app_problems A) = {p})))"
proof (intro conjI allI impI)
  show "validate_app A = Inr A \<longleftrightarrow> app_ok A" by (simp add: validate_app_Inr app_problems_none)
  fix e assume e: "validate_app A = Inl e"
  have handler: "set (handler_problems h) \<subseteq> {UnsupportedHandler}" for h
    by (auto simp: handler_problems_def split: option.splits bool.splits)
  have streams: "set (stream_problems seen ss) \<subseteq> {DuplicateId}" for seen and ss :: "'a stream list"
    by (induction ss arbitrary: seen) auto
  have subs: "set (subscription_problems names seen bs) \<subseteq> {DuplicateId, UnknownStream, UnsupportedHandler}"
    for names seen and bs :: "('a, 'b, 'c) subscription list"
    by (induction bs arbitrary: seen) (use handler in fastforce)+
  have classes: "set (app_problems A) \<subseteq> {ConfigError, DuplicateId, UnknownStream, UnsupportedHandler}"
    using streams [of "{}" "ap_streams A"] subs [of "sm_name ` set (ap_streams A)" "{}" "ap_subscriptions A"]
    by (auto simp: app_problems_def)
  from e obtain p ps where ps: "app_problems A = p # ps"
    and cases: "e = (if list_all (\<lambda>q. q = p) ps then p else ConfigError)"
    by (auto simp: validate_app_def split: list.splits if_splits)
  show "set (app_problems A) = {e} \<or> e = ConfigError \<and> \<not> (\<exists>p. set (app_problems A) = {p})"
    using cases by (auto simp: ps list_all_iff)
  have "e \<in> {ConfigError, DuplicateId, UnknownStream, UnsupportedHandler}"
    using classes cases ps by (auto split: if_splits)
  then show "is_a e ConfigError" by (auto simp: is_a_def ancestors_def)
qed

lemma app_validation_is_exact_witness:
  "validate_app sample_app = Inr (sample_app :: (json, json, unit) app) \<and>
   validate_app (sample_app\<lparr>ap_id := []\<rparr> :: (json, json, unit) app) = Inl ConfigError"
proof -
  have "app_ok (sample_app :: (json, json, unit) app)" by (simp add: app_ok_def sample_app_def)
  moreover have "is_a e ConfigError" if "validate_app (sample_app\<lparr>ap_id := []\<rparr> :: (json, json, unit) app) = Inl e" for e
    using app_validation_is_exact [of "sample_app\<lparr>ap_id := []\<rparr> :: (json, json, unit) app"] that by blast
  moreover have "validate_app (sample_app\<lparr>ap_id := []\<rparr> :: (json, json, unit) app) = Inl ConfigError"
    by (simp add: validate_app_def app_problems_def sample_app_def handler_problems_def)
  ultimately show ?thesis using app_validation_is_exact [of "sample_app :: (json, json, unit) app"] by blast
qed

text \<open>
  A declared stream can always read its own log: its name is a valid stream name, its version is
  positive and its upcaster chain is complete from version 1, so every stored version up to the declared
  one is upcast by the declared upcasters.
\<close>

theorem declared_streams_can_read_every_version:
  assumes "make_stream P md name version ups = Inr s" "1 \<le> v" "v \<le> version"
  shows "upcast_tree tree v (sm_schema_version s) (sm_upcasters s) = Some (apply_chain ups tree [v..version - 1])"
proof -
  have "complete_chain ups v version"
    using make_stream_Inr [OF assms(1)] complete_chain_mono assms(2) by blast
  then show ?thesis
    using make_stream_Inr [OF assms(1)] upcast_chain assms(2,3) by (auto simp: upcast_tree_def)
qed

lemma declared_streams_can_read_every_version_witness:
  "upcast_tree (JObj []) 1 (sm_schema_version sample_stream) (sm_upcasters sample_stream) = Some (Inr (JObj []))"
  using declared_streams_can_read_every_version [OF sample_stream_made, of 1 "JObj []"] by simp

end
