(* ===== verification/Planning.thy ===== *)
theory Planning
  imports Declarations
begin

text \<open>
  Commit planning (\<open>src/eventic/planning.py\<close>): the requests a collection sends to its store, and the
  keys a commit is said to have changed.  \<open>revision\<close> values are what a caller passes as \<open>base\<close>.
\<close>

section \<open>Requests\<close>

text \<open>\<open>_canonical_bytes\<close> and \<open>_meta_bytes\<close>.\<close>

definition state_bytes :: "platform \<Rightarrow> 'v stream \<Rightarrow> 'v \<Rightarrow> exn + string" where
  "state_bytes P s v = canonicalize P (md_adapter (sm_model s)) (sm_exclude s) v"

definition meta_bytes :: "platform \<Rightarrow> 'm meta_decl \<Rightarrow> 'm \<Rightarrow> exn + string" where
  "meta_bytes P t m = canonicalize P (md_adapter (mt_model t)) (mt_exclude t) m"

text \<open>The intent of a subscription for a commit, if it is owed one; \<open>intents_for\<close> collects them.\<close>

definition intent_for ::
  "'v stream \<Rightarrow> string \<Rightarrow> uuid \<Rightarrow> ('v, 'm, 's) subscription \<Rightarrow> intent_request list" where
  "intent_for s kind rid b =
     (if sm_name (sb_stream b) \<noteq> sm_name s \<or> kind \<notin> set (sb_kinds b) then []
      else (case sb_delivery b of
              Inline \<Rightarrow> []
            | Outbox queue retry dead_letter \<Rightarrow>
                [\<lparr>ir_subscription_id = sb_id b, ir_revision_id = rid, ir_queue = queue\<rparr>]))"

definition intents_for :: "('v, 'm, 's) app \<Rightarrow> 'v stream \<Rightarrow> string \<Rightarrow> uuid \<Rightarrow> intent_request list" where
  "intents_for A s kind rid = concat (map (intent_for s kind rid) (ap_subscriptions A))"

definition plan_create ::
  "platform \<Rightarrow> ('v, 'm, 's) app \<Rightarrow> 'v stream \<Rightarrow> 'v \<Rightarrow> uuid \<Rightarrow> 'm option \<Rightarrow> exn + commit_request" where
  "plan_create P A s state a meta =
     rbind (state_bytes P s state) (\<lambda>payload.
     rbind (case meta of Some m \<Rightarrow> Inr m | None \<Rightarrow> md_new (mt_model (ap_meta A))) (\<lambda>meta_value.
     rbind (meta_bytes P (ap_meta A) meta_value) (\<lambda>meta_payload.
       Inr \<lparr>cq_stream = sm_name s, cq_aggregate_id = a, cq_expected_revision = None, cq_kind = ''create'',
            cq_schema_version = sm_schema_version s, cq_payload = payload, cq_digest = digest P payload,
            cq_meta = meta_payload, cq_meta_version = mt_version (ap_meta A),
            cq_fingerprint = sm_fingerprint s,
            cq_intents = intents_for A s ''create'' (revision_id P (sm_name s) a 0)\<rparr>)))"

text \<open>\<open>_plan_change\<close>: the append of a validated value.\<close>

definition plan_append ::
  "platform \<Rightarrow> ('v, 'm, 's) app \<Rightarrow> 'v stream \<Rightarrow> ('v, 'm) revision \<Rightarrow> 'v \<Rightarrow> 'm option \<Rightarrow> exn + commit_request" where
  "plan_append P A s base new_state meta =
     rbind (state_bytes P s new_state) (\<lambda>payload.
     rbind (meta_bytes P (ap_meta A) (case meta of Some m \<Rightarrow> m | None \<Rightarrow> re_meta base)) (\<lambda>meta_payload.
       Inr \<lparr>cq_stream = sm_name s, cq_aggregate_id = re_id base,
            cq_expected_revision = Some (re_revision base), cq_kind = ''change'',
            cq_schema_version = sm_schema_version s, cq_payload = payload, cq_digest = digest P payload,
            cq_meta = meta_payload, cq_meta_version = mt_version (ap_meta A),
            cq_fingerprint = sm_fingerprint s,
            cq_intents = intents_for A s ''change'' (revision_id P (sm_name s) (re_id base) (re_revision base + 1))\<rparr>))"

text \<open>\<open>base.state.model_dump(mode="python") | updates\<close>.\<close>

definition merge_fields :: "(string \<times> 'v) list \<Rightarrow> (string \<times> 'v) list \<Rightarrow> (string \<times> 'v) list" where
  "merge_fields d updates = foldl (\<lambda>d (k, v). AList.update k v d) d updates"

definition plan_change ::
  "platform \<Rightarrow> ('v, 'm, 's) app \<Rightarrow> 'v stream \<Rightarrow> ('v, 'm) revision \<Rightarrow> (string \<times> 'v) list \<Rightarrow> 'm option \<Rightarrow>
   exn + commit_request" where
  "plan_change P A s base updates meta =
     rbind (md_dump_python (sm_model s) (re_state base)) (\<lambda>d.
     rbind (md_validate_fields (sm_model s) (merge_fields d updates)) (\<lambda>new_state.
       plan_append P A s base new_state meta))"

definition plan_replace ::
  "platform \<Rightarrow> ('v, 'm, 's) app \<Rightarrow> 'v stream \<Rightarrow> ('v, 'm) revision \<Rightarrow> 'v \<Rightarrow> 'm option \<Rightarrow> exn + commit_request" where
  "plan_replace P A s base state meta =
     rbind (md_validate_instance (sm_model s) state) (\<lambda>new_state. plan_append P A s base new_state meta)"

section \<open>Changed keys\<close>

text \<open>Sets of keys; a comparison by Python's \<open>!=\<close> on the keys present in both.\<close>

definition changed_keys :: "doc option \<Rightarrow> doc \<Rightarrow> string set" where
  "changed_keys before after =
     (case before of
        None \<Rightarrow> set (keys after)
      | Some b \<Rightarrow>
          (set (keys b) - set (keys after)) \<union> (set (keys after) - set (keys b)) \<union>
          {k \<in> set (keys after) \<inter> set (keys b).
             case (map_of b k, map_of after k) of (Some v, Some w) \<Rightarrow> \<not> py_eq v w | _ \<Rightarrow> False})"

definition state_tree :: "platform \<Rightarrow> 'v stream \<Rightarrow> 'v \<Rightarrow> exn + json" where
  "state_tree P s state = rbind (state_bytes P s state) (bytes_loads P)"

text \<open>The dictionary methods on a value that is not one raise.\<close>

definition as_doc :: "json \<Rightarrow> exn + doc" where
  "as_doc v = (case v of JObj d \<Rightarrow> Inr d | _ \<Rightarrow> Inl (Python AttributeError))"

section \<open>What is planned\<close>

text \<open>
  What Pydantic documents of the adapter of a model that is not a root model: it dumps to a JSON object
  with one entry per key.
\<close>

definition dumps_documents :: "'v adapter \<Rightarrow> bool" where
  "dumps_documents A \<longleftrightarrow> (\<forall>ex v j. ad_dump A ex v = Inr j \<longrightarrow> is_doc j)"

lemma canonicalize_doc:
  assumes "float_codec P" "dumps_documents A" "canonicalize P A ex v = Inr b"
  obtains x where "loads P b = Some (JObj x)" "json_ok (JObj x)" "canonical_bytes P (JObj x) = Some b"
proof -
  from assms(3) obtain j where j: "ad_dump A ex v = Inr j" "canonical_bytes P j = Some b"
    by (auto simp: canonicalize_def py_canonical_bytes_def split: option.splits)
  then obtain d where d: "j = JObj d" "json_ok (JObj d)"
    using assms(2) by (fastforce simp: dumps_documents_def is_doc_iff)
  then obtain x where x: "canon j = JObj x" by (simp add: canon_obj)
  have "loads P b = Some (JObj x)" using loads_canonical [OF assms(1) d(2)] j(2) d(1) x by simp
  moreover have "json_ok (JObj x)" using json_ok_canon [OF d(2)] d(1) x by simp
  moreover have "canonical_bytes P (JObj x) = Some b" using canonical_bytes_canon [of P j] j(2) x by simp
  ultimately show ?thesis by (rule that)
qed

lemma request_ok_planned:
  assumes "float_codec P" "dumps_documents (md_adapter (sm_model s))" "dumps_documents (md_adapter (mt_model t))"
    and "state_bytes P s v = Inr (cq_payload req)" "meta_bytes P t m = Inr (cq_meta req)"
    and "cq_digest req = digest P (cq_payload req)"
  shows "request_ok P req"
proof -
  obtain x where "loads P (cq_payload req) = Some (JObj x)" "json_ok (JObj x)"
    "canonical_bytes P (JObj x) = Some (cq_payload req)"
    by (rule canonicalize_doc [OF assms(1,2) assms(4) [unfolded state_bytes_def]])
  moreover obtain y where "loads P (cq_meta req) = Some (JObj y)" "json_ok (JObj y)"
    by (rule canonicalize_doc [OF assms(1,3) assms(5) [unfolded meta_bytes_def]])
  ultimately show ?thesis using assms(6) by (simp add: request_ok_def is_doc_iff)
qed

lemma plan_create_Inr:
  assumes "plan_create P A s state a meta = Inr req"
  obtains m where "state_bytes P s state = Inr (cq_payload req)" "meta_bytes P (ap_meta A) m = Inr (cq_meta req)"
    "cq_digest req = digest P (cq_payload req)" "cq_stream req = sm_name s" "cq_aggregate_id req = a"
    "cq_expected_revision req = None" "cq_kind req = ''create''" "cq_schema_version req = sm_schema_version s"
    "cq_meta_version req = mt_version (ap_meta A)" "cq_intents req = intents_for A s ''create'' (request_rid P req)"
  using assms by (auto simp: plan_create_def request_rid_def target_of_def intro!: that)

lemma plan_append_Inr:
  assumes "plan_append P A s base v meta = Inr req"
  obtains m where "state_bytes P s v = Inr (cq_payload req)" "meta_bytes P (ap_meta A) m = Inr (cq_meta req)"
    "cq_digest req = digest P (cq_payload req)" "cq_stream req = sm_name s" "cq_aggregate_id req = re_id base"
    "cq_expected_revision req = Some (re_revision base)" "cq_kind req = ''change''"
    "cq_schema_version req = sm_schema_version s"
    "cq_meta_version req = mt_version (ap_meta A)" "cq_intents req = intents_for A s ''change'' (request_rid P req)"
  using assms by (auto simp: plan_append_def request_rid_def target_of_def intro!: that)

lemma plan_change_Inr:
  assumes "plan_change P A s base updates meta = Inr req"
  obtains v where "plan_append P A s base v meta = Inr req"
  using assms by (auto simp: plan_change_def intro: that)

lemma plan_replace_Inr:
  assumes "plan_replace P A s base state meta = Inr req"
  obtains v where "plan_append P A s base v meta = Inr req"
  using assms by (auto simp: plan_replace_def intro: that)

text \<open>A stream as its constructor makes it, with its metadata.\<close>

definition declared_stream :: "platform \<Rightarrow> ('v, 'm, 's) app \<Rightarrow> 'v stream \<Rightarrow> bool" where
  "declared_stream P A s \<longleftrightarrow>
     (\<exists>md name version ups. make_stream P md name version ups = Inr s) \<and>
     (\<exists>md version ups. make_meta P md version ups = Inr (ap_meta A)) \<and>
     dumps_documents (md_adapter (sm_model s)) \<and> dumps_documents (md_adapter (mt_model (ap_meta A)))"

lemma declared_streamD:
  assumes "declared_stream P A s"
  shows "sm_name s \<noteq> []" "1 \<le> sm_schema_version s" "complete_chain (sm_upcasters s) 1 (sm_schema_version s)"
    "1 \<le> mt_version (ap_meta A)" "complete_chain (mt_upcasters (ap_meta A)) 1 (mt_version (ap_meta A))"
    "dumps_documents (md_adapter (sm_model s))" "dumps_documents (md_adapter (mt_model (ap_meta A)))"
  using assms by (auto simp: declared_stream_def dest!: make_stream_Inr make_meta_Inr valid_name_nonempty)

lemma plan_create_wf:
  assumes "float_codec P" "declared_stream P A s" "plan_create P A s state a meta = Inr req"
  shows "request_wf P req"
  using assms(3)
proof (rule plan_create_Inr)
  fix m assume b: "state_bytes P s state = Inr (cq_payload req)" "meta_bytes P (ap_meta A) m = Inr (cq_meta req)"
    "cq_digest req = digest P (cq_payload req)" and r: "cq_stream req = sm_name s" "cq_expected_revision req = None"
    "cq_kind req = ''create''" "cq_schema_version req = sm_schema_version s"
  have "request_ok P req" by (rule request_ok_planned [OF assms(1) declared_streamD(6,7) [OF assms(2)] b])
  then show ?thesis using r declared_streamD [OF assms(2)] by (simp add: request_wf_def)
qed

lemma plan_append_wf:
  assumes "float_codec P" "declared_stream P A s" "plan_append P A s base v meta = Inr req" "0 \<le> re_revision base"
  shows "request_wf P req"
  using assms(3)
proof (rule plan_append_Inr)
  fix m assume b: "state_bytes P s v = Inr (cq_payload req)" "meta_bytes P (ap_meta A) m = Inr (cq_meta req)"
    "cq_digest req = digest P (cq_payload req)" and r: "cq_stream req = sm_name s"
    "cq_expected_revision req = Some (re_revision base)"
    "cq_kind req = ''change''" "cq_schema_version req = sm_schema_version s"
  have "request_ok P req" by (rule request_ok_planned [OF assms(1) declared_streamD(6,7) [OF assms(2)] b])
  then show ?thesis using r declared_streamD [OF assms(2)] assms(4) by (simp add: request_wf_def)
qed

text \<open>Intents: one per matching outbox subscription, in order, all for the planned revision.\<close>

definition owed :: "'v stream \<Rightarrow> string \<Rightarrow> ('v, 'm, 's) subscription \<Rightarrow> bool" where
  "owed s kind b \<longleftrightarrow> sm_name (sb_stream b) = sm_name s \<and> kind \<in> set (sb_kinds b) \<and> is_outbox (sb_delivery b)"

lemma intents_for_alt:
  "intents_for A s kind rid =
     map (\<lambda>b. \<lparr>ir_subscription_id = sb_id b, ir_revision_id = rid, ir_queue = ob_queue (sb_delivery b)\<rparr>)
       (filter (owed s kind) (ap_subscriptions A))"
proof -
  have "concat (map (intent_for s kind rid) bs) =
      map (\<lambda>b. \<lparr>ir_subscription_id = sb_id b, ir_revision_id = rid, ir_queue = ob_queue (sb_delivery b)\<rparr>)
        (filter (owed s kind) bs)" for bs :: "('a, 'b, 'c) subscription list"
    by (induction bs) (auto simp: intent_for_def owed_def split: delivery.splits)
  then show ?thesis by (simp add: intents_for_def)
qed

lemma distinct_map_filter_on: "distinct (map f xs) \<Longrightarrow> distinct (map f (filter Q xs))"
  by (induction xs) auto

lemma intents_for_distinct:
  "distinct (map sb_id (ap_subscriptions A)) \<Longrightarrow>
     distinct (map (\<lambda>i. (ir_subscription_id i, ir_revision_id i)) (intents_for A s kind rid))"
  by (auto simp: intents_for_alt comp_def distinct_map inj_on_def)

lemma changed_keys_alt:
  assumes "dict_ok b" "dict_ok d"
  shows "changed_keys (Some b) d = set (keys (delta_changed d b)) \<union> set (delta_removed d b)"
proof -
  have key: "k \<in> set (keys e) \<longleftrightarrow> map_of e k \<noteq> None" for k and e :: doc
    by (simp add: map_of_eq_None_iff)
  have mem: "map_of (delta_changed d b) k \<noteq> None \<longleftrightarrow>
      (case map_of d k of None \<Rightarrow> False | Some w \<Rightarrow> (case map_of b k of None \<Rightarrow> True | Some v \<Rightarrow> \<not> py_eq v w))" for k
    by (auto simp: delta_changed_def map_of_filter_pairs assms(2) split: option.split)
  have removed: "k \<in> set (delta_removed d b) \<longleftrightarrow> map_of b k \<noteq> None \<and> map_of d k = None" for k
    unfolding delta_removed_def using key [of k b] key [of k d] by simp
  have "k \<in> changed_keys (Some b) d \<longleftrightarrow> k \<in> set (keys (delta_changed d b)) \<union> set (delta_removed d b)" for k
    unfolding changed_keys_def option.case Un_iff Diff_iff Int_iff mem_Collect_eq key mem removed
    by (cases "map_of b k"; cases "map_of d k") simp_all
  then show ?thesis by blast
qed

lemma changed_keys_empty:
  assumes "dict_ok b" "dict_ok d"
  shows "changed_keys (Some b) d = {} \<longleftrightarrow> py_eq (JObj b) (JObj d)"
proof -
  have key: "k \<in> set (keys e) \<longleftrightarrow> map_of e k \<noteq> None" for k and e :: doc
    by (simp add: map_of_eq_None_iff)
  have empty: "changed_keys (Some b) d = {} \<longleftrightarrow> set (keys b) = set (keys d) \<and>
      (\<forall>k v w. map_of b k = Some v \<longrightarrow> map_of d k = Some w \<longrightarrow> py_eq v w)"
    by (force simp: changed_keys_def key simp del: set_map split: option.splits)
  show ?thesis
  proof
    assume e: "changed_keys (Some b) d = {}"
    then have "length b = length d"
      using assms empty by (metis distinct_card length_map)
    moreover have "\<exists>w. map_of d k = Some w \<and> py_eq v w" if "(k, v) \<in> set b" for k v
    proof -
      have v: "map_of b k = Some v" using assms(1) that by simp
      then have "k \<in> set (keys d)" using e empty key by blast
      then obtain w where "map_of d k = Some w" using key by blast
      with e empty v show ?thesis by blast
    qed
    ultimately show "py_eq (JObj b) (JObj d)" unfolding py_eq_obj by blast
  next
    assume eq: "py_eq (JObj b) (JObj d)"
    have sub: "set (keys b) \<subseteq> set (keys d)"
    proof
      fix k assume "k \<in> set (keys b)"
      then obtain v where "(k, v) \<in> set b" by auto
      then obtain w where "map_of d k = Some w" using eq unfolding py_eq_obj by blast
      then show "k \<in> set (keys d)" using key by blast
    qed
    have "card (set (keys d)) = card (set (keys b))"
      using eq assms unfolding py_eq_obj by (simp only: distinct_card length_map)
    with sub have "set (keys b) = set (keys d)" by (intro card_subset_eq) simp_all
    moreover have "py_eq v w" if "map_of b k = Some v" "map_of d k = Some w" for k v w
    proof -
      have "(k, v) \<in> set b" using that(1) by (rule map_of_SomeD)
      then obtain w' where "map_of d k = Some w'" "py_eq v w'" using eq unfolding py_eq_obj by blast
      with that(2) show ?thesis by simp
    qed
    ultimately show "changed_keys (Some b) d = {}" using empty by blast
  qed
qed

section \<open>Concrete plans\<close>

definition sample_revision :: "(json, json) revision" where
  "sample_revision =
     \<lparr>re_stream = ''todos'', re_id = 5, re_revision = 0, re_revision_id = revision_id sample_platform ''todos'' 5 0,
      re_state = JObj [(''a'', JInt 1)], re_meta = JObj [], re_committed_at = 100,
      re_digest = cq_digest sample_create\<rparr>"

lemma sample_declared: "declared_stream sample_platform sample_app sample_stream"
proof -
  have "dumps_documents (md_adapter sample_model)" by (auto simp: dumps_documents_def sample_model_def split: if_splits)
  moreover have "ap_meta sample_app = sample_meta" by (simp add: sample_app_def)
  moreover have "sm_model sample_stream = sample_model" "mt_model sample_meta = sample_model"
    by (simp_all add: sample_stream_def sample_meta_def)
  ultimately show ?thesis
    unfolding declared_stream_def using sample_stream_made sample_meta_made by metis
qed

lemma sample_plans:
  "state_bytes sample_platform sample_stream (JObj [(''a'', JInt 1)]) = Inr (cq_payload sample_create)"
  "state_bytes sample_platform sample_stream (JObj [(''a'', JInt 2)]) = Inr (cq_payload sample_change)"
  "meta_bytes sample_platform sample_meta (JObj []) = Inr ''{}''"
  by code_simp+

lemma sample_fields:
  "ap_meta sample_app = sample_meta" "sm_model sample_stream = sample_model" "mt_model sample_meta = sample_model"
  "md_dump_python sample_model (JObj d) = Inr d" "md_validate_fields sample_model d = Inr (JObj d)"
  "md_new sample_model = Inr (JObj [])" "digest sample_platform p = p" "sm_name sample_stream = ''todos''"
  "sm_schema_version sample_stream = 1" "mt_version sample_meta = 1" "sm_fingerprint sample_stream = ''{}''"
  "re_state sample_revision = JObj [(''a'', JInt 1)]" "re_meta sample_revision = JObj []" "re_id sample_revision = 5"
  "re_revision sample_revision = 0"
  by (simp_all add: sample_app_def sample_stream_def sample_meta_def sample_model_def digest_def
      sample_platform_def sample_revision_def)

lemma sample_intents:
  assumes "kind = ''create'' \<or> kind = ''change''"
  shows "intents_for sample_app sample_stream kind rid =
    [\<lparr>ir_subscription_id = ''mail'', ir_revision_id = rid, ir_queue = ''q''\<rparr>]"
  using assms by (auto simp: intents_for_alt owed_def sample_app_def sample_stream_def)

lemma sample_planned:
  "plan_create sample_platform sample_app sample_stream (JObj [(''a'', JInt 1)]) 5 None =
     Inr (sample_create\<lparr>cq_fingerprint := ''{}'', cq_intents :=
       [\<lparr>ir_subscription_id = ''mail'', ir_revision_id = revision_id sample_platform ''todos'' 5 0, ir_queue = ''q''\<rparr>]\<rparr>)"
  "plan_change sample_platform sample_app sample_stream sample_revision [(''a'', JInt 2)] None =
     Inr (sample_change\<lparr>cq_fingerprint := ''{}'', cq_intents :=
       [\<lparr>ir_subscription_id = ''mail'', ir_revision_id = revision_id sample_platform ''todos'' 5 1, ir_queue = ''q''\<rparr>]\<rparr>)"
  by (simp_all add: plan_create_def plan_change_def plan_append_def sample_plans sample_fields merge_fields_def
      sample_intents) (simp_all add: sample_create_def sample_change_def)

section \<open>Properties\<close>

text \<open>
  Whatever a caller asks of a declared stream, the request the planner makes of it is one the tables
  accept: canonical bytes of a document with their digest, a positive schema version, and the kind that
  goes with the revision it expects, which is the one of the base it was planned on.
\<close>

theorem planned_requests_are_well_formed:
  assumes "float_codec P" "declared_stream P A s" "0 \<le> re_revision base"
  shows "(plan_create P A s state a meta = Inr req \<longrightarrow>
       request_wf P req \<and> cq_stream req = sm_name s \<and> cq_aggregate_id req = a \<and> target_of req = 0) \<and>
    (plan_change P A s base updates meta = Inr req \<or> plan_replace P A s base state meta = Inr req \<longrightarrow>
       request_wf P req \<and> cq_stream req = sm_name s \<and> cq_aggregate_id req = re_id base \<and>
       cq_expected_revision req = Some (re_revision base))"
proof (intro conjI impI)
  assume "plan_create P A s state a meta = Inr req"
  then show "request_wf P req" "cq_stream req = sm_name s" "cq_aggregate_id req = a" "target_of req = 0"
    using plan_create_wf [OF assms(1,2)] by (auto elim: plan_create_Inr simp: target_of_def)
next
  assume "plan_change P A s base updates meta = Inr req \<or> plan_replace P A s base state meta = Inr req"
  then obtain v where "plan_append P A s base v meta = Inr req"
    by (auto elim: plan_change_Inr plan_replace_Inr)
  then show "request_wf P req" "cq_stream req = sm_name s" "cq_aggregate_id req = re_id base"
    "cq_expected_revision req = Some (re_revision base)"
    using plan_append_wf [OF assms(1,2) _ assms(3)] by (auto elim: plan_append_Inr)
qed

lemma planned_requests_are_well_formed_witness:
  "\<exists>req. plan_change sample_platform (sample_app :: (json, json, unit) app) sample_stream sample_revision
       [(''a'', JInt 2)] None = Inr req \<and>
     request_wf sample_platform req \<and> cq_expected_revision req = Some 0"
proof -
  obtain req where req: "plan_change sample_platform (sample_app :: (json, json, unit) app) sample_stream
      sample_revision [(''a'', JInt 2)] None = Inr req"
    using sample_planned(2) by blast
  have "0 \<le> re_revision sample_revision" by (simp add: sample_revision_def)
  from planned_requests_are_well_formed [OF sample_float_codec sample_declared this] req
  have "request_wf sample_platform req \<and> cq_expected_revision req = Some (re_revision sample_revision)"
    by blast
  with req show ?thesis by (simp add: sample_revision_def)
qed

text \<open>
  Every commit owes exactly one intent to each outbox subscription of its stream and kind, in the order
  they are declared, for the revision the commit creates and in the subscription's queue; no subscription of
  an accepted application is owed two intents for one revision.
\<close>

theorem intents_are_owed_once:
  assumes "app_ok A"
  shows "intents_for A s kind rid =
      map (\<lambda>b. \<lparr>ir_subscription_id = sb_id b, ir_revision_id = rid, ir_queue = ob_queue (sb_delivery b)\<rparr>)
        (filter (\<lambda>b. sm_name (sb_stream b) = sm_name s \<and> kind \<in> set (sb_kinds b) \<and> is_outbox (sb_delivery b))
          (ap_subscriptions A)) \<and>
    distinct (map (\<lambda>i. (ir_subscription_id i, ir_revision_id i)) (intents_for A s kind rid))"
  using assms intents_for_distinct [of A s kind rid]
  by (simp add: app_ok_def) (simp add: intents_for_alt owed_def [abs_def])

lemma intents_are_owed_once_witness:
  "distinct (map (\<lambda>i. (ir_subscription_id i, ir_revision_id i))
     (intents_for (sample_app :: (json, json, unit) app) sample_stream ''create'' 7))"
proof -
  have "app_ok (sample_app :: (json, json, unit) app)" by (simp add: app_ok_def sample_app_def)
  from intents_are_owed_once [OF this, of sample_stream "''create''" 7] show ?thesis by (rule conjunct2)
qed

text \<open>
  The keys a commit is said to have changed are the keys its delta row would store: those that are set
  and those that are removed.  So nothing is changed exactly when the two documents are equal for Python.
\<close>

theorem changed_keys_are_the_delta:
  assumes "dict_ok b" "dict_ok d"
  shows "changed_keys (Some b) d = set (keys (delta_changed d b)) \<union> set (delta_removed d b) \<and>
    (changed_keys (Some b) d = {} \<longleftrightarrow> py_eq (JObj b) (JObj d))"
proof
  show "changed_keys (Some b) d = set (keys (delta_changed d b)) \<union> set (delta_removed d b)"
    by (rule changed_keys_alt [OF assms])
  show "changed_keys (Some b) d = {} \<longleftrightarrow> py_eq (JObj b) (JObj d)"
    by (rule changed_keys_empty [OF assms])
qed

lemma changed_keys_are_the_delta_witness:
  "changed_keys (Some [(''a'', JInt 1), (''b'', JInt 2)]) [(''a'', JBool True)] = {''b''}"
proof -
  have "delta_changed [(''a'', JBool True)] [(''a'', JInt 1), (''b'', JInt 2)] = []"
    "delta_removed [(''a'', JBool True)] [(''a'', JInt 1), (''b'', JInt 2)] = [''b'']" by code_simp+
  with changed_keys_are_the_delta [of "[(''a'', JInt 1), (''b'', JInt 2)]" "[(''a'', JBool True)]"]
  show ?thesis by simp
qed

end
