(* ===== verification/Effects.thy ===== *)
theory Effects
  imports Wire
begin

text \<open>
  Python code with effects: a computation takes the state of the world and returns, if it returns, what it
  raised or its value together with the new state.  \<open>None\<close> is the run that does not return.
\<close>

type_synonym ('s, 'a) py = "'s \<Rightarrow> ((exn + 'a) \<times> 's) option"

definition py_return :: "'a \<Rightarrow> ('s, 'a) py" where
  "py_return x = (\<lambda>s. Some (Inr x, s))"

definition py_raise :: "exn \<Rightarrow> ('s, 'a) py" where
  "py_raise e = (\<lambda>s. Some (Inl e, s))"

definition py_bind :: "('s, 'a) py \<Rightarrow> ('a \<Rightarrow> ('s, 'b) py) \<Rightarrow> ('s, 'b) py" where
  "py_bind m f = (\<lambda>s.
     case m s of
       None \<Rightarrow> None
     | Some (r, s') \<Rightarrow> (case r of Inl e \<Rightarrow> Some (Inl e, s') | Inr x \<Rightarrow> f x s'))"

text \<open>A pure computation that may raise, one that moreover may not return, and one that always returns.\<close>

definition py_pure :: "exn + 'a \<Rightarrow> ('s, 'a) py" where
  "py_pure r = (\<lambda>s. Some (r, s))"

definition py_partial :: "(exn + 'a) option \<Rightarrow> ('s, 'a) py" where
  "py_partial m = (\<lambda>s. case m of None \<Rightarrow> None | Some r \<Rightarrow> Some (r, s))"

definition py_total :: "('s \<Rightarrow> (exn + 'a) \<times> 's) \<Rightarrow> ('s, 'a) py" where
  "py_total f = (\<lambda>s. Some (f s))"

definition py_reader :: "('s \<Rightarrow> exn + 'a) \<Rightarrow> ('s, 'a) py" where
  "py_reader f = (\<lambda>s. Some (f s, s))"

text \<open>\<open>except Exception\<close>: the handler continues in the state the exception left.\<close>

definition py_try :: "('s, 'a) py \<Rightarrow> (exn \<Rightarrow> ('s, 'a) py) \<Rightarrow> ('s, 'a) py" where
  "py_try m h = (\<lambda>s.
     case m s of
       None \<Rightarrow> None
     | Some (r, s') \<Rightarrow> (case r of Inl e \<Rightarrow> h e s' | Inr x \<Rightarrow> Some (Inr x, s')))"

named_theorems py_simps \<open>running computations with effects\<close>

lemma py_run [py_simps]:
  "py_return x s = Some (Inr x, s)" "py_raise e s = Some (Inl e, s)" "py_pure r s = Some (r, s)"
  "py_total f s = Some (f s)" "py_reader g s = Some (g s, s)" "py_partial (Some r) s = Some (r, s)"
  "py_partial None s = None"
  by (simp_all add: py_return_def py_raise_def py_pure_def py_total_def py_reader_def py_partial_def)

lemma py_bind_run [py_simps]:
  "m s = Some (Inr x, s') \<Longrightarrow> py_bind m f s = f x s'"
  "m s = Some (Inl e, s') \<Longrightarrow> py_bind m f s = Some (Inl e, s')"
  "m s = None \<Longrightarrow> py_bind m f s = None"
  by (simp_all add: py_bind_def)

lemma py_bind_Inr:
  "py_bind m f s = Some (Inr y, t) \<longleftrightarrow> (\<exists>x s'. m s = Some (Inr x, s') \<and> f x s' = Some (Inr y, t))"
  by (auto simp: py_bind_def split: option.splits sum.splits)

lemma py_bind_Inl:
  "py_bind m f s = Some (Inl e, t) \<longleftrightarrow>
     m s = Some (Inl e, t) \<or> (\<exists>x s'. m s = Some (Inr x, s') \<and> f x s' = Some (Inl e, t))"
  by (auto simp: py_bind_def split: option.splits sum.splits)

text \<open>For a sequence whose parts always return.\<close>

lemma py_bind_pure [py_simps]:
  "py_bind (py_pure r) f s = (case r of Inl e \<Rightarrow> Some (Inl e, s) | Inr x \<Rightarrow> f x s)"
  "py_bind (py_reader g) f s = (case g s of Inl e \<Rightarrow> Some (Inl e, s) | Inr x \<Rightarrow> f x s)"
  "py_bind (py_total h) f s = (case fst (h s) of Inl e \<Rightarrow> Some (Inl e, snd (h s)) | Inr x \<Rightarrow> f x (snd (h s)))"
  by (auto simp: py_bind_def py_run split: sum.split prod.split)

lemma py_try_run [py_simps]:
  "m s = Some (Inr x, s') \<Longrightarrow> py_try m h s = Some (Inr x, s')"
  "m s = Some (Inl e, s') \<Longrightarrow> py_try m h s = h e s'"
  by (simp_all add: py_try_def)

lemma py_return_Inr: "py_return x s = Some (Inr y, t) \<longleftrightarrow> x = y \<and> s = t"
  by (simp add: py_return_def)

end
