(* ===== verification/Hydration.thy ===== *)
theory Hydration
  imports Planning Effects
begin

text \<open>
  Hydration (\<open>src/eventic/hydration.py\<close>): a stored document becomes a revision of the declared types, after
  upcasting both documents to the declared versions.  It does not return when an upcaster chain that was
  never validated does not end.
\<close>

definition hydrate_document :: "platform \<Rightarrow> 'v adapter \<Rightarrow> (exn + json) option \<Rightarrow> (exn + 'v) option" where
  "hydrate_document P A upcasted =
     (case upcasted of
        None \<Rightarrow> None
      | Some r \<Rightarrow> Some (rbind r (\<lambda>tree. rbind (py_canonical_bytes P tree) (ad_validate_json A))))"

definition hydrate ::
  "platform \<Rightarrow> 'v stream \<Rightarrow> 'm meta_decl \<Rightarrow> stored_revision \<Rightarrow> (exn + ('v, 'm) revision) option" where
  "hydrate P s t st =
     (case hydrate_document P (md_adapter (sm_model s))
             (upcast_tree (sr_payload st) (sr_schema_version st) (sm_schema_version s) (sm_upcasters s)) of
        None \<Rightarrow> None
      | Some (Inl e) \<Rightarrow> Some (Inl e)
      | Some (Inr state) \<Rightarrow>
          (case hydrate_document P (md_adapter (mt_model t))
                  (upcast_tree (sr_meta st) (sr_meta_version st) (mt_version t) (mt_upcasters t)) of
             None \<Rightarrow> None
           | Some (Inl e) \<Rightarrow> Some (Inl e)
           | Some (Inr meta) \<Rightarrow>
               Some (Inr \<lparr>re_stream = sr_stream st, re_id = sr_aggregate_id st, re_revision = sr_revision st,
                          re_revision_id = sr_revision_id st, re_state = state, re_meta = meta,
                          re_committed_at = sr_committed_at st, re_digest = sr_digest st\<rparr>)))"

text \<open>What hydration computes when both chains are complete.\<close>

definition upcast_document :: "json \<Rightarrow> int \<Rightarrow> int \<Rightarrow> chain \<Rightarrow> exn + json" where
  "upcast_document tree from_version to_version ups =
     (if from_version > to_version then Inl (Eventic (UndecodableRevision (Some (Versions from_version to_version))))
      else apply_chain ups tree [from_version..to_version - 1])"

lemma upcast_tree_complete:
  assumes "complete_chain ups 1 t" "1 \<le> v"
  shows "upcast_tree tree v t ups = Some (upcast_document tree v t ups)"
proof (cases "v \<le> t")
  case True
  then show ?thesis
    using upcast_chain [OF complete_chain_mono [OF assms(1), of v t]] assms(2)
    by (auto simp: upcast_tree_def upcast_document_def)
qed (simp add: upcast_tree_def upcast_document_def)

definition hydrated ::
  "platform \<Rightarrow> 'v stream \<Rightarrow> 'm meta_decl \<Rightarrow> stored_revision \<Rightarrow> exn + ('v, 'm) revision" where
  "hydrated P s t st =
     rbind (upcast_document (sr_payload st) (sr_schema_version st) (sm_schema_version s) (sm_upcasters s)) (\<lambda>tree.
     rbind (py_canonical_bytes P tree) (\<lambda>b.
     rbind (ad_validate_json (md_adapter (sm_model s)) b) (\<lambda>state.
     rbind (upcast_document (sr_meta st) (sr_meta_version st) (mt_version t) (mt_upcasters t)) (\<lambda>meta_tree.
     rbind (py_canonical_bytes P meta_tree) (\<lambda>c.
     rbind (ad_validate_json (md_adapter (mt_model t)) c) (\<lambda>meta.
       Inr \<lparr>re_stream = sr_stream st, re_id = sr_aggregate_id st, re_revision = sr_revision st,
            re_revision_id = sr_revision_id st, re_state = state, re_meta = meta,
            re_committed_at = sr_committed_at st, re_digest = sr_digest st\<rparr>))))))"

lemma hydrate_complete:
  assumes "complete_chain (sm_upcasters s) 1 (sm_schema_version s)" "complete_chain (mt_upcasters t) 1 (mt_version t)"
    and "1 \<le> sr_schema_version st" "1 \<le> sr_meta_version st"
  shows "hydrate P s t st = Some (hydrated P s t st)"
  using upcast_tree_complete [OF assms(1,3), of "sr_payload st"] upcast_tree_complete [OF assms(2,4), of "sr_meta st"]
  by (auto simp: hydrate_def hydrate_document_def hydrated_def rbind_def split: sum.splits)

text \<open>At the declared versions only the canonical bytes of the two documents matter.\<close>

lemma hydrated_current:
  assumes "sr_schema_version st = sm_schema_version s" "sr_meta_version st = mt_version t"
    and "canonical_bytes P (sr_payload st) = Some b" "canonical_bytes P (sr_meta st) = Some c"
  shows "hydrated P s t st =
    rbind (ad_validate_json (md_adapter (sm_model s)) b) (\<lambda>state.
    rbind (ad_validate_json (md_adapter (mt_model t)) c) (\<lambda>meta.
      Inr \<lparr>re_stream = sr_stream st, re_id = sr_aggregate_id st, re_revision = sr_revision st,
           re_revision_id = sr_revision_id st, re_state = state, re_meta = meta,
           re_committed_at = sr_committed_at st, re_digest = sr_digest st\<rparr>))"
  using assms by (simp add: hydrated_def upcast_document_def py_canonical_bytes_def)

end
