(* ===== verification/Delivery.thy ===== *)
theory Delivery
  imports Samples
begin

text \<open>
  The outbox: claiming and settling intents (\<open>claim\<close> and \<open>settle\<close> of \<open>src/eventic/sql/store.py\<close>) and
  redriving dead ones (\<open>redrive\<close> of \<open>src/eventic/sql/admin.py\<close>), each one transaction over the tables.

  \<open>outbox_step\<close> is one such transaction, of any worker, operator or writer, and \<open>outbox_run\<close> a sequence
  of them with their labels, so that what holds of every interleaving is proved by induction over runs.
\<close>

section \<open>The operations\<close>

definition claimed_of :: "intent_row \<times> revision_row \<Rightarrow> claimed_intent" where
  "claimed_of row =
     (case row of (i, r) \<Rightarrow>
        \<lparr>ci_intent_id = in_intent_id i, ci_subscription_id = in_subscription_id i,
         ci_revision_id = in_revision_id i, ci_queue = in_queue i, ci_attempts = in_attempts i + 1,
         ci_stream = rv_stream r, ci_aggregate_id = Some (rv_aggregate_id r), ci_revision = rv_revision r\<rparr>)"

definition store_claim ::
  "db \<Rightarrow> string \<Rightarrow> int \<Rightarrow> int \<Rightarrow> time \<Rightarrow> (eventic_error + claimed_intent list) \<times> db" where
  "store_claim d queue limit lease now =
     (if limit < 1 then (Inl UsageError, d)
      else
        (let rows = claim_select d queue now limit in
         (Inr (map claimed_of rows),
          if rows = [] then d
          else claim_mark_leased d (map (in_intent_id \<circ> fst) rows) (now + lease))))"

text \<open>One statement per settlement, in one transaction.\<close>

fun settle_all :: "db \<Rightarrow> settlement list \<Rightarrow> exn + db" where
  "settle_all d [] = Inr d"
| "settle_all d (s # ss) = rbind (settle_one d s) (\<lambda>d'. settle_all d' ss)"

definition store_settle :: "db \<Rightarrow> settlement list \<Rightarrow> (eventic_error + unit) \<times> db" where
  "store_settle d ss =
     (case settle_all d ss of
        Inr d' \<Rightarrow> (Inr (), d')
      | Inl e \<Rightarrow> (Inl (read_error e), d))"

definition redrives :: "string \<Rightarrow> intent_row \<Rightarrow> bool" where
  "redrives subscription i \<longleftrightarrow> in_subscription_id i = subscription \<and> in_status i = ''dead''"

definition admin_redrive :: "db \<Rightarrow> string \<Rightarrow> time \<Rightarrow> nat \<times> db" where
  "admin_redrive d subscription now =
     (length (filter (redrives subscription) (db_intents d)),
      d\<lparr>db_intents := map (\<lambda>i. if redrives subscription i
          then i\<lparr>in_status := ''pending'', in_attempts := 0, in_available_at := now,
                 in_leased_until := None, in_last_error := None\<rparr>
          else i) (db_intents d)\<rparr>)"

section \<open>Rows of the intent table\<close>

text \<open>
  What every operation keeps of an intent row: its status is one of the three, and it has a lease end
  exactly when it is leased.
\<close>

definition intent_ok :: "intent_row \<Rightarrow> bool" where
  "intent_ok i \<longleftrightarrow>
     in_status i \<in> {''pending'', ''leased'', ''dead''} \<and> (in_status i = ''leased'' \<longleftrightarrow> in_leased_until i \<noteq> None) \<and>
     0 \<le> in_attempts i \<and> in_queue i \<noteq> []"

definition outbox_ok :: "db \<Rightarrow> bool" where
  "outbox_ok d \<longleftrightarrow>
     distinct (map in_intent_id (db_intents d)) \<and>
     distinct (map (\<lambda>i. (in_subscription_id i, in_revision_id i)) (db_intents d)) \<and>
     (\<forall>i \<in> set (db_intents d). intent_ok i)"

text \<open>The intent with a given id.\<close>

definition intent_of :: "db \<Rightarrow> uuid \<Rightarrow> intent_row option" where
  "intent_of d u = List.find (\<lambda>i. in_intent_id i = u) (db_intents d)"

lemma intent_of_None: "intent_of d u = None \<longleftrightarrow> u \<notin> in_intent_id ` set (db_intents d)"
  by (auto simp: intent_of_def find_None image_iff)

lemma intent_of_unique:
  "outbox_ok d \<Longrightarrow> i \<in> set (db_intents d) \<Longrightarrow> intent_of d (in_intent_id i) = Some i"
  unfolding intent_of_def outbox_ok_def by (rule find_unique [where f = in_intent_id]) auto

lemma intent_of_Some: "intent_of d u = Some i \<Longrightarrow> i \<in> set (db_intents d) \<and> in_intent_id i = u"
  unfolding intent_of_def by (auto dest: find_SomeD)

text \<open>An update of rows that keeps their ids is an update of what the ids lead to.\<close>

lemma intent_of_map:
  assumes "db_intents d' = map f (db_intents d)" "\<And>i. in_intent_id (f i) = in_intent_id i"
  shows "intent_of d' u = map_option f (intent_of d u)"
proof -
  have "List.find (\<lambda>i. in_intent_id i = u) (map f is) = map_option f (List.find (\<lambda>i. in_intent_id i = u) is)" for "is"
    by (induction "is") (auto simp: assms(2))
  then show ?thesis by (simp add: intent_of_def assms(1))
qed

lemma outbox_ok_map:
  assumes "outbox_ok d" "db_intents d' = map f (db_intents d)"
    and "\<And>i. in_intent_id (f i) = in_intent_id i" "\<And>i. in_subscription_id (f i) = in_subscription_id i"
    and "\<And>i. in_revision_id (f i) = in_revision_id i" "\<And>i. intent_ok i \<Longrightarrow> intent_ok (f i)"
  shows "outbox_ok d'"
  using assms by (auto simp: outbox_ok_def comp_def)

section \<open>Claiming\<close>

definition claim_ids :: "db \<Rightarrow> string \<Rightarrow> time \<Rightarrow> int \<Rightarrow> uuid list" where
  "claim_ids d queue now limit = map (in_intent_id \<circ> fst) (claim_select d queue now limit)"

definition lease_intent :: "time \<Rightarrow> intent_row \<Rightarrow> intent_row" where
  "lease_intent lease_until i =
     i\<lparr>in_status := ''leased'', in_leased_until := Some lease_until, in_attempts := in_attempts i + 1\<rparr>"

text \<open>The rows a claim may take, in the order it takes them.\<close>

definition claim_queue :: "db \<Rightarrow> string \<Rightarrow> time \<Rightarrow> intent_row list" where
  "claim_queue d queue now =
     sort_key in_available_at
       (filter (\<lambda>i. in_queue i = queue \<and> claimable now i \<and> revision_of_intent d i \<noteq> None) (db_intents d))"

lemma claim_select_alt:
  "claim_select d queue now limit =
     map (\<lambda>i. (i, the (revision_of_intent d i))) (take (nat limit) (claim_queue d queue now))"
  by (simp add: claim_select_def claim_queue_def take_map)

lemma claim_ids_alt: "claim_ids d queue now limit = map in_intent_id (take (nat limit) (claim_queue d queue now))"
  by (simp add: claim_ids_def claim_select_alt comp_def)

lemma set_claim_queue:
  "set (claim_queue d queue now) =
     {i \<in> set (db_intents d). in_queue i = queue \<and> claimable now i \<and> revision_of_intent d i \<noteq> None}"
  by (simp add: claim_queue_def)

lemma store_claim_Inr:
  "store_claim d queue limit lease now = (Inr cs, d') \<longleftrightarrow>
     1 \<le> limit \<and> cs = map claimed_of (claim_select d queue now limit) \<and>
     d' = claim_mark_leased d (claim_ids d queue now limit) (now + lease)"
proof -
  have "claim_mark_leased d [] t = d" for t by (simp add: claim_mark_leased_def)
  then show ?thesis by (auto simp: store_claim_def claim_ids_def Let_def)
qed

lemma store_claim_Inl: "store_claim d queue limit lease now = (Inl e, d') \<longleftrightarrow> limit < 1 \<and> e = UsageError \<and> d' = d"
  by (auto simp: store_claim_def Let_def)

lemma intents_claim:
  "db_intents (claim_mark_leased d ids t) =
     map (\<lambda>i. if in_intent_id i \<in> set ids then lease_intent t i else i) (db_intents d)"
  by (simp add: claim_mark_leased_def lease_intent_def)

lemma intent_of_claim:
  "intent_of (claim_mark_leased d ids t) u =
     map_option (\<lambda>i. if u \<in> set ids then lease_intent t i else i) (intent_of d u)"
proof -
  have "intent_of (claim_mark_leased d ids t) u =
      map_option (\<lambda>i. if in_intent_id i \<in> set ids then lease_intent t i else i) (intent_of d u)"
    by (rule intent_of_map [OF intents_claim]) (simp add: lease_intent_def)
  then show ?thesis by (cases "intent_of d u") (auto dest: intent_of_Some)
qed

lemma claim_keeps_ok: "outbox_ok d \<Longrightarrow> outbox_ok (claim_mark_leased d ids t)"
  by (rule outbox_ok_map [OF _ intents_claim]) (auto simp: lease_intent_def intent_ok_def)

section \<open>Settling\<close>

text \<open>A settlement deletes the row it names or updates it, and leaves the others.\<close>

definition settle_update :: "settlement \<Rightarrow> intent_row \<Rightarrow> intent_row" where
  "settle_update s i =
     (if st_status s = ''retry''
      then i\<lparr>in_status := ''pending'', in_leased_until := None,
             in_available_at := (case st_available_at s of Some t \<Rightarrow> t | None \<Rightarrow> in_available_at i),
             in_last_error := st_error s\<rparr>
      else i\<lparr>in_status := ''dead'', in_leased_until := None, in_last_error := st_error s\<rparr>)"

lemma settle_update_ids [simp]:
  "in_intent_id (settle_update s i) = in_intent_id i"
  "in_subscription_id (settle_update s i) = in_subscription_id i"
  "in_revision_id (settle_update s i) = in_revision_id i"
  by (simp_all add: settle_update_def)

lemma settle_one_Inr:
  assumes "settle_one d s = Inr d'"
  shows "db_intents d' =
    (if st_status s = ''delivered'' then filter (\<lambda>i. in_intent_id i \<noteq> st_intent_id s) (db_intents d)
     else map (\<lambda>i. if in_intent_id i = st_intent_id s then settle_update s i else i) (db_intents d))"
  using assms
  by (auto simp: settle_one_def Let_def settle_update_def map_idI split: if_splits option.splits)

lemma settle_one_ids:
  assumes "settle_one d s = Inr d'"
  shows "u \<in> in_intent_id ` set (db_intents d') \<longleftrightarrow>
     u \<in> in_intent_id ` set (db_intents d) \<and> \<not> (st_status s = ''delivered'' \<and> st_intent_id s = u)"
proof -
  have ids: "in_intent_id ` set (map (\<lambda>i. if in_intent_id i = st_intent_id s then settle_update s i else i) is)
      = in_intent_id ` set is" for "is"
  proof (induction "is")
    case (Cons i "is")
    then show ?case by (cases "in_intent_id i = st_intent_id s") simp_all
  qed simp
  show ?thesis
  proof (cases "st_status s = ''delivered''")
    case True
    with settle_one_Inr [OF assms] show ?thesis by auto
  next
    case False
    with settle_one_Inr [OF assms] ids show ?thesis by simp
  qed
qed

lemma settle_one_keeps_ok: "outbox_ok d \<Longrightarrow> settle_one d s = Inr d' \<Longrightarrow> outbox_ok d'"
proof -
  assume ok: "outbox_ok d" and run: "settle_one d s = Inr d'"
  show ?thesis
  proof (cases "st_status s = ''delivered''")
    case True
    with settle_one_Inr [OF run] ok show ?thesis by (auto simp: outbox_ok_def distinct_map_filter)
  next
    case False
    with settle_one_Inr [OF run]
    have "db_intents d' = map (\<lambda>i. if in_intent_id i = st_intent_id s then settle_update s i else i) (db_intents d)"
      by simp
    then show ?thesis
      by (rule outbox_ok_map [OF ok]) (auto simp: settle_update_def intent_ok_def)
  qed
qed

lemma settle_all_keeps_ok: "outbox_ok d \<Longrightarrow> settle_all d ss = Inr d' \<Longrightarrow> outbox_ok d'"
  by (induction ss arbitrary: d) (auto intro: settle_one_keeps_ok)

text \<open>The only way out of the table is a settlement that says \<open>delivered\<close>.\<close>

lemma settle_all_ids:
  "settle_all d ss = Inr d' \<Longrightarrow> u \<in> in_intent_id ` set (db_intents d') \<longleftrightarrow>
     u \<in> in_intent_id ` set (db_intents d) \<and> \<not> (\<exists>s \<in> set ss. st_status s = ''delivered'' \<and> st_intent_id s = u)"
proof (induction ss arbitrary: d)
  case (Cons s ss)
  from Cons.prems obtain d1 where "settle_one d s = Inr d1" "settle_all d1 ss = Inr d'" by auto
  with Cons.IH [of d1] settle_one_ids [of d s d1 u] show ?case by auto
qed simp

lemma settle_one_log: "settle_one d s = Inr d' \<Longrightarrow> db_revisions d' = db_revisions d \<and> db_heads d' = db_heads d"
  by (auto simp: settle_one_def Let_def split: if_splits option.splits)

lemma settle_all_log: "settle_all d ss = Inr d' \<Longrightarrow> db_revisions d' = db_revisions d \<and> db_heads d' = db_heads d"
  by (induction ss arbitrary: d) (auto dest: settle_one_log)

text \<open>An intent that no settlement names is as it was.\<close>

lemma settle_one_other:
  assumes "settle_one d s = Inr d'" "st_intent_id s \<noteq> u"
  shows "intent_of d' u = intent_of d u"
proof (cases "st_status s = ''delivered''")
  case True
  have "List.find (\<lambda>i. in_intent_id i = u) (filter (\<lambda>i. in_intent_id i \<noteq> st_intent_id s) is) =
      List.find (\<lambda>i. in_intent_id i = u) is" for "is"
    using assms(2) by (induction "is") auto
  with True settle_one_Inr [OF assms(1)] show ?thesis by (simp add: intent_of_def)
next
  case False
  have "intent_of d' u = map_option (\<lambda>i. if in_intent_id i = st_intent_id s then settle_update s i else i) (intent_of d u)"
    by (rule intent_of_map) (use settle_one_Inr [OF assms(1)] False in simp_all)
  with assms(2) show ?thesis by (cases "intent_of d u") (auto dest: intent_of_Some)
qed

lemma settle_all_other:
  "settle_all d ss = Inr d' \<Longrightarrow> \<forall>s \<in> set ss. st_intent_id s \<noteq> u \<Longrightarrow> intent_of d' u = intent_of d u"
  by (induction ss arbitrary: d) (auto simp: settle_one_other)

section \<open>Runs\<close>

text \<open>The transactions of writers, workers and operators, labelled with what they did.\<close>

datatype outbox_label =
    Commits "commit_request list"
  | Claims string int int time "claimed_intent list"
  | Settles "settlement list"
  | Redrives string time

inductive outbox_step :: "platform \<Rightarrow> encodings \<Rightarrow> nat \<Rightarrow> db \<Rightarrow> outbox_label \<Rightarrow> db \<Rightarrow> bool" where
  commits: "store_commit P encs m now d reqs = (out, d') \<Longrightarrow> \<forall>req \<in> set reqs. request_ok P req \<Longrightarrow>
     outbox_step P encs m d (Commits reqs) d'"
| claims: "store_claim d queue limit lease now = (Inr cs, d') \<Longrightarrow>
     outbox_step P encs m d (Claims queue limit lease now cs) d'"
| settles: "settle_all d ss = Inr d' \<Longrightarrow> outbox_step P encs m d (Settles ss) d'"
| redrives: "outbox_step P encs m d (Redrives subscription now) (snd (admin_redrive d subscription now))"

inductive outbox_run :: "platform \<Rightarrow> encodings \<Rightarrow> nat \<Rightarrow> db \<Rightarrow> outbox_label list \<Rightarrow> db \<Rightarrow> bool" where
  start: "outbox_run P encs m d [] d"
| step: "outbox_run P encs m d ls d' \<Longrightarrow> outbox_step P encs m d' l d'' \<Longrightarrow> outbox_run P encs m d (ls @ [l]) d''"

inductive_cases outbox_step_CommitsE: "outbox_step P encs m d (Commits reqs) d'"
inductive_cases outbox_step_ClaimsE: "outbox_step P encs m d (Claims queue limit lease now cs) d'"
inductive_cases outbox_step_SettlesE: "outbox_step P encs m d (Settles ss) d'"
inductive_cases outbox_step_RedrivesE: "outbox_step P encs m d (Redrives subscription now) d'"

text \<open>A commit only adds pending intents.\<close>

definition fresh_intent :: "intent_row \<Rightarrow> bool" where
  "fresh_intent i \<longleftrightarrow> in_status i = ''pending'' \<and> in_attempts i = 0 \<and> in_leased_until i = None"

lemma insert_intents_ok:
  "insert_intents P now is d = Inr d' \<Longrightarrow> outbox_ok d \<Longrightarrow> outbox_ok d'"
proof (induction "is" arbitrary: d)
  case (Cons i "is")
  from Cons.prems(1) obtain d1 where d1: "intent_violation d (new_intent_row P now i) = None"
    "d1 = d\<lparr>db_intents := db_intents d @ [new_intent_row P now i]\<rparr>" "insert_intents P now is d1 = Inr d'"
    by (auto simp: insert_intent_Inr)
  with Cons.prems(2) have "outbox_ok d1"
    by (auto simp: outbox_ok_def intent_violation_None intent_ok_def new_intent_row_def)
  with d1(3) show ?case by (rule Cons.IH)
qed simp

lemma outbox_ok_cong: "db_intents d = db_intents d' \<Longrightarrow> outbox_ok d = outbox_ok d'"
  by (simp add: outbox_ok_def)

lemma commit_one_intents:
  assumes "commit_one P encs now d req = Inr (d', res)"
  shows "\<exists>new. db_intents d' = db_intents d @ new \<and> (\<forall>i \<in> set new. fresh_intent i)"
    and "outbox_ok d \<Longrightarrow> outbox_ok d'"
proof -
  from assms have "(\<exists>new. db_intents d' = db_intents d @ new \<and> (\<forall>i \<in> set new. fresh_intent i)) \<and>
      (outbox_ok d \<longrightarrow> outbox_ok d')"
  proof (cases rule: commit_one_cases)
    case (replay row)
    then have "db_intents d' = db_intents d"
      by (auto split: option.splits if_splits dest: upsert_head_from_row_revisions)
    then show ?thesis using outbox_ok_cong [of d' d] by simp
  next
    case append
    then obtain d1 d2 where ints: "insert_intents P now (cq_intents req) d1 = Inr d2"
      and d1: "db_intents d1 = db_intents d" and d2: "db_intents d' = db_intents d2"
      unfolding append_revision_def by (auto simp: insert_revision_Inr split: if_splits)
    have "outbox_ok d \<Longrightarrow> outbox_ok d'"
      using insert_intents_ok [OF ints] outbox_ok_cong [OF d1] outbox_ok_cong [OF d2] by simp
    moreover have "db_intents d' = db_intents d @ map (new_intent_row P now) (cq_intents req)"
      using insert_intents_Inr [OF ints] d1 d2 by simp
    ultimately show ?thesis by (auto simp: fresh_intent_def new_intent_row_def)
  qed
  then show "\<exists>new. db_intents d' = db_intents d @ new \<and> (\<forall>i \<in> set new. fresh_intent i)"
    and "outbox_ok d \<Longrightarrow> outbox_ok d'" by blast+
qed

lemma store_commit_intents:
  assumes "store_commit P encs m now d reqs = (out, d')"
  shows "\<exists>new. db_intents d' = db_intents d @ new \<and> (\<forall>i \<in> set new. fresh_intent i)"
    and "outbox_ok d \<Longrightarrow> outbox_ok d'"
proof -
  have run: "(\<exists>new. db_intents d' = db_intents d @ new \<and> (\<forall>i \<in> set new. fresh_intent i)) \<and> (outbox_ok d \<longrightarrow> outbox_ok d')"
    if "rfold (commit_one P encs now) d reqs = Inr (d', rs)" for d rs
    using that
  proof (induction reqs arbitrary: d rs)
    case (Cons req reqs)
    from Cons.prems obtain d1 r rs' where one: "commit_one P encs now d req = Inr (d1, r)"
      and rest: "rfold (commit_one P encs now) d1 reqs = Inr (d', rs')"
      by (rule rfold_Inr_Cons)
    from commit_one_intents(1) [OF one] obtain n1 where
      n1: "db_intents d1 = db_intents d @ n1" "\<forall>i \<in> set n1. fresh_intent i" by blast
    from Cons.IH [OF rest] obtain n2 where
      n2: "db_intents d' = db_intents d1 @ n2" "\<forall>i \<in> set n2. fresh_intent i" by blast
    have "db_intents d' = db_intents d @ (n1 @ n2)" "\<forall>i \<in> set (n1 @ n2). fresh_intent i"
      using n1 n2 by auto
    with Cons.IH [OF rest] commit_one_intents(2) [OF one] show ?case by blast
  qed simp
  have "(\<exists>new. db_intents d' = db_intents d @ new \<and> (\<forall>i \<in> set new. fresh_intent i)) \<and> (outbox_ok d \<longrightarrow> outbox_ok d')"
  proof (cases out)
    case (Inl e)
    with assms store_commit_Inl have "d' = d" by fastforce
    then show ?thesis by simp
  next
    case (Inr rs)
    with assms have "rfold (commit_one P encs now) d reqs = Inr (d', rs)" by (simp add: store_commit_Inr)
    then show ?thesis by (rule run)
  qed
  then show "\<exists>new. db_intents d' = db_intents d @ new \<and> (\<forall>i \<in> set new. fresh_intent i)"
    and "outbox_ok d \<Longrightarrow> outbox_ok d'" by blast+
qed

lemma redrive_intents:
  "db_intents (snd (admin_redrive d subscription now)) =
     map (\<lambda>i. if redrives subscription i
          then i\<lparr>in_status := ''pending'', in_attempts := 0, in_available_at := now,
                 in_leased_until := None, in_last_error := None\<rparr>
          else i) (db_intents d)"
  by (simp add: admin_redrive_def)

lemma redrive_ids: "in_intent_id ` set (db_intents (snd (admin_redrive d subscription now))) = in_intent_id ` set (db_intents d)"
proof -
  have "map in_intent_id (db_intents (snd (admin_redrive d subscription now))) = map in_intent_id (db_intents d)"
    by (simp add: redrive_intents)
  then show ?thesis by (metis set_map)
qed

lemma claim_mark_ids: "in_intent_id ` set (db_intents (claim_mark_leased d ids t)) = in_intent_id ` set (db_intents d)"
proof -
  have "map in_intent_id (db_intents (claim_mark_leased d ids t)) = map in_intent_id (db_intents d)"
    by (simp add: intents_claim lease_intent_def)
  then show ?thesis by (metis set_map)
qed

lemma outbox_step_ok: "outbox_step P encs m d l d' \<Longrightarrow> outbox_ok d \<Longrightarrow> outbox_ok d'"
proof (induction rule: outbox_step.induct)
  case (commits P encs m now d reqs out d')
  then show ?case using store_commit_intents(2) by blast
next
  case (claims d queue limit lease now cs d')
  then show ?case by (simp add: store_claim_Inr claim_keeps_ok)
next
  case (settles d ss d')
  then show ?case by (simp add: settle_all_keeps_ok)
next
  case (redrives d subscription now)
  then show ?case
    by (rule outbox_ok_map [OF _ redrive_intents]) (auto simp: intent_ok_def)
qed

lemma outbox_run_ok: "outbox_run P encs m d ls d' \<Longrightarrow> outbox_ok d \<Longrightarrow> outbox_ok d'"
  by (induction rule: outbox_run.induct) (auto intro: outbox_step_ok)

text \<open>What one transaction does to one intent that no settlement names.\<close>

lemma outbox_step_intent:
  assumes "outbox_step P encs m d l d'" "intent_of d u = Some i"
    and "\<And>ss s. l = Settles ss \<Longrightarrow> s \<in> set ss \<Longrightarrow> st_intent_id s \<noteq> u"
  shows "(case l of
      Claims queue limit lease now cs \<Rightarrow>
        intent_of d' u = Some (if u \<in> ci_intent_id ` set cs then lease_intent (now + lease) i else i)
    | Redrives subscription now \<Rightarrow> redrives subscription i \<or> intent_of d' u = Some i
    | _ \<Rightarrow> intent_of d' u = Some i)"
  using assms
proof (induction rule: outbox_step.induct)
  case (commits P encs m now d reqs out d')
  then obtain new where "db_intents d' = db_intents d @ new" using store_commit_intents(1) by blast
  with commits show ?case by (simp add: intent_of_def find_append)
next
  case (claims d queue limit lease now cs d')
  then have "ci_intent_id ` set cs = set (claim_ids d queue now limit)"
    by (auto simp: store_claim_Inr claim_ids_def claimed_of_def split_def image_image)
  with claims show ?case by (auto simp: store_claim_Inr intent_of_claim)
next
  case (settles d ss d')
  then have "intent_of d' u = intent_of d u" by (intro settle_all_other) auto
  with settles show ?case by simp
next
  case (redrives P encs m d subscription now)
  have "intent_of (snd (admin_redrive d subscription now)) u = Some (if redrives subscription i
      then i\<lparr>in_status := ''pending'', in_attempts := 0, in_available_at := now,
             in_leased_until := None, in_last_error := None\<rparr> else i)"
    by (subst intent_of_map [OF redrive_intents]) (auto simp: redrives)
  then show ?case by simp
qed

text \<open>A claimed intent was claimable.\<close>

lemma claimed_claimable:
  assumes "store_claim d queue limit lease now = (Inr cs, d')" "outbox_ok d" "u \<in> ci_intent_id ` set cs"
  obtains i where "intent_of d u = Some i" "claimable now i" "in_queue i = queue"
proof -
  from assms(1,3) have "u \<in> set (claim_ids d queue now limit)"
    by (auto simp: store_claim_Inr claim_ids_def claimed_of_def split_def image_image)
  then obtain i where "i \<in> set (claim_queue d queue now)" "u = in_intent_id i"
    by (auto simp: claim_ids_alt dest: in_set_takeD)
  with assms(2) that show ?thesis by (auto simp: set_claim_queue intent_of_unique)
qed

text \<open>A lease that nobody settles stays until it has run out.\<close>

definition leased_until_at_least :: "db \<Rightarrow> uuid \<Rightarrow> time \<Rightarrow> bool" where
  "leased_until_at_least d u t \<longleftrightarrow>
     (case intent_of d u of
        None \<Rightarrow> False
      | Some i \<Rightarrow> in_status i = ''leased'' \<and> (case in_leased_until i of None \<Rightarrow> False | Some e \<Rightarrow> t \<le> e))"

definition settles_id :: "uuid \<Rightarrow> outbox_label \<Rightarrow> bool" where
  "settles_id u l \<longleftrightarrow> (case l of Settles ss \<Rightarrow> u \<in> st_intent_id ` set ss | _ \<Rightarrow> False)"

definition forward_lease :: "outbox_label \<Rightarrow> bool" where
  "forward_lease l \<longleftrightarrow> (case l of Claims _ _ lease _ _ \<Rightarrow> 0 \<le> lease | _ \<Rightarrow> True)"

definition claims_id_by :: "uuid \<Rightarrow> time \<Rightarrow> outbox_label \<Rightarrow> bool" where
  "claims_id_by u t l \<longleftrightarrow> (case l of Claims _ _ _ now cs \<Rightarrow> now \<le> t \<and> u \<in> ci_intent_id ` set cs | _ \<Rightarrow> False)"

lemma lease_step:
  assumes step: "outbox_step P encs m d l d'" and ok: "outbox_ok d" and held: "leased_until_at_least d u t"
    and "\<not> settles_id u l" "forward_lease l"
  shows "leased_until_at_least d' u t \<and> \<not> claims_id_by u t l"
proof -
  from held obtain i e where i: "intent_of d u = Some i" "in_status i = ''leased''"
    "in_leased_until i = Some e" "t \<le> e"
    by (auto simp: leased_until_at_least_def split: option.splits)
  note effect = outbox_step_intent [OF step i(1)]
  have not_dead: "\<not> redrives s i" for s using i(2) by (simp add: redrives_def)
  show ?thesis
  proof (cases l)
    case (Claims queue limit lease now cs)
    have late: "t < now" if "u \<in> ci_intent_id ` set cs"
    proof -
      from step Claims have "store_claim d queue limit lease now = (Inr cs, d')"
        by (auto elim: outbox_step_ClaimsE)
      from claimed_claimable [OF this ok that] obtain j where
        "intent_of d u = Some j" "claimable now j" by metis
      with i show ?thesis by (auto simp: claimable_def)
    qed
    from effect Claims late i assms(5) show ?thesis
      by (auto simp: leased_until_at_least_def claims_id_by_def forward_lease_def lease_intent_def split: if_splits)
  next
    case (Settles ss)
    with effect assms(4) i show ?thesis
      by (force simp: leased_until_at_least_def claims_id_by_def settles_id_def)
  qed (use effect i not_dead in \<open>auto simp: leased_until_at_least_def claims_id_by_def\<close>)
qed

lemma lease_run:
  assumes "outbox_run P encs m d ls d'" "outbox_ok d" "leased_until_at_least d u t"
    and "\<forall>l \<in> set ls. \<not> settles_id u l \<and> forward_lease l"
  shows "leased_until_at_least d' u t \<and> (\<forall>l \<in> set ls. \<not> claims_id_by u t l)"
  using assms
proof (induction rule: outbox_run.induct)
  case (step P encs m d ls d' l d'')
  then have "leased_until_at_least d' u t" "outbox_ok d'" using outbox_run_ok by auto
  with lease_step [OF step(2), of u t] step show ?case by auto
qed simp

section \<open>Properties\<close>

definition delivers :: "uuid \<Rightarrow> outbox_label \<Rightarrow> bool" where
  "delivers u l \<longleftrightarrow>
     (case l of Settles ss \<Rightarrow> (\<exists>s \<in> set ss. st_status s = ''delivered'' \<and> st_intent_id s = u) | _ \<Rightarrow> False)"

lemma outbox_step_ids:
  "outbox_step P encs m d l d' \<Longrightarrow> u \<in> in_intent_id ` set (db_intents d) \<Longrightarrow> \<not> delivers u l \<Longrightarrow>
     u \<in> in_intent_id ` set (db_intents d')"
proof (induction rule: outbox_step.induct)
  case (commits P encs m now d reqs out d')
  then show ?case using store_commit_intents(1) by fastforce
next
  case (claims d queue limit lease now cs d')
  then show ?case by (simp add: store_claim_Inr claim_mark_ids)
next
  case (settles d ss d')
  then show ?case using settle_all_ids by (auto simp: delivers_def)
next
  case (redrives P encs m d subscription now)
  then show ?case by (simp add: redrive_ids)
qed

text \<open>
  C11: Delivery is at least once: along every interleaving of commits, claims, settlements and redrives,
  an intent leaves the table only through a settlement that reports it delivered.
\<close>

theorem intents_leave_only_when_delivered:
  assumes "outbox_run P encs m d ls d'" "u \<in> in_intent_id ` set (db_intents d)"
    and "\<forall>l \<in> set ls. \<not> delivers u l"
  shows "u \<in> in_intent_id ` set (db_intents d')"
  using assms
proof (induction rule: outbox_run.induct)
  case (step P encs m d ls d' l d'')
  then show ?case using outbox_step_ids by auto
qed

definition sample_intent :: intent_row where
  "sample_intent =
     \<lparr>in_intent_id = 9, in_subscription_id = ''mail'', in_revision_id = rv_revision_id sample_row,
      in_queue = ''default'', in_status = ''pending'', in_attempts = 0, in_available_at = 100,
      in_leased_until = None, in_last_error = None, in_created_at = 100\<rparr>"

definition sample_outbox :: db where
  "sample_outbox = sample_db\<lparr>db_intents := [sample_intent]\<rparr>"

lemma sample_outbox_ok: "outbox_ok sample_outbox"
  by (simp add: outbox_ok_def sample_outbox_def sample_intent_def intent_ok_def)

lemma sample_claim:
  "store_claim sample_outbox ''default'' 10 30 200 =
     (Inr [claimed_of (sample_intent, sample_row)],
      sample_outbox\<lparr>db_intents := [lease_intent 230 sample_intent]\<rparr>)"
  by (simp add: store_claim_def claim_select_def sample_outbox_def sample_intent_def claimable_def
      revision_of_intent_def sample_db_def claim_mark_leased_def lease_intent_def Let_def)

lemma sample_claim_run:
  "outbox_run P encs m sample_outbox [Claims ''default'' 10 30 200 [claimed_of (sample_intent, sample_row)]]
     (sample_outbox\<lparr>db_intents := [lease_intent 230 sample_intent]\<rparr>)"
  using outbox_run.step [OF outbox_run.start outbox_step.claims [OF sample_claim]] by simp

lemma intents_leave_only_when_delivered_witness:
  "9 \<in> in_intent_id ` set (db_intents (sample_outbox\<lparr>db_intents := [lease_intent 230 sample_intent]\<rparr>))"
  by (rule intents_leave_only_when_delivered [OF sample_claim_run])
     (simp_all add: sample_outbox_def sample_intent_def delivers_def)

text \<open>
  C12: A lease excludes other workers: once an intent has been claimed with a lease until some time, no
  claim at or before that time returns it again, whatever else is committed, claimed, settled or redriven,
  as long as nobody settles this intent and no lease runs backwards.
\<close>

theorem lease_excludes_other_claims:
  assumes "outbox_ok d" "store_claim d queue limit lease now = (Inr cs, d1)" "u \<in> ci_intent_id ` set cs"
    and "outbox_run P encs m d1 ls d2" "\<forall>l \<in> set ls. \<not> settles_id u l \<and> forward_lease l"
  shows "\<forall>l \<in> set ls. \<not> claims_id_by u (now + lease) l"
proof -
  have ok: "outbox_ok d1" using assms(1,2) by (simp add: store_claim_Inr claim_keeps_ok)
  obtain i where i: "intent_of d u = Some i"
    by (rule claimed_claimable [OF assms(2,1,3)])
  have "u \<in> set (claim_ids d queue now limit)"
    using assms(2,3) by (auto simp: store_claim_Inr claim_ids_def claimed_of_def split_def image_image)
  then have "leased_until_at_least d1 u (now + lease)"
    using assms(2) i by (simp add: store_claim_Inr leased_until_at_least_def intent_of_claim lease_intent_def)
  from lease_run [OF assms(4) ok this assms(5)] show ?thesis by simp
qed

lemma lease_excludes_other_claims_witness:
  "\<not> claims_id_by 9 230 (Claims ''default'' 10 30 210 [])"
proof -
  let ?d1 = "sample_outbox\<lparr>db_intents := [lease_intent 230 sample_intent]\<rparr>"
  have "store_claim ?d1 ''default'' 10 30 210 = (Inr [], ?d1)"
    by (simp add: store_claim_def claim_select_def claimable_def lease_intent_def)
  then have run: "outbox_run sample_platform Map.empty 100 ?d1 [Claims ''default'' 10 30 210 []] ?d1"
    using outbox_run.step [OF outbox_run.start outbox_step.claims] by force
  have id: "9 \<in> ci_intent_id ` set [claimed_of (sample_intent, sample_row)]"
    by (simp add: claimed_of_def sample_intent_def)
  show ?thesis
    using lease_excludes_other_claims [OF sample_outbox_ok sample_claim id run]
    by (simp add: settles_id_def forward_lease_def)
qed

text \<open>
  A claim takes what is due, in order: it returns the claimable intents of its queue that have been
  available longest, up to its limit, each with the attempt number the table now records, and leaves out
  none that is due while it has room.
\<close>

theorem claim_takes_the_longest_available:
  assumes "outbox_ok d" "store_claim d queue limit lease now = (Inr cs, d')"
    and "i \<in> set (db_intents d)" "in_queue i = queue" "claimable now i" "revision_of_intent d i \<noteq> None"
  shows "if in_intent_id i \<in> ci_intent_id ` set cs
    then intent_of d' (in_intent_id i) = Some (lease_intent (now + lease) i) \<and>
      (\<exists>c \<in> set cs. ci_intent_id c = in_intent_id i \<and> ci_attempts c = in_attempts i + 1)
    else length cs = nat limit \<and>
      (\<forall>c \<in> set cs. \<exists>j \<in> set (db_intents d). in_intent_id j = ci_intent_id c \<and> in_available_at j \<le> in_available_at i)"
proof -
  let ?q = "claim_queue d queue now"
  have cs: "cs = map (\<lambda>i. claimed_of (i, the (revision_of_intent d i))) (take (nat limit) ?q)"
    and d': "d' = claim_mark_leased d (claim_ids d queue now limit) (now + lease)"
    using assms(2) by (auto simp: store_claim_Inr claim_select_alt comp_def)
  have ids: "ci_intent_id ` set cs = in_intent_id ` set (take (nat limit) ?q)"
    by (auto simp: cs claimed_of_def image_image)
  have i: "i \<in> set ?q" using assms(3-6) by (simp add: set_claim_queue)
  have sorted: "sorted (map in_available_at ?q)" by (simp add: claim_queue_def)
  show ?thesis
  proof (cases "in_intent_id i \<in> ci_intent_id ` set cs")
    case True
    have "intent_of d' (in_intent_id i) = Some (lease_intent (now + lease) i)"
      using True intent_of_unique [OF assms(1,3)] by (simp add: d' intent_of_claim ids claim_ids_alt)
    moreover obtain j where j: "j \<in> set (take (nat limit) ?q)" "in_intent_id j = in_intent_id i"
      using True ids by auto
    have "j = i"
      using intent_of_unique [OF assms(1)] j assms(3) in_set_takeD [OF j(1)]
      by (metis (no_types, lifting) mem_Collect_eq option.inject set_claim_queue)
    with j have "\<exists>c \<in> set cs. ci_intent_id c = in_intent_id i \<and> ci_attempts c = in_attempts i + 1"
      by (force simp: cs claimed_of_def)
    ultimately show ?thesis using True by simp
  next
    case False
    then have "i \<notin> set (take (nat limit) ?q)" using ids by auto
    then have drop: "i \<in> set (drop (nat limit) ?q)"
      using i by (metis UnE append_take_drop_id set_append)
    then have "nat limit < length ?q" by (cases "nat limit < length ?q") simp_all
    then have len: "length cs = nat limit" by (simp add: cs)
    have "sorted (map in_available_at (take (nat limit) ?q) @ map in_available_at (drop (nat limit) ?q))"
      using sorted by (metis append_take_drop_id map_append)
    then have "in_available_at j \<le> in_available_at i" if "j \<in> set (take (nat limit) ?q)" for j
      using that drop by (auto simp: sorted_append)
    then have "\<forall>c \<in> set cs. \<exists>j \<in> set (db_intents d). in_intent_id j = ci_intent_id c \<and> in_available_at j \<le> in_available_at i"
      by (fastforce simp: cs claimed_of_def set_claim_queue dest: in_set_takeD)
    with False len show ?thesis by simp
  qed
qed

lemma claim_takes_the_longest_available_witness:
  "ci_intent_id (claimed_of (sample_intent, sample_row)) = 9 \<and>
   intent_of (sample_outbox\<lparr>db_intents := [lease_intent 230 sample_intent]\<rparr>) 9 = Some (lease_intent 230 sample_intent)"
  using claim_takes_the_longest_available [OF sample_outbox_ok sample_claim, of sample_intent]
  by (simp add: sample_outbox_def sample_intent_def claimable_def revision_of_intent_def sample_db_def claimed_of_def)

text \<open>
  Every transaction keeps the intent table well formed: ids are unique, so is each pair of
  subscription and revision, statuses are the three known ones, and exactly the leased rows have a lease end.
\<close>

theorem outbox_stays_well_formed:
  assumes "outbox_run P encs m d ls d'" "outbox_ok d"
  shows "outbox_ok d'"
  by (rule outbox_run_ok [OF assms])

lemma outbox_stays_well_formed_witness:
  "outbox_ok (sample_outbox\<lparr>db_intents := [lease_intent 230 sample_intent]\<rparr>)"
  by (rule outbox_stays_well_formed [OF sample_claim_run sample_outbox_ok])

text \<open>
  A settlement batch is all or nothing, and settling does not touch the log, the heads or any intent
  it does not name.
\<close>

theorem settle_touches_only_named_intents:
  "case store_settle d ss of
     (Inl e, d') \<Rightarrow> d' = d
   | (Inr _, d') \<Rightarrow> db_revisions d' = db_revisions d \<and> db_heads d' = db_heads d \<and>
       (\<forall>u. u \<notin> st_intent_id ` set ss \<longrightarrow> intent_of d' u = intent_of d u)"
proof (cases "settle_all d ss")
  case (Inr d')
  then have "intent_of d' u = intent_of d u" if "u \<notin> st_intent_id ` set ss" for u
    by (rule settle_all_other) (use that in auto)
  with Inr settle_all_log [OF Inr] show ?thesis by (simp add: store_settle_def)
qed (simp add: store_settle_def)

lemma settle_touches_only_named_intents_witness:
  "intent_of (snd (store_settle sample_outbox [\<lparr>st_intent_id = 7, st_status = ''delivered'',
     st_available_at = None, st_error = None\<rparr>])) 9 = intent_of sample_outbox 9"
  using settle_touches_only_named_intents [of sample_outbox
      "[\<lparr>st_intent_id = 7, st_status = ''delivered'', st_available_at = None, st_error = None\<rparr>]"]
  by (auto simp: split_def store_settle_def split: sum.splits)

end
