(* ===== verification/Protocols.thy ===== *)
theory Protocols
  imports Hydration Delivery
begin

text \<open>
  The store protocol (\<open>src/eventic/protocols.py\<close>) and inline dispatch (\<open>src/eventic/dispatch.py\<close>).

  A store is the record of its operations on the world \<open>'s\<close>, which also holds whatever handlers act on,
  so that a handler may call the store.  The reports of the admin operations are in \<open>Admin\<close>.
\<close>

section \<open>The store protocol\<close>

record 's store_api =
  so_capabilities :: capabilities
  so_commit :: "commit_request list \<Rightarrow> 's \<Rightarrow> (exn + commit_result list) \<times> 's"
  so_head :: "aggregate_key \<Rightarrow> 's \<Rightarrow> exn + stored_revision option"
  so_revision :: "aggregate_key \<Rightarrow> int \<Rightarrow> 's \<Rightarrow> exn + stored_revision option"
  so_history :: "aggregate_key \<Rightarrow> int \<Rightarrow> int \<Rightarrow> 's \<Rightarrow> exn + stored_revision page"
  so_search :: "string \<Rightarrow> doc \<Rightarrow> string option \<Rightarrow> int \<Rightarrow> 's \<Rightarrow> exn + stored_revision page"
  so_claim :: "string \<Rightarrow> int \<Rightarrow> int \<Rightarrow> 's \<Rightarrow> (exn + claimed_intent list) \<times> 's"
  so_settle :: "settlement list \<Rightarrow> 's \<Rightarrow> (exn + unit) \<times> 's"

section \<open>Inline dispatch\<close>

definition inline_match :: "'v stream \<Rightarrow> ('v, 'm) commit \<Rightarrow> ('v, 'm, 's) subscription \<Rightarrow> bool" where
  "inline_match s c b \<longleftrightarrow>
     \<not> (sm_name (sb_stream b) \<noteq> sm_name s \<or> co_kind c \<notin> set (sb_kinds b)) \<and> sb_delivery b = Inline"

text \<open>The loop over the subscriptions, which collects the ids of those that failed.\<close>

fun run_inline ::
  "'v stream \<Rightarrow> ('v, 'm) commit \<Rightarrow> ('v, 'm, 's) subscription list \<Rightarrow> 's \<Rightarrow> string list \<times> 's" where
  "run_inline s c [] w = ([], w)"
| "run_inline s c (b # bs) w =
     (if inline_match s c b then
        (let (r, w') = sb_handler b c w;
             (failed, w'') = run_inline s c bs w'
         in (case r of Inl e \<Rightarrow> sb_id b # failed | Inr u \<Rightarrow> failed, w''))
      else run_inline s c bs w)"

definition dispatch_inline ::
  "('v, 'm, 's) app \<Rightarrow> 'v stream \<Rightarrow> ('v, 'm) commit \<Rightarrow> 's \<Rightarrow> (exn + unit) \<times> 's" where
  "dispatch_inline A s c w =
     (let (failed, w') = run_inline s c (ap_subscriptions A) w
      in (if failed \<noteq> [] \<and> ap_on_inline_error A = RaiseErrors then Inl (Eventic InlineDispatchError) else Inr (), w'))"

text \<open>What the handlers do to the world, whether they fail or not.\<close>

definition inline_effects ::
  "('v, 'm, 's) app \<Rightarrow> 'v stream \<Rightarrow> ('v, 'm) commit \<Rightarrow> 's \<Rightarrow> 's" where
  "inline_effects A s c w =
     fold (\<lambda>b w. snd (sb_handler b c w)) (filter (inline_match s c) (ap_subscriptions A)) w"

lemma run_inline_effects:
  "snd (run_inline s c bs w) = fold (\<lambda>b w. snd (sb_handler b c w)) (filter (inline_match s c) bs) w"
  by (induction bs arbitrary: w) (simp_all add: split_def Let_def)

lemma dispatch_inline_world: "snd (dispatch_inline A s c w) = inline_effects A s c w"
  by (simp add: dispatch_inline_def inline_effects_def split_def Let_def run_inline_effects)

lemma dispatch_inline_result:
  "fst (dispatch_inline A s c w) = Inr () \<or> fst (dispatch_inline A s c w) = Inl (Eventic InlineDispatchError)"
  by (simp add: dispatch_inline_def split_def Let_def)

lemma run_inline_none_fail:
  assumes "\<forall>b \<in> set bs. inline_match s c b \<longrightarrow> (\<forall>w. fst (sb_handler b c w) = Inr ())"
  shows "fst (run_inline s c bs w) = []"
  using assms by (induction bs arbitrary: w) (simp_all add: split_def Let_def)

text \<open>An invariant of every handler is an invariant of dispatch.\<close>

lemma inline_effects_invariant:
  assumes "\<And>b w. b \<in> set (ap_subscriptions A) \<Longrightarrow> inline_match s c b \<Longrightarrow> I w \<Longrightarrow> I (snd (sb_handler b c w))" "I w"
  shows "I (inline_effects A s c w)"
proof -
  have "I (fold (\<lambda>b w. snd (sb_handler b c w)) bs w)"
    if "\<forall>b \<in> set bs. b \<in> set (ap_subscriptions A) \<and> inline_match s c b" "I w" for bs w
    using that by (induction bs arbitrary: w) (auto intro: assms(1))
  then show ?thesis using assms(2) by (simp add: inline_effects_def)
qed

section \<open>Properties\<close>

text \<open>
  Inline dispatch runs every matching handler exactly once, in the order of declaration, whether or not
  earlier ones raise; it raises \<open>InlineDispatchError\<close> at the end exactly when the application asks for it
  and some handler raised.
\<close>

theorem every_matching_handler_runs:
  "dispatch_inline A s c w =
     (if ap_on_inline_error A = RaiseErrors \<and> fst (run_inline s c (ap_subscriptions A) w) \<noteq> []
      then Inl (Eventic InlineDispatchError) else Inr (),
      fold (\<lambda>b w. snd (sb_handler b c w)) (filter (inline_match s c) (ap_subscriptions A)) w)"
  by (simp add: dispatch_inline_def split_def Let_def run_inline_effects)

end
