(* ===== verification/Runtime.thy ===== *)
theory Runtime
  imports Protocols
begin

text \<open>
  The runtime (\<open>src/eventic/runtime.py\<close>): collections plan a request, send it to the store, hydrate the
  result and run the inline handlers; a batch collects requests and sends them in one call.

  \<open>P\<close> is the platform, \<open>A\<close> the application, \<open>S\<close> the store and \<open>s\<close> the stream of the collection; each
  operation is a computation on the world.  A fresh UUID, where the code calls \<open>uuid4\<close>, is an argument.
  A request's payload is an object, as every planned one is: \<open>json.loads\<close> of another document makes the
  dictionary methods raise.
\<close>

section \<open>Materializing a result\<close>

text \<open>\<open>_changed\<close>: all keys on create, otherwise those that differ from the base's canonical tree.\<close>

definition changed_of :: "platform \<Rightarrow> 'v stream \<Rightarrow> commit_request \<Rightarrow> 'v option \<Rightarrow> exn + string set" where
  "changed_of P s req before =
     rbind (bytes_loads P (cq_payload req)) (\<lambda>after.
     rbind (as_doc after) (\<lambda>d.
       case before of
         None \<Rightarrow> Inr (changed_keys None d)
       | Some state \<Rightarrow>
           rbind (state_tree P s state) (\<lambda>tree.
           rbind (as_doc tree) (\<lambda>b. Inr (changed_keys (Some b) d)))))"

definition result_document :: "commit_request \<Rightarrow> commit_result \<Rightarrow> json \<Rightarrow> json \<Rightarrow> stored_revision" where
  "result_document req res payload meta =
     \<lparr>sr_stream = cq_stream req, sr_aggregate_id = cq_aggregate_id req, sr_revision = cr_revision res,
      sr_revision_id = cr_revision_id res, sr_kind = cq_kind req, sr_schema_version = cq_schema_version req,
      sr_meta_version = cq_meta_version req, sr_encoding = [], sr_payload = payload, sr_digest = cq_digest req,
      sr_meta = meta, sr_committed_at = cr_committed_at res\<rparr>"

definition materialize ::
  "platform \<Rightarrow> ('v, 'm, 's) app \<Rightarrow> 'v stream \<Rightarrow> commit_request \<Rightarrow> commit_result \<Rightarrow> 'v option \<Rightarrow>
   ('s, ('v, 'm) revision) py" where
  "materialize P A s req res before =
     py_bind (py_pure (bytes_loads P (cq_payload req))) (\<lambda>payload.
     py_bind (py_pure (bytes_loads P (cq_meta req))) (\<lambda>meta.
     py_bind (py_partial (hydrate P s (ap_meta A) (result_document req res payload meta))) (\<lambda>revision.
     py_bind (py_pure (changed_of P s req before)) (\<lambda>changed.
     py_bind (py_total (dispatch_inline A s \<lparr>co_kind = cq_kind req, co_revision = revision, co_changed = changed\<rparr>)) (\<lambda>_.
       py_return revision)))))"

section \<open>Collections\<close>

definition collection_commit ::
  "platform \<Rightarrow> ('v, 'm, 's) app \<Rightarrow> 's store_api \<Rightarrow> 'v stream \<Rightarrow> commit_request \<Rightarrow> 'v option \<Rightarrow>
   ('s, ('v, 'm) revision) py" where
  "collection_commit P A S s req before =
     py_bind (py_total (so_commit S [req])) (\<lambda>results.
       case results of
         [] \<Rightarrow> py_raise (Python OtherException)
       | res # _ \<Rightarrow> materialize P A s req res before)"

definition collection_create ::
  "platform \<Rightarrow> ('v, 'm, 's) app \<Rightarrow> 's store_api \<Rightarrow> 'v stream \<Rightarrow> uuid \<Rightarrow> 'v \<Rightarrow> uuid option \<Rightarrow> 'm option \<Rightarrow>
   ('s, ('v, 'm) revision) py" where
  "collection_create P A S s fresh state id_arg meta =
     py_bind (py_pure (plan_create P A s state (case id_arg of Some a \<Rightarrow> a | None \<Rightarrow> fresh) meta)) (\<lambda>req.
       collection_commit P A S s req None)"

definition collection_change ::
  "platform \<Rightarrow> ('v, 'm, 's) app \<Rightarrow> 's store_api \<Rightarrow> 'v stream \<Rightarrow> ('v, 'm) revision \<Rightarrow> (string \<times> 'v) list \<Rightarrow>
   ('s, ('v, 'm) revision) py" where
  "collection_change P A S s base updates =
     py_bind (py_pure (plan_change P A s base updates None)) (\<lambda>req.
       collection_commit P A S s req (Some (re_state base)))"

definition collection_replace ::
  "platform \<Rightarrow> ('v, 'm, 's) app \<Rightarrow> 's store_api \<Rightarrow> 'v stream \<Rightarrow> ('v, 'm) revision \<Rightarrow> 'v \<Rightarrow> 'm option \<Rightarrow>
   ('s, ('v, 'm) revision) py" where
  "collection_replace P A S s base state meta =
     py_bind (py_pure (plan_replace P A s base state meta)) (\<lambda>req.
       collection_commit P A S s req (Some (re_state base)))"

definition collection_get ::
  "platform \<Rightarrow> ('v, 'm, 's) app \<Rightarrow> 's store_api \<Rightarrow> 'v stream \<Rightarrow> uuid \<Rightarrow> int option \<Rightarrow> ('s, ('v, 'm) revision) py" where
  "collection_get P A S s a n =
     py_bind (py_pure (lift_py (make_aggregate_key (sm_name s) a))) (\<lambda>key.
     py_bind (py_reader (case n of None \<Rightarrow> so_head S key | Some k \<Rightarrow> so_revision S key k)) (\<lambda>stored.
       case stored of
         None \<Rightarrow> py_raise (Eventic NotFound)
       | Some st \<Rightarrow> py_partial (hydrate P s (ap_meta A) st)))"

text \<open>The items of a page, hydrated in order.\<close>

fun hydrate_items ::
  "platform \<Rightarrow> 'v stream \<Rightarrow> 'm meta_decl \<Rightarrow> stored_revision list \<Rightarrow> ('s, ('v, 'm) revision list) py" where
  "hydrate_items P s t [] = py_return []"
| "hydrate_items P s t (st # sts) =
     py_bind (py_partial (hydrate P s t st)) (\<lambda>r.
     py_bind (hydrate_items P s t sts) (\<lambda>rs. py_return (r # rs)))"

definition hydrate_page ::
  "platform \<Rightarrow> 'v stream \<Rightarrow> 'm meta_decl \<Rightarrow> stored_revision page \<Rightarrow> ('s, ('v, 'm) revision page) py" where
  "hydrate_page P s t p =
     py_bind (hydrate_items P s t (pg_items p)) (\<lambda>items.
       py_return \<lparr>pg_items = items, pg_cursor = pg_cursor p\<rparr>)"

definition collection_history ::
  "platform \<Rightarrow> ('v, 'm, 's) app \<Rightarrow> 's store_api \<Rightarrow> 'v stream \<Rightarrow> uuid \<Rightarrow> int \<Rightarrow> int \<Rightarrow> ('s, ('v, 'm) revision page) py" where
  "collection_history P A S s a after limit =
     (if limit < 1 then py_raise (Eventic UsageError)
      else
        py_bind (py_pure (lift_py (make_aggregate_key (sm_name s) a))) (\<lambda>key.
        py_bind (py_reader (so_history S key after limit)) (hydrate_page P s (ap_meta A))))"

definition collection_where ::
  "platform \<Rightarrow> ('v, 'm, 's) app \<Rightarrow> 's store_api \<Rightarrow> 'v stream \<Rightarrow> doc \<Rightarrow> string option \<Rightarrow> int \<Rightarrow>
   ('s, ('v, 'm) revision page) py" where
  "collection_where P A S s filters cursor limit =
     (if limit < 1 then py_raise (Eventic UsageError)
      else py_bind (py_reader (so_search S (sm_name s) filters cursor limit)) (hydrate_page P s (ap_meta A)))"

section \<open>Batches\<close>

text \<open>
  A batch is the list of its entries.  The handle keeps the stream it was asked for, so that stream's own
  declaration plans the requests, while \<open>runtime_getitem\<close> answers with the application's declaration of
  the same name.
\<close>

type_synonym 'v batch_entry = "'v stream \<times> commit_request \<times> 'v option"

definition installed :: "('v, 'm, 's) app \<Rightarrow> 'v stream \<Rightarrow> bool" where
  "installed A s \<longleftrightarrow> list_ex (\<lambda>t. sm_name t = sm_name s) (ap_streams A)"

definition batch_getitem :: "('v, 'm, 's) app \<Rightarrow> 'v stream \<Rightarrow> exn + 'v stream" where
  "batch_getitem A s = (if installed A s then Inr s else Inl (Eventic UsageError))"

definition batch_create ::
  "platform \<Rightarrow> ('v, 'm, 's) app \<Rightarrow> 'v stream \<Rightarrow> uuid \<Rightarrow> 'v \<Rightarrow> uuid option \<Rightarrow> 'm option \<Rightarrow>
   'v batch_entry list \<Rightarrow> exn + 'v batch_entry list" where
  "batch_create P A s fresh state id_arg meta entries =
     rbind (plan_create P A s state (case id_arg of Some a \<Rightarrow> a | None \<Rightarrow> fresh) meta)
       (\<lambda>req. Inr (entries @ [(s, req, None)]))"

definition batch_change ::
  "platform \<Rightarrow> ('v, 'm, 's) app \<Rightarrow> 'v stream \<Rightarrow> ('v, 'm) revision \<Rightarrow> (string \<times> 'v) list \<Rightarrow>
   'v batch_entry list \<Rightarrow> exn + 'v batch_entry list" where
  "batch_change P A s base updates entries =
     rbind (plan_change P A s base updates None) (\<lambda>req. Inr (entries @ [(s, req, Some (re_state base))]))"

definition batch_replace ::
  "platform \<Rightarrow> ('v, 'm, 's) app \<Rightarrow> 'v stream \<Rightarrow> ('v, 'm) revision \<Rightarrow> 'v \<Rightarrow> 'm option \<Rightarrow>
   'v batch_entry list \<Rightarrow> exn + 'v batch_entry list" where
  "batch_replace P A s base state meta entries =
     rbind (plan_replace P A s base state meta) (\<lambda>req. Inr (entries @ [(s, req, Some (re_state base))]))"

text \<open>The loop of \<open>_commit_all\<close>; \<open>zip(..., strict=True)\<close> raises when one list is longer.\<close>

fun materialize_all ::
  "platform \<Rightarrow> ('v, 'm, 's) app \<Rightarrow> 'v batch_entry list \<Rightarrow> commit_result list \<Rightarrow> ('s, unit) py" where
  "materialize_all P A [] [] = py_return ()"
| "materialize_all P A ((s, req, before) # es) (res # rs) =
     py_bind (materialize P A s req res before) (\<lambda>_. materialize_all P A es rs)"
| "materialize_all P A es rs = py_raise (Python ValueError)"

definition commit_all ::
  "platform \<Rightarrow> ('v, 'm, 's) app \<Rightarrow> 's store_api \<Rightarrow> 'v batch_entry list \<Rightarrow> ('s, unit) py" where
  "commit_all P A S entries =
     py_bind (py_total (so_commit S (map (\<lambda>(_, req, _). req) entries))) (materialize_all P A entries)"

text \<open>\<open>__exit__\<close>: a block that raised sends nothing and lets its exception through.\<close>

definition batch_exit ::
  "platform \<Rightarrow> ('v, 'm, 's) app \<Rightarrow> 's store_api \<Rightarrow> exn option \<Rightarrow> 'v batch_entry list \<Rightarrow> ('s, unit) py" where
  "batch_exit P A S raised entries =
     (case raised of Some e \<Rightarrow> py_raise e | None \<Rightarrow> commit_all P A S entries)"

section \<open>The runtime\<close>

text \<open>The collections are cached by name; the cached value is the one that would be built.\<close>

definition runtime_getitem :: "('v, 'm, 's) app \<Rightarrow> 'v stream \<Rightarrow> exn + 'v stream" where
  "runtime_getitem A s =
     (case List.find (\<lambda>t. sm_name t = sm_name s) (ap_streams A) of
        None \<Rightarrow> Inl (Eventic UsageError)
      | Some declared \<Rightarrow> Inr declared)"

lemma runtime_getitem_Inr:
  "runtime_getitem A s = Inr t \<Longrightarrow> t \<in> set (ap_streams A) \<and> sm_name t = sm_name s"
  by (auto simp: runtime_getitem_def dest: find_SomeD split: option.splits)

section \<open>Running a materialization\<close>

text \<open>The part of a materialization before the handlers: it neither changes the world nor looks at it.\<close>

definition materialized ::
  "platform \<Rightarrow> ('v, 'm, 's) app \<Rightarrow> 'v stream \<Rightarrow> commit_request \<Rightarrow> commit_result \<Rightarrow> 'v option \<Rightarrow>
   (exn + ('v, 'm) commit) option" where
  "materialized P A s req res before =
     (case (bytes_loads P (cq_payload req), bytes_loads P (cq_meta req)) of
        (Inr payload, Inr meta) \<Rightarrow>
          (case hydrate P s (ap_meta A) (result_document req res payload meta) of
             None \<Rightarrow> None
           | Some (Inl e) \<Rightarrow> Some (Inl e)
           | Some (Inr revision) \<Rightarrow>
               Some (rbind (changed_of P s req before) (\<lambda>changed.
                 Inr \<lparr>co_kind = cq_kind req, co_revision = revision, co_changed = changed\<rparr>)))
      | (Inl e, _) \<Rightarrow> Some (Inl e)
      | (_, Inl e) \<Rightarrow> Some (Inl e))"

lemma materialize_run:
  "materialize P A s req res before w =
     (case materialized P A s req res before of
        None \<Rightarrow> None
      | Some (Inl e) \<Rightarrow> Some (Inl e, w)
      | Some (Inr c) \<Rightarrow>
          Some (case fst (dispatch_inline A s c w) of Inl e \<Rightarrow> Inl e | Inr u \<Rightarrow> Inr (co_revision c),
                inline_effects A s c w))"
  unfolding materialize_def materialized_def
  by (auto simp: py_run py_bind_def dispatch_inline_world [symmetric] rbind_def
      split: sum.splits option.splits prod.splits)

lemma materialize_world:
  "materialize P A s req res before w = Some (out, w') \<Longrightarrow> w' = w \<or> (\<exists>c. w' = inline_effects A s c w)"
  by (auto simp: materialize_run split: option.splits sum.splits)

end
