(* ===== verification/Contract.thy ===== *)
theory Contract
  imports Runtime
begin

text \<open>
  What the runtime relies on in a store, as a locale over the operations of \<open>store_api\<close>, and what it
  promises its callers on top of any such store.  The SQL store is shown to be one in \<open>Sql_Store\<close>.
\<close>

section \<open>The contract\<close>

text \<open>A stored revision shows a committed request: same identity, same document, same metadata.\<close>

definition shown_as :: "platform \<Rightarrow> commit_request \<Rightarrow> commit_result \<Rightarrow> stored_revision \<Rightarrow> bool" where
  "shown_as P req res sr \<longleftrightarrow>
     sr_stream sr = cq_stream req \<and> sr_aggregate_id sr = cq_aggregate_id req \<and>
     sr_revision sr = cr_revision res \<and> sr_revision_id sr = cr_revision_id res \<and>
     sr_schema_version sr = cq_schema_version req \<and> sr_meta_version sr = cq_meta_version req \<and>
     sr_digest sr = cq_digest req \<and> sr_committed_at sr = cr_committed_at res \<and>
     canonical_bytes P (sr_payload sr) = Some (cq_payload req) \<and> bytes_loads P (cq_meta req) = Inr (sr_meta sr)"

definition request_key :: "commit_request \<Rightarrow> aggregate_key" where
  "request_key req = AggregateKey (cq_stream req) (cq_aggregate_id req)"

definition answers :: "platform \<Rightarrow> commit_request \<Rightarrow> commit_result \<Rightarrow> bool" where
  "answers P req res \<longleftrightarrow>
     cr_stream res = cq_stream req \<and> cr_aggregate_id res = cq_aggregate_id req \<and>
     cr_revision res = target_of req \<and> cr_revision_id res = request_rid P req"

text \<open>The head, if any, is below the revision the request writes, or has reached it.\<close>

definition ahead_of_head :: "commit_request \<Rightarrow> stored_revision option \<Rightarrow> bool" where
  "ahead_of_head req h = (case h of None \<Rightarrow> True | Some sr \<Rightarrow> sr_revision sr < target_of req)"

locale store_contract =
  fixes P :: platform
    and S :: "'s store_api"
    and good :: "'s \<Rightarrow> bool"
  assumes commit_good: "good w \<Longrightarrow> \<forall>req \<in> set reqs. request_ok P req \<Longrightarrow> good (snd (so_commit S reqs w))"
    and commit_refused: "so_commit S reqs w = (Inl e, w') \<Longrightarrow> w' = w \<and> (\<exists>x. e = Eventic x)"
    and commit_answers: "so_commit S reqs w = (Inr rs, w') \<Longrightarrow> list_all2 (answers P) reqs rs"
    and commit_shown: "good w \<Longrightarrow> request_ok P req \<Longrightarrow> so_commit S [req] w = (Inr [res], w') \<Longrightarrow> \<not> cr_replayed res \<Longrightarrow>
      \<exists>sr. so_head S (request_key req) w' = Inr (Some sr) \<and> shown_as P req res sr"
    and commit_shown_exact: "good w \<Longrightarrow> request_ok P req \<Longrightarrow> so_commit S [req] w = (Inr [res], w') \<Longrightarrow> \<not> cr_replayed res \<Longrightarrow>
      \<exists>sr. so_revision S (request_key req) (target_of req) w' = Inr (Some sr) \<and> shown_as P req res sr"
    and commit_new: "good w \<Longrightarrow> request_ok P req \<Longrightarrow> so_head S (request_key req) w = Inr h \<Longrightarrow> ahead_of_head req h \<Longrightarrow>
      so_commit S [req] w = (Inr [res], w') \<Longrightarrow> \<not> cr_replayed res"
    and commit_stale: "good w \<Longrightarrow> request_ok P req \<Longrightarrow> so_head S (request_key req) w = Inr h \<Longrightarrow> \<not> ahead_of_head req h \<Longrightarrow>
      so_commit S [req] w = (Inl (Eventic RevisionConflict), w) \<or>
      (\<exists>res. so_commit S [req] w = (Inr [res], w) \<and> cr_replayed res)"
begin

lemma commit_one_result:
  assumes "so_commit S [req] w = (Inr rs, w')"
  obtains res where "rs = [res]" "answers P req res"
  using commit_answers [OF assms] by (auto simp: list_all2_Cons1 that)

end

section \<open>Hydrating what was committed\<close>

lemma hydrate_envelope:
  "hydrate P s t st = Some (Inr r) \<Longrightarrow>
     re_stream r = sr_stream st \<and> re_id r = sr_aggregate_id st \<and> re_revision r = sr_revision st \<and>
     re_revision_id r = sr_revision_id st \<and> re_committed_at r = sr_committed_at st \<and> re_digest r = sr_digest st"
  by (auto simp: hydrate_def split: option.splits sum.splits)

lemma hydrate_shown:
  assumes "complete_chain (sm_upcasters s) 1 (sm_schema_version s)" "complete_chain (mt_upcasters t) 1 (mt_version t)"
    and "1 \<le> sm_schema_version s" "1 \<le> mt_version t"
    and "cq_schema_version req = sm_schema_version s" "cq_meta_version req = mt_version t"
    and "bytes_loads P (cq_payload req) = Inr payload" "canonical_bytes P payload = Some (cq_payload req)"
    and "bytes_loads P (cq_meta req) = Inr meta" "shown_as P req res sr"
  shows "hydrate P s t sr = hydrate P s t (result_document req res payload meta)"
proof -
  have "hydrate P s t sr = Some (hydrated P s t sr)"
    by (rule hydrate_complete) (use assms in \<open>simp_all add: shown_as_def\<close>)
  moreover have "hydrate P s t (result_document req res payload meta) =
      Some (hydrated P s t (result_document req res payload meta))"
    by (rule hydrate_complete) (use assms in \<open>simp_all add: result_document_def\<close>)
  moreover have "hydrated P s t sr = hydrated P s t (result_document req res payload meta)"
    using assms by (simp add: hydrated_def upcast_document_def result_document_def shown_as_def py_canonical_bytes_def)
  ultimately show ?thesis by simp
qed

text \<open>A request planned for a declared stream.\<close>

definition planned_for :: "platform \<Rightarrow> ('v, 'm, 's) app \<Rightarrow> 'v stream \<Rightarrow> commit_request \<Rightarrow> bool" where
  "planned_for P A s req \<longleftrightarrow>
     request_wf P req \<and> cq_stream req = sm_name s \<and> cq_schema_version req = sm_schema_version s \<and>
     cq_meta_version req = mt_version (ap_meta A)"

lemma planned_create:
  assumes "float_codec P" "declared_stream P A s" "plan_create P A s state a meta = Inr req"
  shows "planned_for P A s req \<and> cq_aggregate_id req = a \<and> target_of req = 0"
  using plan_create_wf [OF assms] assms(3) by (auto elim!: plan_create_Inr simp: planned_for_def target_of_def)

lemma planned_append:
  assumes "float_codec P" "declared_stream P A s" "plan_append P A s base v meta = Inr req" "0 \<le> re_revision base"
  shows "planned_for P A s req \<and> cq_aggregate_id req = re_id base \<and> target_of req = re_revision base + 1"
  using plan_append_wf [OF assms] assms(3) by (auto elim!: plan_append_Inr simp: planned_for_def target_of_def)

lemma declared_stream_name:
  "declared_stream P A s \<Longrightarrow> make_aggregate_key (sm_name s) a = Inr (AggregateKey (sm_name s) a)"
  by (auto simp: declared_stream_def make_aggregate_key_def dest!: make_stream_Inr)

context store_contract
begin

section \<open>Reading back what a collection wrote\<close>

lemma collection_commit_Inr:
  assumes "collection_commit P A S s req before w = Some (Inr got, w')"
  obtains res w1 c where "so_commit S [req] w = (Inr [res], w1)" "answers P req res"
    "materialized P A s req res before = Some (Inr c)" "got = co_revision c" "w' = inline_effects A s c w1"
proof -
  from assms obtain rs w1 where rs: "so_commit S [req] w = (Inr rs, w1)"
    "(case rs of [] \<Rightarrow> py_raise (Python OtherException) | res # _ \<Rightarrow> materialize P A s req res before) w1 = Some (Inr got, w')"
    by (auto simp: collection_commit_def py_bind_Inr py_run)
  from rs(1) obtain res where res: "rs = [res]" "answers P req res" by (rule commit_one_result)
  with rs(2) have "materialize P A s req res before w1 = Some (Inr got, w')" by simp
  then obtain c where "materialized P A s req res before = Some (Inr c)" "got = co_revision c"
    "w' = inline_effects A s c w1"
    by (auto simp: materialize_run split: option.splits sum.splits)
  with rs(1) res that show ?thesis by blast
qed

lemma materialized_Inr:
  assumes "materialized P A s req res before = Some (Inr c)"
  obtains payload meta where "bytes_loads P (cq_payload req) = Inr payload" "bytes_loads P (cq_meta req) = Inr meta"
    "hydrate P s (ap_meta A) (result_document req res payload meta) = Some (Inr (co_revision c))"
    "co_kind c = cq_kind req" "changed_of P s req before = Inr (co_changed c)"
  using assms by (auto simp: materialized_def rbind_Inr_iff split: sum.splits option.splits intro: that)

lemma commit_then_get:
  assumes declared: "declared_stream P A s" and planned: "planned_for P A s req"
    and w: "good w" and head: "so_head S (request_key req) w = Inr h" "ahead_of_head req h"
    and run: "collection_commit P A S s req before w = Some (Inr got, w')"
    and quiet: "\<And>c w. so_head S (request_key req) (inline_effects A s c w) = so_head S (request_key req) w"
    and quiet_exact: "\<And>c w n. so_revision S (request_key req) n (inline_effects A s c w) = so_revision S (request_key req) n w"
  shows "collection_get P A S s (cq_aggregate_id req) None w' = Some (Inr got, w') \<and>
    collection_get P A S s (cq_aggregate_id req) (Some (target_of req)) w' = Some (Inr got, w') \<and>
    re_revision got = target_of req"
proof -
  have ok: "request_ok P req" using planned by (simp add: planned_for_def request_wf_def)
  obtain res w1 c where c: "so_commit S [req] w = (Inr [res], w1)" "answers P req res"
    "materialized P A s req res before = Some (Inr c)" "got = co_revision c" "w' = inline_effects A s c w1"
    by (rule collection_commit_Inr [OF run])
  have new: "\<not> cr_replayed res" by (rule commit_new [OF w ok head c(1)])
  obtain payload meta where m: "bytes_loads P (cq_payload req) = Inr payload" "bytes_loads P (cq_meta req) = Inr meta"
    "hydrate P s (ap_meta A) (result_document req res payload meta) = Some (Inr (co_revision c))"
    by (rule materialized_Inr [OF c(3)])
  have canonical: "canonical_bytes P payload = Some (cq_payload req)"
    using ok m(1) by (auto simp: request_ok_def bytes_loads_def split: option.splits)
  have hydrated_back: "hydrate P s (ap_meta A) sr = Some (Inr got)" if "shown_as P req res sr" for sr
    using hydrate_shown [of s "ap_meta A" req P payload meta res sr] declared_streamD [OF declared] planned that m canonical c(4)
    by (simp add: planned_for_def)
  have key: "make_aggregate_key (sm_name s) (cq_aggregate_id req) = Inr (request_key req)"
    using declared_stream_name [OF declared] planned by (simp add: request_key_def planned_for_def)
  obtain sr where sr: "so_head S (request_key req) w' = Inr (Some sr)" "shown_as P req res sr"
    using commit_shown [OF w ok c(1) new] quiet c(5) by auto
  obtain sr' where sr': "so_revision S (request_key req) (target_of req) w' = Inr (Some sr')" "shown_as P req res sr'"
    using commit_shown_exact [OF w ok c(1) new] quiet_exact c(5) by auto
  have "re_revision got = cr_revision res"
    using hydrate_envelope [OF m(3)] c(4) by (simp add: result_document_def)
  then show ?thesis
    using sr sr' c(2) hydrated_back by (simp add: collection_get_def lift_py_def key py_bind_pure py_run answers_def)
qed

text \<open>A request for a revision the head has reached conflicts or replays, and never runs over it.\<close>

lemma stale_commit:
  assumes "good w" "request_ok P req" "so_head S (request_key req) w = Inr h" "\<not> ahead_of_head req h"
  shows "collection_commit P A S s req before w = Some (Inl (Eventic RevisionConflict), w) \<or>
    (\<exists>res. so_commit S [req] w = (Inr [res], w) \<and> cr_replayed res)"
  using commit_stale [OF assms] by (auto simp: collection_commit_def py_bind_pure)

section \<open>Batches\<close>

lemma materialize_all_world:
  assumes "materialize_all P A es rs w = Some (out, w')" "\<And>s c w. f (inline_effects A s c w) = f w"
  shows "f w' = f w"
  using assms
proof (induction es arbitrary: rs w)
  case Nil
  then show ?case by (cases rs) (auto simp: py_run)
next
  case (Cons entry es)
  obtain s req before where entry: "entry = (s, req, before)" by (cases entry)
  show ?case
  proof (cases rs)
    case Nil
    with Cons.prems(1) entry show ?thesis by (simp add: py_run)
  next
    case results: (Cons res rs')
    from Cons.prems(1) consider e where "materialize P A s req res before w = Some (Inl e, w')"
      | got w1 where "materialize P A s req res before w = Some (Inr got, w1)" "materialize_all P A es rs' w1 = Some (out, w')"
      by (auto simp: entry results py_bind_def split: option.splits sum.splits)
    then show ?thesis
    proof cases
      case 1
      then show ?thesis using materialize_world Cons.prems(2) by metis
    next
      case (2 got w1)
      then have "f w1 = f w" using materialize_world Cons.prems(2) by metis
      with 2 show ?thesis using Cons.IH Cons.prems(2) by metis
    qed
  qed
qed

lemma batch_exit_outcome:
  assumes quiet: "\<And>s c w. f (inline_effects A s c w) = f w"
  shows "case so_commit S (map (\<lambda>(_, req, _). req) entries) w of
      (Inl e, w1) \<Rightarrow> batch_exit P A S None entries w = Some (Inl e, w)
    | (Inr rs, w1) \<Rightarrow> (\<forall>out w2. batch_exit P A S None entries w = Some (out, w2) \<longrightarrow> f w2 = f w1)"
proof (cases "so_commit S (map (\<lambda>(_, req, _). req) entries) w")
  case (Pair r w1)
  then show ?thesis
    using commit_refused [of "map (\<lambda>(_, req, _). req) entries" w] materialize_all_world [OF _ quiet]
    by (cases r) (auto simp: batch_exit_def commit_all_def py_bind_pure)
qed

end

end
