(* ===== verification/Store_Promises.thy ===== *)
theory Store_Promises
  imports Samples
begin

text \<open>What the write path of the store promises its callers, and the point reads that show it.\<close>

section \<open>Batches\<close>

lemma rfold_commits_log:
  "rfold (commit_one P encs now) d reqs = Inr (d', rs) \<Longrightarrow>
     \<exists>new. db_revisions d' = db_revisions d @ new \<and>
       map rv_revision_id new = map cr_revision_id (filter (\<lambda>r. \<not> cr_replayed r) rs)"
proof (induction reqs arbitrary: d rs)
  case (Cons req reqs)
  from Cons.prems obtain d1 r rs' where one: "commit_one P encs now d req = Inr (d1, r)"
    and rest: "rfold (commit_one P encs now) d1 reqs = Inr (d', rs')" and rs: "rs = r # rs'"
    by (rule rfold_Inr_Cons)
  have rid: "cr_revision_id r = request_rid P req"
    using one by (cases rule: commit_one_cases) (auto simp: commit_result_of_def elim: append_revision_Inr)
  from Cons.IH [OF rest] obtain new where new: "db_revisions d' = db_revisions d1 @ new"
    "map rv_revision_id new = map cr_revision_id (filter (\<lambda>r. \<not> cr_replayed r) rs')" by auto
  from commit_one_log [OF one] show ?case
  proof (elim disjE conjE exE)
    fix row assume "db_revisions d1 = db_revisions d @ [row]" "\<not> cr_replayed r"
      "rv_revision_id row = request_rid P req"
    then show ?thesis using new rid by (intro exI [of _ "row # new"]) (simp add: rs)
  qed (use new in \<open>auto simp: rs\<close>)
qed simp

lemma commit_one_row_kept:
  assumes "store_ok P encs d" "commit_one P encs now d req = Inr (d', res)" "r \<in> set (db_revisions d)"
  shows "r \<in> set (db_revisions d') \<and> row_decodes P encs d' r = row_decodes P encs d r"
proof -
  have sub: "r \<in> set (db_revisions d')"
    using commit_one_prefix [OF assms(2)] assms(3) by (auto simp: prefix_def)
  from assms(2) have "row_decodes P encs d' r = row_decodes P encs d r"
  proof (cases "of_aggregate (cq_stream req) (cq_aggregate_id req) r")
    case False
    then show ?thesis
      unfolding row_decodes_def
      by (intro commit_one_other(2) [OF assms(2)]) (auto simp: of_aggregate_def)
  next
    case True
    from assms(2) show ?thesis
    proof (cases rule: commit_one_cases)
      case (replay row)
      then have "db_revisions d' = db_revisions d"
        by (auto split: option.splits if_splits dest: upsert_head_from_row_revisions)
      from log_reads_cong(3) [OF this] show ?thesis by (simp add: row_decodes_def)
    next
      case append
      from append(3) obtain physical enc meta d1 where
        "d1 = d\<lparr>db_revisions := db_revisions d @ [new_revision_row P now req physical enc meta]\<rparr>"
        "db_revisions d' = db_revisions d1"
        by (rule append_revision_Inr)
      then show ?thesis
        using rows_below_target [OF assms(1) append(2)] assms(3)
        by (intro row_decodes_append_other [where r = "new_revision_row P now req physical enc meta"
              and s = "cq_stream req" and a = "cq_aggregate_id req"])
           (auto simp: new_revision_row_def of_aggregate_def)
    qed
  qed
  with sub show ?thesis by simp
qed

text \<open>The revision an aggregate is at, \<open>-1\<close> before its first.\<close>

definition head_revision :: "db \<Rightarrow> string \<Rightarrow> uuid \<Rightarrow> int" where
  "head_revision d s a = (case select_head d s a of None \<Rightarrow> - 1 | Some h \<Rightarrow> hd_revision h)"

lemma commit_one_head_revision:
  assumes ok: "store_ok P encs d" and one: "commit_one P encs now d req = Inr (d', res)"
  shows "head_revision d' s a =
    (if (s, a) = (cq_stream req, cq_aggregate_id req) \<and> \<not> cr_replayed res then head_revision d s a + 1
     else head_revision d s a)"
proof (cases "(s, a) = (cq_stream req, cq_aggregate_id req)")
  case False
  then show ?thesis using commit_one_other(1) [OF one False] by (auto simp: head_revision_def)
next
  case True
  from one show ?thesis
  proof (cases rule: commit_one_cases)
    case (replay row)
    from ok replay(1) obtain h where
      "select_head d (cq_stream req) (cq_aggregate_id req) = Some h" "\<not> hd_revision h < target_of req"
      by (rule replay_unchanged)
    with replay(3,4) show ?thesis by (simp add: commit_result_of_def)
  next
    case append
    from append(3) obtain h where "select_head d' (cq_stream req) (cq_aggregate_id req) = Some h"
      "hd_revision h = target_of req" by (rule append_effect)
    moreover have "\<not> cr_replayed res"
      using append(3) by (rule append_revision_Inr) (simp add: commit_result_of_def)
    ultimately show ?thesis
      using True append(2) by (auto simp: head_revision_def cas_ok_def target_of_def split: option.splits)
  qed
qed

text \<open>Invariants of single commits, carried over a batch.\<close>

lemma store_commit_invariant:
  assumes P: "float_codec P" and reqs: "\<forall>req \<in> set reqs. request_ok P req"
    and step: "\<And>x y req res. store_ok P encs x \<Longrightarrow> I x \<Longrightarrow> req \<in> set reqs \<Longrightarrow>
        commit_one P encs now x req = Inr (y, res) \<Longrightarrow> I y"
    and start: "store_ok P encs d" "I d"
  shows "I (snd (store_commit P encs m now d reqs))"
proof (cases "store_commit P encs m now d reqs")
  case (Pair out d')
  show ?thesis
  proof (cases out)
    case (Inl e)
    with Pair store_commit_Inl start show ?thesis by (metis snd_conv)
  next
    case (Inr rs)
    with Pair have run: "rfold (commit_one P encs now) d reqs = Inr (d', rs)"
      by (simp add: store_commit_Inr)
    have "store_ok P encs d' \<and> I d'"
    proof (rule rfold_invariant [where I = "\<lambda>x. store_ok P encs x \<and> I x", OF _ _ run])
      fix x req y res
      assume x: "store_ok P encs x \<and> I x" and req: "req \<in> set reqs"
        and one: "commit_one P encs now x req = Inr (y, res)"
      have "store_ok P encs y"
        by (rule commit_one_preserves [OF P _ _ one]) (use x reqs req in simp_all)
      moreover have "I y" using step [OF _ _ req one] x by simp
      ultimately show "store_ok P encs y \<and> I y" by simp
    qed (use start in simp)
    with Pair show ?thesis by simp
  qed
qed

section \<open>Properties\<close>

text \<open>
  C1: Every batch the store is given by a planner, committed or refused, leaves the tables consistent:
  each aggregate's log is gap-free from revision 0, each row decodes to a document with the digest it was
  committed with, and each head is the last log row, decoded.
\<close>

theorem commits_keep_store_consistent:
  assumes "float_codec P" "store_ok P encs d" "\<forall>req \<in> set reqs. request_ok P req"
  shows "store_ok P encs (snd (store_commit P encs m now d reqs))"
  using store_commit_preserves [OF assms prod.collapse [symmetric]] .

lemma commits_keep_store_consistent_witness:
  "store_ok sample_platform Map.empty
     (snd (store_commit sample_platform Map.empty 100 100 empty_db [sample_create, sample_change]))"
  by (rule commits_keep_store_consistent [OF sample_float_codec sample_empty_ok])
     (use sample_requests_wf in \<open>simp add: request_wf_def\<close>)



text \<open>
  C2: No update is lost.  After a request has committed, a second request of the same aggregate that
  expects the same revision can, after whatever further commits, only be answered as a replay of a
  request with the same content or refused with \<open>RevisionConflict\<close>; either way it changes nothing.
\<close>

theorem no_update_is_lost:
  assumes "float_codec P" "store_ok P encs d" "request_ok P first" "request_ok P second"
    and "\<forall>req \<in> set between. request_ok P req"
    and "commit_one P encs now d first = Inr (d1, res)"
    and "store_commit P encs m later d1 between = (out, d2)"
    and "cq_stream second = cq_stream first" "cq_aggregate_id second = cq_aggregate_id first"
    and "cq_expected_revision second = cq_expected_revision first"
  shows "commit_one P encs again d2 second =
      Inr (d2, commit_result_of P again second True) \<and> cq_digest second = cq_digest first \<or>
    commit_one P encs again d2 second = Inl (Eventic RevisionConflict)"
proof -
  have target: "target_of second = target_of first" using assms(10) by (simp add: target_of_def)
  have ok1: "store_ok P encs d1" by (rule commit_one_preserves [OF assms(1-3,6)])
  have ok2: "store_ok P encs d2" by (rule store_commit_preserves [OF assms(1) ok1 assms(5,7)])
  obtain row where row: "row \<in> set (db_revisions d1)" "rv_key row = (cq_stream first, cq_aggregate_id first, target_of first)"
    "rv_digest row = cq_digest first"
    using assms(6)
  proof (cases rule: commit_one_cases)
    case (replay row)
    then have "rv_digest row = cq_digest first" by (auto simp: is_identical_def split: if_splits)
    moreover have "row \<in> set (db_revisions d1)"
      using select_revision_row_Some [OF replay(1)] commit_one_prefix [OF assms(6)]
      by (auto simp: prefix_def)
    ultimately show thesis using select_revision_row_Some [OF replay(1)] that by (simp add: rv_key_def)
  next
    case append
    from append(3) show thesis
      by (rule append_revision_Inr) (auto intro!: that simp: new_revision_row_def rv_key_def)
  qed
  have "row \<in> set (db_revisions d2)"
    using row(1) store_commit_prefix [OF assms(7)] by (auto simp: prefix_def)
  then have "select_revision_row d2 (cq_stream second) (cq_aggregate_id second) (target_of second) = Some row"
    using select_revision_row_unique [of d2 row] ok2 row(2) target assms(8,9)
    by (simp add: store_ok_def rv_key_def)
  from commit_one_taken [OF ok2 assms(4) this] row(3) show ?thesis
    by (simp add: same_content_def)
qed

lemma no_update_is_lost_witness:
  "commit_one sample_platform Map.empty 300 sample_db sample_create =
      Inr (sample_db, commit_result_of sample_platform 300 sample_create True) \<and>
      cq_digest sample_create = cq_digest sample_create \<or>
   commit_one sample_platform Map.empty 300 sample_db sample_create = Inl (Eventic RevisionConflict)"
proof -
  have "commit_one sample_platform Map.empty 100 empty_db sample_create =
      Inr (sample_db, commit_result_of sample_platform 100 sample_create False)"
    using sample_commit by (auto simp: store_commit_def split: sum.splits prod.splits)
  from no_update_is_lost [OF sample_float_codec sample_empty_ok _ _ _ this, of sample_create "[]" 100 200 "Inr []"
      sample_db 300] sample_requests_wf(1)
  show ?thesis by (simp add: request_wf_def store_commit_def)
qed

text \<open>
  A batch is all or nothing: if it is refused the database is the one before it; if it is accepted
  there is one result per request, in order, and the log has grown by exactly the revisions that the
  results do not mark as replayed.
\<close>

theorem batch_is_atomic:
  "case store_commit P encs m now d reqs of
     (Inl e, d') \<Rightarrow> d' = d
   | (Inr rs, d') \<Rightarrow> length rs = length reqs \<and>
       (\<exists>new. db_revisions d' = db_revisions d @ new \<and>
          map rv_revision_id new = map cr_revision_id (filter (\<lambda>r. \<not> cr_replayed r) rs))"
proof (cases "store_commit P encs m now d reqs")
  case (Pair out d')
  show ?thesis
  proof (cases out)
    case (Inl e)
    with Pair store_commit_Inl show ?thesis by fastforce
  next
    case (Inr rs)
    with Pair have "rfold (commit_one P encs now) d reqs = Inr (d', rs)" by (simp add: store_commit_Inr)
    from rfold_length [OF this] rfold_commits_log [OF this] Inr Pair show ?thesis by simp
  qed
qed

text \<open>
  C5: The log is append-only and a revision's meaning is final: after any batch every earlier row is still
  there and decodes to the document it decoded to before, in a delta stream too.
\<close>

theorem committed_revisions_never_change:
  assumes "float_codec P" "store_ok P encs d" "\<forall>req \<in> set reqs. request_ok P req"
    and "r \<in> set (db_revisions d)"
  shows "r \<in> set (db_revisions (snd (store_commit P encs m now d reqs))) \<and>
    row_decodes P encs (snd (store_commit P encs m now d reqs)) r = row_decodes P encs d r"
proof (rule store_commit_invariant [where I = "\<lambda>x. r \<in> set (db_revisions x) \<and>
      row_decodes P encs x r = row_decodes P encs d r", OF assms(1,3) _ assms(2)])
  fix x y req res
  assume x: "store_ok P encs x" "r \<in> set (db_revisions x) \<and> row_decodes P encs x r = row_decodes P encs d r"
    and one: "commit_one P encs now x req = Inr (y, res)"
  then show "r \<in> set (db_revisions y) \<and> row_decodes P encs y r = row_decodes P encs d r"
    using commit_one_row_kept [OF x(1) one, of r] by simp
qed (use assms(4) in simp)

lemma committed_revisions_never_change_witness:
  "sample_row \<in> set (db_revisions (snd (store_commit sample_platform Map.empty 100 300 sample_db [sample_change]))) \<and>
    row_decodes sample_platform Map.empty (snd (store_commit sample_platform Map.empty 100 300 sample_db [sample_change])) sample_row =
    row_decodes sample_platform Map.empty sample_db sample_row"
  by (rule committed_revisions_never_change [OF sample_float_codec sample_db_ok])
     (use sample_requests_wf in \<open>simp_all add: request_wf_def sample_db_def\<close>)

text \<open>
  Heads move forward one revision at a time: a committed request moves the head of its own aggregate
  from the revision it expected to the next, a replay moves nothing, and no other aggregate's head moves.
\<close>

theorem heads_move_forward_by_one:
  assumes "store_ok P encs d" "commit_one P encs now d req = Inr (d', res)"
  shows "head_revision d' s a =
    (if (s, a) = (cq_stream req, cq_aggregate_id req) \<and> \<not> cr_replayed res then head_revision d s a + 1
     else head_revision d s a)"
  by (rule commit_one_head_revision [OF assms])

lemma heads_move_forward_by_one_witness: "head_revision sample_db ''todos'' 5 = 0"
proof -
  have "commit_one sample_platform Map.empty 100 empty_db sample_create =
      Inr (sample_db, commit_result_of sample_platform 100 sample_create False)"
    using sample_commit by (auto simp: store_commit_def split: sum.splits prod.splits)
  from heads_move_forward_by_one [OF sample_empty_ok this, of "''todos''" 5] show ?thesis
    by (simp add: head_revision_def select_head_def empty_db_def commit_result_of_def sample_create_def)
qed

text \<open>
  C3: Reading back what was written: after a request commits, reading the head and reading the committed
  revision both return it, with a document whose canonical bytes are the request's payload.
\<close>

theorem committed_document_reads_back:
  assumes "float_codec P" "store_ok P encs d" "request_ok P req"
    and "commit_one P encs now d req = Inr (d', res)" "\<not> cr_replayed res"
  shows "\<exists>sr doc.
    store_head P d' (AggregateKey (cq_stream req) (cq_aggregate_id req)) = Inr (Some sr) \<and>
    sr_revision sr = target_of req \<and> sr_revision_id sr = cr_revision_id res \<and>
    sr_digest sr = cq_digest req \<and> sr_payload sr = doc \<and>
    canonical_bytes P doc = Some (cq_payload req) \<and>
    decode_log_revision P encs d' (cq_stream req) (cq_aggregate_id req) (target_of req) = Inr doc"
proof -
  have ok: "store_ok P encs d'" by (rule commit_one_preserves [OF assms(1-4)])
  obtain h where h: "select_head d' (cq_stream req) (cq_aggregate_id req) = Some h"
    "hd_revision h = target_of req" "hd_revision_id h = request_rid P req" "hd_digest h = cq_digest req"
    "canonical_bytes P (hd_state h) = Some (cq_payload req)"
    using assms(4,5) by (rule commit_one_effect)
  obtain x where x: "hd_state h = JObj x"
    "decode_log_revision P encs d' (cq_stream req) (cq_aggregate_id req) (hd_revision h) = Inr (JObj x)"
    by (rule store_ok_head_state [OF ok h(1)])
  obtain r where r: "h = head_of_row r (JObj x)" "log_row_ok P encs d' r"
    using store_ok_head [OF ok h(1)] x(1) by (metis head_of_row_def head_row.select_convs(7))
  then obtain m where m: "hd_meta h = JObj m"
    by (auto simp: log_row_ok_def is_doc_iff head_of_row_def)
  have "cr_revision_id res = request_rid P req"
    using assms(4) by (cases rule: commit_one_cases) (auto simp: commit_result_of_def elim: append_revision_Inr)
  then show ?thesis
    using h x m by (simp add: store_head_def head_row_to_stored_def column_loads_def)
qed

lemma committed_document_reads_back_witness:
  "\<exists>sr doc. store_head sample_platform sample_db (AggregateKey ''todos'' 5) = Inr (Some sr) \<and>
    sr_revision sr = 0 \<and> sr_payload sr = doc \<and>
    canonical_bytes sample_platform doc = Some (cq_payload sample_create)"
proof -
  have "commit_one sample_platform Map.empty 100 empty_db sample_create =
      Inr (sample_db, commit_result_of sample_platform 100 sample_create False)"
    using sample_commit by (auto simp: store_commit_def split: sum.splits prod.splits)
  from committed_document_reads_back [OF sample_float_codec sample_empty_ok _ this] sample_requests_wf(1)
  show ?thesis by (auto simp: request_wf_def commit_result_of_def sample_create_def target_of_def)
qed

text \<open>
  A writer that read no head, because the aggregate did not exist yet, and lost the race to create it,
  is told \<open>RevisionConflict\<close>, the error its retry loop expects.
\<close>

theorem lost_create_race:
  assumes "store_ok P encs d" "request_wf P req" "cq_expected_revision req = None"
    and "(cq_stream req, cq_aggregate_id req, 0) \<in> rv_key ` set (db_revisions d)"
  shows "\<exists>e. commit_one_from P encs now d req None None = Inl e \<and> commit_error e = RevisionConflict"
  by (rule lost_create_race_lemma [OF assms])

lemma lost_create_race_witness:
  "\<exists>e. commit_one_from sample_platform Map.empty 300 sample_db sample_create None None = Inl e \<and>
     commit_error e = RevisionConflict"
  by (rule lost_create_race [OF sample_db_ok sample_requests_wf(1)])
     (simp_all add: sample_create_def sample_db_def sample_row_def rv_key_def)

end
