(* ===== verification/Paging.thy ===== *)
theory Paging
  imports Eventic_Prelude
begin

text \<open>
  Keyset paging: a reader asks for the next rows after the last key it has seen.  The locale states what
  such a query returns; that following the keys visits every row once, in order, is proved from it.  The
  log reader of the admin operations, \<open>history\<close>, \<open>search\<close> and \<open>list_intents\<close> are interpretations.
\<close>

definition after_key :: "('a \<Rightarrow> 'k :: linorder) \<Rightarrow> 'k option \<Rightarrow> 'a \<Rightarrow> bool" where
  "after_key key after r = (case after of None \<Rightarrow> True | Some k \<Rightarrow> k < key r)"

locale keyset_pager =
  fixes rows :: "'a list"
    and key :: "'a \<Rightarrow> 'k :: linorder"
    and fetch :: "nat \<Rightarrow> 'k option \<Rightarrow> 'a list"
  assumes fetch_page: "fetch n after = take n (filter (after_key key after) rows)"
    and rows_sorted: "sorted (map key rows)"
begin

text \<open>The rows a reader at \<open>after\<close> has not seen.\<close>

abbreviation remaining :: "'k option \<Rightarrow> 'a list" where
  "remaining after \<equiv> filter (after_key key after) rows"

lemma remaining_start: "remaining None = rows"
  by (simp add: after_key_def)

lemma keys_increase:
  assumes "distinct (map key rows)"
  shows "sorted_wrt (\<lambda>x y. key x < key y) (remaining after)"
proof -
  have "sorted_wrt (<) (map key rows)"
    using assms rows_sorted by (simp add: strict_sorted_iff)
  then have "sorted_wrt (\<lambda>x y. key x < key y) rows" by (simp add: sorted_wrt_map)
  then show ?thesis by (rule sorted_wrt_filter)
qed

text \<open>A page is followed by what its last key leaves.\<close>

lemma page_split:
  assumes "distinct (map key rows)" "fetch n after \<noteq> []"
  shows "remaining after = fetch n after @ remaining (Some (key (last (fetch n after))))"
proof -
  let ?all = "remaining after" and ?page = "fetch n after"
  have page: "?page = take n ?all" by (rule fetch_page)
  let ?k = "key (last ?page)"
  have split: "?all = ?page @ drop n ?all" by (simp add: page)
  then have inc: "sorted_wrt (\<lambda>x y. key x < key y) (?page @ drop n ?all)"
    using keys_increase [OF assms(1), of after] by metis
  have seen: "\<not> ?k < key x" if "x \<in> set ?page" for x
  proof -
    obtain ys where ys: "?page = ys @ [last ?page]" using assms(2) by (metis append_butlast_last_id)
    from inc have "sorted_wrt (\<lambda>x y. key x < key y) ?page" by (simp only: sorted_wrt_append)
    then have "sorted_wrt (\<lambda>x y. key x < key y) (ys @ [last ?page])" by (subst (asm) ys)
    then have "\<forall>x \<in> set ys. key x < ?k" by (simp add: sorted_wrt_append)
    moreover have "x \<in> set ys \<or> x = last ?page" using that ys by (metis UnE empty_iff insert_iff list.set set_append)
    ultimately show ?thesis by auto
  qed
  have unseen: "?k < key x" if "x \<in> set (drop n ?all)" for x
    using inc that assms(2) by (simp add: sorted_wrt_append)
  have all: "remaining (Some ?k) = filter (\<lambda>r. ?k < key r) ?all"
  proof -
    have "last ?page \<in> set ?all" using assms(2) page by (metis in_set_takeD last_in_set)
    then have "after_key key after (last ?page)" by simp
    then have "after_key key after r" if "?k < key r" for r
      using that by (auto simp: after_key_def split: option.splits)
    then show ?thesis by (auto simp: after_key_def intro!: filter_cong)
  qed
  have "filter (\<lambda>r. ?k < key r) ?all = filter (\<lambda>r. ?k < key r) ?page @ filter (\<lambda>r. ?k < key r) (drop n ?all)"
    using split by (metis filter_append)
  also have "filter (\<lambda>r. ?k < key r) ?page = []" using seen by (simp add: filter_empty_conv)
  also have "filter (\<lambda>r. ?k < key r) (drop n ?all) = drop n ?all" using unseen by (simp add: filter_id_conv)
  finally show ?thesis using split all by simp
qed

lemma page_empty: "0 < n \<Longrightarrow> fetch n after = [] \<longleftrightarrow> remaining after = []"
  by (auto simp: fetch_page)

text \<open>A page that is not full is the last one.\<close>

lemma page_short: "length (fetch n after) < n \<Longrightarrow> fetch n after = remaining after"
  by (simp add: fetch_page)

lemma page_short_end:
  assumes "distinct (map key rows)" "fetch n after \<noteq> []" "length (fetch n after) < n"
  shows "remaining (Some (key (last (fetch n after)))) = []"
  using page_split [OF assms(1,2)] page_short [OF assms(3)] by simp

text \<open>A page never repeats and never skips a row.\<close>

lemma page_members:
  "x \<in> set (fetch n after) \<Longrightarrow> x \<in> set rows \<and> after_key key after x"
  by (auto simp: fetch_page dest: in_set_takeD)

end

end
