(* ===== verification/Reads.thy ===== *)
theory Reads
  imports Store_Promises Paging
begin

text \<open>
  Paged reads of the store: the history of an aggregate and the search over the heads of a stream
  (\<open>history\<close> and \<open>search\<close> of \<open>src/eventic/sql/store.py\<close>), with the dotted filter paths of
  \<open>src/eventic/sql/dialect.py\<close>.

  A filter becomes an SQL condition, a value of \<open>sql_cond\<close>; evaluating it needs the database's JSON
  functions, which are the fields of \<open>sql_json\<close> and an argument of the search.
\<close>

section \<open>Filter paths\<close>

text \<open>\<open>split_path\<close>: the loop's variables are the segments so far, the current one and the escape flag.\<close>

fun split_loop :: "string \<Rightarrow> string list \<Rightarrow> string \<Rightarrow> bool \<Rightarrow> string list" where
  "split_loop [] segments current escaped =
     segments @ [if escaped then current @ [CHR 0x5C] else current]"
| "split_loop (c # cs) segments current escaped =
     (if escaped then split_loop cs segments (current @ [c]) False
      else if c = CHR 0x5C then split_loop cs segments current True
      else if c = CHR ''.'' then split_loop cs (segments @ [current]) [] False
      else split_loop cs segments (current @ [c]) False)"

definition split_path :: "string \<Rightarrow> string list" where
  "split_path path = split_loop path [] [] False"

definition double_quotes :: "string \<Rightarrow> string" where
  "double_quotes segment = concat (map (\<lambda>c. if c = CHR 0x22 then [c, c] else [c]) segment)"

definition path_part :: "string \<Rightarrow> string" where
  "path_part segment = ''.'' @ [CHR 0x22] @ double_quotes segment @ [CHR 0x22]"

definition json_path_string :: "string \<Rightarrow> string" where
  "json_path_string path = CHR ''$'' # concat (map path_part (split_path path))"

text \<open>\<open>_nested\<close>: every segment but the last opens a dictionary.\<close>

fun nest :: "string list \<Rightarrow> json \<Rightarrow> json" where
  "nest [] value = value"
| "nest (s # ss) value = JObj [(s, nest ss value)]"

definition nested :: "string \<Rightarrow> json \<Rightarrow> json" where
  "nested path value = nest (split_path path) value"

section \<open>Conditions\<close>

text \<open>What \<open>json_extract\<close> returns to SQL.\<close>

datatype sql_value = SqlNull | SqlInt int | SqlReal "64 word" | SqlText string

record sql_json =
  json_type :: "json \<Rightarrow> string \<Rightarrow> string option"
  json_extract :: "json \<Rightarrow> string \<Rightarrow> sql_value"
  json_contains :: "json \<Rightarrow> json \<Rightarrow> bool"
  sql_equal :: "sql_value \<Rightarrow> json \<Rightarrow> bool"

datatype sql_cond =
    TypeNotNull string
  | ExtractNull string
  | TypeIs string string
  | ExtractIs string json
  | Contains json
  | AndCond sql_cond sql_cond

datatype dialect_name = Sqlite | Postgresql

definition path_equals :: "dialect_name \<Rightarrow> string \<Rightarrow> json \<Rightarrow> sql_cond" where
  "path_equals name path value =
     (case name of
        Sqlite \<Rightarrow>
          (let p = json_path_string path in
           case value of
             JNull \<Rightarrow> AndCond (TypeNotNull p) (ExtractNull p)
           | JBool b \<Rightarrow> AndCond (TypeIs p (if b then ''true'' else ''false''))
               (ExtractIs p (JInt (if b then 1 else 0)))
           | JStr s \<Rightarrow> AndCond (TypeIs p ''text'') (ExtractIs p (JStr s))
           | JFloat f \<Rightarrow> AndCond (TypeIs p ''real'') (ExtractIs p (JFloat f))
           | _ \<Rightarrow> AndCond (TypeIs p ''integer'') (ExtractIs p value))
      | Postgresql \<Rightarrow> Contains (nested path value))"

fun holds :: "sql_json \<Rightarrow> json \<Rightarrow> sql_cond \<Rightarrow> bool" where
  "holds Q state (TypeNotNull p) = (json_type Q state p \<noteq> None)"
| "holds Q state (ExtractNull p) = (json_extract Q state p = SqlNull)"
| "holds Q state (TypeIs p t) = (json_type Q state p = Some t)"
| "holds Q state (ExtractIs p v) = sql_equal Q (json_extract Q state p) v"
| "holds Q state (Contains v) = json_contains Q state v"
| "holds Q state (AndCond a b) = (holds Q state a \<and> holds Q state b)"

section \<open>Search\<close>

definition matches :: "sql_json \<Rightarrow> dialect_name \<Rightarrow> doc \<Rightarrow> head_row \<Rightarrow> bool" where
  "matches Q name filters h =
     list_all (\<lambda>(path, value). holds Q (hd_state h) (path_equals name path value)) filters"

definition search_heads ::
  "sql_json \<Rightarrow> dialect_name \<Rightarrow> db \<Rightarrow> string \<Rightarrow> doc \<Rightarrow> uuid option \<Rightarrow> int \<Rightarrow> head_row list" where
  "search_heads Q name d stream filters cursor limit =
     sql_limit limit (sort_key hd_aggregate_id
       (filter (\<lambda>h. hd_stream h = stream \<and> matches Q name filters h \<and> after_key hd_aggregate_id cursor h)
         (db_heads d)))"

text \<open>Results mapped in order; the first exception ends the mapping.\<close>

fun rmap :: "('a \<Rightarrow> 'e + 'b) \<Rightarrow> 'a list \<Rightarrow> 'e + 'b list" where
  "rmap f [] = Inr []"
| "rmap f (x # xs) = rbind (f x) (\<lambda>y. rbind (rmap f xs) (\<lambda>ys. Inr (y # ys)))"

text \<open>The cursor is parsed before the \<open>try\<close>, so a malformed one raises \<open>ValueError\<close> as it is.\<close>

definition store_search ::
  "platform \<Rightarrow> sql_json \<Rightarrow> dialect_name \<Rightarrow> db \<Rightarrow> string \<Rightarrow> doc \<Rightarrow> string option \<Rightarrow> int \<Rightarrow> exn + stored_revision page" where
  "store_search P Q name d stream filters cursor limit =
     (if limit < 1 then Inl (Eventic UsageError)
      else
        rbind (case cursor of
                 None \<Rightarrow> Inr None
               | Some c \<Rightarrow> (case uuid_of_str c of None \<Rightarrow> Inl (Python ValueError) | Some u \<Rightarrow> Inr (Some u)))
          (\<lambda>after.
            (let rows = search_heads Q name d stream filters after limit in
             rbind (rmap (head_row_to_stored P) rows) (\<lambda>items.
               Inr \<lparr>pg_items = items,
                    pg_cursor = (if int (length rows) = limit
                                 then Some (uuid_str (hd_aggregate_id (last rows))) else None)\<rparr>))))"

section \<open>History\<close>

definition history_item :: "platform \<Rightarrow> encodings \<Rightarrow> db \<Rightarrow> aggregate_key \<Rightarrow> revision_row \<Rightarrow> exn + stored_revision" where
  "history_item P encs d key r =
     rbind (decode_log_revision P encs d (ak_stream key) (ak_id key) (rv_revision r)) (log_row_to_stored P r)"

definition store_history ::
  "platform \<Rightarrow> encodings \<Rightarrow> db \<Rightarrow> aggregate_key \<Rightarrow> int \<Rightarrow> int \<Rightarrow> exn + stored_revision page" where
  "store_history P encs d key after limit =
     (if limit < 1 then Inl (Eventic UsageError)
      else
        (let rows = select_history d (ak_stream key) (ak_id key) after limit in
         rbind (translate_read (rmap (history_item P encs d key) rows)) (\<lambda>items.
           Inr \<lparr>pg_items = items,
                pg_cursor = (if int (length rows) = limit then Some (show_int (rv_revision (last rows))) else None)\<rparr>)))"

section \<open>Splitting inverts joining\<close>

text \<open>How a caller writes a path whose segments contain dots or backslashes.\<close>

definition escape_segment :: "string \<Rightarrow> string" where
  "escape_segment s = concat (map (\<lambda>c. if c = CHR 0x5C \<or> c = CHR ''.'' then [CHR 0x5C, c] else [c]) s)"

fun join_path :: "string list \<Rightarrow> string" where
  "join_path [] = []"
| "join_path [s] = escape_segment s"
| "join_path (s # t # ts) = escape_segment s @ CHR ''.'' # join_path (t # ts)"

lemma split_loop_escaped:
  "split_loop (escape_segment s @ rest) segments current False = split_loop rest segments (current @ s) False"
  by (induction s arbitrary: current) (auto simp: escape_segment_def)

lemma split_loop_join:
  "ss \<noteq> [] \<Longrightarrow> split_loop (join_path ss) segments [] False = segments @ ss"
proof (induction ss arbitrary: segments rule: join_path.induct)
  case (2 s)
  then show ?case using split_loop_escaped [of s "[]" segments "[]"] by simp
next
  case (3 s t ts)
  then show ?case by (simp add: split_loop_escaped)
qed simp

lemma split_path_nonempty: "split_path p \<noteq> []"
proof -
  have "split_loop cs segments current escaped \<noteq> []" for cs segments current escaped
    by (induction cs segments current escaped rule: split_loop.induct) auto
  then show ?thesis by (simp add: split_path_def)
qed

section \<open>Filters on SQLite\<close>

text \<open>The value at a path of object keys.\<close>

fun json_at :: "json \<Rightarrow> string list \<Rightarrow> json option" where
  "json_at v [] = Some v"
| "json_at (JObj d) (s # ss) = (case map_of d s of None \<Rightarrow> None | Some v \<Rightarrow> json_at v ss)"
| "json_at v (s # ss) = None"

fun sqlite_type :: "json \<Rightarrow> string" where
  "sqlite_type JNull = ''null''"
| "sqlite_type (JBool b) = (if b then ''true'' else ''false'')"
| "sqlite_type (JInt i) = ''integer''"
| "sqlite_type (JFloat f) = ''real''"
| "sqlite_type (JStr s) = ''text''"
| "sqlite_type (JList xs) = ''array''"
| "sqlite_type (JObj d) = ''object''"

text \<open>
  What the code relies on of SQLite's JSON functions, for paths of plain segments: the path
  \<open>$."a"."b"\<close> leads to the member, \<open>json_type\<close> names the type of what is there, \<open>json_extract\<close> returns
  its value, and \<open>=\<close> compares values of one type.
\<close>

definition plain_segment :: "string \<Rightarrow> bool" where
  "plain_segment s \<longleftrightarrow> list_all (\<lambda>c. c \<noteq> CHR 0x22 \<and> c \<noteq> CHR 0x5C \<and> 32 \<le> (of_char c :: nat)) s"

definition plain_path :: "string \<Rightarrow> bool" where
  "plain_path p \<longleftrightarrow> list_all plain_segment (split_path p)"

fun sql_value_of :: "json \<Rightarrow> sql_value option" where
  "sql_value_of JNull = Some SqlNull"
| "sql_value_of (JBool b) = Some (SqlInt (if b then 1 else 0))"
| "sql_value_of (JInt i) = Some (SqlInt i)"
| "sql_value_of (JFloat f) = Some (SqlReal f)"
| "sql_value_of (JStr s) = Some (SqlText s)"
| "sql_value_of _ = None"

definition sqlite_json_functions :: "sql_json \<Rightarrow> bool" where
  "sqlite_json_functions Q \<longleftrightarrow>
     (\<forall>v p. plain_path p \<longrightarrow>
        json_type Q v (json_path_string p) = map_option sqlite_type (json_at v (split_path p))) \<and>
     (\<forall>v p w x. plain_path p \<longrightarrow> json_at v (split_path p) = Some w \<longrightarrow> sql_value_of w = Some x \<longrightarrow>
        json_extract Q v (json_path_string p) = x) \<and>
     (\<forall>v p w. plain_path p \<longrightarrow> json_at v (split_path p) = Some w \<longrightarrow> sql_value_of w = None \<longrightarrow>
        json_extract Q v (json_path_string p) \<noteq> SqlNull) \<and>
     (\<forall>i j. sql_equal Q (SqlInt i) (JInt j) \<longleftrightarrow> i = j) \<and>
     (\<forall>s t. sql_equal Q (SqlText s) (JStr t) \<longleftrightarrow> s = t) \<and>
     (\<forall>f g. sql_equal Q (SqlReal f) (JFloat g) \<longleftrightarrow> py_eq (JFloat f) (JFloat g))"

text \<open>A filter's value compared with what the document has there: same JSON type and same value.\<close>

fun filter_matches :: "json \<Rightarrow> json \<Rightarrow> bool" where
  "filter_matches JNull w = (w = JNull)"
| "filter_matches (JBool b) w = (w = JBool b)"
| "filter_matches (JInt i) w = (w = JInt i)"
| "filter_matches (JStr s) w = (w = JStr s)"
| "filter_matches (JFloat g) w = (case w of JFloat f \<Rightarrow> py_eq (JFloat f) (JFloat g) | _ \<Rightarrow> False)"
| "filter_matches _ w = False"

lemma sqlite_path_equals:
  assumes Q: "sqlite_json_functions Q" and p: "plain_path p"
    and scalar: "case v of JList _ \<Rightarrow> False | JObj _ \<Rightarrow> False | _ \<Rightarrow> True"
  shows "holds Q state (path_equals Sqlite p v) \<longleftrightarrow>
    (case json_at state (split_path p) of None \<Rightarrow> False | Some w \<Rightarrow> filter_matches v w)"
proof -
  have ty: "json_type Q state (json_path_string p) = map_option sqlite_type (json_at state (split_path p))"
    using Q p by (simp add: sqlite_json_functions_def)
  have ext: "sql_value_of w = Some x \<Longrightarrow> json_extract Q state (json_path_string p) = x"
    "sql_value_of w = None \<Longrightarrow> json_extract Q state (json_path_string p) \<noteq> SqlNull"
    if "json_at state (split_path p) = Some w" for w x
    using Q p that by (simp_all add: sqlite_json_functions_def)
  have eq: "sql_equal Q (SqlInt i) (JInt j) \<longleftrightarrow> i = j" "sql_equal Q (SqlText s) (JStr t) \<longleftrightarrow> s = t"
    "sql_equal Q (SqlReal f) (JFloat g) \<longleftrightarrow> py_eq (JFloat f) (JFloat g)" for i j s t f g
    using Q by (simp_all add: sqlite_json_functions_def del: py_eq.simps)
  show ?thesis
  proof (cases "json_at state (split_path p)")
    case None
    then show ?thesis using scalar by (cases v) (auto simp: path_equals_def ty Let_def)
  next
    case (Some w)
    show ?thesis
      using scalar Some ext [OF Some]
      by (cases v; cases w) (auto simp: path_equals_def ty eq Let_def simp del: py_eq.simps)
  qed
qed

section \<open>Pages of a search\<close>

lemma rmap_map: "(\<And>x. x \<in> set xs \<Longrightarrow> f x = Inr (g x)) \<Longrightarrow> rmap f xs = Inr (map g xs)"
  by (induction xs) auto

lemma rmap_Inr_map:
  assumes "rmap f xs = Inr ys" "\<And>x y. x \<in> set xs \<Longrightarrow> f x = Inr y \<Longrightarrow> p y = q x"
  shows "map p ys = map q xs"
  using assms by (induction xs arbitrary: ys) auto

definition matching_heads :: "sql_json \<Rightarrow> dialect_name \<Rightarrow> db \<Rightarrow> string \<Rightarrow> doc \<Rightarrow> head_row list" where
  "matching_heads Q name d stream filters =
     sort_key hd_aggregate_id (filter (\<lambda>h. hd_stream h = stream \<and> matches Q name filters h) (db_heads d))"

lemma fetch_heads:
  "search_heads Q name d stream filters cursor (int n) =
     take n (filter (after_key hd_aggregate_id cursor) (matching_heads Q name d stream filters))"
  by (simp add: search_heads_def sql_limit_def matching_heads_def filter_sort_key conj_ac)

interpretation search_pager: keyset_pager "matching_heads Q name d stream filters" hd_aggregate_id
  "\<lambda>n cursor. search_heads Q name d stream filters cursor (int n)"
  for Q :: sql_json and name :: dialect_name and d :: db and stream :: string and filters :: doc
  by unfold_locales (simp_all only: fetch_heads matching_heads_def sorted_sort_key)

lemma distinct_matching_heads:
  assumes "distinct (map hd_aggregate (db_heads d))"
  shows "distinct (map hd_aggregate_id (matching_heads Q name d stream filters))"
proof -
  let ?f = "filter (\<lambda>h. hd_stream h = stream \<and> matches Q name filters h) (db_heads d)"
  have "inj_on hd_aggregate (set (db_heads d))" "distinct (db_heads d)"
    using assms by (simp_all add: distinct_map)
  then have "inj_on hd_aggregate_id (set ?f)"
    by (auto simp: inj_on_def hd_aggregate_def)
  with \<open>distinct (db_heads d)\<close> show ?thesis by (simp add: matching_heads_def distinct_map)
qed

lemma head_item_id: "head_row_to_stored P h = Inr sr \<Longrightarrow> sr_aggregate_id sr = hd_aggregate_id h"
  by (auto simp: head_row_to_stored_def)

lemma search_page:
  assumes heads: "distinct (map hd_aggregate (db_heads d))"
    and cursor: "case cursor of None \<Rightarrow> after = None | Some c \<Rightarrow> uuid_of_str c = after \<and> after \<noteq> None"
    and page: "store_search P Q name d stream filters cursor limit = Inr page"
  shows "map hd_aggregate_id (filter (after_key hd_aggregate_id after) (matching_heads Q name d stream filters)) =
    map sr_aggregate_id (pg_items page) @
    (case pg_cursor page of
       None \<Rightarrow> []
     | Some c \<Rightarrow> map hd_aggregate_id (filter (after_key hd_aggregate_id (uuid_of_str c)) (matching_heads Q name d stream filters)))"
proof -
  have limit: "1 \<le> limit" using page by (auto simp: store_search_def split: if_splits)
  then obtain n where n: "limit = int n" "0 < n" by (metis int_one_le_iff_zero_less pos_int_cases)
  let ?rows = "search_heads Q name d stream filters after (int n)"
  from page limit cursor have items: "rmap (head_row_to_stored P) ?rows = Inr (pg_items page)"
    and next_cursor: "pg_cursor page = (if length ?rows = n then Some (uuid_str (hd_aggregate_id (last ?rows))) else None)"
    by (auto simp: store_search_def n Let_def split: option.splits if_splits)
  have ids: "map sr_aggregate_id (pg_items page) = map hd_aggregate_id ?rows"
    by (rule rmap_Inr_map [OF items]) (rule head_item_id)
  note keys = distinct_matching_heads [OF heads, of Q name stream filters]
  show ?thesis
  proof (cases "length ?rows = n")
    case True
    then have "?rows \<noteq> []" using n by auto
    from search_pager.page_split [OF keys this] True show ?thesis
      by (simp add: ids next_cursor)
  next
    case False
    then have "length ?rows < n" by (auto simp: fetch_heads)
    from search_pager.page_short [OF this] False show ?thesis by (simp add: ids next_cursor)
  qed
qed

section \<open>Pages of a history\<close>

definition aggregate_rows :: "db \<Rightarrow> string \<Rightarrow> uuid \<Rightarrow> revision_row list" where
  "aggregate_rows d s a = sort_key rv_revision (filter (of_aggregate s a) (db_revisions d))"

lemma fetch_history:
  "select_history d s a since (int n) = take n (filter (\<lambda>r. since < rv_revision r) (aggregate_rows d s a))"
  by (simp add: select_history_def aggregate_rows_def filter_sort_key conj_commute)

interpretation history_pager: keyset_pager "aggregate_rows d s a" rv_revision
  "\<lambda>n after. case after of None \<Rightarrow> take n (aggregate_rows d s a) | Some k \<Rightarrow> select_history d s a k (int n)"
  for d :: db and s :: string and a :: uuid
  by unfold_locales (auto simp: fetch_history after_key_def [abs_def] aggregate_rows_def split: option.split)

lemma take_upto: "take n [i..j] = [i..min j (i + int n - 1)]"
proof (induction n arbitrary: i)
  case (Suc n)
  show ?case
  proof (cases "i \<le> j")
    case True
    then have "take (Suc n) [i..j] = i # take n [i + 1..j]" by (simp add: upto_rec1)
    also have "... = i # [i + 1..min j (i + int n)]" by (simp add: Suc.IH add.assoc)
    also have "... = [i..min j (i + int (Suc n) - 1)]" using True by (simp add: upto_rec1)
    finally show ?thesis .
  qed simp
qed simp

text \<open>The rows after a revision, in order, are the next revisions without a gap.\<close>

lemma history_revisions:
  assumes ok: "store_ok P encs d" and h: "select_head d s a = Some h" and "- 1 \<le> since"
  shows "map rv_revision (filter (\<lambda>r. since < rv_revision r) (aggregate_rows d s a)) = [since + 1..hd_revision h]"
proof (rule sorted_distinct_set_unique)
  let ?l = "filter (\<lambda>r. since < rv_revision r) (aggregate_rows d s a)"
  show "sorted (map rv_revision ?l)" by (simp add: aggregate_rows_def filter_sort_key)
  have "distinct (map rv_key (db_revisions d))" using ok by (simp add: store_ok_def)
  then show "distinct (map rv_revision ?l)"
    by (auto simp: aggregate_rows_def distinct_map inj_on_def of_aggregate_def rv_key_def)
  have "rv_revision ` set ?l = {m. since < m \<and> (s, a, m) \<in> rv_key ` set (db_revisions d)}"
    by (auto simp: aggregate_rows_def of_aggregate_def rv_key_def image_iff)
  also have "... = {since + 1..hd_revision h}"
    using revisions_up_to_head [OF ok h] assms(3) by auto
  finally show "set (map rv_revision ?l) = set [since + 1..hd_revision h]" by simp
qed simp_all

lemma history_item_ok:
  assumes ok: "store_ok P encs d" and r: "r \<in> set (db_revisions d)" "of_aggregate s a r"
  obtains sr doc where "history_item P encs d (AggregateKey s a) r = Inr sr" "sr_revision sr = rv_revision r"
    "sr_payload sr = doc" "decode_log_revision P encs d s a (rv_revision r) = Inr doc"
    "digest_agrees P doc (sr_digest sr)"
proof -
  have "log_row_ok P encs d r" using ok r by (simp add: store_ok_def)
  then obtain x m b where "row_decodes P encs d r = Inr (JObj x)" "rv_meta r = JObj m"
    "canonical_bytes P (JObj x) = Some b" "rv_digest r = digest P b"
    by (rule log_row_okE) (use \<open>log_row_ok P encs d r\<close> in \<open>auto simp: log_row_ok_def is_doc_iff\<close>)
  with r(2) show ?thesis
    by (intro that) (auto simp: history_item_def row_decodes_def of_aggregate_def log_row_to_stored_def
        column_loads_def digest_agrees_def)
qed

lemma history_page_lemma:
  assumes ok: "store_ok P encs d" and h: "select_head d s a = Some h" and "- 1 \<le> after" "1 \<le> limit"
  shows "\<exists>page. store_history P encs d (AggregateKey s a) after limit = Inr page \<and>
    map sr_revision (pg_items page) = [after + 1..min (hd_revision h) (after + limit)] \<and>
    (\<forall>sr \<in> set (pg_items page).
       decode_log_revision P encs d s a (sr_revision sr) = Inr (sr_payload sr) \<and>
       digest_agrees P (sr_payload sr) (sr_digest sr)) \<and>
    pg_cursor page = (if after + limit \<le> hd_revision h then Some (show_int (after + limit)) else None)"
proof -
  obtain n where n: "limit = int n" "0 < n" using assms(4) by (metis int_one_le_iff_zero_less pos_int_cases)
  let ?rows = "select_history d s a after (int n)"
  have revs: "map rv_revision ?rows = [after + 1..min (hd_revision h) (after + limit)]"
    using history_revisions [OF ok h assms(3)] by (simp add: fetch_history take_map [symmetric] take_upto n)
  have members: "r \<in> set (db_revisions d)" "of_aggregate s a r" if "r \<in> set ?rows" for r
    using that by (auto simp: fetch_history aggregate_rows_def dest!: in_set_takeD)
  let ?item = "\<lambda>r. case history_item P encs d (AggregateKey s a) r of Inr sr \<Rightarrow> sr"
  have item: "history_item P encs d (AggregateKey s a) r = Inr (?item r) \<and> sr_revision (?item r) = rv_revision r \<and>
      decode_log_revision P encs d s a (rv_revision r) = Inr (sr_payload (?item r)) \<and>
      digest_agrees P (sr_payload (?item r)) (sr_digest (?item r))" if "r \<in> set ?rows" for r
    by (rule history_item_ok [OF ok members [OF that]]) simp
  have run: "rmap (history_item P encs d (AggregateKey s a)) ?rows = Inr (map ?item ?rows)"
    by (rule rmap_map) (use item in blast)
  have last: "length ?rows = n \<longleftrightarrow> after + limit \<le> hd_revision h"
  proof -
    have "length ?rows = length [after + 1..min (hd_revision h) (after + limit)]"
      using arg_cong [OF revs, of length] by simp
    then show ?thesis using n by (auto simp: min_def)
  qed
  have last_rev: "rv_revision (last ?rows) = after + limit" if "length ?rows = n"
  proof -
    have "?rows \<noteq> []" using that n by auto
    then have "rv_revision (last ?rows) = last (map rv_revision ?rows)" by (simp add: last_map)
    also have "... = after + limit" using that last revs n by (simp add: min_def upto_rec2)
    finally show ?thesis .
  qed
  let ?page = "\<lparr>pg_items = map ?item ?rows,
      pg_cursor = (if length ?rows = n then Some (show_int (rv_revision (last ?rows))) else None)\<rparr>"
  have page: "store_history P encs d (AggregateKey s a) after limit = Inr ?page"
    using n by (simp add: store_history_def run translate_read_def Let_def)
  have "map sr_revision (map ?item ?rows) = map rv_revision ?rows" using item by simp
  with revs have "map sr_revision (pg_items ?page) = [after + 1..min (hd_revision h) (after + limit)]" by simp
  moreover have "\<forall>sr \<in> set (pg_items ?page). decode_log_revision P encs d s a (sr_revision sr) = Inr (sr_payload sr) \<and>
      digest_agrees P (sr_payload sr) (sr_digest sr)"
    using item by auto
  moreover have "pg_cursor ?page = (if after + limit \<le> hd_revision h then Some (show_int (after + limit)) else None)"
    using last last_rev by simp
  ultimately show ?thesis using page by blast
qed

section \<open>Properties\<close>

text \<open>
  C18: A history page after a revision holds exactly the next revisions of the aggregate, in order and
  without a gap, up to the page size; each item's document is what its revision decodes to and has the
  recorded digest; the cursor is the last revision of a full page and absent otherwise.
\<close>

theorem history_pages_are_gap_free:
  assumes "store_ok P encs d" "select_head d s a = Some h" "- 1 \<le> after" "1 \<le> limit"
  shows "\<exists>page. store_history P encs d (AggregateKey s a) after limit = Inr page \<and>
    map sr_revision (pg_items page) = [after + 1..min (hd_revision h) (after + limit)] \<and>
    (\<forall>sr \<in> set (pg_items page).
       decode_log_revision P encs d s a (sr_revision sr) = Inr (sr_payload sr) \<and>
       digest_agrees P (sr_payload sr) (sr_digest sr)) \<and>
    pg_cursor page = (if after + limit \<le> hd_revision h then Some (show_int (after + limit)) else None)"
  by (rule history_page_lemma [OF assms])

lemma history_pages_are_gap_free_witness:
  "\<exists>page. store_history sample_platform Map.empty sample_db (AggregateKey ''todos'' 5) (- 1) 10 = Inr page \<and>
     map sr_revision (pg_items page) = [0] \<and> pg_cursor page = None"
proof -
  have "select_head sample_db ''todos'' 5 = Some (head_of_row sample_row (JObj [(''a'', JInt 1)]))"
    by (simp add: select_head_def sample_db_def head_of_row_def sample_row_def)
  from history_pages_are_gap_free [OF sample_db_ok this, of "- 1" 10] show ?thesis
    by (auto simp: head_of_row_def sample_row_def)
qed

text \<open>
  Searching page by page returns each matching head of the stream exactly once, in the order of the
  aggregate ids: a page is what a reader at the cursor has not seen, up to the page size, and the cursor of
  the page leaves exactly the rest.
\<close>

theorem search_pages_partition_the_matches:
  assumes "distinct (map hd_aggregate (db_heads d))"
    and "case cursor of None \<Rightarrow> after = None | Some c \<Rightarrow> uuid_of_str c = after \<and> after \<noteq> None"
    and "store_search P Q name d stream filters cursor limit = Inr page"
  shows "map hd_aggregate_id (filter (after_key hd_aggregate_id after) (matching_heads Q name d stream filters)) =
    map sr_aggregate_id (pg_items page) @
    (case pg_cursor page of
       None \<Rightarrow> []
     | Some c \<Rightarrow> map hd_aggregate_id (filter (after_key hd_aggregate_id (uuid_of_str c)) (matching_heads Q name d stream filters)))"
  by (rule search_page [OF assms])

definition sample_sql :: sql_json where
  "sample_sql =
     \<lparr>json_type = (\<lambda>v p. None), json_extract = (\<lambda>v p. SqlNull), json_contains = (\<lambda>v w. False),
      sql_equal = (\<lambda>x v. False)\<rparr>"

lemma search_pages_partition_the_matches_witness:
  "map hd_aggregate_id (filter (after_key hd_aggregate_id None)
      (matching_heads sample_sql Sqlite sample_db ''todos'' [])) = [5]"
proof -
  have heads: "distinct (map hd_aggregate (db_heads sample_db))" by (simp add: sample_db_def)
  obtain page where page: "store_search sample_platform sample_sql Sqlite sample_db ''todos'' [] None 2 = Inr page"
    "map sr_aggregate_id (pg_items page) = [5]" "pg_cursor page = None"
    by (simp add: store_search_def search_heads_def matches_def sql_limit_def sample_db_def head_of_row_def
        sample_row_def after_key_def head_row_to_stored_def column_loads_def)
  have "case (None :: string option) of None \<Rightarrow> (None :: uuid option) = None
      | Some c \<Rightarrow> uuid_of_str c = None \<and> (None :: uuid option) \<noteq> None" by simp
  from search_pages_partition_the_matches [OF heads this page(1)] page(2,3) show ?thesis by simp
qed

text \<open>
  On SQLite a filter with a scalar value selects the documents that have exactly that JSON value at
  the path: a missing member is not \<open>null\<close>, \<open>true\<close> is not 1 and 1 is not 1.0.
\<close>

theorem sqlite_filters_compare_json_values:
  assumes "sqlite_json_functions Q" "plain_path p"
    and "case v of JList _ \<Rightarrow> False | JObj _ \<Rightarrow> False | _ \<Rightarrow> True"
  shows "holds Q state (path_equals Sqlite p v) \<longleftrightarrow>
    (case json_at state (split_path p) of None \<Rightarrow> False | Some w \<Rightarrow> filter_matches v w)"
  by (rule sqlite_path_equals [OF assms])

text \<open>SQLite's functions, reading back the paths the code writes.\<close>

fun read_segment :: "string \<Rightarrow> string \<times> string" where
  "read_segment [] = ([], [])"
| "read_segment (c # cs) = (if c = CHR 0x22 then ([], cs) else map_prod ((#) c) id (read_segment cs))"

lemma read_segment_length: "length (snd (read_segment cs)) \<le> length cs"
  by (induction cs) auto

function read_parts :: "string \<Rightarrow> string list" where
  "read_parts (dot # q # r) = fst (read_segment r) # read_parts (snd (read_segment r))"
| "read_parts [] = []"
| "read_parts [c] = []"
  by pat_completeness auto
termination
  by (relation "measure length") (auto intro: le_less_trans [OF read_segment_length])

lemma read_segment_plain:
  "plain_segment seg \<Longrightarrow> read_segment (double_quotes seg @ CHR 0x22 # r) = (seg, r)"
  by (induction seg) (auto simp: double_quotes_def plain_segment_def)

lemma read_parts_path: "list_all plain_segment segs \<Longrightarrow> read_parts (concat (map path_part segs)) = segs"
proof (induction segs)
  case (Cons seg segs)
  then show ?case
    by (simp add: path_part_def [of seg] read_segment_plain)
qed simp

definition model_sqlite :: sql_json where
  "model_sqlite =
     \<lparr>json_type = (\<lambda>v p. map_option sqlite_type (json_at v (read_parts (tl p)))),
      json_extract = (\<lambda>v p. case json_at v (read_parts (tl p)) of
          None \<Rightarrow> SqlNull
        | Some w \<Rightarrow> (case sql_value_of w of None \<Rightarrow> SqlText [] | Some x \<Rightarrow> x)),
      json_contains = (\<lambda>v w. False),
      sql_equal = (\<lambda>x v. case (x, v) of
          (SqlInt i, JInt j) \<Rightarrow> i = j
        | (SqlText s, JStr t) \<Rightarrow> s = t
        | (SqlReal f, JFloat g) \<Rightarrow> py_eq (JFloat f) (JFloat g)
        | _ \<Rightarrow> False)\<rparr>"

lemma model_sqlite_functions: "sqlite_json_functions model_sqlite"
  by (auto simp: sqlite_json_functions_def model_sqlite_def json_path_string_def plain_path_def read_parts_path
      simp del: py_eq.simps)

lemma sqlite_filters_compare_json_values_witness:
  "holds model_sqlite (JObj [(''a'', JObj [(''b'', JNull)])]) (path_equals Sqlite ''a.b'' JNull) \<and>
   \<not> holds model_sqlite (JObj [(''a'', JObj [])]) (path_equals Sqlite ''a.b'' JNull)"
proof -
  have path: "split_path ''a.b'' = [''a'', ''b'']" by (simp add: split_path_def)
  have plain: "plain_path ''a.b''" by (simp add: plain_path_def path plain_segment_def)
  show ?thesis
    using sqlite_filters_compare_json_values [OF model_sqlite_functions plain] by (simp add: path)
qed

text \<open>
  Every sequence of segments can be written as a filter path: escaping the dots and backslashes of
  the segments and joining them with dots is undone by \<open>split_path\<close>.
\<close>

theorem split_path_inverts_join:
  assumes "segments \<noteq> []"
  shows "split_path (join_path segments) = segments"
  using split_loop_join [OF assms, of "[]"] by (simp add: split_path_def)

lemma split_path_inverts_join_witness:
  "split_path (join_path [''a.b'', [], ''c'']) = [''a.b'', [], ''c'']"
  using split_path_inverts_join [of "[''a.b'', [], ''c'']"] by simp

text \<open>
  A search with a cursor that is no UUID escapes with Python's \<open>ValueError\<close>, which is not one of the
  store's errors.
\<close>

theorem malformed_search_cursor_escapes:
  assumes "1 \<le> limit" "uuid_of_str c = None"
  shows "store_search P Q name d stream filters (Some c) limit = Inl (Python ValueError)"
  using assms by (simp add: store_search_def)

lemma malformed_search_cursor_escapes_witness:
  "store_search sample_platform sample_sql Sqlite sample_db ''todos'' [] (Some ''page2'') 10 = Inl (Python ValueError)"
  by (rule malformed_search_cursor_escapes) (simp_all add: uuid_of_str_def strip_chars_def)

end
