(* ===== verification/Sql_Store.thy ===== *)
theory Sql_Store
  imports Contract Store_Promises Reads
begin

text \<open>
  The SQL store as a provider of the store protocol: the operations of \<open>src/eventic/sql/store.py\<close> on a world
  that holds its tables and the two clocks they read, the database's for commits and the process's for
  leases.  The rest of the world is free: \<open>'x\<close> is what else handlers act on.
\<close>

record world =
  wo_db :: db
  wo_db_now :: time
  wo_now :: time

definition capabilities_of :: "dialect_name \<Rightarrow> capabilities" where
  "capabilities_of name = (case name of Sqlite \<Rightarrow> sqlite_capabilities | Postgresql \<Rightarrow> postgres_capabilities)"

text \<open>The result of an operation on the tables, in the world.\<close>

definition on_tables :: "(eventic_error + 'a) \<times> db \<Rightarrow> 'x world_scheme \<Rightarrow> (exn + 'a) \<times> 'x world_scheme" where
  "on_tables r w = (lift_eventic (fst r), w\<lparr>wo_db := snd r\<rparr>)"

definition sql_store :: "platform \<Rightarrow> sql_json \<Rightarrow> dialect_name \<Rightarrow> encodings \<Rightarrow> 'x world_scheme store_api" where
  "sql_store P Q name encs =
     \<lparr>so_capabilities = capabilities_of name,
      so_commit = (\<lambda>reqs w. on_tables
        (store_commit P encs (cp_max_batch (capabilities_of name)) (wo_db_now w) (wo_db w) reqs) w),
      so_head = (\<lambda>key w. store_head P (wo_db w) key),
      so_revision = (\<lambda>key n w. store_revision P encs (wo_db w) key n),
      so_history = (\<lambda>key after limit w. store_history P encs (wo_db w) key after limit),
      so_search = (\<lambda>stream filters cursor limit w. store_search P Q name (wo_db w) stream filters cursor limit),
      so_claim = (\<lambda>queue limit lease w. on_tables (store_claim (wo_db w) queue limit lease (wo_now w)) w),
      so_settle = (\<lambda>ss w. on_tables (store_settle (wo_db w) ss) w)\<rparr>"

section \<open>Point reads of a consistent store\<close>

lemma sorted_last: "sorted (map f xs) \<Longrightarrow> x \<in> set xs \<Longrightarrow> f x \<le> f (last xs)"
  by (induction xs rule: rev_induct) (auto simp: sorted_append)

lemma last_window:
  assumes ok: "store_ok P encs d" and r: "r \<in> set (db_revisions d)" and "st \<le> rv_revision r"
  shows "select_window d (rv_stream r) (rv_aggregate_id r) st (rv_revision r) \<noteq> []"
    and "last (select_window d (rv_stream r) (rv_aggregate_id r) st (rv_revision r)) = r"
proof -
  let ?w = "select_window d (rv_stream r) (rv_aggregate_id r) st (rv_revision r)"
  have mem: "r \<in> set ?w" using r assms(3) by (simp add: set_select_window of_aggregate_def)
  then show ne: "?w \<noteq> []" by auto
  then have l: "last ?w \<in> set ?w" by simp
  have "sorted (map rv_revision ?w)" by (simp add: select_window_def)
  then have "rv_revision r \<le> rv_revision (last ?w)"
    using mem by (rule sorted_last)
  then have "rv_key (last ?w) = rv_key r" "last ?w \<in> set (db_revisions d)"
    using l by (auto simp: set_select_window of_aggregate_def rv_key_def)
  then show "last ?w = r" using ok r by (auto simp: store_ok_def distinct_map inj_on_def)
qed

lemma window_start_le: "1 \<le> every \<Longrightarrow> 0 \<le> n \<Longrightarrow> window_start every n \<le> n"
  by (simp add: window_start_def)

lemma store_revision_row:
  assumes ok: "store_ok P encs d" and r: "r \<in> set (db_revisions d)" and dec: "row_decodes P encs d r = Inr doc"
  shows "store_revision P encs d (AggregateKey (rv_stream r) (rv_aggregate_id r)) (rv_revision r) =
    Inr (Some \<lparr>sr_stream = rv_stream r, sr_aggregate_id = rv_aggregate_id r, sr_revision = rv_revision r,
      sr_revision_id = rv_revision_id r, sr_kind = rv_kind r, sr_schema_version = rv_schema_version r,
      sr_meta_version = rv_meta_version r, sr_encoding = rv_encoding r, sr_payload = doc,
      sr_digest = rv_digest r, sr_meta = rv_meta r, sr_committed_at = rv_committed_at r\<rparr>)"
proof -
  have row: "log_row_ok P encs d r" using ok r by (simp add: store_ok_def)
  then have n: "0 \<le> rv_revision r" and meta: "column_loads P (rv_meta r) = Inr (rv_meta r)"
    by (auto simp: log_row_ok_def is_doc_iff column_loads_def)
  have sel: "select_revision_row d (rv_stream r) (rv_aggregate_id r) (rv_revision r) = Some r"
    by (rule select_revision_row_unique) (use ok r in \<open>simp_all add: store_ok_def\<close>)
  show ?thesis
  proof (cases "\<exists>every. encs (rv_stream r) = Some (Delta every)")
    case True
    then obtain every where e: "encs (rv_stream r) = Some (Delta every)" by blast
    then have "1 \<le> every" using ok by (auto simp: store_ok_def encodings_ok_def)
    note w = last_window [OF ok r window_start_le [OF this n]]
    from dec e have "decode_window P (rv_revision r)
        (select_window d (rv_stream r) (rv_aggregate_id r) (window_start every (rv_revision r)) (rv_revision r)) = Inr doc"
      by (simp add: row_decodes_def decode_log_revision_def)
    with e n w show ?thesis
      by (simp add: store_revision_def Let_def log_row_to_stored_def meta translate_read_def)
  next
    case False
    then have "store_revision P encs d (AggregateKey (rv_stream r) (rv_aggregate_id r)) (rv_revision r) =
        rbind (translate_read (row_decodes P encs d r)) (\<lambda>payload.
        rbind (log_row_to_stored P r payload) (\<lambda>x. Inr (Some x)))"
      using n sel by (auto simp: store_revision_def row_decodes_def Let_def split: option.split encoding.split)
    then show ?thesis using dec by (simp add: translate_read_def log_row_to_stored_def meta)
  qed
qed

section \<open>The SQL store keeps the contract\<close>

definition world_ok :: "platform \<Rightarrow> encodings \<Rightarrow> 'x world_scheme \<Rightarrow> bool" where
  "world_ok P encs w \<longleftrightarrow> float_codec P \<and> store_ok P encs (wo_db w)"

lemma world_unchanged: "w\<lparr>wo_db := wo_db w\<rparr> = w"
  by simp

lemma sql_commit_Inr:
  "so_commit (sql_store P Q name encs) reqs w = (Inr rs, w') \<longleftrightarrow>
     length reqs \<le> cp_max_batch (capabilities_of name) \<and>
     (\<exists>d. rfold (commit_one P encs (wo_db_now w)) (wo_db w) reqs = Inr (d, rs) \<and> w' = w\<lparr>wo_db := d\<rparr>)"
  by (auto simp: sql_store_def on_tables_def store_commit_def lift_eventic_def split: sum.splits)

lemma sql_commit_one:
  "so_commit (sql_store P Q name encs) [req] w =
     (case commit_one P encs (wo_db_now w) (wo_db w) req of
        Inl e \<Rightarrow> (Inl (Eventic (commit_error e)), w)
      | Inr (d, res) \<Rightarrow> (Inr [res], w\<lparr>wo_db := d\<rparr>))"
proof -
  have "1 \<le> cp_max_batch (capabilities_of name)"
    by (cases name) (simp_all add: capabilities_of_def sqlite_capabilities_def postgres_capabilities_def)
  then show ?thesis
    by (auto simp: sql_store_def on_tables_def store_commit_def lift_eventic_def split: sum.split prod.split)
qed

lemma commit_one_answers:
  assumes "commit_one P encs now d req = Inr (d', res)"
  shows "answers P req res"
  using assms
  by (cases rule: commit_one_cases) (auto simp: commit_result_of_def answers_def elim: append_revision_Inr)

lemma rfold_answers:
  "rfold (commit_one P encs now) d reqs = Inr (d', rs) \<Longrightarrow> list_all2 (answers P) reqs rs"
  by (induction reqs arbitrary: d rs) (auto elim!: rfold_Inr_Cons dest: commit_one_answers)

lemma not_replayed_appends:
  assumes "commit_one P encs now d req = Inr (d', res)" "\<not> cr_replayed res"
  shows "append_revision P encs now d req (select_head d (cq_stream req) (cq_aggregate_id req)) = Inr (d', res)"
  using assms by (cases rule: commit_one_cases) (auto simp: commit_result_of_def)

lemma head_shown:
  assumes run: "commit_one P encs now d req = Inr (d', res)" "\<not> cr_replayed res" and ok: "store_ok P encs d'"
  shows "\<exists>sr. store_head P d' (request_key req) = Inr (Some sr) \<and> shown_as P req res sr"
    and "\<exists>sr. store_revision P encs d' (request_key req) (target_of req) = Inr (Some sr) \<and> shown_as P req res sr"
proof -
  from not_replayed_appends [OF run] obtain physical enc meta doc d1 where a:
    "bytes_loads P (cq_meta req) = Inr meta"
    "d1 = d\<lparr>db_revisions := db_revisions d @ [new_revision_row P now req physical enc meta]\<rparr>"
    "decode_log_revision P encs d1 (cq_stream req) (cq_aggregate_id req) (target_of req) = Inr doc"
    "canonical_bytes P doc = Some (cq_payload req)" "db_revisions d' = db_revisions d1"
    "db_heads d' = upsert_head_rows (new_head_row P now req doc meta) (db_heads d)"
    "res = commit_result_of P now req False"
    by (rule append_revision_Inr)
  let ?r = "new_revision_row P now req physical enc meta"
  have r: "?r \<in> set (db_revisions d')" using a by simp
  have key: "rv_stream ?r = cq_stream req" "rv_aggregate_id ?r = cq_aggregate_id req" "rv_revision ?r = target_of req"
    by (simp_all add: new_revision_row_def)
  have dec: "row_decodes P encs d' ?r = Inr doc"
    using a(3) log_reads_cong(3) [OF a(5)] by (simp add: row_decodes_def key)
  obtain h where h: "select_head d' (cq_stream req) (cq_aggregate_id req) = Some h" "h = new_head_row P now req doc meta"
    using a(6) by (simp add: select_head_rows new_head_row_def)
  obtain x where x: "hd_state h = JObj x" by (rule store_ok_head_state [OF ok h(1)])
  have m: "is_doc (rv_meta ?r)" using ok r by (simp add: store_ok_def log_row_ok_def)
  then obtain y where y: "meta = JObj y" by (auto simp: new_revision_row_def is_doc_iff)
  show "\<exists>sr. store_head P d' (request_key req) = Inr (Some sr) \<and> shown_as P req res sr"
    using h x y a
    by (simp add: store_head_def request_key_def head_row_to_stored_def column_loads_def new_head_row_def
        shown_as_def commit_result_of_def)
  show "\<exists>sr. store_revision P encs d' (request_key req) (target_of req) = Inr (Some sr) \<and> shown_as P req res sr"
    using store_revision_row [OF ok r dec] a
    by (simp add: key request_key_def shown_as_def commit_result_of_def) (simp add: new_revision_row_def)
qed

lemma head_read_ok:
  assumes "store_ok P encs d" "store_head P d (AggregateKey s a) = Inr h"
  shows "case h of None \<Rightarrow> select_head d s a = None
    | Some sr \<Rightarrow> \<exists>g. select_head d s a = Some g \<and> sr_revision sr = hd_revision g"
  using assms(2)
  by (auto simp: store_head_def head_row_to_stored_def rbind_Inr_iff split: option.splits)

text \<open>Where the request's target stands to the head decides whether the log has a row for it.\<close>

lemma no_row_ahead:
  assumes ok: "store_ok P encs d" and h: "store_head P d (request_key req) = Inr h" and "ahead_of_head req h"
  shows "select_revision_row d (cq_stream req) (cq_aggregate_id req) (target_of req) = None"
proof (cases "select_head d (cq_stream req) (cq_aggregate_id req)")
  case None
  then show ?thesis using store_ok_no_head [OF ok None] by (auto simp: select_revision_row_def find_None)
next
  case (Some g)
  then obtain sr where sr: "h = Some sr" "sr_revision sr = hd_revision g"
    using head_read_ok [OF ok h [unfolded request_key_def]] by (auto split: option.splits)
  then show ?thesis
    using revisions_up_to_head [OF ok Some, of "target_of req"] assms(3)
    by (auto simp: select_revision_row_None ahead_of_head_def)
qed

lemma stale_outcome:
  assumes ok: "store_ok P encs d" and h: "store_head P d (request_key req) = Inr h" and "\<not> ahead_of_head req h"
    and req: "request_ok P req"
  shows "commit_one P encs now d req = Inl (Eventic RevisionConflict) \<or>
    commit_one P encs now d req = Inr (d, commit_result_of P now req True)"
proof -
  from assms(3) obtain sr where sr: "h = Some sr" "target_of req \<le> sr_revision sr"
    by (auto simp: ahead_of_head_def split: option.splits)
  then obtain g where g: "select_head d (cq_stream req) (cq_aggregate_id req) = Some g" "sr_revision sr = hd_revision g"
    using head_read_ok [OF ok h [unfolded request_key_def]] by auto
  show ?thesis
  proof (cases "select_revision_row d (cq_stream req) (cq_aggregate_id req) (target_of req)")
    case (Some row)
    then show ?thesis using commit_one_taken [OF ok req Some] by auto
  next
    case None
    have "\<not> cas_ok req (Some g)" using sr g by (auto simp: cas_ok_def target_of_def)
    then show ?thesis using commit_one_stale [OF None] g by simp
  qed
qed

lemma commit_one_new:
  assumes "commit_one P encs now d req = Inr (d', res)"
    "select_revision_row d (cq_stream req) (cq_aggregate_id req) (target_of req) = None"
  shows "\<not> cr_replayed res"
  using assms(1)
proof (cases rule: commit_one_cases)
  case (replay row)
  with assms(2) show ?thesis by simp
next
  case append
  from append(3) show ?thesis by (rule append_revision_Inr) (simp add: commit_result_of_def)
qed

lemma sql_commit_good:
  assumes w: "world_ok P encs w" and reqs: "\<forall>req \<in> set reqs. request_ok P req"
  shows "world_ok P encs (snd (so_commit (sql_store P Q name encs) reqs w))"
proof -
  have "store_ok P encs (snd (store_commit P encs (cp_max_batch (capabilities_of name)) (wo_db_now w) (wo_db w) reqs))"
    by (rule store_commit_preserves [OF _ _ reqs prod.collapse [symmetric]])
       (use w in \<open>simp_all add: world_ok_def\<close>)
  with w show ?thesis by (simp add: world_ok_def sql_store_def on_tables_def)
qed

lemma sql_commit_refused:
  assumes run: "so_commit (sql_store P Q name encs) reqs w = (Inl e, w')"
  shows "w' = w \<and> (\<exists>x. e = Eventic x)"
proof -
  obtain r d where rd: "store_commit P encs (cp_max_batch (capabilities_of name)) (wo_db_now w) (wo_db w) reqs = (r, d)"
    by fastforce
  with run obtain x where "r = Inl x" "e = Eventic x"
    by (cases r) (auto simp: sql_store_def on_tables_def lift_eventic_def)
  moreover from this rd have "d = wo_db w" using store_commit_Inl by blast
  ultimately show ?thesis using run rd by (simp add: sql_store_def on_tables_def)
qed

lemma sql_commit_answers:
  "so_commit (sql_store P Q name encs) reqs w = (Inr rs, w') \<Longrightarrow> list_all2 (answers P) reqs rs"
  by (auto simp: sql_commit_Inr dest: rfold_answers)

lemma sql_commit_shown:
  assumes w: "world_ok P encs w" and req: "request_ok P req"
    and run: "so_commit (sql_store P Q name encs) [req] w = (Inr [res], w')" and new: "\<not> cr_replayed res"
  shows "\<exists>sr. so_head (sql_store P Q name encs) (request_key req) w' = Inr (Some sr) \<and> shown_as P req res sr"
    and "\<exists>sr. so_revision (sql_store P Q name encs) (request_key req) (target_of req) w' = Inr (Some sr) \<and>
      shown_as P req res sr"
proof -
  from run obtain d where d: "commit_one P encs (wo_db_now w) (wo_db w) req = Inr (d, res)" "w' = w\<lparr>wo_db := d\<rparr>"
    by (auto simp: sql_commit_one split: sum.splits prod.splits)
  have ok: "store_ok P encs d"
    by (rule commit_one_preserves [OF _ _ req d(1)]) (use w in \<open>simp_all add: world_ok_def\<close>)
  show "\<exists>sr. so_head (sql_store P Q name encs) (request_key req) w' = Inr (Some sr) \<and> shown_as P req res sr"
    using head_shown(1) [OF d(1) new ok] by (simp add: sql_store_def d(2))
  show "\<exists>sr. so_revision (sql_store P Q name encs) (request_key req) (target_of req) w' = Inr (Some sr) \<and> shown_as P req res sr"
    using head_shown(2) [OF d(1) new ok] by (simp add: sql_store_def d(2))
qed

lemma sql_commit_new:
  assumes w: "world_ok P encs w" and h: "so_head (sql_store P Q name encs) (request_key req) w = Inr h" "ahead_of_head req h"
    and run: "so_commit (sql_store P Q name encs) [req] w = (Inr [res], w')"
  shows "\<not> cr_replayed res"
proof -
  from run obtain d where d: "commit_one P encs (wo_db_now w) (wo_db w) req = Inr (d, res)"
    by (auto simp: sql_commit_one split: sum.splits prod.splits)
  have "select_revision_row (wo_db w) (cq_stream req) (cq_aggregate_id req) (target_of req) = None"
    by (rule no_row_ahead [where P = P and encs = encs, OF _ _ h(2)])
       (use w h(1) in \<open>simp_all add: world_ok_def sql_store_def\<close>)
  then show ?thesis by (rule commit_one_new [OF d])
qed

lemma sql_commit_stale:
  assumes w: "world_ok P encs w" and req: "request_ok P req"
    and h: "so_head (sql_store P Q name encs) (request_key req) w = Inr h" "\<not> ahead_of_head req h"
  shows "so_commit (sql_store P Q name encs) [req] w = (Inl (Eventic RevisionConflict), w) \<or>
    (\<exists>res. so_commit (sql_store P Q name encs) [req] w = (Inr [res], w) \<and> cr_replayed res)"
proof -
  have "commit_one P encs (wo_db_now w) (wo_db w) req = Inl (Eventic RevisionConflict) \<or>
      commit_one P encs (wo_db_now w) (wo_db w) req = Inr (wo_db w, commit_result_of P (wo_db_now w) req True)"
    by (rule stale_outcome [OF _ _ h(2) req]) (use w h(1) in \<open>simp_all add: world_ok_def sql_store_def\<close>)
  then show ?thesis by (auto simp: sql_commit_one commit_error_def commit_result_of_def)
qed

interpretation sql: store_contract P "sql_store P Q name encs" "world_ok P encs"
  for P :: platform and Q :: sql_json and name :: dialect_name and encs :: encodings
  by unfold_locales
     (fact sql_commit_good sql_commit_refused sql_commit_answers sql_commit_shown sql_commit_stale
      | rule sql_commit_new, assumption+)+

end
