(* ===== verification/Conformance.thy ===== *)
theory Conformance
  imports Sql_Store
begin

text \<open>
  The conformance kit: the steps of a scenario (\<open>src/eventic/testing/conformance/store.py\<close>) and the runner that
  executes them against a store (\<open>src/eventic/testing/runner.py\<close>).

  The runner acts on the world of the store.  Its clock, what sleeping does to the world and, for the steps
  that start threads, the order in which the threads' transactions happen are arguments; a hanging thread is
  not modelled.  A failed step is told apart by what it complains of, not by its message.
\<close>

section \<open>Steps\<close>

record commit_step =
  cs_name :: string
  cs_stream :: string
  cs_aggregate_id :: uuid
  cs_expected_revision :: "int option"
  cs_kind :: string
  cs_schema_version :: int
  cs_payload :: string
  cs_digest :: string
  cs_meta :: string
  cs_meta_version :: int
  cs_fingerprint :: string
  cs_intents :: "intent_request list"
  cs_expect_revision :: "int option"
  cs_expect_replayed :: "bool option"
  cs_expect_error :: "string option"

record batch_step =
  bs_name :: string
  bs_commits :: "commit_step list"
  bs_expect_error :: "string option"

record head_step =
  hs_name :: string
  hs_stream :: string
  hs_aggregate_id :: uuid
  hs_expect_missing :: bool
  hs_expect_revision :: "int option"
  hs_expect_digest :: "string option"
  hs_expect_payload :: "json option"

record exact_step =
  es_name :: string
  es_stream :: string
  es_aggregate_id :: uuid
  es_revision :: int
  es_expect_missing :: bool
  es_expect_digest :: "string option"
  es_expect_payload :: "json option"

record history_step =
  ys_name :: string
  ys_stream :: string
  ys_aggregate_id :: uuid
  ys_after :: int
  ys_limit :: int
  ys_expect_revisions :: "int list"
  ys_expect_payloads :: "json list"
  ys_expect_cursor_none :: "bool option"

record search_step =
  ss_name :: string
  ss_stream :: string
  ss_filters :: doc
  ss_limit :: int
  ss_cursor :: "string option"
  ss_expect_ids :: "uuid list"
  ss_expect_payloads :: "json list"
  ss_expect_cursor_none :: "bool option"

record claim_step =
  ms_name :: string
  ms_queue :: string
  ms_limit :: int
  ms_lease :: int
  ms_expect :: "(string \<times> uuid \<times> int) list"
  ms_expect_none :: bool

record settle_step =
  ts_name :: string
  ts_status :: string
  ts_available_at :: "time option"
  ts_error :: "string option"

record time_step =
  is_name :: string
  is_stream :: string
  is_aggregate_id :: uuid
  is_after :: int
  is_limit :: int

record race_step =
  rs_name :: string
  rs_stream :: string
  rs_aggregate_id :: uuid
  rs_expected_revision :: "int option"
  rs_kind :: string
  rs_writers :: nat
  rs_schema_version :: int
  rs_meta_version :: int
  rs_fingerprint :: string

record drainers_step =
  ds_name :: string
  ds_queue :: string
  ds_drainers :: nat
  ds_limit :: int
  ds_expect_total :: nat
  ds_lease :: int

datatype step =
    Commit_step commit_step
  | Batch_step batch_step
  | Head_step head_step
  | Exact_step exact_step
  | History_step history_step
  | Search_step search_step
  | Claim_step claim_step
  | Settle_step settle_step
  | Wait_step string "64 word"
  | Time_step time_step
  | Race_step race_step
  | Drainers_step drainers_step

record scenario =
  sn_name :: string
  sn_requires :: "string list"
  sn_stores :: nat
  sn_steps :: "step list"

section \<open>Failures\<close>

datatype fault =
    Unexpected_revision
  | Missing_revision
  | Wrong_revision
  | Wrong_digest
  | Wrong_payload
  | Unexpected_error
  | Wrong_error
  | Foreign_exception
  | Nothing_raised
  | Wrong_result_count
  | Wrong_replayed
  | Wrong_history
  | Wrong_cursor
  | Wrong_ids
  | Wrong_claim
  | Nothing_claimed
  | Nothing_to_inspect
  | Time_decreased
  | Different_stamps
  | Race_other
  | Race_winners
  | Race_conflicts
  | Claimed_twice
  | Wrong_total

text \<open>What ends a step: \<open>StepFailure\<close>, or an exception of the store.\<close>

datatype step_exn = Step_failure fault | Escaped exn

record context_state =
  cx_claimed :: "claimed_intent list"
  cx_stamps :: "time list"

fun class_name :: "eventic_error \<Rightarrow> string" where
  "class_name EventicError = ''EventicError''"
| "class_name ConfigError = ''ConfigError''"
| "class_name DuplicateId = ''DuplicateId''"
| "class_name UnknownStream = ''UnknownStream''"
| "class_name UnsupportedHandler = ''UnsupportedHandler''"
| "class_name IncompleteUpcasterChain = ''IncompleteUpcasterChain''"
| "class_name UsageError = ''UsageError''"
| "class_name NotFound = ''NotFound''"
| "class_name RevisionConflict = ''RevisionConflict''"
| "class_name EncodingError = ''EncodingError''"
| "class_name (UndecodableRevision _) = ''UndecodableRevision''"
| "class_name CapabilityUnsupported = ''CapabilityUnsupported''"
| "class_name StoreError = ''StoreError''"
| "class_name DeliveryError = ''DeliveryError''"
| "class_name InlineDispatchError = ''InlineDispatchError''"
| "class_name DeadLettered = ''DeadLettered''"

section \<open>Running one step\<close>

definition to_request :: "commit_step \<Rightarrow> commit_request" where
  "to_request c =
     \<lparr>cq_stream = cs_stream c, cq_aggregate_id = cs_aggregate_id c, cq_expected_revision = cs_expected_revision c,
      cq_kind = cs_kind c, cq_schema_version = cs_schema_version c, cq_payload = cs_payload c, cq_digest = cs_digest c,
      cq_meta = cs_meta c, cq_meta_version = cs_meta_version c, cq_fingerprint = cs_fingerprint c,
      cq_intents = cs_intents c\<rparr>"

definition differs :: "'a option \<Rightarrow> 'a \<Rightarrow> bool" where
  "differs expected x = (case expected of None \<Rightarrow> False | Some e \<Rightarrow> e \<noteq> x)"

definition check_revision ::
  "stored_revision option \<Rightarrow> bool \<Rightarrow> int option \<Rightarrow> string option \<Rightarrow> json option \<Rightarrow> step_exn + unit" where
  "check_revision found missing revision dig payload =
     (if missing then (case found of Some _ \<Rightarrow> Inl (Step_failure Unexpected_revision) | None \<Rightarrow> Inr ())
      else
        (case found of
           None \<Rightarrow> Inl (Step_failure Missing_revision)
         | Some sr \<Rightarrow>
             if differs revision (sr_revision sr) then Inl (Step_failure Wrong_revision)
             else if differs dig (sr_digest sr) then Inl (Step_failure Wrong_digest)
             else if (case payload of None \<Rightarrow> False | Some p \<Rightarrow> \<not> py_eq (sr_payload sr) p) then Inl (Step_failure Wrong_payload)
             else Inr ()))"

text \<open>\<open>_expect_raise\<close> on the outcome of the call, and the truth value of an expected error.\<close>

definition expect_raise :: "exn + 'a \<Rightarrow> string \<Rightarrow> step_exn + unit" where
  "expect_raise r error_name =
     (case r of
        Inl (Eventic e) \<Rightarrow> (if class_name e \<noteq> error_name then Inl (Step_failure Wrong_error) else Inr ())
      | Inl _ \<Rightarrow> Inl (Step_failure Foreign_exception)
      | Inr _ \<Rightarrow> Inl (Step_failure Nothing_raised))"

definition expects :: "string option \<Rightarrow> bool" where
  "expects e \<longleftrightarrow> (case e of None \<Rightarrow> False | Some n \<Rightarrow> n \<noteq> [])"

definition escape :: "exn + 'a \<Rightarrow> step_exn + 'a" where
  "escape r = (case r of Inl e \<Rightarrow> Inl (Escaped e) | Inr x \<Rightarrow> Inr x)"

text \<open>Each step returns what it raised, the context and the world.\<close>

type_synonym 's step_result = "(step_exn + unit) \<times> context_state \<times> 's"

definition check_commit :: "commit_step \<Rightarrow> commit_result list \<Rightarrow> step_exn + unit" where
  "check_commit c results =
     (case results of
        [result] \<Rightarrow>
          if differs (cs_expect_revision c) (cr_revision result) then Inl (Step_failure Wrong_revision)
          else if differs (cs_expect_replayed c) (cr_replayed result) then Inl (Step_failure Wrong_replayed)
          else Inr ()
      | _ \<Rightarrow> Inl (Step_failure Wrong_result_count))"

definition stamped :: "context_state \<Rightarrow> commit_result list \<Rightarrow> context_state" where
  "stamped cx results = cx\<lparr>cx_stamps := map cr_committed_at results\<rparr>"

definition run_commit :: "'s store_api \<Rightarrow> commit_step \<Rightarrow> context_state \<Rightarrow> 's \<Rightarrow> 's step_result" where
  "run_commit S c cx w =
     (let (r, w') = so_commit S [to_request c] w in
      if expects (cs_expect_error c)
      then (expect_raise r (case cs_expect_error c of Some e \<Rightarrow> e | None \<Rightarrow> []), cx, w')
      else
        (case r of
           Inl e \<Rightarrow> (Inl (Escaped e), cx, w')
         | Inr results \<Rightarrow> (check_commit c results, stamped cx results, w')))"

text \<open>\<open>zip\<close> over the batch's commits and their results.\<close>

fun check_batch :: "commit_step list \<Rightarrow> commit_result list \<Rightarrow> step_exn + unit" where
  "check_batch (c # cs) (r # rs) =
     (if differs (cs_expect_revision c) (cr_revision r) then Inl (Step_failure Wrong_revision) else check_batch cs rs)"
| "check_batch _ _ = Inr ()"

definition run_batch :: "'s store_api \<Rightarrow> batch_step \<Rightarrow> context_state \<Rightarrow> 's \<Rightarrow> 's step_result" where
  "run_batch S b cx w =
     (let requests = map to_request (bs_commits b); (r, w') = so_commit S requests w in
      if expects (bs_expect_error b)
      then (expect_raise r (case bs_expect_error b of Some e \<Rightarrow> e | None \<Rightarrow> []), cx, w')
      else
        (case r of
           Inl e \<Rightarrow> (Inl (Escaped e), cx, w')
         | Inr results \<Rightarrow>
             (if length results \<noteq> length requests then Inl (Step_failure Wrong_result_count)
              else check_batch (bs_commits b) results, stamped cx results, w')))"

text \<open>The key of a step; its constructor may refuse it.\<close>

definition step_key :: "string \<Rightarrow> uuid \<Rightarrow> step_exn + aggregate_key" where
  "step_key stream a = escape (lift_py (make_aggregate_key stream a))"

definition run_head :: "'s store_api \<Rightarrow> head_step \<Rightarrow> 's \<Rightarrow> step_exn + unit" where
  "run_head S h w =
     rbind (step_key (hs_stream h) (hs_aggregate_id h)) (\<lambda>key.
     rbind (escape (so_head S key w)) (\<lambda>found.
       check_revision found (hs_expect_missing h) (hs_expect_revision h) (hs_expect_digest h) (hs_expect_payload h)))"

definition run_exact :: "'s store_api \<Rightarrow> exact_step \<Rightarrow> 's \<Rightarrow> step_exn + unit" where
  "run_exact S e w =
     rbind (step_key (es_stream e) (es_aggregate_id e)) (\<lambda>key.
     rbind (escape (so_revision S key (es_revision e) w)) (\<lambda>found.
       check_revision found (es_expect_missing e) None (es_expect_digest e) (es_expect_payload e)))"

definition run_history :: "'s store_api \<Rightarrow> history_step \<Rightarrow> 's \<Rightarrow> step_exn + unit" where
  "run_history S h w =
     rbind (step_key (ys_stream h) (ys_aggregate_id h)) (\<lambda>key.
     rbind (escape (so_history S key (ys_after h) (ys_limit h) w)) (\<lambda>page.
       if map sr_revision (pg_items page) \<noteq> ys_expect_revisions h then Inl (Step_failure Wrong_history)
       else if ys_expect_payloads h \<noteq> [] \<and> \<not> list_all2 py_eq (map sr_payload (pg_items page)) (ys_expect_payloads h)
       then Inl (Step_failure Wrong_payload)
       else if differs (ys_expect_cursor_none h) (pg_cursor page = None) then Inl (Step_failure Wrong_cursor)
       else Inr ()))"

definition run_search :: "'s store_api \<Rightarrow> search_step \<Rightarrow> 's \<Rightarrow> step_exn + unit" where
  "run_search S q w =
     rbind (escape (so_search S (ss_stream q) (ss_filters q) (ss_cursor q) (ss_limit q) w)) (\<lambda>page.
       if map sr_aggregate_id (pg_items page) \<noteq> ss_expect_ids q then Inl (Step_failure Wrong_ids)
       else if differs (ss_expect_cursor_none q) (pg_cursor page = None) then Inl (Step_failure Wrong_cursor)
       else Inr ())"

definition run_claim :: "'s store_api \<Rightarrow> claim_step \<Rightarrow> context_state \<Rightarrow> 's \<Rightarrow> 's step_result" where
  "run_claim S m cx w =
     (let (r, w') = so_claim S (ms_queue m) (ms_limit m) (ms_lease m) w in
      case r of
        Inl e \<Rightarrow> (Inl (Escaped e), cx, w')
      | Inr claimed \<Rightarrow>
          (if ms_expect_none m then (if claimed \<noteq> [] then Inl (Step_failure Wrong_claim) else Inr ())
           else if set (map (\<lambda>c. (ci_subscription_id c, ci_revision_id c, ci_attempts c)) claimed) \<noteq> set (ms_expect m)
           then Inl (Step_failure Wrong_claim) else Inr (),
           cx\<lparr>cx_claimed := claimed\<rparr>, w'))"

definition run_settle :: "('s \<Rightarrow> time) \<Rightarrow> 's store_api \<Rightarrow> settle_step \<Rightarrow> context_state \<Rightarrow> 's \<Rightarrow> 's step_result" where
  "run_settle clock S t cx w =
     (if cx_claimed cx = [] then (Inl (Step_failure Nothing_claimed), cx, w)
      else
        (let available_at = (if ts_status t = ''retry'' \<and> ts_available_at t = None then Some (clock w + 60000000)
                             else ts_available_at t);
             settlements = map (\<lambda>c. \<lparr>st_intent_id = ci_intent_id c, st_status = ts_status t,
                                     st_available_at = available_at, st_error = ts_error t\<rparr>) (cx_claimed cx);
             (r, w') = so_settle S settlements w
         in (escape r, cx, w')))"

fun never_decreases :: "time list \<Rightarrow> bool" where
  "never_decreases (a # b # ts) = (a \<le> b \<and> never_decreases (b # ts))"
| "never_decreases _ = True"

definition run_time :: "'s store_api \<Rightarrow> time_step \<Rightarrow> context_state \<Rightarrow> 's \<Rightarrow> step_exn + unit" where
  "run_time S t cx w =
     rbind (step_key (is_stream t) (is_aggregate_id t)) (\<lambda>key.
     rbind (escape (so_history S key (is_after t) (is_limit t) w)) (\<lambda>page.
       let stamps = map sr_committed_at (pg_items page) in
       if stamps = [] then Inl (Step_failure Nothing_to_inspect)
       else if \<not> never_decreases stamps then Inl (Step_failure Time_decreased)
       else if length (remdups (cx_stamps cx)) > 1 then Inl (Step_failure Different_stamps)
       else Inr ()))"

section \<open>Races\<close>

definition race_payload :: "platform \<Rightarrow> nat \<Rightarrow> exn + string" where
  "race_payload P i = py_canonical_bytes P (JObj [(''racer'', JInt (int i))])"

definition race_request :: "race_step \<Rightarrow> platform \<Rightarrow> string \<Rightarrow> string \<Rightarrow> commit_request" where
  "race_request r P payload meta =
     \<lparr>cq_stream = rs_stream r, cq_aggregate_id = rs_aggregate_id r, cq_expected_revision = rs_expected_revision r,
      cq_kind = rs_kind r, cq_schema_version = rs_schema_version r, cq_payload = payload, cq_digest = digest P payload,
      cq_meta = meta, cq_meta_version = rs_meta_version r, cq_fingerprint = rs_fingerprint r, cq_intents = []\<rparr>"

datatype outcome = Won | Conflict | Other

definition race_outcome :: "exn + 'a \<Rightarrow> outcome" where
  "race_outcome r =
     (case r of Inr _ \<Rightarrow> Won | Inl e \<Rightarrow> (if e = Eventic RevisionConflict then Conflict else Other))"

text \<open>The writers' commits in the order in which they happen; a writer that cannot build its request adds nothing.\<close>

fun race_outcomes ::
  "platform \<Rightarrow> 's store_api \<Rightarrow> race_step \<Rightarrow> nat list \<Rightarrow> 's \<Rightarrow> outcome list \<times> 's" where
  "race_outcomes P S r [] w = ([], w)"
| "race_outcomes P S r (i # order) w =
     (case (race_payload P i, py_canonical_bytes P (JObj [])) of
        (Inr payload, Inr meta) \<Rightarrow>
          (let (res, w') = so_commit S [race_request r P payload meta] w;
               (outs, w'') = race_outcomes P S r order w'
           in (race_outcome res # outs, w''))
      | _ \<Rightarrow> race_outcomes P S r order w)"

definition judge_race :: "nat \<Rightarrow> outcome list \<Rightarrow> step_exn + unit" where
  "judge_race writers outs =
     (if Other \<in> set outs then Inl (Step_failure Race_other)
      else if count_list outs Won \<noteq> 1 then Inl (Step_failure Race_winners)
      else if int (count_list outs Conflict) \<noteq> int writers - 1 then Inl (Step_failure Race_conflicts)
      else Inr ())"

definition run_race :: "platform \<Rightarrow> 's store_api \<Rightarrow> race_step \<Rightarrow> nat list \<Rightarrow> 's \<Rightarrow> (step_exn + unit) \<times> 's" where
  "run_race P S r order w =
     (let (outs, w') = race_outcomes P S r order w in (judge_race (rs_writers r) outs, w'))"

text \<open>The drainers' claims, one after the other; a drainer whose claim raises adds nothing.\<close>

fun drainer_claims :: "'s store_api \<Rightarrow> drainers_step \<Rightarrow> nat \<Rightarrow> 's \<Rightarrow> uuid set list \<times> 's" where
  "drainer_claims S q 0 w = ([], w)"
| "drainer_claims S q (Suc n) w =
     (let (r, w') = so_claim S (ds_queue q) (ds_limit q) (ds_lease q) w;
          (rest, w'') = drainer_claims S q n w'
      in (case r of Inl e \<Rightarrow> rest | Inr claimed \<Rightarrow> set (map ci_intent_id claimed) # rest, w''))"

definition judge_drainers :: "drainers_step \<Rightarrow> uuid set list \<Rightarrow> step_exn + unit" where
  "judge_drainers q sets =
     (let claimed = \<Union> (set sets) in
      if sum_list (map card sets) \<noteq> card claimed then Inl (Step_failure Claimed_twice)
      else if card claimed \<noteq> ds_expect_total q then Inl (Step_failure Wrong_total)
      else Inr ())"

definition run_drainers :: "'s store_api \<Rightarrow> drainers_step \<Rightarrow> 's \<Rightarrow> (step_exn + unit) \<times> 's" where
  "run_drainers S q w = (let (sets, w') = drainer_claims S q (ds_drainers q) w in (judge_drainers q sets, w'))"

section \<open>Scenarios\<close>

text \<open>The runner's surroundings: its clock, sleeping, and who goes first in a race.\<close>

record 's runner =
  rn_platform :: platform
  rn_clock :: "'s \<Rightarrow> time"
  rn_sleep :: "64 word \<Rightarrow> 's \<Rightarrow> 's"
  rn_order :: "race_step \<Rightarrow> nat list"

definition run_step :: "'s runner \<Rightarrow> 's store_api \<Rightarrow> step \<Rightarrow> context_state \<Rightarrow> 's \<Rightarrow> 's step_result" where
  "run_step R S st cx w =
     (case st of
        Commit_step c \<Rightarrow> run_commit S c cx w
      | Batch_step b \<Rightarrow> run_batch S b cx w
      | Head_step h \<Rightarrow> (run_head S h w, cx, w)
      | Exact_step e \<Rightarrow> (run_exact S e w, cx, w)
      | History_step h \<Rightarrow> (run_history S h w, cx, w)
      | Search_step q \<Rightarrow> (run_search S q w, cx, w)
      | Claim_step m \<Rightarrow> run_claim S m cx w
      | Settle_step t \<Rightarrow> run_settle (rn_clock R) S t cx w
      | Wait_step _ seconds \<Rightarrow> (Inr (), cx, rn_sleep R seconds w)
      | Time_step t \<Rightarrow> (run_time S t cx w, cx, w)
      | Race_step r \<Rightarrow> (let (out, w') = run_race (rn_platform R) S r (rn_order R r) w in (out, cx, w'))
      | Drainers_step q \<Rightarrow> (let (out, w') = run_drainers S q w in (out, cx, w')))"

text \<open>The loop over the steps; with \<open>fresh\<close> it stops at the first failure.  A failure is the step's index and cause.\<close>

fun run_steps ::
  "'s runner \<Rightarrow> 's store_api \<Rightarrow> bool \<Rightarrow> nat \<Rightarrow> step list \<Rightarrow> (nat \<times> step_exn) list \<Rightarrow> context_state \<Rightarrow> 's \<Rightarrow>
   (nat \<times> step_exn) list \<times> 's" where
  "run_steps R S fresh i [] failures cx w = (failures, w)"
| "run_steps R S fresh i (st # sts) failures cx w =
     (let (r, cx', w') = run_step R S st cx w;
          failures' = (case r of Inl e \<Rightarrow> failures @ [(i, e)] | Inr _ \<Rightarrow> failures)
      in if failures' \<noteq> [] \<and> fresh then (failures', w') else run_steps R S fresh (Suc i) sts failures' cx' w')"

datatype scenario_result =
    Factory_failed string exn
  | Skipped string "string list"
  | Ran string "(nat \<times> step_exn) list"

definition capability_names :: "capabilities \<Rightarrow> string list" where
  "capability_names c =
     (if cp_outbox c then [''outbox''] else []) @ (if cp_json_paths c then [''json_paths''] else []) @
     (if cp_concurrent_drainers c then [''concurrent_drainers''] else [])"

definition run_scenario ::
  "'s runner \<Rightarrow> 's store_api \<Rightarrow> exn + 's \<Rightarrow> bool \<Rightarrow> scenario \<Rightarrow> scenario_result" where
  "run_scenario R S made fresh sn =
     (case made of
        Inl e \<Rightarrow> Factory_failed (sn_name sn) e
      | Inr w \<Rightarrow>
          (let missing = filter (\<lambda>c. c \<notin> set (capability_names (so_capabilities S))) (sn_requires sn) in
           if missing \<noteq> [] then Skipped (sn_name sn) (sort (remdups missing))
           else Ran (sn_name sn)
             (fst (run_steps R S fresh 0 (sn_steps sn) [] \<lparr>cx_claimed = [], cx_stamps = []\<rparr> w))))"

fun passed :: "scenario_result \<Rightarrow> bool" where
  "passed (Ran _ failures) = (failures = [])"
| "passed _ = False"

fun skipped :: "scenario_result \<Rightarrow> bool" where
  "skipped (Skipped _ _) = True"
| "skipped _ = False"

text \<open>Every scenario gets a world of its own from the factory.\<close>

definition run_all :: "'s runner \<Rightarrow> 's store_api \<Rightarrow> (scenario \<Rightarrow> exn + 's) \<Rightarrow> scenario list \<Rightarrow> scenario_result list" where
  "run_all R S factory scenarios = map (\<lambda>sn. run_scenario R S (factory sn) True sn) scenarios"

text \<open>The numbers in the first line of the summary.\<close>

definition summary :: "scenario_result list \<Rightarrow> nat \<times> nat \<times> nat" where
  "summary results =
     (let p = length (filter passed results); s = length (filter skipped results) in (p, s, length results - p - s))"

end
