(* ===== verification/Scenarios.thy ===== *)
theory Scenarios
  imports Conformance
begin

text \<open>
  The corpus of the conformance kit (\<open>src/eventic/testing/conformance/scenarios.py\<close>) and the helpers it is
  written with (\<open>src/eventic/testing/conformance/store.py\<close>), as data.  Keyword arguments are field updates of
  the helper's result.  Digests, canonical bytes and revision ids come from the platform.
\<close>

section \<open>Helpers\<close>

text \<open>\<open>payload\<close>; the documents of the corpus have canonical bytes.\<close>

definition payload :: "platform \<Rightarrow> json \<Rightarrow> string" where
  "payload P obj = (case canonical_bytes P obj of Some b \<Rightarrow> b | None \<Rightarrow> [])"

definition digest_of :: "platform \<Rightarrow> json \<Rightarrow> string" where
  "digest_of P obj = digest P (payload P obj)"

text \<open>The fields of a \<open>Commit\<close> that have no default.\<close>

definition plain_commit :: "platform \<Rightarrow> string \<Rightarrow> string \<Rightarrow> uuid \<Rightarrow> int option \<Rightarrow> string \<Rightarrow> json \<Rightarrow> json \<Rightarrow> commit_step" where
  "plain_commit P name stream aggregate_id expected kind obj meta =
     \<lparr>cs_name = name, cs_stream = stream, cs_aggregate_id = aggregate_id, cs_expected_revision = expected,
      cs_kind = kind, cs_schema_version = 1, cs_payload = payload P obj, cs_digest = digest_of P obj,
      cs_meta = payload P meta, cs_meta_version = 1, cs_fingerprint = [], cs_intents = [],
      cs_expect_revision = None, cs_expect_replayed = None, cs_expect_error = None\<rparr>"

definition mk_commit :: "platform \<Rightarrow> string \<Rightarrow> uuid \<Rightarrow> int option \<Rightarrow> string \<Rightarrow> json \<Rightarrow> json \<Rightarrow> commit_step" where
  "mk_commit P stream aggregate_id expected kind obj meta =
     plain_commit P
       (''commit '' @ kind @ '' rev='' @ (case expected of None \<Rightarrow> ''None'' | Some e \<Rightarrow> show_int e))
       stream aggregate_id expected kind obj meta"

definition intent :: "string \<Rightarrow> uuid \<Rightarrow> intent_request" where
  "intent subscription_id rid = \<lparr>ir_subscription_id = subscription_id, ir_revision_id = rid, ir_queue = ''q''\<rparr>"

definition mk_head :: "string \<Rightarrow> uuid \<Rightarrow> head_step" where
  "mk_head stream aggregate_id =
     \<lparr>hs_name = ''head'', hs_stream = stream, hs_aggregate_id = aggregate_id, hs_expect_missing = False,
      hs_expect_revision = None, hs_expect_digest = None, hs_expect_payload = None\<rparr>"

definition mk_exact :: "string \<Rightarrow> uuid \<Rightarrow> int \<Rightarrow> exact_step" where
  "mk_exact stream aggregate_id revision =
     \<lparr>es_name = ''exact'', es_stream = stream, es_aggregate_id = aggregate_id, es_revision = revision,
      es_expect_missing = False, es_expect_digest = None, es_expect_payload = None\<rparr>"

text \<open>The defaults of the other steps.\<close>

definition mk_history :: "string \<Rightarrow> string \<Rightarrow> uuid \<Rightarrow> int list \<Rightarrow> history_step" where
  "mk_history name stream aggregate_id revisions =
     \<lparr>ys_name = name, ys_stream = stream, ys_aggregate_id = aggregate_id, ys_after = - 1, ys_limit = 100,
      ys_expect_revisions = revisions, ys_expect_payloads = [], ys_expect_cursor_none = None\<rparr>"

definition mk_search :: "string \<Rightarrow> string \<Rightarrow> doc \<Rightarrow> uuid list \<Rightarrow> search_step" where
  "mk_search name stream filters ids =
     \<lparr>ss_name = name, ss_stream = stream, ss_filters = filters, ss_limit = 100, ss_cursor = None,
      ss_expect_ids = ids, ss_expect_payloads = [], ss_expect_cursor_none = None\<rparr>"

definition mk_claim :: "string \<Rightarrow> string \<Rightarrow> (string \<times> uuid \<times> int) list \<Rightarrow> claim_step" where
  "mk_claim name queue expect =
     \<lparr>ms_name = name, ms_queue = queue, ms_limit = 10, ms_lease = 1000000, ms_expect = expect, ms_expect_none = False\<rparr>"

definition mk_settle :: "string \<Rightarrow> string \<Rightarrow> string option \<Rightarrow> settle_step" where
  "mk_settle name status err = \<lparr>ts_name = name, ts_status = status, ts_available_at = None, ts_error = err\<rparr>"

definition mk_time :: "string \<Rightarrow> string \<Rightarrow> uuid \<Rightarrow> time_step" where
  "mk_time name stream aggregate_id =
     \<lparr>is_name = name, is_stream = stream, is_aggregate_id = aggregate_id, is_after = - 1, is_limit = 100\<rparr>"

definition mk_race :: "string \<Rightarrow> string \<Rightarrow> uuid \<Rightarrow> int option \<Rightarrow> string \<Rightarrow> race_step" where
  "mk_race name stream aggregate_id expected kind =
     \<lparr>rs_name = name, rs_stream = stream, rs_aggregate_id = aggregate_id, rs_expected_revision = expected,
      rs_kind = kind, rs_writers = 8, rs_schema_version = 1, rs_meta_version = 1, rs_fingerprint = []\<rparr>"

definition mk_scenario :: "string \<Rightarrow> string list \<Rightarrow> step list \<Rightarrow> scenario" where
  "mk_scenario name requires steps = \<lparr>sn_name = name, sn_requires = requires, sn_stores = 1, sn_steps = steps\<rparr>"

section \<open>Documents and keys\<close>

definition agg_a :: uuid where "agg_a = 1"
definition agg_b :: uuid where "agg_b = 2"

definition doc1 :: json where "doc1 = JObj [(''text'', JStr ''a''), (''done'', JBool False)]"
definition doc2 :: json where "doc2 = JObj [(''text'', JStr ''b''), (''done'', JBool False)]"
definition doc3 :: json where "doc3 = JObj [(''text'', JStr ''c''), (''done'', JBool True)]"

abbreviation no_meta :: json where "no_meta \<equiv> JObj []"

definition todo :: "platform \<Rightarrow> int option \<Rightarrow> string \<Rightarrow> json \<Rightarrow> commit_step" where
  "todo P expected kind obj = mk_commit P ''todos'' agg_a expected kind obj no_meta"

abbreviation todo_head :: head_step where "todo_head \<equiv> mk_head ''todos'' agg_a"

definition todo_rid :: "platform \<Rightarrow> int \<Rightarrow> uuid" where
  "todo_rid P revision = revision_id P ''todos'' agg_a revision"

section \<open>Compare-and-swap\<close>

definition cas_scenarios :: "platform \<Rightarrow> scenario list" where
  "cas_scenarios P =
     [mk_scenario ''create on empty aggregate'' []
        [Commit_step ((todo P None ''create'' doc1)\<lparr>cs_expect_revision := Some 0\<rparr>),
         Head_step (todo_head\<lparr>hs_expect_revision := Some 0, hs_expect_payload := Some doc1\<rparr>)],
      mk_scenario ''create when head exists conflicts'' []
        [Commit_step (todo P None ''create'' doc1),
         Commit_step ((todo P None ''create'' doc2)\<lparr>cs_expect_error := Some ''RevisionConflict''\<rparr>)],
      mk_scenario ''change with correct expected revision'' []
        [Commit_step (todo P None ''create'' doc1),
         Commit_step ((todo P (Some 0) ''change'' doc2)\<lparr>cs_expect_revision := Some 1\<rparr>),
         Head_step (todo_head\<lparr>hs_expect_revision := Some 1, hs_expect_payload := Some doc2\<rparr>)],
      mk_scenario ''change with stale expected revision conflicts'' []
        [Commit_step (todo P None ''create'' doc1),
         Commit_step (todo P (Some 0) ''change'' doc2),
         Commit_step ((todo P (Some 0) ''change'' doc3)\<lparr>cs_expect_error := Some ''RevisionConflict''\<rparr>),
         Head_step (todo_head\<lparr>hs_expect_revision := Some 1, hs_expect_payload := Some doc2\<rparr>)],
      mk_scenario ''change with ahead expected revision conflicts'' []
        [Commit_step (todo P None ''create'' doc1),
         Commit_step ((todo P (Some 5) ''change'' doc2)\<lparr>cs_expect_error := Some ''RevisionConflict''\<rparr>)],
      mk_scenario ''change with negative expected revision conflicts'' []
        [Commit_step (todo P None ''create'' doc1),
         Commit_step ((todo P (Some (- 1)) ''change'' doc2)\<lparr>cs_expect_error := Some ''RevisionConflict''\<rparr>)],
      mk_scenario ''change on nonexistent aggregate conflicts'' []
        [Commit_step ((todo P (Some 0) ''change'' doc1)\<lparr>cs_expect_error := Some ''RevisionConflict''\<rparr>),
         Head_step (todo_head\<lparr>hs_expect_missing := True\<rparr>)]]"

section \<open>Replay\<close>

definition replay_scenarios :: "platform \<Rightarrow> scenario list" where
  "replay_scenarios P =
     [mk_scenario ''byte-identical replay is a silent no-op, one row'' []
        [Commit_step (todo P None ''create'' doc1),
         Commit_step ((todo P None ''create'' doc1)\<lparr>cs_expect_replayed := Some True, cs_expect_revision := Some 0\<rparr>),
         Commit_step (todo P (Some 0) ''change'' doc2),
         Commit_step ((todo P (Some 0) ''change'' doc2)\<lparr>cs_expect_replayed := Some True, cs_expect_revision := Some 1\<rparr>),
         History_step (mk_history ''history has exactly two rows'' ''todos'' agg_a [0, 1])],
      mk_scenario ''replay with different digest conflicts'' []
        [Commit_step (todo P None ''create'' doc1),
         Commit_step ((todo P None ''create'' doc2)\<lparr>cs_expect_error := Some ''RevisionConflict''\<rparr>)],
      mk_scenario ''replay with different meta conflicts'' []
        [Commit_step (mk_commit P ''todos'' agg_a None ''create'' doc1 (JObj [(''tag'', JStr ''x'')])),
         Commit_step ((mk_commit P ''todos'' agg_a None ''create'' doc1 (JObj [(''tag'', JStr ''y'')]))
           \<lparr>cs_expect_error := Some ''RevisionConflict''\<rparr>)],
      mk_scenario ''replay with different schema version conflicts'' []
        [Commit_step (todo P None ''create'' doc1),
         Commit_step ((todo P None ''create'' doc1)
           \<lparr>cs_schema_version := 2, cs_expect_error := Some ''RevisionConflict''\<rparr>)],
      mk_scenario ''replay of a superseded revision leaves the head alone'' []
        [Commit_step (todo P None ''create'' doc1),
         Commit_step (todo P (Some 0) ''change'' doc2),
         Commit_step (todo P (Some 1) ''change'' doc3),
         Commit_step ((todo P (Some 0) ''change'' doc2)\<lparr>cs_expect_replayed := Some True, cs_expect_revision := Some 1\<rparr>),
         Head_step (todo_head\<lparr>hs_expect_revision := Some 2, hs_expect_digest := Some (digest_of P doc3)\<rparr>)]]"

section \<open>Identity\<close>

definition identity_scenarios :: "platform \<Rightarrow> scenario list" where
  "identity_scenarios P =
     [mk_scenario ''same aggregate UUID in two streams is two aggregates'' []
        [Commit_step (todo P None ''create'' doc1),
         Commit_step (mk_commit P ''audits'' agg_a None ''create'' doc2 no_meta),
         Head_step (todo_head\<lparr>hs_expect_revision := Some 0, hs_expect_payload := Some doc1\<rparr>),
         Head_step ((mk_head ''audits'' agg_a)\<lparr>hs_expect_revision := Some 0, hs_expect_payload := Some doc2\<rparr>),
         Commit_step ((todo P (Some 0) ''change'' doc3)\<lparr>cs_expect_revision := Some 1\<rparr>),
         Exact_step ((mk_exact ''audits'' agg_a 0)\<lparr>es_expect_payload := Some doc2\<rparr>),
         Head_step ((mk_head ''audits'' agg_a)\<lparr>hs_expect_revision := Some 0\<rparr>)]]"

section \<open>Atomicity\<close>

definition atomicity_scenarios :: "platform \<Rightarrow> scenario list" where
  "atomicity_scenarios P =
     [mk_scenario ''invalid intent aborts the whole commit'' []
        [Commit_step ((todo P None ''create'' doc1)
           \<lparr>cs_intents := [(intent ''sub'' 99)\<lparr>ir_queue := []\<rparr>], cs_expect_error := Some ''StoreError''\<rparr>),
         Head_step (todo_head\<lparr>hs_expect_missing := True\<rparr>),
         History_step (mk_history ''log is empty'' ''todos'' agg_a [])],
      mk_scenario ''batch with a mid-batch conflict writes nothing'' []
        [Batch_step
           \<lparr>bs_name = ''batch of three with a conflict in the middle'',
            bs_commits =
              [(plain_commit P ''create A'' ''todos'' agg_a None ''create'' doc1 no_meta)\<lparr>cs_expect_revision := Some 0\<rparr>,
               plain_commit P ''change B without a create conflicts'' ''todos'' agg_b (Some 0) ''change'' doc2 no_meta,
               plain_commit P ''create B would succeed alone'' ''todos'' agg_b None ''create'' doc3 no_meta],
            bs_expect_error = Some ''RevisionConflict''\<rparr>,
         Head_step (todo_head\<lparr>hs_expect_missing := True\<rparr>),
         Head_step ((mk_head ''todos'' agg_b)\<lparr>hs_expect_missing := True\<rparr>)]]"

section \<open>Batches\<close>

definition batch_scenarios :: "platform \<Rightarrow> scenario list" where
  "batch_scenarios P =
     [mk_scenario ''two writes to the same aggregate chain in one batch'' []
        [Batch_step
           \<lparr>bs_name = ''create then change chain'',
            bs_commits =
              [(plain_commit P ''create'' ''todos'' agg_a None ''create'' doc1 no_meta)\<lparr>cs_expect_revision := Some 0\<rparr>,
               (plain_commit P ''chained change'' ''todos'' agg_a (Some 0) ''change'' doc2 no_meta)\<lparr>cs_expect_revision := Some 1\<rparr>],
            bs_expect_error = None\<rparr>,
         History_step ((mk_history ''both rows present'' ''todos'' agg_a [0, 1])\<lparr>ys_expect_payloads := [doc1, doc2]\<rparr>)],
      mk_scenario ''batch results preserve request order'' []
        [Batch_step
           \<lparr>bs_name = ''three creates, distinct aggregates'',
            bs_commits =
              [(plain_commit P ''first'' ''todos'' agg_a None ''create'' doc1 no_meta)\<lparr>cs_expect_revision := Some 0\<rparr>,
               (plain_commit P ''second'' ''todos'' agg_b None ''create'' doc2 no_meta)\<lparr>cs_expect_revision := Some 0\<rparr>,
               (plain_commit P ''third'' ''todos'' 3 None ''create'' doc3 no_meta)\<lparr>cs_expect_revision := Some 0\<rparr>],
            bs_expect_error = None\<rparr>,
         Head_step (todo_head\<lparr>hs_expect_payload := Some doc1\<rparr>),
         Head_step ((mk_head ''todos'' agg_b)\<lparr>hs_expect_payload := Some doc2\<rparr>),
         Head_step ((mk_head ''todos'' 3)\<lparr>hs_expect_payload := Some doc3\<rparr>)]]"

section \<open>Reads\<close>

definition tagged :: "string \<Rightarrow> json \<Rightarrow> json" where
  "tagged txt meta = JObj [(''text'', JStr txt), (''meta'', meta)]"

definition read_scenarios :: "platform \<Rightarrow> scenario list" where
  "read_scenarios P =
     [mk_scenario ''head, exact revisions, and history after several writes'' []
        [Commit_step (todo P None ''create'' doc1),
         Commit_step (todo P (Some 0) ''change'' doc2),
         Commit_step (todo P (Some 1) ''change'' doc3),
         Head_step (todo_head\<lparr>hs_expect_revision := Some 2, hs_expect_payload := Some doc3\<rparr>),
         Exact_step ((mk_exact ''todos'' agg_a 0)\<lparr>es_expect_payload := Some doc1\<rparr>),
         Exact_step ((mk_exact ''todos'' agg_a 1)\<lparr>es_expect_payload := Some doc2\<rparr>),
         Exact_step ((mk_exact ''todos'' agg_a 2)\<lparr>es_expect_payload := Some doc3\<rparr>),
         Exact_step ((mk_exact ''todos'' agg_a 3)\<lparr>es_expect_missing := True\<rparr>),
         History_step ((mk_history ''full history in order'' ''todos'' agg_a [0, 1, 2])
           \<lparr>ys_expect_payloads := [doc1, doc2, doc3], ys_expect_cursor_none := Some True\<rparr>),
         History_step ((mk_history ''history after 0'' ''todos'' agg_a [1, 2])\<lparr>ys_after := 0\<rparr>)],
      mk_scenario ''history paging with cursors'' []
        [Commit_step (todo P None ''create'' doc1),
         Commit_step (todo P (Some 0) ''change'' doc2),
         Commit_step (todo P (Some 1) ''change'' doc3),
         History_step ((mk_history ''first page of one'' ''todos'' agg_a [0])
           \<lparr>ys_limit := 1, ys_expect_cursor_none := Some False\<rparr>)],
      mk_scenario ''history on a missing aggregate is empty'' []
        [History_step ((mk_history ''missing history'' ''todos'' agg_a [])\<lparr>ys_expect_cursor_none := Some True\<rparr>)]]"

definition search_scenarios :: "platform \<Rightarrow> scenario list" where
  "search_scenarios P =
     [mk_scenario ''search equality on top-level and dotted paths'' [''json_paths'']
        [Commit_step (todo P None ''create'' (tagged ''a'' (JObj [(''tag'', JStr ''x'')]))),
         Commit_step (mk_commit P ''todos'' agg_b None ''create'' (tagged ''b'' (JObj [(''tag'', JStr ''y'')])) no_meta),
         Search_step (mk_search ''top-level equality'' ''todos'' [(''text'', JStr ''a'')] [agg_a]),
         Search_step (mk_search ''dotted path equality'' ''todos'' [(''meta.tag'', JStr ''x'')] [agg_a])],
      mk_scenario ''missing path and explicit JSON null are distinct'' [''json_paths'']
        [Commit_step (todo P None ''create'' (tagged ''a'' JNull)),
         Commit_step (mk_commit P ''todos'' agg_b None ''create'' (JObj [(''text'', JStr ''b'')]) no_meta),
         Search_step (mk_search ''null matches null'' ''todos'' [(''meta'', JNull)] [agg_a]),
         Search_step (mk_search ''null does not match missing'' ''todos'' [(''text'', JStr ''b''), (''meta'', JNull)] [])]]"

section \<open>Head integrity and time\<close>

definition head_time_scenarios :: "platform \<Rightarrow> scenario list" where
  "head_time_scenarios P =
     [mk_scenario ''head digest equals log digest at every revision'' []
        [Commit_step (todo P None ''create'' doc1),
         Head_step (todo_head\<lparr>hs_expect_digest := Some (digest_of P doc1)\<rparr>),
         Commit_step (todo P (Some 0) ''change'' doc2),
         Head_step (todo_head\<lparr>hs_expect_digest := Some (digest_of P doc2)\<rparr>)],
      mk_scenario ''committed_at is UTC, non-decreasing, and equal within a batch'' []
        [Batch_step
           \<lparr>bs_name = ''two requests in one commit'',
            bs_commits =
              [(plain_commit P ''create'' ''todos'' agg_a None ''create'' doc1 no_meta)\<lparr>cs_expect_revision := Some 0\<rparr>,
               (plain_commit P ''chained change'' ''todos'' agg_a (Some 0) ''change'' doc2 no_meta)\<lparr>cs_expect_revision := Some 1\<rparr>],
            bs_expect_error = None\<rparr>,
         Time_step (mk_time ''timestamps are UTC and non-decreasing'' ''todos'' agg_a)]]"

section \<open>Intents and delivery\<close>

text \<open>0.1 as a float.\<close>

definition tenth :: "64 word" where "tenth = 0x3FB999999999999A"

definition with_intents :: "platform \<Rightarrow> string list \<Rightarrow> step" where
  "with_intents P subs =
     Commit_step ((todo P None ''create'' doc1)\<lparr>cs_intents := map (\<lambda>s. intent s (todo_rid P 0)) subs\<rparr>)"

definition claims :: "platform \<Rightarrow> string \<Rightarrow> string list \<Rightarrow> int \<Rightarrow> claim_step" where
  "claims P name subs attempts = mk_claim name ''q'' (map (\<lambda>s. (s, todo_rid P 0, attempts)) subs)"

definition intent_scenarios :: "platform \<Rightarrow> scenario list" where
  "intent_scenarios P =
     [mk_scenario ''one function under two subscriptions produces two intent rows'' [''outbox'']
        [with_intents P [''sub.a'', ''sub.b''],
         Claim_step (claims P ''both intents claimed'' [''sub.a'', ''sub.b''] 1)],
      mk_scenario ''claim, deliver, ack deletes the intent'' [''outbox'']
        [with_intents P [''sub.a''],
         Claim_step (claims P ''claim one'' [''sub.a''] 1),
         Settle_step (mk_settle ''ack delivered'' ''delivered'' None),
         Claim_step ((mk_claim ''queue is empty'' ''q'' [])\<lparr>ms_expect_none := True\<rparr>)],
      mk_scenario ''retry makes the intent available again after backoff'' [''outbox'']
        [with_intents P [''sub.a''],
         Claim_step (claims P ''claim one'' [''sub.a''] 1),
         Settle_step (mk_settle ''nack with retry'' ''retry'' (Some ''boom'')),
         Claim_step ((mk_claim ''reclaim after retry'' ''q'' [])\<lparr>ms_expect_none := True\<rparr>)],
      mk_scenario ''dead-lettered intent is not claimable'' [''outbox'']
        [with_intents P [''sub.a''],
         Claim_step (claims P ''claim one'' [''sub.a''] 1),
         Settle_step (mk_settle ''dead-letter'' ''dead'' (Some ''boom'')),
         Claim_step ((mk_claim ''queue is empty'' ''q'' [])\<lparr>ms_expect_none := True\<rparr>)],
      mk_scenario ''expired lease is reclaimable'' [''outbox'']
        [with_intents P [''sub.a''],
         Claim_step ((claims P ''claim with a tiny lease'' [''sub.a''] 1)\<lparr>ms_lease := 50000\<rparr>),
         Wait_step ''lease expires'' tenth,
         Claim_step (claims P ''reclaim after lease expiry'' [''sub.a''] 2)]]"

section \<open>Errors\<close>

definition error_scenarios :: "platform \<Rightarrow> scenario list" where
  "error_scenarios P =
     [mk_scenario ''constraint violations surface as StoreError, never a driver exception'' []
        [Commit_step ((plain_commit P ''empty stream name'' [] agg_a None ''create'' doc1 no_meta)
           \<lparr>cs_expect_error := Some ''StoreError''\<rparr>),
         Commit_step ((plain_commit P ''negative revision'' ''todos'' agg_a (Some (- 2)) ''change'' doc1 no_meta)
           \<lparr>cs_expect_error := Some ''RevisionConflict''\<rparr>)]]"

section \<open>Concurrency\<close>

definition concurrency_scenarios :: "platform \<Rightarrow> scenario list" where
  "concurrency_scenarios P =
     [mk_scenario ''same-expected-revision race has exactly one winner'' []
        [Commit_step (todo P None ''create'' doc1),
         Race_step (mk_race ''eight writers race one revision'' ''todos'' agg_a (Some 0) ''change''),
         Head_step (todo_head\<lparr>hs_expect_revision := Some 1\<rparr>)],
      mk_scenario ''concurrent create of the same aggregate has exactly one winner'' []
        [Race_step (mk_race ''eight writers race one create'' ''todos'' agg_a None ''create''),
         Head_step (todo_head\<lparr>hs_expect_revision := Some 0\<rparr>)],
      mk_scenario ''concurrent drainers claim each intent without overlap'' [''concurrent_drainers'']
        [with_intents P [''sub.a'', ''sub.b''],
         Drainers_step
           \<lparr>ds_name = ''two drainers split two intents'', ds_queue = ''q'', ds_drainers = 2, ds_limit = 1,
            ds_expect_total = 2, ds_lease = 1000000\<rparr>]]"

definition scenarios :: "platform \<Rightarrow> scenario list" where
  "scenarios P =
     cas_scenarios P @ replay_scenarios P @ identity_scenarios P @ atomicity_scenarios P @ batch_scenarios P @
     read_scenarios P @ search_scenarios P @ head_time_scenarios P @ intent_scenarios P @ error_scenarios P @
     concurrency_scenarios P"

end
