(* ===== verification/Floats.thy ===== *)
theory Floats
  imports Json Errors
begin

text \<open>
  The float arithmetic of the interpreter that retry delays go through: comparison, multiplication, powers,
  conversion from \<open>int\<close> and \<open>timedelta(seconds=x)\<close>.  A \<open>float\<close> is its 64 bits; a finite one stands for
  \<open>float_scaled\<close> divided by \<open>2 ^ 1075\<close>.  C's \<open>pow\<close>, whose rounding the platform decides, is an argument.
\<close>

section \<open>Order\<close>

definition float_rank :: "64 word \<Rightarrow> int" where
  "float_rank w = (if float_finite w then float_scaled w else if float_neg w then - (2 ^ 2200) else 2 ^ 2200)"

definition float_less :: "64 word \<Rightarrow> 64 word \<Rightarrow> bool" where
  "float_less a b \<longleftrightarrow> \<not> float_nan a \<and> \<not> float_nan b \<and> float_rank a < float_rank b"

text \<open>\<open>min(a, b)\<close> keeps its first argument unless the second is smaller.\<close>

definition py_min :: "64 word \<Rightarrow> 64 word \<Rightarrow> 64 word" where
  "py_min a b = (if float_less b a then b else a)"

lemma py_min_bound: "\<not> float_less b (py_min a b)"
  by (auto simp: py_min_def float_less_def)

section \<open>Rounding\<close>

text \<open>\<open>n / d\<close> to the nearest integer, ties to even.\<close>

definition half_even :: "nat \<Rightarrow> nat \<Rightarrow> nat" where
  "half_even n d = (if 2 * (n mod d) < d \<or> 2 * (n mod d) = d \<and> even (n div d) then n div d else n div d + 1)"

fun bit_length :: "nat \<Rightarrow> nat" where
  "bit_length n =
     (if n = 0 then 0
      else if n < 2 ^ 64 then Suc (bit_length (n div 2))
      else 64 + bit_length (n div 2 ^ 64))"

declare bit_length.simps [simp del]

text \<open>The float nearest to \<open>n / 2 ^ d\<close>: the quantum is \<open>2 ^ q\<close>; a carry out of the fraction enters the exponent.\<close>

definition float_encode :: "bool \<Rightarrow> nat \<Rightarrow> int \<Rightarrow> 64 word" where
  "float_encode neg n d =
     (let q = max (int (bit_length n) - d - 53) (- 1074);
          m = (if 0 \<le> q + d then half_even n (2 ^ nat (q + d)) else n * 2 ^ nat (- (q + d)));
          bits = (if m < 2 ^ 52 then m else nat (q + 1075) * 2 ^ 52 + (m - 2 ^ 52))
      in word_of_nat (min bits (2047 * 2 ^ 52) + (if neg then 2 ^ 63 else 0)))"

text \<open>A finite float is plus or minus \<open>float_mant\<close> times \<open>2 ^ (float_exp - 1075)\<close>.\<close>

definition float_mant :: "64 word \<Rightarrow> nat" where
  "float_mant w = (if float_exp w = 0 then 2 * float_frac w else 2 ^ 52 + float_frac w)"

lemma float_scaled_mant: "float_scaled w = (if float_neg w then - 1 else 1) * int (float_mant w * 2 ^ float_exp w)"
  by (simp add: float_scaled_def float_mant_def)

definition float_mul :: "64 word \<Rightarrow> 64 word \<Rightarrow> 64 word" where
  "float_mul a b =
     (if float_nan a \<or> float_nan b then nan_bits
      else if float_finite a \<and> float_finite b
      then float_encode (float_neg a \<noteq> float_neg b) (float_mant a * float_mant b)
             (2150 - int (float_exp a) - int (float_exp b))
      else if float_rank a = 0 \<or> float_rank b = 0 then nan_bits
      else if float_neg a \<noteq> float_neg b then neg_infinity_bits else infinity_bits)"

definition float_negate :: "64 word \<Rightarrow> 64 word" where
  "float_negate w = word_of_nat (if float_neg w then unat w - 2 ^ 63 else unat w + 2 ^ 63)"

definition float_of_int :: "int \<Rightarrow> exn + 64 word" where
  "float_of_int i =
     (let w = float_encode (i < 0) (nat \<bar>i\<bar>) 0 in
      if float_finite w then Inr w else Inl (Python OverflowError))"

section \<open>Powers\<close>

definition one_bits :: "64 word" where "one_bits = 0x3FF0000000000000"

definition float_odd :: "64 word \<Rightarrow> bool" where
  "float_odd w \<longleftrightarrow> float_scaled w mod 2 ^ 1075 = 0 \<and> odd (float_scaled w div 2 ^ 1075)"

text \<open>
  \<open>v ** n\<close> for a \<open>float\<close> and an \<open>int\<close>: the cases the interpreter decides before it calls C's \<open>pow\<close> on a
  positive finite base, and the exception for an infinite result.
\<close>

definition float_pow :: "(64 word \<Rightarrow> 64 word \<Rightarrow> 64 word) \<Rightarrow> 64 word \<Rightarrow> int \<Rightarrow> exn + 64 word" where
  "float_pow c_pow v n =
     rbind (float_of_int n) (\<lambda>w.
       if n = 0 then Inr one_bits
       else if float_nan v then Inr v
       else if \<not> float_finite v then
         Inr (if 0 < n then (if float_neg v \<and> \<not> float_odd w then float_negate v else v)
              else if float_odd w \<and> float_neg v then float_negate 0 else 0)
       else if float_scaled v = 0 then
         (if n < 0 then Inl (Python OtherException) else Inr (if float_odd w then v else 0))
       else
         (let neg = float_neg v \<and> float_odd w;
              base = (if float_neg v then float_negate v else v);
              r = (if base = one_bits then one_bits else c_pow base w)
          in if \<not> float_finite r \<and> \<not> float_nan r then Inl (Python OverflowError)
             else Inr (if neg then float_negate r else r)))"

section \<open>Time differences\<close>

text \<open>
  \<open>timedelta(seconds=x)\<close> in microseconds: the whole seconds exactly, the fraction times \<open>1e6\<close> as a float,
  then rounded, ties to even; at most 999,999,999 days.
\<close>

definition timedelta_us :: "64 word \<Rightarrow> int" where
  "timedelta_us x =
     (let a = nat \<bar>float_scaled x\<bar>; sgn = (if float_scaled x < 0 then - 1 else 1);
          whole = a div 2 ^ 1075; frac = a mod 2 ^ 1075;
          micros = (if frac = 0 then 0
                    else half_even (nat \<bar>float_scaled (float_mul 0x412E848000000000 (float_encode False frac 1075))\<bar>)
                           (2 ^ 1075))
      in sgn * int (whole * 1000000 + micros))"

definition timedelta_seconds :: "64 word \<Rightarrow> exn + int" where
  "timedelta_seconds x =
     (if float_nan x then Inl (Python ValueError)
      else if \<not> float_finite x then Inl (Python OverflowError)
      else if \<bar>timedelta_us x div 86400000000\<bar> > 999999999 then Inl (Python OverflowError)
      else Inr (timedelta_us x))"

lemma timedelta_us_nonneg: "0 \<le> float_scaled x \<Longrightarrow> 0 \<le> timedelta_us x"
  unfolding timedelta_us_def Let_def by (simp only: not_less [symmetric] if_False mult_1_left of_nat_0_le_iff not_le)

lemma timedelta_seconds_Inr: "timedelta_seconds x = Inr us \<Longrightarrow> us = timedelta_us x \<and> float_finite x"
  by (simp add: timedelta_seconds_def split: if_splits)

text \<open>\<open>datetime + timedelta\<close>; a moment is its distance from the Unix epoch in microseconds.\<close>

definition datetime_add :: "int \<Rightarrow> int \<Rightarrow> exn + int" where
  "datetime_add now us =
     (if - 62135596800000000 \<le> now + us \<and> now + us < 253402300800000000 then Inr (now + us)
      else Inl (Python OverflowError))"

section \<open>Sanity\<close>

text \<open>0.1 * 3.0, 1.5 * -2.0, integers, and seconds with a fraction.\<close>

lemma bit_length_step:
  "0 < n \<Longrightarrow> n < 2 ^ 64 \<Longrightarrow> bit_length n = Suc (bit_length (n div 2))"
  "2 ^ 64 \<le> n \<Longrightarrow> bit_length n = 64 + bit_length (n div 2 ^ 64)" "bit_length 0 = 0"
  by (subst bit_length.simps; simp)+

lemma bit_length_bounds: "0 < n \<Longrightarrow> 2 ^ (bit_length n - 1) \<le> n \<and> n < 2 ^ bit_length n \<and> 0 < bit_length n"
proof (induction n rule: bit_length.induct)
  case (1 n)
  show ?case
  proof (cases "n < 2 ^ 64")
    case True
    show ?thesis
    proof (cases "n = 1")
      case True
      then show ?thesis by (simp add: bit_length_step)
    next
      case False
      with 1 True have ih: "2 ^ (bit_length (n div 2) - 1) \<le> n div 2" "n div 2 < 2 ^ bit_length (n div 2)"
        "0 < bit_length (n div 2)" by auto
      moreover have "bit_length n = Suc (bit_length (n div 2))" using True 1(3) by (rule bit_length_step(1) [rotated])
      ultimately show ?thesis by (cases "bit_length (n div 2)") auto
    qed
  next
    case False
    with 1 have ih: "2 ^ (bit_length (n div 2 ^ 64) - 1) \<le> n div 2 ^ 64" "n div 2 ^ 64 < 2 ^ bit_length (n div 2 ^ 64)"
      "0 < bit_length (n div 2 ^ 64)" by (auto simp: div_greater_zero_iff)
    moreover have len: "bit_length n = 64 + bit_length (n div 2 ^ 64)" using False by (intro bit_length_step(2)) simp
    moreover have "2 ^ (64 + bit_length (n div 2 ^ 64) - 1) \<le> n"
    proof -
      have "2 ^ (64 + bit_length (n div 2 ^ 64) - 1) = 2 ^ 64 * (2 ^ (bit_length (n div 2 ^ 64) - 1) :: nat)"
        using ih(3) by (cases "bit_length (n div 2 ^ 64)") (simp_all add: power_add)
      also have "\<dots> \<le> 2 ^ 64 * (n div 2 ^ 64)" using ih(1) by (rule mult_le_mono2)
      also have "\<dots> \<le> n" by simp
      finally show ?thesis .
    qed
    moreover have "n < 2 ^ (64 + bit_length (n div 2 ^ 64))"
      using ih(2) by (simp only: power_add mult.commute [of "2 ^ 64"]) (simp add: div_less_iff_less_mult)
    ultimately show ?thesis by simp
  qed
qed

lemma bit_length_eq:
  assumes "2 ^ k \<le> n" "n < 2 ^ Suc k"
  shows "bit_length n = Suc k"
proof -
  have "0 < n" using assms(1) by (meson less_le_trans pos2 zero_less_power)
  from bit_length_bounds [OF this] have b: "2 ^ (bit_length n - 1) < (2 ^ Suc k :: nat)" "2 ^ k < (2 ^ bit_length n :: nat)"
    using assms by (blast intro: le_less_trans)+
  have two: "1 < (2::nat)" by simp
  from power_less_imp_less_exp [OF two b(1)] power_less_imp_less_exp [OF two b(2)]
  have "bit_length n - 1 < Suc k" "k < bit_length n" .
  then show ?thesis by simp
qed

text \<open>A number of 53 significant bits in the range of the normal floats is encoded as it is.\<close>

lemma float_encode_exact:
  assumes "2 ^ 52 \<le> m" "m < 2 ^ 53" "- 1074 \<le> int j - d" "int j - d < 972"
  shows "float_encode neg (m * 2 ^ j) d =
    word_of_nat (nat (int j - d + 1075) * 2 ^ 52 + (m - 2 ^ 52) + (if neg then 2 ^ 63 else 0))"
proof -
  have len: "bit_length (m * 2 ^ j) = Suc (52 + j)"
    by (rule bit_length_eq) (use assms(1,2) in \<open>simp_all add: power_add mult.commute\<close>)
  have "half_even (m * 2 ^ j) (2 ^ j) = m" by (simp add: half_even_def)
  moreover have "nat (int j - d + 1075) * 2 ^ 52 + (m - 2 ^ 52) \<le> 2047 * 2 ^ 52"
  proof -
    have "nat (int j - d + 1075) \<le> 2046" using assms(4) by simp
    then have "nat (int j - d + 1075) * 2 ^ 52 \<le> 2046 * 2 ^ 52" by (rule mult_le_mono1)
    then show ?thesis using assms(2) by simp
  qed
  moreover have "max (int (Suc (52 + j)) - d - 53) (- 1074) = int j - d" using assms(3) by simp
  moreover have "\<not> m < 2 ^ 52" using assms(1) by simp
  ultimately show ?thesis by (simp only: float_encode_def len Let_def) (simp add: min_def)
qed

lemma float_mul_finite:
  "float_exp a < 2047 \<Longrightarrow> float_exp b < 2047 \<Longrightarrow>
     float_mul a b = float_encode (float_neg a \<noteq> float_neg b) (float_mant a * float_mant b)
       (2150 - int (float_exp a) - int (float_exp b))"
  by (simp add: float_mul_def float_finite_def float_nan_def)

lemmas float_parts = float_mant_def float_neg_def float_exp_def float_frac_def
lemmas float_eval = float_encode_def half_even_def bit_length_step

lemma float_examples:
  "float_mul 0x3FB999999999999A 0x4008000000000000 = 0x3FD3333333333334"
  "float_mul 0x3FF8000000000000 0xC000000000000000 = 0xC008000000000000"
  "float_of_int 3600 = Inr 0x40AC200000000000"
  by (simp_all add: float_mul_finite float_of_int_def float_finite_def float_parts float_eval)

section \<open>Small integers are exact\<close>

lemma float_bits:
  assumes "unat w = e * 2 ^ 52 + f" "f < 2 ^ 52" "e < 2048"
  shows "float_exp w = e" "float_frac w = f" "\<not> float_neg w"
proof -
  show "float_exp w = e" "float_frac w = f" using assms by (simp_all add: float_exp_def float_frac_def)
  have "e * 2 ^ 52 \<le> 2047 * 2 ^ 52" using assms(3) by (intro mult_le_mono1) simp
  then show "\<not> float_neg w" using assms by (simp add: float_neg_def)
qed

lemma float_of_int_exact:
  assumes "0 < n" "n < 2 ^ 52"
  obtains w where "float_of_int (int n) = Inr w" "float_scaled w = int n * 2 ^ 1075"
proof -
  define b where "b = bit_length n"
  define m where "m = n * 2 ^ (53 - b)"
  define w where "w = float_encode False n 0"
  from bit_length_bounds [OF assms(1)] have b: "2 ^ (b - 1) \<le> n" "n < 2 ^ b" "0 < b" by (simp_all add: b_def)
  have "(2::nat) ^ (b - 1) < 2 ^ 52" using b(1) assms(2) by (rule le_less_trans)
  then have "b - 1 < 52" by (rule power_less_imp_less_exp [rotated]) simp
  then have b53: "b \<le> 52" by simp
  have "(2::nat) ^ (b - 1) * 2 ^ (53 - b) = 2 ^ 52" "(2::nat) ^ b * 2 ^ (53 - b) = 2 ^ 53"
    using b(3) b53 by (simp_all only: power_add [symmetric]) simp_all
  then have m: "2 ^ 52 \<le> m" "m < 2 ^ 53"
    using mult_le_mono1 [OF b(1), of "2 ^ (53 - b)"] mult_less_mono1 [OF b(2), of "2 ^ (53 - b)"] by (simp_all add: m_def)
  have nat_q: "nat (- (int b - 53)) = 53 - b" "nat (int b - 53 + 1075) = b + 1022" using b53 by simp_all
  have le: "(b + 1022) * 2 ^ 52 + (m - 2 ^ 52) \<le> 2047 * 2 ^ 52"
  proof -
    have "(b + 1022) * 2 ^ 52 \<le> 1074 * 2 ^ 52" using b53 by (intro mult_le_mono1) simp
    then show ?thesis using m by simp
  qed
  have "max (int b - 0 - 53) (- 1074) = int b - 53" by simp
  then have w_eq: "w = word_of_nat ((b + 1022) * 2 ^ 52 + (m - 2 ^ 52))"
    using b53 m(1) le unfolding w_def float_encode_def b_def [symmetric] Let_def
    by (simp only: add_0_right nat_q m_def [symmetric]) (simp add: min_absorb1)
  have u: "unat w = (b + 1022) * 2 ^ 52 + (m - 2 ^ 52)"
    unfolding w_eq unat_of_nat by (rule mod_less) (use le in simp)
  have parts: "float_exp w = b + 1022" "float_frac w = m - 2 ^ 52" "\<not> float_neg w"
    using float_bits [OF u] m b53 by simp_all
  have "float_scaled w = int m * 2 ^ (b + 1022)"
    using parts m(1) by (simp add: float_scaled_def)
  also have "\<dots> = int n * 2 ^ 1075"
    using b53 by (simp add: m_def mult.assoc power_add [symmetric])
  finally have "float_scaled w = int n * 2 ^ 1075" .
  moreover have "float_of_int (int n) = Inr w"
    using parts(1) b53 by (simp add: float_of_int_def float_finite_def w_def [symmetric])
  ultimately show ?thesis by (rule that [rotated])
qed

section \<open>Powers of two\<close>

definition power_of_two :: "nat \<Rightarrow> 64 word" where
  "power_of_two k = word_of_nat ((1023 + k) * 2 ^ 52)"

lemma power_of_two_parts:
  assumes "k \<le> 1023"
  shows "float_exp (power_of_two k) = 1023 + k" "float_mant (power_of_two k) = 2 ^ 52" "\<not> float_neg (power_of_two k)"
    "float_scaled (power_of_two k) = 2 ^ (1075 + k)"
proof -
  have u: "unat (power_of_two k) = (1023 + k) * 2 ^ 52"
    unfolding power_of_two_def unat_of_nat by (rule mod_less) (use assms in simp)
  then show e: "float_exp (power_of_two k) = 1023 + k" using assms by (simp add: float_exp_def)
  show m: "float_mant (power_of_two k) = 2 ^ 52" unfolding float_mant_def e float_frac_def u by simp
  show n: "\<not> float_neg (power_of_two k)" unfolding float_neg_def u using assms by simp
  have "(2::int) ^ 52 * 2 ^ (1023 + k) = 2 ^ (1075 + k)" by (simp only: power_add [symmetric]) simp
  then show "float_scaled (power_of_two k) = 2 ^ (1075 + k)" unfolding float_scaled_mant e m using n by simp
qed

lemma power_of_two_finite: "k \<le> 1023 \<Longrightarrow> float_finite (power_of_two k) \<and> \<not> float_nan (power_of_two k)"
  by (simp add: float_finite_def float_nan_def power_of_two_parts)

lemma one_times_power_of_two:
  assumes "k \<le> 1023"
  shows "float_mul one_bits (power_of_two k) = power_of_two k"
proof -
  have one: "one_bits = power_of_two 0" by (simp add: one_bits_def power_of_two_def)
  have "float_encode False (2 ^ 52 * 2 ^ 52) (104 - int k) = power_of_two k"
    by (subst float_encode_exact) (use assms in \<open>simp_all add: power_of_two_def\<close>)
  then show ?thesis
    unfolding one using assms by (simp add: float_mul_finite power_of_two_parts)
qed

lemma seconds_power_of_two:
  assumes "k \<le> 40"
  shows "timedelta_seconds (power_of_two k) = Inr (2 ^ k * 1000000)"
proof -
  have "(2::int) ^ (1075 + k) = int (2 ^ k * 2 ^ 1075)" by (simp add: power_add)
  then have us: "timedelta_us (power_of_two k) = 2 ^ k * 1000000"
    unfolding timedelta_us_def power_of_two_parts(4) [OF le_trans [OF assms, of 1023, simplified]]
    by (simp only: Let_def abs_of_nat nat_int mod_mult_self2_is_0 nonzero_mult_div_cancel_right) simp
  have "(2::int) ^ k \<le> 2 ^ 40" by (rule power_increasing) (use assms in simp_all)
  then have "(2::int) ^ k * 1000000 div 86400000000 \<le> 2 ^ 40 * 1000000 div 86400000000"
    by (intro zdiv_mono1) simp_all
  also have "(2::int) ^ 40 * 1000000 div 86400000000 \<le> 999999999" by simp
  finally have "(2::int) ^ k * 1000000 div 86400000000 \<le> 999999999" .
  moreover have "0 \<le> (2::int) ^ k * 1000000 div 86400000000" by (intro pos_imp_zdiv_nonneg_iff [THEN iffD2]) simp_all
  ultimately have "\<bar>2 ^ k * 1000000 div 86400000000\<bar> \<le> (999999999::int)" by linarith
  then show ?thesis
    using power_of_two_finite [of k] assms by (simp add: timedelta_seconds_def us)
qed

end
