(* ===== verification/Retry.thy ===== *)
theory Retry
  imports Floats Declarations
begin

text \<open>
  The retry policy (\<open>src/eventic/retry.py\<close>): what to do with a delivery that failed, and the error text that
  is kept of it.

  Delays are computed in floats as the code computes them.  \<open>interp\<close> holds what the code takes from the
  interpreter's library and is not written out: C's \<open>pow\<close>, the classes of the non-ASCII characters and the
  text of an exception.
\<close>

record interp =
  it_pow :: "64 word \<Rightarrow> 64 word \<Rightarrow> 64 word"
  it_word :: "string \<Rightarrow> bool"
  it_space :: "string \<Rightarrow> bool"
  it_str :: "exn \<Rightarrow> string"

section \<open>Redaction\<close>

text \<open>The characters of a text, each as the bytes of its encoding: a continuation byte belongs to the last one.\<close>

definition continuation :: "char \<Rightarrow> bool" where
  "continuation c \<longleftrightarrow> 128 \<le> (of_char c :: nat) \<and> (of_char c :: nat) < 192"

lemma dropWhile_shorter [termination_simp]: "length (dropWhile Q xs) < Suc (length xs)"
  by (simp add: length_dropWhile_le less_Suc_eq_le)

fun text_chars :: "string \<Rightarrow> string list" where
  "text_chars [] = []"
| "text_chars (c # cs) =
     (c # takeWhile continuation cs) # text_chars (dropWhile continuation cs)"

lemma concat_text_chars: "concat (text_chars cs) = cs"
  by (induction cs rule: text_chars.induct) simp_all

text \<open>\<open>\w\<close>, \<open>\s\<close> and \<open>[^/@\s]\<close>.\<close>

definition is_word :: "interp \<Rightarrow> string \<Rightarrow> bool" where
  "is_word I ch =
     (case ch of
        [c] \<Rightarrow> (let n = (of_char c :: nat) in
          48 \<le> n \<and> n \<le> 57 \<or> 65 \<le> n \<and> n \<le> 90 \<or> 97 \<le> n \<and> n \<le> 122 \<or> n = 95)
      | _ \<Rightarrow> it_word I ch)"

definition is_space :: "interp \<Rightarrow> string \<Rightarrow> bool" where
  "is_space I ch =
     (case ch of
        [c] \<Rightarrow> (let n = (of_char c :: nat) in 9 \<le> n \<and> n \<le> 13 \<or> 28 \<le> n \<and> n \<le> 32)
      | _ \<Rightarrow> it_space I ch)"

definition is_credential :: "interp \<Rightarrow> string \<Rightarrow> bool" where
  "is_credential I ch \<longleftrightarrow> ch \<noteq> ''/'' \<and> ch \<noteq> ''@'' \<and> \<not> is_space I ch"

text \<open>
  \<open>(\w+://)[^/@\s]+@\<close> at the start of the text: the scheme, the credentials and the rest.  Both repetitions
  are greedy; as neither class holds the character that follows, giving a character back never helps.
\<close>

definition match_url :: "interp \<Rightarrow> string list \<Rightarrow> (string list \<times> string list \<times> string list) option" where
  "match_url I cs =
     (let scheme = takeWhile (is_word I) cs in
      if scheme = [] \<or> take 3 (dropWhile (is_word I) cs) \<noteq> ['':'', ''/'', ''/''] then None
      else
        (let after = drop 3 (dropWhile (is_word I) cs);
             creds = takeWhile (is_credential I) after;
             rest = dropWhile (is_credential I) after
         in if creds = [] \<or> take 1 rest \<noteq> [''@''] then None else Some (scheme, creds, drop 1 rest)))"

lemma match_url_Some:
  "match_url I cs = Some (scheme, creds, rest) \<longleftrightarrow>
     cs = scheme @ ['':'', ''/'', ''/''] @ creds @ [''@''] @ rest \<and> scheme \<noteq> [] \<and> creds \<noteq> [] \<and>
     (\<forall>c \<in> set scheme. is_word I c) \<and> (\<forall>c \<in> set creds. is_credential I c)"
  (is "?l \<longleftrightarrow> ?r")
proof
  assume ?l
  then have s: "scheme = takeWhile (is_word I) cs" "creds = takeWhile (is_credential I) (drop 3 (dropWhile (is_word I) cs))"
    "take 3 (dropWhile (is_word I) cs) = ['':'', ''/'', ''/'']" "scheme \<noteq> []" "creds \<noteq> []"
    "take 1 (dropWhile (is_credential I) (drop 3 (dropWhile (is_word I) cs))) = [''@'']"
    "rest = drop 1 (dropWhile (is_credential I) (drop 3 (dropWhile (is_word I) cs)))"
    by (auto simp: match_url_def Let_def split: if_splits)
  have "drop 3 (dropWhile (is_word I) cs) = creds @ [''@''] @ rest"
    using s(2,6,7) by (metis append_take_drop_id takeWhile_dropWhile_id)
  then have "dropWhile (is_word I) cs = ['':'', ''/'', ''/''] @ creds @ [''@''] @ rest"
    using s(3) by (metis append_take_drop_id)
  then show ?r using s by (auto dest: set_takeWhileD)
next
  have sep: "\<not> is_word I '':''" "\<not> is_credential I ''@''"
    by (simp_all add: is_word_def is_credential_def)
  assume ?r
  then show ?l
    using sep by (simp add: match_url_def takeWhile_append2 dropWhile_append2)
qed

text \<open>\<open>sub(r"\1***@", text)\<close>: the leftmost match, then on behind it.\<close>

function redact_text :: "interp \<Rightarrow> string list \<Rightarrow> string list" where
  "redact_text I cs =
     (case match_url I cs of
        Some (scheme, creds, rest) \<Rightarrow>
          scheme @ ['':'', ''/'', ''/''] @ [''*'', ''*'', ''*''] @ [''@''] @ redact_text I rest
      | None \<Rightarrow> (case cs of [] \<Rightarrow> [] | c # cs' \<Rightarrow> c # redact_text I cs'))"
  by pat_completeness auto
termination
  by (relation "measure (\<lambda>(I, cs). length cs)") (auto simp: match_url_Some)

declare redact_text.simps [simp del]

definition redact_error :: "interp \<Rightarrow> string \<Rightarrow> string" where
  "redact_error I txt = concat (take 2048 (redact_text I (text_chars txt)))"

section \<open>Disposition\<close>

record decision =
  ds_action :: string
  ds_available_at :: "time option"
  ds_error :: "string option"

text \<open>\<open>disposition\<close>; \<open>txt\<close> is \<open>str(error)\<close>.\<close>

definition disposition :: "interp \<Rightarrow> int \<Rightarrow> backoff \<Rightarrow> string \<Rightarrow> time \<Rightarrow> exn + decision" where
  "disposition I attempts backoff txt now =
     (if attempts \<ge> bo_max_attempts backoff
      then Inr \<lparr>ds_action = ''dead'', ds_available_at = None, ds_error = Some (redact_error I txt)\<rparr>
      else
        rbind (float_pow (it_pow I) (bo_factor backoff) (attempts - 1)) (\<lambda>p.
        rbind (timedelta_seconds (py_min (float_mul (bo_base backoff) p) (bo_cap backoff))) (\<lambda>delay.
        rbind (datetime_add now delay) (\<lambda>t.
          Inr \<lparr>ds_action = ''retry'', ds_available_at = Some t, ds_error = None\<rparr>))))"

section \<open>What redaction removes\<close>

text \<open>The credentials of the URLs anywhere in a text.\<close>

definition credentials_in :: "interp \<Rightarrow> string list \<Rightarrow> string list set" where
  "credentials_in I cs = {creds. \<exists>pre suf scheme rest. cs = pre @ suf \<and> match_url I suf = Some (scheme, creds, rest)}"

definition stars :: "string list" where "stars = [''*'', ''*'', ''*'']"

lemma punctuation [simp]:
  "\<not> is_word I '':''" "\<not> is_word I ''/''" "\<not> is_word I ''*''" "\<not> is_word I ''@''"
  "is_credential I ''*''" "\<not> is_credential I ''/''" "\<not> is_credential I ''@''"
  by (simp_all add: is_word_def is_credential_def is_space_def)

lemma match_url_no_word: "match_url I cs = Some (scheme, creds, rest) \<Longrightarrow> \<exists>c cs'. cs = c # cs' \<and> is_word I c"
  by (cases scheme) (auto simp: match_url_Some)

lemma redact_text_None: "match_url I (c # cs) = None \<Longrightarrow> redact_text I (c # cs) = c # redact_text I cs"
  by (simp add: redact_text.simps)

lemma redact_text_Some:
  "match_url I cs = Some (scheme, creds, rest) \<Longrightarrow>
     redact_text I cs = scheme @ ['':'', ''/'', ''/''] @ stars @ [''@''] @ redact_text I rest"
  by (subst redact_text.simps) (simp add: stars_def)

lemma redact_text_Nil [simp]: "redact_text I [] = []"
  by (simp add: redact_text.simps match_url_def)

text \<open>A character that is not of a word is where it was before.\<close>

lemma redact_text_Cons:
  assumes "redact_text I cs = x # xs" "\<not> is_word I x"
  obtains cs' where "cs = x # cs'" "xs = redact_text I cs'"
proof (cases "match_url I cs")
  case None
  with assms show ?thesis by (cases cs) (auto simp: redact_text_None intro: that)
next
  case (Some m)
  then obtain scheme creds rest where m: "match_url I cs = Some (scheme, creds, rest)" by (cases m) auto
  with redact_text_Some [OF m] assms show ?thesis by (cases scheme) (auto simp: match_url_Some)
qed

lemma redact_text_word_prefix:
  "match_url I cs = None \<Longrightarrow>
     redact_text I cs = takeWhile (is_word I) cs @ redact_text I (dropWhile (is_word I) cs)"
proof (induction cs)
  case (Cons c cs)
  have "match_url I cs = None" if "is_word I c"
  proof (rule ccontr)
    assume "match_url I cs \<noteq> None"
    then obtain scheme creds rest where "match_url I cs = Some (scheme, creds, rest)" by auto
    with that have "match_url I (c # cs) = Some (c # scheme, creds, rest)" by (auto simp: match_url_Some)
    with Cons.prems show False by simp
  qed
  with Cons show ?case by (auto simp: redact_text_None)
qed simp

lemma redact_text_credentials:
  "redact_text I cs = cr @ ''@'' # r \<Longrightarrow> \<forall>x \<in> set cr. is_credential I x \<Longrightarrow> \<exists>r'. cs = cr @ ''@'' # r'"
proof (induction cr arbitrary: cs)
  case Nil
  then show ?case by (auto elim!: redact_text_Cons)
next
  case (Cons x cr)
  show ?case
  proof (cases "match_url I cs")
    case None
    with Cons.prems(1) obtain cs' where "cs = x # cs'" "redact_text I cs' = cr @ ''@'' # r"
      by (cases cs) (auto simp: redact_text_None)
    with Cons.IH [of cs'] Cons.prems(2) show ?thesis by simp
  next
    case (Some m)
    then obtain scheme creds rest where m: "match_url I cs = Some (scheme, creds, rest)" by (cases m) auto
    let ?plain = "\<lambda>c. c \<noteq> ''/'' \<and> c \<noteq> ''@''"
    have "takeWhile ?plain (redact_text I cs) = scheme @ ['':'']"
      using m unfolding redact_text_Some [OF m] by (subst takeWhile_append2) (auto simp: match_url_Some)
    moreover have "takeWhile ?plain (redact_text I cs) = x # cr"
      using Cons.prems unfolding Cons.prems(1) by (subst takeWhile_append2) (auto simp: is_credential_def)
    ultimately have "scheme @ ['':''] = x # cr" by simp
    moreover have "(scheme @ ['':'']) @ ''/'' # drop 2 ['':'', ''/'', ''/''] @ stars @ [''@''] @ redact_text I rest =
        (x # cr) @ ''@'' # r"
      using Cons.prems(1) unfolding redact_text_Some [OF m] by simp
    ultimately show ?thesis by (simp only: same_append_eq) simp
  qed
qed

lemma redact_text_no_word: "takeWhile (is_word I) d = [] \<Longrightarrow> takeWhile (is_word I) (redact_text I d) = []"
  by (cases d; cases "match_url I d") (auto simp: redact_text_None dest: match_url_no_word split: if_splits)

lemma redact_text_head:
  assumes "match_url I (redact_text I cs) = Some (scheme, creds, rest)"
  shows "creds = stars"
proof (cases "match_url I cs")
  case None
  let ?w = "takeWhile (is_word I) cs" and ?d = "dropWhile (is_word I) cs"
  have r: "?w @ redact_text I ?d = scheme @ ['':'', ''/'', ''/''] @ creds @ [''@''] @ rest"
    using assms redact_text_word_prefix [OF None] by (simp add: match_url_Some)
  have "takeWhile (is_word I) ?d = []" by (induction cs) auto
  then have d: "takeWhile (is_word I) (redact_text I ?d) = []" by (rule redact_text_no_word)
  have "takeWhile (is_word I) (?w @ redact_text I ?d) = ?w"
    using d by (subst takeWhile_append2) (auto dest: set_takeWhileD)
  moreover have "takeWhile (is_word I) (?w @ redact_text I ?d) = scheme"
    unfolding r using assms by (subst takeWhile_append2) (auto simp: match_url_Some)
  ultimately have w: "scheme = ?w" by simp
  with r have "redact_text I ?d = '':'' # ''/'' # ''/'' # creds @ ''@'' # rest" by simp
  then obtain d1 where d1: "?d = '':'' # d1" "''/'' # ''/'' # creds @ ''@'' # rest = redact_text I d1"
    by (rule redact_text_Cons) simp
  from d1(2) [symmetric] obtain d2 where d2: "d1 = ''/'' # d2" "''/'' # creds @ ''@'' # rest = redact_text I d2"
    by (rule redact_text_Cons) simp
  from d2(2) [symmetric] obtain e where e: "d2 = ''/'' # e" "creds @ ''@'' # rest = redact_text I e"
    by (rule redact_text_Cons) simp
  with d1 d2 have e: "?d = '':'' # ''/'' # ''/'' # e" "redact_text I e = creds @ ''@'' # rest" by simp_all
  with redact_text_credentials [OF e(2)] assms obtain e' where "e = creds @ ''@'' # e'" by (auto simp: match_url_Some)
  with e(1) w have "cs = scheme @ ['':'', ''/'', ''/''] @ creds @ [''@''] @ e'"
    by (metis append_Cons append_Nil takeWhile_dropWhile_id)
  then have "match_url I cs = Some (scheme, creds, e')" using assms by (auto simp: match_url_Some)
  with None show ?thesis by simp
next
  case (Some m)
  then obtain s c e where m: "match_url I cs = Some (s, c, e)" by (cases m) auto
  have "match_url I (redact_text I cs) = Some (s, stars, redact_text I e)"
    using m unfolding redact_text_Some [OF m] by (auto simp: match_url_Some stars_def)
  with assms show ?thesis by simp
qed

lemma redacted_credentials: "credentials_in I (redact_text I cs) \<subseteq> {stars}"
proof -
  have "creds = stars" if "redact_text I cs = pre @ suf" "match_url I suf = Some (scheme, creds, rest)"
    for pre suf scheme creds rest
    using that
  proof (induction cs arbitrary: pre rule: length_induct)
    case (1 cs)
    show ?case
    proof (cases pre)
      case Nil
      with 1(2,3) redact_text_head [of I cs scheme creds rest] show ?thesis by simp
    next
      case (Cons x pre')
      show ?thesis
      proof (cases "match_url I cs")
        case None
        with 1(2) Cons obtain cs' where "cs = x # cs'" "redact_text I cs' = pre' @ suf"
          by (cases cs) (auto simp: redact_text_None)
        with 1 show ?thesis by auto
      next
        case (Some m)
        then obtain s c e where m: "match_url I cs = Some (s, c, e)" by (cases m) auto
        let ?mid = "['':'', ''/'', ''/''] @ stars @ [''@'']"
        have len: "length e < length cs" using m by (simp add: match_url_Some)
        have all: "(s @ ?mid) @ redact_text I e = pre @ suf" using 1(2) redact_text_Some [OF m] by simp
        show ?thesis
        proof (cases "length (s @ ?mid) \<le> length pre")
          case True
          then obtain pre'' where "redact_text I e = pre'' @ suf"
            using all by (metis append_eq_append_conv_if)
          with 1(1,3) len show ?thesis by blast
        next
          case False
          let ?front = "drop (length pre) (s @ ?mid)"
          have "suf = drop (length pre) ((s @ ?mid) @ redact_text I e)" "pre = take (length pre) ((s @ ?mid) @ redact_text I e)"
            unfolding all by simp_all
          with False have "suf = ?front @ redact_text I e" "pre = take (length pre) (s @ ?mid)"
            by (simp_all del: append_assoc add: drop_append take_append)
          then obtain front where f: "suf = front @ redact_text I e" "s @ ?mid = pre @ front" "front \<noteq> []"
            using False by (metis append_take_drop_id drop_eq_Nil)
          obtain y ys where y: "front = y # ys" "is_word I y"
            using match_url_no_word [OF 1(3)] f(1,3) by (cases front) auto
          from f(2) obtain s' where s': "s = pre @ s' \<and> s' @ ?mid = front \<or> s @ s' = pre \<and> ?mid = s' @ front"
            by (auto simp: append_eq_append_conv2)
          have "y \<notin> set ?mid" using y(2) by (auto simp: stars_def)
          moreover have "y \<in> set front" using y(1) by simp
          ultimately have "?mid \<noteq> s' @ front" "s' @ ?mid = front \<Longrightarrow> s' \<noteq> []"
            by (metis Un_iff set_append, auto)
          with s' have "s = pre @ s'" "front = s' @ ?mid" "s' \<noteq> []" by auto
          then have "match_url I suf = Some (s', stars, redact_text I e)"
            using m f(1) by (auto simp: match_url_Some stars_def)
          with 1(3) show ?thesis by simp
        qed
      qed
    qed
  qed
  then show ?thesis by (auto simp: credentials_in_def)
qed

lemma credentials_in_take: "credentials_in I (take n cs) \<subseteq> credentials_in I cs"
proof
  fix creds assume "creds \<in> credentials_in I (take n cs)"
  then obtain pre suf scheme rest where m: "take n cs = pre @ suf" "match_url I suf = Some (scheme, creds, rest)"
    by (auto simp: credentials_in_def)
  then have "cs = pre @ (suf @ drop n cs)" by (metis append_assoc append_take_drop_id)
  moreover have "match_url I (suf @ drop n cs) = Some (scheme, creds, rest @ drop n cs)"
    using m(2) by (simp add: match_url_Some)
  ultimately show "creds \<in> credentials_in I cs" unfolding credentials_in_def by blast
qed

section \<open>The default schedule\<close>

text \<open>\<open>pow\<close> is exact on the powers of two that the default policy asks for.\<close>

definition exact_powers :: "interp \<Rightarrow> bool" where
  "exact_powers I \<longleftrightarrow>
     (\<forall>k w. 1 \<le> k \<and> k \<le> 10 \<and> float_scaled w = int k * 2 ^ 1075 \<longrightarrow> it_pow I (power_of_two 1) w = power_of_two k)"

lemma two_to_the:
  assumes "exact_powers I" "1 \<le> k" "k \<le> 10"
  shows "float_pow (it_pow I) (power_of_two 1) (int k) = Inr (power_of_two k)"
proof -
  obtain w where w: "float_of_int (int k) = Inr w" "float_scaled w = int k * 2 ^ 1075"
    using assms float_of_int_exact [of k] by auto
  then have "it_pow I (power_of_two 1) w = power_of_two k" using assms by (auto simp: exact_powers_def)
  moreover have "power_of_two 1 \<noteq> one_bits" by (simp add: power_of_two_def one_bits_def)
  ultimately show ?thesis
    using w(1) assms power_of_two_finite [of 1] power_of_two_finite [of k]
    by (simp add: float_pow_def power_of_two_parts)
qed

lemma datetime_add_small:
  "0 \<le> p \<Longrightarrow> p \<le> 1024 \<Longrightarrow> 0 \<le> now \<Longrightarrow> now \<le> 253402290000000000 \<Longrightarrow>
     datetime_add now (p * 1000000) = Inr (now + p * 1000000)"
  by (simp add: datetime_add_def)

text \<open>An interpreter whose \<open>pow\<close> knows powers of two.\<close>

definition sample_interp :: interp where
  "sample_interp =
     \<lparr>it_pow = (\<lambda>v w. power_of_two (nat (float_scaled w div 2 ^ 1075))), it_word = (\<lambda>_. True), it_space = (\<lambda>_. False),
      it_str = (\<lambda>_. ''error'')\<rparr>"

lemma sample_exact_powers: "exact_powers sample_interp"
  by (simp add: exact_powers_def sample_interp_def)

section \<open>Properties\<close>

text \<open>
  Under the default policy a delivery that fails on its n-th try is tried again exactly \<open>2 ^ (n - 1)\<close>
  seconds later for n from 1 to 11, so the cap of an hour is never reached, and from the twelfth try on it is
  dead with the redacted error.
\<close>

theorem default_backoff_schedule:
  assumes "exact_powers I" "1 \<le> n" "0 \<le> now" "now \<le> 253402290000000000"
  shows "disposition I (int n) default_backoff txt now =
    Inr (if n \<le> 11
      then \<lparr>ds_action = ''retry'', ds_available_at = Some (now + 2 ^ (n - 1) * 1000000), ds_error = None\<rparr>
      else \<lparr>ds_action = ''dead'', ds_available_at = None, ds_error = Some (redact_error I txt)\<rparr>)"
proof (cases "n \<le> 11")
  case True
  let ?k = "n - 1"
  have k: "?k \<le> 10" "int n - 1 = int ?k" using True assms(2) by simp_all
  have bits: "bo_factor default_backoff = power_of_two 1" "bo_base default_backoff = one_bits"
    by (simp_all add: default_backoff_def power_of_two_def one_bits_def)
  have pow: "float_pow (it_pow I) (power_of_two 1) (int ?k) = Inr (power_of_two ?k)"
  proof (cases "?k = 0")
    case True
    moreover have "float_of_int 0 = Inr 0" by (simp add: float_of_int_def float_finite_def float_parts float_eval)
    ultimately show ?thesis by (simp add: float_pow_def one_bits_def power_of_two_def)
  next
    case False
    then have "1 \<le> ?k" by simp
    from two_to_the [OF assms(1) this k(1)] show ?thesis .
  qed
  have cap: "bo_cap default_backoff = 0x40AC200000000000" by (simp add: default_backoff_def)
  have "float_scaled 0x40AC200000000000 = 3600 * 2 ^ 1075" by (simp add: float_scaled_def float_parts)
  moreover have "(2::int) ^ (1075 + ?k) \<le> 2 ^ (1075 + 10)" by (rule power_increasing) (use k in simp_all)
  moreover have "(2::int) ^ (1075 + 10) = 1024 * 2 ^ 1075" by (simp add: power_add)
  ultimately have "float_scaled (power_of_two ?k) \<le> float_scaled 0x40AC200000000000"
    using power_of_two_parts(4) [of ?k] k(1) by simp
  then have "py_min (power_of_two ?k) (bo_cap default_backoff) = power_of_two ?k"
    using power_of_two_finite [of ?k] k(1)
    by (simp add: cap py_min_def float_less_def float_rank_def float_finite_def [of "0x40AC200000000000"] float_exp_def)
  moreover have "timedelta_seconds (power_of_two ?k) = Inr (2 ^ ?k * 1000000)"
    using k(1) by (intro seconds_power_of_two) simp
  moreover have "(2::int) ^ ?k \<le> 2 ^ 10" by (rule power_increasing) (use k in simp_all)
  then have "datetime_add now (2 ^ ?k * 1000000) = Inr (now + 2 ^ ?k * 1000000)"
    using assms(3,4) by (intro datetime_add_small) simp_all
  ultimately show ?thesis
    using True k(1) by (simp add: disposition_def bits k(2) pow one_times_power_of_two cap
        default_backoff_def [THEN arg_cong [of _ _ bo_max_attempts]] del: of_nat_diff One_nat_def)
next
  case False
  then show ?thesis by (simp add: disposition_def default_backoff_def)
qed

lemma default_backoff_schedule_witness:
  "disposition sample_interp 3 default_backoff ''boom'' 5 =
     Inr \<lparr>ds_action = ''retry'', ds_available_at = Some 4000005, ds_error = None\<rparr>"
  using default_backoff_schedule [OF sample_exact_powers, of 3 5 "''boom''"] by simp


end
