(* ===== verification/Worker.thy ===== *)
theory Worker
  imports Protocols Retry
begin

text \<open>
  The outbox worker (\<open>src/eventic/worker.py\<close>): claim, deliver outside any transaction, settle.

  A computation runs on the world, which holds what handlers act on; the store and the wall clock are
  arguments.  The list of settlements and the report, which the methods share and mutate, are passed along
  as the \<open>progress\<close> of a drain.
\<close>

section \<open>The worker\<close>

record worker =
  wk_queue :: string
  wk_lease :: int
  wk_batch_size :: int

record worker_report =
  wr_claimed :: nat
  wr_delivered :: nat
  wr_retried :: nat
  wr_dead_lettered :: nat

definition empty_report :: worker_report where
  "empty_report = \<lparr>wr_claimed = 0, wr_delivered = 0, wr_retried = 0, wr_dead_lettered = 0\<rparr>"

type_synonym progress = "settlement list \<times> worker_report"

text \<open>\<open>{sub.id: sub for sub in app.subscriptions}\<close>: the last of several with one id wins.\<close>

definition find_subscription :: "('v, 'm, 's) app \<Rightarrow> string \<Rightarrow> ('v, 'm, 's) subscription option" where
  "find_subscription A i = map_of (rev (map (\<lambda>b. (sb_id b, b)) (ap_subscriptions A))) i"

lemma find_subscription_Some: "find_subscription A i = Some b \<Longrightarrow> b \<in> set (ap_subscriptions A) \<and> sb_id b = i"
  by (auto simp: find_subscription_def dest!: map_of_SomeD)

section \<open>Rebuilding the commit\<close>

definition changed_for :: "'s store_api \<Rightarrow> claimed_intent \<Rightarrow> json \<Rightarrow> ('s, string set) py" where
  "changed_for S intent after =
     (let everything = py_bind (py_pure (as_doc after)) (\<lambda>d. py_return (changed_keys None d)) in
      case ci_aggregate_id intent of
        None \<Rightarrow> everything
      | Some a \<Rightarrow>
          if ci_revision intent = 0 then everything
          else
            py_bind (py_pure (lift_py (make_aggregate_key (ci_stream intent) a))) (\<lambda>key.
            py_bind (py_reader (so_revision S key (ci_revision intent - 1))) (\<lambda>previous.
              case previous of
                None \<Rightarrow> everything
              | Some p \<Rightarrow>
                  py_bind (py_pure (as_doc (sr_payload p))) (\<lambda>b.
                  py_bind (py_pure (as_doc after)) (\<lambda>d. py_return (changed_keys (Some b) d))))))"

definition reconstruct ::
  "platform \<Rightarrow> ('v, 'm, 's) app \<Rightarrow> 's store_api \<Rightarrow> 'v stream \<Rightarrow> claimed_intent \<Rightarrow> ('s, ('v, 'm) commit) py" where
  "reconstruct P A S s intent =
     (case ci_aggregate_id intent of
        None \<Rightarrow> py_raise (Eventic DeliveryError)
      | Some a \<Rightarrow>
          if ci_revision intent < 0 then py_raise (Eventic DeliveryError)
          else
            py_bind (py_pure (lift_py (make_aggregate_key (ci_stream intent) a))) (\<lambda>key.
            py_bind (py_reader (so_revision S key (ci_revision intent))) (\<lambda>stored.
              case stored of
                None \<Rightarrow> py_raise (Eventic DeliveryError)
              | Some st \<Rightarrow>
                  py_bind (py_partial (hydrate P s (ap_meta A) st)) (\<lambda>revision.
                  py_bind (changed_for S intent (sr_payload st)) (\<lambda>changed.
                    py_return \<lparr>co_kind = sr_kind st, co_revision = revision, co_changed = changed\<rparr>)))))"

section \<open>Delivering one intent\<close>

definition dead_letter :: "interp \<Rightarrow> claimed_intent \<Rightarrow> string \<Rightarrow> progress \<Rightarrow> progress" where
  "dead_letter I intent txt pr =
     (case pr of (ss, rep) \<Rightarrow>
        (ss @ [\<lparr>st_intent_id = ci_intent_id intent, st_status = ''dead'', st_available_at = None,
                st_error = Some (redact_error I txt)\<rparr>],
         rep\<lparr>wr_dead_lettered := wr_dead_lettered rep + 1\<rparr>))"

text \<open>The policy of a subscription; one that is not an outbox has none and gets the default.\<close>

definition backoff_of :: "('v, 'm, 's) subscription \<Rightarrow> backoff" where
  "backoff_of b = (case sb_delivery b of Outbox _ r _ \<Rightarrow> r | Inline \<Rightarrow> default_backoff)"

definition retry_or_dead ::
  "interp \<Rightarrow> ('s \<Rightarrow> time) \<Rightarrow> ('v, 'm, 's) subscription \<Rightarrow> claimed_intent \<Rightarrow> progress \<Rightarrow> exn \<Rightarrow> ('s, progress) py" where
  "retry_or_dead I clock b intent pr e =
     py_bind (py_reader (\<lambda>w. disposition I (ci_attempts intent) (backoff_of b) (it_str I e) (clock w))) (\<lambda>d.
       py_return
         (if ds_action d = ''dead'' then dead_letter I intent (it_str I e) pr
          else (case pr of (ss, rep) \<Rightarrow>
            (ss @ [\<lparr>st_intent_id = ci_intent_id intent, st_status = ''retry'', st_available_at = ds_available_at d,
                    st_error = ds_error d\<rparr>],
             rep\<lparr>wr_retried := wr_retried rep + 1\<rparr>))))"

text \<open>What is tried: rebuild the commit and call the handler.\<close>

definition attempt ::
  "platform \<Rightarrow> ('v, 'm, 's) app \<Rightarrow> 's store_api \<Rightarrow> ('v, 'm, 's) subscription \<Rightarrow> claimed_intent \<Rightarrow> ('s, unit) py" where
  "attempt P A S b intent =
     py_bind (reconstruct P A S (sb_stream b) intent) (\<lambda>c. py_total (sb_handler b c))"

definition delivered :: "claimed_intent \<Rightarrow> progress \<Rightarrow> progress" where
  "delivered intent pr =
     (case pr of (ss, rep) \<Rightarrow>
        (ss @ [\<lparr>st_intent_id = ci_intent_id intent, st_status = ''delivered'', st_available_at = None, st_error = None\<rparr>],
         rep\<lparr>wr_delivered := wr_delivered rep + 1\<rparr>))"

definition deliver ::
  "interp \<Rightarrow> platform \<Rightarrow> ('s \<Rightarrow> time) \<Rightarrow> ('v, 'm, 's) app \<Rightarrow> 's store_api \<Rightarrow> claimed_intent \<Rightarrow> progress \<Rightarrow>
   ('s, progress) py" where
  "deliver I P clock A S intent pr =
     (case find_subscription A (ci_subscription_id intent) of
        None \<Rightarrow> py_return (dead_letter I intent (''unknown subscription '' @ ci_subscription_id intent) pr)
      | Some b \<Rightarrow>
          py_try (py_bind (attempt P A S b intent) (\<lambda>_. py_return (delivered intent pr)))
                 (retry_or_dead I clock b intent pr))"

fun deliver_all ::
  "interp \<Rightarrow> platform \<Rightarrow> ('s \<Rightarrow> time) \<Rightarrow> ('v, 'm, 's) app \<Rightarrow> 's store_api \<Rightarrow> claimed_intent list \<Rightarrow> progress \<Rightarrow>
   ('s, progress) py" where
  "deliver_all I P clock A S [] pr = py_return pr"
| "deliver_all I P clock A S (intent # cs) pr =
     py_bind (deliver I P clock A S intent pr) (deliver_all I P clock A S cs)"

section \<open>Draining\<close>

definition drain_once ::
  "interp \<Rightarrow> platform \<Rightarrow> ('s \<Rightarrow> time) \<Rightarrow> ('v, 'm, 's) app \<Rightarrow> 's store_api \<Rightarrow> worker \<Rightarrow> ('s, worker_report) py" where
  "drain_once I P clock A S wk =
     py_bind (py_total (so_claim S (wk_queue wk) (wk_batch_size wk) (wk_lease wk))) (\<lambda>claimed.
       if claimed = [] then py_return empty_report
       else
         py_bind (deliver_all I P clock A S claimed ([], empty_report\<lparr>wr_claimed := length claimed\<rparr>)) (\<lambda>(ss, rep).
         py_bind (py_total (so_settle S ss)) (\<lambda>_. py_return rep)))"

text \<open>
  \<open>run_forever\<close>: the event \<open>_stop\<close> is part of the world, set by whoever runs beside the worker; \<open>wait\<close> is
  what happens to the world while it waits.
\<close>

partial_function (option) poll_loop ::
  "('s, 'a) py \<Rightarrow> ('s \<Rightarrow> bool) \<Rightarrow> ('s \<Rightarrow> 's) \<Rightarrow> 's \<Rightarrow> ((exn + unit) \<times> 's) option" where
  "poll_loop drain stopped wait w =
     (if stopped w then Some (Inr (), w)
      else Option.bind (drain w) (\<lambda>(r, w').
        case r of Inl e \<Rightarrow> Some (Inl e, w') | Inr _ \<Rightarrow> poll_loop drain stopped wait (wait w')))"

definition run_forever ::
  "interp \<Rightarrow> platform \<Rightarrow> ('s \<Rightarrow> time) \<Rightarrow> ('v, 'm, 's) app \<Rightarrow> 's store_api \<Rightarrow> worker \<Rightarrow> ('s \<Rightarrow> bool) \<Rightarrow> ('s \<Rightarrow> 's) \<Rightarrow>
   ('s, unit) py" where
  "run_forever I P clock A S wk = poll_loop (drain_once I P clock A S wk)"

section \<open>What one delivery adds\<close>

text \<open>Rebuilding a commit looks at the world and leaves it as it is.\<close>

definition pure_py :: "('s, 'a) py \<Rightarrow> bool" where
  "pure_py m \<longleftrightarrow> (\<forall>w r w'. m w = Some (r, w') \<longrightarrow> w' = w)"

lemma pure_py_basic [intro]:
  "pure_py (py_return x)" "pure_py (py_raise e)" "pure_py (py_pure r)" "pure_py (py_reader f)" "pure_py (py_partial m)"
  by (auto simp: pure_py_def py_return_def py_raise_def py_pure_def py_reader_def py_partial_def split: option.splits)

lemma pure_py_bind [intro]: "pure_py m \<Longrightarrow> (\<And>x. pure_py (f x)) \<Longrightarrow> pure_py (py_bind m f)"
  unfolding pure_py_def by (fastforce simp: py_bind_def split: option.splits sum.splits)

lemma pure_py_option [intro]:
  "pure_py m \<Longrightarrow> (\<And>x. pure_py (f x)) \<Longrightarrow> pure_py (case v of None \<Rightarrow> m | Some x \<Rightarrow> f x)"
  by (cases v) auto

lemma pure_py_if [intro]: "pure_py m \<Longrightarrow> pure_py n \<Longrightarrow> pure_py (if b then m else n)"
  by simp

lemma changed_for_pure: "pure_py (changed_for S intent after)"
  unfolding changed_for_def Let_def by (intro pure_py_option pure_py_if pure_py_bind pure_py_basic)

lemma reconstruct_pure: "pure_py (reconstruct P A S s intent)"
  unfolding reconstruct_def by (intro pure_py_option pure_py_if pure_py_bind pure_py_basic changed_for_pure)

text \<open>A handler ran and returned.\<close>

definition handled ::
  "platform \<Rightarrow> ('v, 'm, 's) app \<Rightarrow> 's store_api \<Rightarrow> claimed_intent \<Rightarrow> 's \<Rightarrow> bool" where
  "handled P A S intent w \<longleftrightarrow>
     (\<exists>b c. find_subscription A (ci_subscription_id intent) = Some b \<and>
        reconstruct P A S (sb_stream b) intent w = Some (Inr c, w) \<and> fst (sb_handler b c w) = Inr ())"

text \<open>What a delivery does to the world: nothing, or what the handler does.\<close>

definition touched :: "('v, 'm, 's) app \<Rightarrow> 's \<Rightarrow> 's \<Rightarrow> bool" where
  "touched A w w' \<longleftrightarrow> w' = w \<or> (\<exists>b \<in> set (ap_subscriptions A). \<exists>c. w' = snd (sb_handler b c w))"

lemma attempt_run:
  assumes "attempt P A S b intent w = Some (r, w')" "find_subscription A (ci_subscription_id intent) = Some b"
  shows "touched A w w' \<and> (r = Inr () \<longrightarrow> handled P A S intent w)"
proof -
  obtain r1 w1 where rec: "reconstruct P A S (sb_stream b) intent w = Some (r1, w1)"
    using assms(1) by (cases "reconstruct P A S (sb_stream b) intent w") (auto simp: attempt_def py_bind_def)
  have w1: "w1 = w" using reconstruct_pure [of P A S "sb_stream b" intent] rec unfolding pure_py_def by blast
  show ?thesis
  proof (cases r1)
    case (Inl e)
    then show ?thesis using assms(1) rec w1 by (auto simp: attempt_def py_bind_def touched_def)
  next
    case (Inr c)
    then have run: "sb_handler b c w = (r, w')" using assms(1) rec w1 by (simp add: attempt_def py_bind_def py_total_def)
    then have "touched A w w'"
      using find_subscription_Some [OF assms(2)] unfolding touched_def by (metis snd_conv)
    moreover have "r = Inr () \<Longrightarrow> handled P A S intent w"
      using run rec Inr w1 assms(2) unfolding handled_def by auto
    ultimately show ?thesis by blast
  qed
qed

text \<open>
  One delivery adds one settlement for its intent and counts it: as delivered only when the handler ran and
  returned; otherwise its error was retried or is dead.
\<close>

definition counts :: "progress \<Rightarrow> progress \<Rightarrow> string \<Rightarrow> bool" where
  "counts pr pr' status \<longleftrightarrow>
     snd pr' = (if status = ''delivered'' then (snd pr)\<lparr>wr_delivered := wr_delivered (snd pr) + 1\<rparr>
                else if status = ''retry'' then (snd pr)\<lparr>wr_retried := wr_retried (snd pr) + 1\<rparr>
                else (snd pr)\<lparr>wr_dead_lettered := wr_dead_lettered (snd pr) + 1\<rparr>)"

lemma deliver_Inr:
  assumes "deliver I P clock A S intent pr w = Some (Inr pr', w')"
  obtains st where "fst pr' = fst pr @ [st]" "st_intent_id st = ci_intent_id intent"
    "st_status st \<in> {''delivered'', ''retry'', ''dead''}" "counts pr pr' (st_status st)" "touched A w w'"
    "st_status st = ''delivered'' \<longrightarrow> handled P A S intent w"
proof (cases "find_subscription A (ci_subscription_id intent)")
  case None
  show ?thesis
    by (rule that [of "\<lparr>st_intent_id = ci_intent_id intent, st_status = ''dead'', st_available_at = None,
          st_error = Some (redact_error I (''unknown subscription '' @ ci_subscription_id intent))\<rparr>"])
       (use assms None in \<open>auto simp: deliver_def dead_letter_def py_return_def counts_def touched_def split: prod.splits\<close>)
next
  case (Some b)
  then obtain r w1 where at: "attempt P A S b intent w = Some (r, w1)"
    using assms by (cases "attempt P A S b intent w") (auto simp: deliver_def py_try_def py_bind_def)
  note touched = attempt_run [OF at Some]
  show ?thesis
  proof (cases r)
    case (Inr u)
    then have run: "pr' = delivered intent pr" "w' = w1"
      using assms Some at by (auto simp: deliver_def py_try_def py_bind_def py_return_def)
    show ?thesis
      by (rule that [of "\<lparr>st_intent_id = ci_intent_id intent, st_status = ''delivered'', st_available_at = None, st_error = None\<rparr>"])
         (use run touched Inr in \<open>auto simp: delivered_def counts_def split: prod.splits\<close>)
  next
    case (Inl e)
    then obtain d where d: "disposition I (ci_attempts intent) (backoff_of b) (it_str I e) (clock w1) = Inr d" and
      w1: "w' = w1" and pr': "pr' = (if ds_action d = ''dead'' then dead_letter I intent (it_str I e) pr
          else (case pr of (ss, rep) \<Rightarrow>
            (ss @ [\<lparr>st_intent_id = ci_intent_id intent, st_status = ''retry'', st_available_at = ds_available_at d,
                    st_error = ds_error d\<rparr>],
             rep\<lparr>wr_retried := wr_retried rep + 1\<rparr>)))"
      using assms Some at
      by (auto simp: deliver_def py_try_def py_bind_def retry_or_dead_def py_return_def py_reader_def split: sum.splits)
    show ?thesis
    proof (cases "ds_action d = ''dead''")
      case True
      show ?thesis
        by (rule that [of "\<lparr>st_intent_id = ci_intent_id intent, st_status = ''dead'', st_available_at = None,
              st_error = Some (redact_error I (it_str I e))\<rparr>"])
           (use pr' True w1 touched in \<open>auto simp: dead_letter_def counts_def split: prod.splits\<close>)
    next
      case False
      show ?thesis
        by (rule that [of "\<lparr>st_intent_id = ci_intent_id intent, st_status = ''retry'', st_available_at = ds_available_at d,
              st_error = ds_error d\<rparr>"])
           (use pr' False w1 touched in \<open>auto simp: counts_def split: prod.splits\<close>)
    qed
  qed
qed

text \<open>Whatever comes of it, a delivery only does to the world what the handlers do.\<close>

lemma deliver_touched:
  assumes "deliver I P clock A S intent pr w = Some (r, w')"
  shows "touched A w w'"
proof (cases r)
  case (Inr pr')
  with assms deliver_Inr show ?thesis by metis
next
  case (Inl e)
  with assms obtain b where b: "find_subscription A (ci_subscription_id intent) = Some b"
    by (auto simp: deliver_def py_return_def split: option.splits)
  then obtain r1 w1 where at: "attempt P A S b intent w = Some (r1, w1)"
    using assms by (cases "attempt P A S b intent w") (auto simp: deliver_def py_try_def py_bind_def)
  then have "w' = w1"
    using assms b by (auto simp: deliver_def py_try_def py_bind_def retry_or_dead_def py_return_def py_reader_def
        split: sum.splits)
  with attempt_run [OF at b] show ?thesis by simp
qed

abbreviation reaches :: "('v, 'm, 's) app \<Rightarrow> 's \<Rightarrow> 's \<Rightarrow> bool" where
  "reaches A \<equiv> (touched A)\<^sup>*\<^sup>*"

lemma deliver_all_reaches: "deliver_all I P clock A S cs pr w = Some (r, w') \<Longrightarrow> reaches A w w'"
proof (induction cs arbitrary: pr w)
  case Nil
  then show ?case by (simp add: py_return_def)
next
  case (Cons intent cs)
  from Cons.prems obtain r1 w1 where d: "deliver I P clock A S intent pr w = Some (r1, w1)"
    by (auto simp: py_bind_def split: option.splits)
  note step = deliver_touched [OF d]
  show ?case
  proof (cases r1)
    case (Inl e)
    with Cons.prems d step show ?thesis by (auto simp: py_bind_def)
  next
    case (Inr pr1)
    with Cons.prems d have "deliver_all I P clock A S cs pr1 w1 = Some (r, w')" by (simp add: py_bind_def)
    with step Cons.IH show ?thesis by (meson converse_rtranclp_into_rtranclp)
  qed
qed

lemma reaches_invariant:
  assumes "reaches A w w'" "\<And>b c w. b \<in> set (ap_subscriptions A) \<Longrightarrow> K w \<Longrightarrow> K (snd (sb_handler b c w))" "K w"
  shows "K w'"
  using assms(1,3) by (induction rule: rtranclp_induct) (auto simp: touched_def assms(2))

text \<open>The tally of the settlements is what the report counts.\<close>

definition tally :: "string \<Rightarrow> settlement list \<Rightarrow> nat" where
  "tally status ss = length (filter (\<lambda>st. st_status st = status) ss)"

lemma tally_simps [simp]:
  "tally status [] = 0" "tally status (st # ss) = (if st_status st = status then 1 else 0) + tally status ss"
  by (simp_all add: tally_def)

lemma tally_total:
  "\<forall>st \<in> set ss. st_status st \<in> {''delivered'', ''retry'', ''dead''} \<Longrightarrow>
     length ss = tally ''delivered'' ss + tally ''retry'' ss + tally ''dead'' ss"
  by (induction ss) auto

definition report_of :: "worker_report \<Rightarrow> settlement list \<Rightarrow> worker_report" where
  "report_of rep ss =
     rep\<lparr>wr_delivered := wr_delivered rep + tally ''delivered'' ss, wr_retried := wr_retried rep + tally ''retry'' ss,
         wr_dead_lettered := wr_dead_lettered rep + tally ''dead'' ss\<rparr>"

definition sound_settlement ::
  "platform \<Rightarrow> ('v, 'm, 's) app \<Rightarrow> 's store_api \<Rightarrow> 's \<Rightarrow> claimed_intent list \<Rightarrow> settlement \<Rightarrow> bool" where
  "sound_settlement P A S w cs st \<longleftrightarrow>
     st_status st \<in> {''delivered'', ''retry'', ''dead''} \<and>
     (st_status st = ''delivered'' \<longrightarrow>
        (\<exists>intent \<in> set cs. \<exists>w1. ci_intent_id intent = st_intent_id st \<and> reaches A w w1 \<and> handled P A S intent w1))"

lemma sound_settlement_later:
  "touched A w w1 \<Longrightarrow> sound_settlement P A S w1 cs st \<Longrightarrow> sound_settlement P A S w (c # cs) st"
  unfolding sound_settlement_def by (auto intro: converse_rtranclp_into_rtranclp)

lemma deliver_all_Inr:
  assumes "deliver_all I P clock A S cs pr w = Some (Inr pr', w')"
  obtains ss where "fst pr' = fst pr @ ss" "map st_intent_id ss = map ci_intent_id cs"
    "\<forall>st \<in> set ss. sound_settlement P A S w cs st" "snd pr' = report_of (snd pr) ss"
proof -
  have "\<exists>ss. fst pr' = fst pr @ ss \<and> map st_intent_id ss = map ci_intent_id cs \<and>
      (\<forall>st \<in> set ss. sound_settlement P A S w cs st) \<and> snd pr' = report_of (snd pr) ss"
    using assms
  proof (induction cs arbitrary: pr w)
    case Nil
    then show ?case by (simp add: py_return_def report_of_def)
  next
    case (Cons intent cs)
    from Cons.prems obtain pr1 w1 where d: "deliver I P clock A S intent pr w = Some (Inr pr1, w1)"
      "deliver_all I P clock A S cs pr1 w1 = Some (Inr pr', w')" by (auto simp: py_bind_Inr)
    from deliver_Inr [OF d(1)] obtain st where st: "fst pr1 = fst pr @ [st]" "st_intent_id st = ci_intent_id intent"
      "st_status st \<in> {''delivered'', ''retry'', ''dead''}" "counts pr pr1 (st_status st)" "touched A w w1"
      "st_status st = ''delivered'' \<longrightarrow> handled P A S intent w" by metis
    from Cons.IH [OF d(2)] obtain ss where ss: "fst pr' = fst pr1 @ ss" "map st_intent_id ss = map ci_intent_id cs"
      "\<forall>st \<in> set ss. sound_settlement P A S w1 cs st" "snd pr' = report_of (snd pr1) ss" by blast
    have "sound_settlement P A S w (intent # cs) st"
      using st(2,3,6) unfolding sound_settlement_def by auto
    moreover have "\<forall>s \<in> set ss. sound_settlement P A S w (intent # cs) s"
      using ss(3) sound_settlement_later [OF st(5)] by blast
    moreover have "snd pr' = report_of (snd pr) (st # ss)"
      using ss(4) st(3,4) by (auto simp: counts_def report_of_def)
    ultimately show ?case using ss(1,2) st(1,2) by (intro exI [of _ "st # ss"]) simp
  qed
  then show ?thesis using that by blast
qed

section \<open>What one drain does\<close>

lemma drain_once_cases:
  assumes "drain_once I P clock A S wk w = Some (out, w')"
  obtains (refused) e where "so_claim S (wk_queue wk) (wk_batch_size wk) (wk_lease wk) w = (Inl e, w')" "out = Inl e"
  | (idle) "so_claim S (wk_queue wk) (wk_batch_size wk) (wk_lease wk) w = (Inr [], w')" "out = Inr empty_report"
  | (escaped) cs w1 e where "so_claim S (wk_queue wk) (wk_batch_size wk) (wk_lease wk) w = (Inr cs, w1)" "cs \<noteq> []"
      "out = Inl e" "reaches A w1 w'"
  | (settled) cs w1 ss w2 where "so_claim S (wk_queue wk) (wk_batch_size wk) (wk_lease wk) w = (Inr cs, w1)" "cs \<noteq> []"
      "reaches A w1 w2" "map st_intent_id ss = map ci_intent_id cs" "\<forall>st \<in> set ss. sound_settlement P A S w1 cs st"
      "snd (so_settle S ss w2) = w'"
      "out = (case fst (so_settle S ss w2) of Inl e \<Rightarrow> Inl e
              | Inr u \<Rightarrow> Inr (report_of (empty_report\<lparr>wr_claimed := length cs\<rparr>) ss))"
proof -
  obtain r w1 where claim: "so_claim S (wk_queue wk) (wk_batch_size wk) (wk_lease wk) w = (r, w1)" by fastforce
  show ?thesis
  proof (cases r)
    case (Inl e)
    with assms claim show ?thesis by (auto simp: drain_once_def py_bind_pure intro: refused)
  next
    case (Inr cs)
    show ?thesis
    proof (cases "cs = []")
      case True
      with assms claim Inr show ?thesis by (auto simp: drain_once_def py_bind_pure py_return_def intro: idle)
    next
      case False
      let ?pr = "([], empty_report\<lparr>wr_claimed := length cs\<rparr>)"
      let ?rest = "\<lambda>(ss, rep). py_bind (py_total (so_settle S ss)) (\<lambda>_. py_return rep)"
      have run: "py_bind (deliver_all I P clock A S cs ?pr) ?rest w1 = Some (out, w')"
        using assms claim Inr False by (simp add: drain_once_def py_bind_pure)
      then obtain d w2 where d: "deliver_all I P clock A S cs ?pr w1 = Some (d, w2)"
        by (cases "deliver_all I P clock A S cs ?pr w1") (auto simp: py_bind_def)
      note reach = deliver_all_reaches [OF d]
      show ?thesis
      proof (cases d)
        case (Inl e)
        with run d have "out = Inl e" "w' = w2" by (simp_all add: py_bind_def)
        with claim Inr \<open>r = Inr cs\<close> False reach show ?thesis by (intro escaped [of cs w1 e]) simp_all
      next
        case (Inr pr')
        from deliver_all_Inr [OF d [unfolded Inr]] obtain ss where ss: "fst pr' = ss"
          "map st_intent_id ss = map ci_intent_id cs" "\<forall>st \<in> set ss. sound_settlement P A S w1 cs st"
          "snd pr' = report_of (empty_report\<lparr>wr_claimed := length cs\<rparr>) ss" by auto
        have "?rest pr' w2 = Some (out, w')" using run d Inr by (simp add: py_bind_def)
        then have "w' = snd (so_settle S ss w2)"
          "out = (case fst (so_settle S ss w2) of Inl e \<Rightarrow> Inl e
            | Inr u \<Rightarrow> Inr (report_of (empty_report\<lparr>wr_claimed := length cs\<rparr>) ss))"
          unfolding ss(4) [symmetric] using ss(1) by (cases pr'; auto simp: py_bind_pure py_return_def split: sum.splits)+
        with ss claim \<open>r = Inr cs\<close> False reach show ?thesis
          by (intro settled [of cs w1 w2 ss]) simp_all
      qed
    qed
  qed
qed

section \<open>The loop\<close>

text \<open>One round: a drain that does not raise, and the wait after it.\<close>

definition drain_round :: "('s, 'a) py \<Rightarrow> ('s \<Rightarrow> 's) \<Rightarrow> 's \<Rightarrow> 's option" where
  "drain_round drain wait w = (case drain w of Some (Inr _, w') \<Rightarrow> Some (wait w') | _ \<Rightarrow> None)"

text \<open>The world after \<open>k\<close> rounds, none of which began with the flag set.\<close>

fun running :: "('s \<Rightarrow> 's option) \<Rightarrow> ('s \<Rightarrow> bool) \<Rightarrow> nat \<Rightarrow> 's \<Rightarrow> 's option" where
  "running step stopped 0 w = Some w"
| "running step stopped (Suc k) w = (if stopped w then None else Option.bind (step w) (running step stopped k))"

lemma poll_loop_running:
  "running (drain_round drain wait) stopped k w = Some w' \<Longrightarrow> stopped w' \<Longrightarrow>
     poll_loop drain stopped wait w = Some (Inr (), w')"
proof (induction k arbitrary: w)
  case 0
  then show ?case by (subst poll_loop.simps) simp
next
  case (Suc k)
  then show ?case
    by (subst poll_loop.simps)
       (auto simp: drain_round_def split: if_splits option.splits sum.splits prod.splits)
qed

lemma poll_loop_returned:
  assumes "poll_loop drain stopped wait w = Some out"
  shows "fst out = Inr () \<longrightarrow>
    stopped (snd out) \<and> (\<exists>k. running (drain_round drain wait) stopped k w = Some (snd out))"
proof (rule poll_loop.raw_induct [OF _ assms])
  fix loop drain stopped wait w out
  assume IH: "\<And>drain stopped wait w out. loop drain stopped wait w = Some out \<Longrightarrow> fst out = Inr () \<longrightarrow>
        stopped (snd out) \<and> (\<exists>k. running (drain_round drain wait) stopped k w = Some (snd out))"
    and run: "(if stopped w then Some (Inr (), w)
      else Option.bind (drain w) (\<lambda>(r, w').
        case r of Inl e \<Rightarrow> Some (Inl e, w') | Inr _ \<Rightarrow> loop drain stopped wait (wait w'))) = Some out"
  show "fst out = Inr () \<longrightarrow>
    stopped (snd out) \<and> (\<exists>k. running (drain_round drain wait) stopped k w = Some (snd out))"
  proof (cases "stopped w")
    case True
    moreover from True run have "snd out = w" by auto
    moreover have "running (drain_round drain wait) stopped 0 w = Some w" by simp
    ultimately show ?thesis by metis
  next
    case False
    then obtain q v where d: "drain w = Some (q, v)"
      "(case q of Inl e \<Rightarrow> Some (Inl e, v) | Inr _ \<Rightarrow> loop drain stopped wait (wait v)) = Some out"
      using run by (auto simp: bind_eq_Some_conv)
    show ?thesis
    proof (cases q)
      case (Inl e)
      with d show ?thesis by auto
    next
      case (Inr rep)
      with d have "loop drain stopped wait (wait v) = Some out" by simp
      moreover have "running (drain_round drain wait) stopped (Suc k) w = Some w'"
        if "running (drain_round drain wait) stopped k (wait v) = Some w'" for k w'
        using that False d(1) Inr by (simp add: drain_round_def)
      ultimately show ?thesis using IH by blast
    qed
  qed
qed

end
