(* ===== verification/Runtime_Promises.thy ===== *)
theory Runtime_Promises
  imports Sql_Store
begin

text \<open>What collections and batches promise on the SQL store, through the interpretation of the contract.\<close>

section \<open>Writes return\<close>

lemma hydrate_current_returns:
  "sr_schema_version st = sm_schema_version s \<Longrightarrow> sr_meta_version st = mt_version t \<Longrightarrow> hydrate P s t st \<noteq> None"
  by (auto simp: hydrate_def hydrate_document_def upcast_tree_def split: sum.split)

lemma materialized_returns:
  assumes "cq_schema_version req = sm_schema_version s" "cq_meta_version req = mt_version (ap_meta A)"
  shows "materialized P A s req res before \<noteq> None"
proof -
  have "hydrate P s (ap_meta A) (result_document req res payload meta) \<noteq> None" for payload meta
    by (rule hydrate_current_returns) (simp_all add: result_document_def assms)
  then have "\<forall>payload meta. hydrate P s (ap_meta A) (result_document req res payload meta) \<noteq> None" by blast
  then show ?thesis by (simp add: materialized_def split: sum.split option.split) (metis option.distinct(1))
qed

lemma materialize_returns:
  assumes "cq_schema_version req = sm_schema_version s" "cq_meta_version req = mt_version (ap_meta A)"
  shows "materialize P A s req res before w \<noteq> None"
  using materialized_returns [OF assms, of P res before] by (auto simp: materialize_run split: sum.split)

lemma collection_commit_returns:
  assumes "cq_schema_version req = sm_schema_version s" "cq_meta_version req = mt_version (ap_meta A)"
  shows "collection_commit P A S s req before w \<noteq> None"
  using materialize_returns [OF assms]
  by (simp add: collection_commit_def py_bind_pure py_run split: sum.split list.split)

lemma planned_versions:
  "plan_create P A s v a m = Inr req \<Longrightarrow>
     cq_schema_version req = sm_schema_version s \<and> cq_meta_version req = mt_version (ap_meta A)"
  "plan_append P A s base v m = Inr req \<Longrightarrow>
     cq_schema_version req = sm_schema_version s \<and> cq_meta_version req = mt_version (ap_meta A)"
  by (auto elim: plan_create_Inr plan_append_Inr)

section \<open>A concrete run\<close>

definition sample_sql_store :: "'x world_scheme store_api" where
  "sample_sql_store = sql_store sample_platform sample_sql Sqlite Map.empty"

definition sample_world :: "db \<Rightarrow> world" where
  "sample_world d = \<lparr>wo_db = d, wo_db_now = 100, wo_now = 100\<rparr>"

lemma sample_world_ok: "world_ok sample_platform Map.empty (sample_world empty_db)"
    "world_ok sample_platform Map.empty (sample_world sample_db)"
  using sample_float_codec sample_empty_ok sample_db_ok by (simp_all add: world_ok_def sample_world_def)

lemma sample_planned_for: "planned_for sample_platform sample_app sample_stream sample_create"
  using sample_requests_wf(1)
  by (simp add: planned_for_def sample_create_def sample_stream_def sample_app_def sample_meta_def)

lemma sample_no_inline: "inline_effects sample_app s c w = w"
  by (simp add: inline_effects_def inline_match_def sample_app_def)

lemma sample_so_commit:
  "so_commit sample_sql_store [sample_create] (sample_world empty_db) =
     (Inr [commit_result_of sample_platform 100 sample_create False], sample_world sample_db)"
  using sample_commit
  by (simp add: sample_sql_store_def sql_store_def on_tables_def capabilities_of_def sqlite_capabilities_def
      sample_world_def lift_eventic_def)

lemma sample_loads:
  "bytes_loads sample_platform (cq_payload sample_create) = Inr (JObj [(''a'', JInt 1)])"
  "bytes_loads sample_platform (cq_meta sample_create) = Inr (JObj [])"
  "py_canonical_bytes sample_platform (JObj [(''a'', JInt 1)]) = Inr (cq_payload sample_create)"
  "py_canonical_bytes sample_platform (JObj []) = Inr (cq_meta sample_create)"
  by code_simp+

lemma sample_materialized:
  "materialized sample_platform sample_app sample_stream sample_create
     (commit_result_of sample_platform 100 sample_create False) None =
   Some (Inr \<lparr>co_kind = ''create'', co_revision = sample_revision, co_changed = {''a''}\<rparr>)"
proof -
  have adapter: "ad_validate_json (md_adapter sample_model) = bytes_loads sample_platform"
    by (simp add: sample_model_def)
  have fields: "cq_schema_version sample_create = 1" "cq_meta_version sample_create = 1" "cq_stream sample_create = ''todos''"
    "cq_aggregate_id sample_create = 5" "cq_kind sample_create = ''create''" "target_of sample_create = 0"
    by (simp_all add: sample_create_def target_of_def)
  have hyd: "hydrate sample_platform sample_stream sample_meta
      (result_document sample_create (commit_result_of sample_platform 100 sample_create False)
        (JObj [(''a'', JInt 1)]) (JObj [])) = Some (Inr sample_revision)"
    by (simp add: hydrate_def hydrate_document_def upcast_tree_def result_document_def commit_result_of_def
        sample_fields fields adapter sample_loads request_rid_def)
       (simp add: sample_revision_def)
  show ?thesis
    by (simp add: materialized_def sample_loads sample_fields(1) hyd changed_of_def as_doc_def changed_keys_def fields)
qed

lemma sample_dispatch: "fst (dispatch_inline sample_app sample_stream c w) = Inr ()"
proof -
  have "fst (run_inline sample_stream c (ap_subscriptions sample_app) w) = []"
    by (rule run_inline_none_fail) (simp add: inline_match_def sample_app_def)
  then show ?thesis by (simp add: dispatch_inline_def split_def Let_def)
qed

lemma sample_run:
  "collection_commit sample_platform sample_app sample_sql_store sample_stream sample_create None (sample_world empty_db) =
     Some (Inr sample_revision, sample_world sample_db)"
  by (simp add: collection_commit_def py_bind_pure sample_so_commit materialize_run sample_materialized
      sample_no_inline sample_dispatch)

lemma sample_batch:
  "batch_exit sample_platform sample_app sample_sql_store None [(sample_stream, sample_create, None)]
     (sample_world empty_db) = Some (Inr (), sample_world sample_db)"
  by (simp add: batch_exit_def commit_all_def py_bind_pure sample_so_commit py_bind_def materialize_run
      sample_materialized sample_no_inline sample_dispatch py_run)

text \<open>A stream whose model refuses the documents it dumps.\<close>

definition refusing_stream :: "json stream" where
  "refusing_stream =
     sample_stream\<lparr>sm_model := sample_model\<lparr>md_adapter :=
       (md_adapter sample_model)\<lparr>ad_validate_json := \<lambda>_. Inl (Python ValueError)\<rparr>\<rparr>\<rparr>"

section \<open>Properties\<close>



text \<open>
  A writer that is behind is told so: when the head has reached the revision a planned request wants
  to write, the collection raises \<open>RevisionConflict\<close> and runs no handler, unless the request is a replay of
  what is stored; in both cases the tables do not change.
\<close>

theorem stale_writers_conflict:
  assumes "world_ok P encs w" "planned_for P A s req"
    and "so_head (sql_store P Q name encs) (request_key req) w = Inr (Some h)" "target_of req \<le> sr_revision h"
  shows "collection_commit P A (sql_store P Q name encs) s req before w = Some (Inl (Eventic RevisionConflict), w) \<or>
    (\<exists>res. so_commit (sql_store P Q name encs) [req] w = (Inr [res], w) \<and> cr_replayed res)"
  by (rule sql.stale_commit [OF assms(1) _ assms(3)])
     (use assms(2,4) in \<open>simp_all add: planned_for_def request_wf_def ahead_of_head_def\<close>)

lemma stale_writers_conflict_witness:
  "collection_commit sample_platform sample_app sample_sql_store sample_stream sample_create None (sample_world sample_db) =
     Some (Inl (Eventic RevisionConflict), sample_world sample_db) \<or>
   (\<exists>res. so_commit sample_sql_store [sample_create] (sample_world sample_db) = (Inr [res], sample_world sample_db) \<and>
      cr_replayed res)"
proof -
  obtain sr where "store_head sample_platform sample_db (AggregateKey ''todos'' 5) = Inr (Some sr)" "sr_revision sr = 0"
    by (simp add: store_head_def select_head_def sample_db_def head_of_row_def sample_row_def head_row_to_stored_def
        column_loads_def)
  then have "so_head sample_sql_store (request_key sample_create) (sample_world sample_db) = Inr (Some sr)"
      "target_of sample_create \<le> sr_revision sr"
    by (simp_all add: sample_sql_store_def sql_store_def sample_world_def request_key_def sample_create_def target_of_def)
  from stale_writers_conflict [OF sample_world_ok(2) sample_planned_for this(1) [unfolded sample_sql_store_def] this(2)]
  show ?thesis by (simp add: sample_sql_store_def)
qed



text \<open>
  A write of a collection always returns or raises: it hydrates at the declared versions, so even an
  upcaster chain that would never end is not entered.
\<close>

theorem collection_writes_return:
  "collection_create P A S s fresh state id_arg meta w \<noteq> None \<and>
   collection_change P A S s base updates w \<noteq> None \<and> collection_replace P A S s base state meta w \<noteq> None"
proof -
  have commit: "collection_commit P A S s req before w \<noteq> None"
    if "cq_schema_version req = sm_schema_version s \<and> cq_meta_version req = mt_version (ap_meta A)" for req before
    using collection_commit_returns [of req s A] that by blast
  have "collection_create P A S s fresh state id_arg meta w \<noteq> None"
    by (cases "plan_create P A s state (case id_arg of Some a \<Rightarrow> a | None \<Rightarrow> fresh) meta")
       (simp_all add: collection_create_def py_bind_pure commit [OF planned_versions(1)] del: not_None_eq)
  moreover have "collection_change P A S s base updates w \<noteq> None"
    by (cases "plan_change P A s base updates None")
       (auto simp: collection_change_def py_bind_pure simp del: not_None_eq elim!: plan_change_Inr
         dest: commit [OF planned_versions(2)])
  moreover have "collection_replace P A S s base state meta w \<noteq> None"
    by (cases "plan_replace P A s base state meta")
       (auto simp: collection_replace_def py_bind_pure simp del: not_None_eq elim!: plan_replace_Inr
         dest: commit [OF planned_versions(2)])
  ultimately show ?thesis by blast
qed

text \<open>
  Nothing checks before the commit that a document can be read back: when the adapter rejects what it
  dumped itself, the collection raises the adapter's exception after the revision was committed, and the
  revision stays.
\<close>

theorem validation_comes_after_the_commit:
  assumes "planned_for P A s req" "so_commit S [req] w = (Inr [res], w1)"
    and "ad_validate_json (md_adapter (sm_model s)) (cq_payload req) = Inl e"
  shows "collection_commit P A S s req before w = Some (Inl e, w1)"
proof -
  from assms(1) obtain payload meta where m: "bytes_loads P (cq_payload req) = Inr payload"
    "canonical_bytes P payload = Some (cq_payload req)" "bytes_loads P (cq_meta req) = Inr meta"
    by (auto simp: planned_for_def request_wf_def request_ok_def bytes_loads_def split: option.splits)
  have "hydrate P s (ap_meta A) (result_document req res payload meta) = Some (Inl e)"
    using assms(1,3) m(2)
    by (simp add: hydrate_def hydrate_document_def upcast_tree_def result_document_def planned_for_def py_canonical_bytes_def)
  then show ?thesis
    by (simp add: collection_commit_def py_bind_pure assms(2) materialize_run materialized_def m)
qed

lemma validation_comes_after_the_commit_witness:
  "collection_commit sample_platform sample_app sample_sql_store refusing_stream sample_create None
     (sample_world empty_db) = Some (Inl (Python ValueError), sample_world sample_db)"
proof -
  have "planned_for sample_platform (sample_app :: (json, json, world) app) refusing_stream sample_create"
    using sample_planned_for by (simp add: planned_for_def refusing_stream_def sample_stream_def)
  from validation_comes_after_the_commit [OF this sample_so_commit] show ?thesis
    by (simp add: refusing_stream_def)
qed

end
