(* ===== verification/Worker_Promises.thy ===== *)
theory Worker_Promises
  imports Worker Runtime_Promises
begin

text \<open>What the worker promises: of any store first, then on the SQL store.\<close>

section \<open>Settling what was claimed\<close>

lemma settle_one_named:
  assumes "settle_one d s = Inr d'"
  shows "intent_of d' (st_intent_id s) =
    (if st_status s = ''delivered'' then None else map_option (settle_update s) (intent_of d (st_intent_id s)))"
proof (cases "st_status s = ''delivered''")
  case True
  with settle_one_Inr [OF assms] show ?thesis by (auto simp: intent_of_None)
next
  case False
  have "intent_of d' (st_intent_id s) =
      map_option (\<lambda>i. if in_intent_id i = st_intent_id s then settle_update s i else i) (intent_of d (st_intent_id s))"
    by (rule intent_of_map) (use settle_one_Inr [OF assms] False in simp_all)
  with False show ?thesis by (cases "intent_of d (st_intent_id s)") (auto dest: intent_of_Some)
qed

lemma settle_all_named:
  "settle_all d ss = Inr d' \<Longrightarrow> distinct (map st_intent_id ss) \<Longrightarrow> s \<in> set ss \<Longrightarrow>
     intent_of d' (st_intent_id s) =
       (if st_status s = ''delivered'' then None else map_option (settle_update s) (intent_of d (st_intent_id s)))"
proof (induction ss arbitrary: d)
  case (Cons t ss)
  from Cons.prems(1) obtain d1 where d1: "settle_one d t = Inr d1" "settle_all d1 ss = Inr d'" by auto
  show ?case
  proof (cases "s = t")
    case True
    then have "intent_of d' (st_intent_id s) = intent_of d1 (st_intent_id s)"
      using Cons.prems(2) by (intro settle_all_other [OF d1(2)]) (auto simp: image_iff)
    with settle_one_named [OF d1(1)] True show ?thesis by simp
  next
    case False
    with Cons.prems(2,3) have "s \<in> set ss" "st_intent_id t \<noteq> st_intent_id s" by (auto simp: image_iff)
    with Cons.IH [OF d1(2)] Cons.prems(2) settle_one_other [OF d1(1)] show ?thesis by simp
  qed
qed simp

lemma sql_claim:
  "so_claim (sql_store P Q name encs) queue limit lease w =
     (case store_claim (wo_db w) queue limit lease (wo_now w) of (r, d) \<Rightarrow> (lift_eventic r, w\<lparr>wo_db := d\<rparr>))"
  by (simp add: sql_store_def on_tables_def split_def)

lemma sql_settle:
  "so_settle (sql_store P Q name encs) ss w =
     (case settle_all (wo_db w) ss of
        Inr d \<Rightarrow> (Inr (), w\<lparr>wo_db := d\<rparr>) | Inl e \<Rightarrow> (Inl (Eventic (read_error e)), w))"
  by (simp add: sql_store_def on_tables_def store_settle_def lift_eventic_def split: sum.split)

lemma sql_claim_Inr:
  assumes "so_claim (sql_store P Q name encs) queue limit lease w = (Inr cs, w1)"
  shows "store_claim (wo_db w) queue limit lease (wo_now w) = (Inr cs, wo_db w1)"
  using assms by (auto simp: sql_claim lift_eventic_def split: sum.splits prod.splits)

lemma claimed_ids:
  assumes "store_claim d queue limit lease now = (Inr cs, d')" "outbox_ok d"
  shows "map ci_intent_id cs = claim_ids d queue now limit" "distinct (map ci_intent_id cs)"
    "u \<in> ci_intent_id ` set cs \<Longrightarrow> \<exists>i. intent_of d u = Some i \<and> intent_of d' u = Some (lease_intent (now + lease) i)"
proof -
  show ids: "map ci_intent_id cs = claim_ids d queue now limit"
    using assms(1) by (auto simp: store_claim_Inr claim_ids_def claimed_of_def split_def)
  have "distinct (map in_intent_id (claim_queue d queue now))"
    using assms(2) by (auto simp: outbox_ok_def claim_queue_def distinct_map inj_on_def)
  then show "distinct (map ci_intent_id cs)"
    unfolding ids claim_ids_alt take_map [symmetric] by (rule distinct_take)
  show "\<exists>i. intent_of d u = Some i \<and> intent_of d' u = Some (lease_intent (now + lease) i)"
    if u: "u \<in> ci_intent_id ` set cs"
  proof -
    obtain i where "intent_of d u = Some i" by (rule claimed_claimable [OF assms u])
    moreover have "u \<in> set (claim_ids d queue now limit)" using u ids by (metis set_map)
    ultimately show ?thesis using assms(1) by (simp add: store_claim_Inr intent_of_claim)
  qed
qed

section \<open>A concrete drain\<close>

definition sample_worker :: worker where
  "sample_worker = \<lparr>wk_queue = ''default'', wk_lease = 30, wk_batch_size = 10\<rparr>"

definition due_world :: world where
  "due_world = \<lparr>wo_db = sample_outbox, wo_db_now = 100, wo_now = 200\<rparr>"

definition drained_world :: world where
  "drained_world = due_world\<lparr>wo_db := sample_db\<rparr>"

definition leased_world :: world where
  "leased_world = due_world\<lparr>wo_db := sample_outbox\<lparr>db_intents := [lease_intent 230 sample_intent]\<rparr>\<rparr>"

abbreviation sample_claimed :: claimed_intent where
  "sample_claimed \<equiv> claimed_of (sample_intent, sample_row)"

lemma sample_claims:
  "so_claim sample_sql_store (wk_queue sample_worker) (wk_batch_size sample_worker) (wk_lease sample_worker) due_world =
     (Inr [sample_claimed], leased_world)"
  by (simp add: sample_sql_store_def sql_claim sample_worker_def due_world_def sample_claim leased_world_def lift_eventic_def)

lemma sample_subscription:
  "find_subscription (sample_app :: (json, json, 's) app) ''mail'' = Some (hd (ap_subscriptions sample_app))"
  by (simp add: find_subscription_def sample_app_def)

lemma sample_stored:
  assumes "db_revisions (wo_db w) = [sample_row]"
  shows "so_revision sample_sql_store (AggregateKey ''todos'' 5) 0 w =
     Inr (Some \<lparr>sr_stream = ''todos'', sr_aggregate_id = 5, sr_revision = 0,
       sr_revision_id = revision_id sample_platform ''todos'' 5 0, sr_kind = ''create'', sr_schema_version = 1,
       sr_meta_version = 1, sr_encoding = snapshot_id, sr_payload = JObj [(''a'', JInt 1)],
       sr_digest = cq_digest sample_create, sr_meta = JObj [], sr_committed_at = 100\<rparr>)"
  by (simp add: sample_sql_store_def sql_store_def store_revision_def select_revision_row_def decode_log_revision_def assms
      Let_def of_aggregate_def sample_row_def column_loads_def log_row_to_stored_def translate_read_def)

lemma sample_reconstruct:
  assumes "ap_meta A = sample_meta" "db_revisions (wo_db w) = [sample_row]"
    and "ci_aggregate_id intent = Some 5" "ci_revision intent = 0" "ci_stream intent = ''todos''"
  shows "reconstruct sample_platform A sample_sql_store sample_stream intent w =
     Some (Inr \<lparr>co_kind = ''create'', co_revision = sample_revision, co_changed = {''a''}\<rparr>, w)"
proof -
  have adapter: "ad_validate_json (md_adapter sample_model) = bytes_loads sample_platform"
    by (simp add: sample_model_def)
  have key: "make_aggregate_key ''todos'' 5 = Inr (AggregateKey ''todos'' 5)"
    using declared_stream_name [OF sample_declared, of 5] by (simp add: sample_fields)
  show ?thesis
    by (simp add: reconstruct_def assms key lift_py_def py_bind_pure sample_stored py_bind_def py_run changed_for_def
        hydrate_def hydrate_document_def upcast_tree_def sample_fields adapter sample_loads as_doc_def changed_keys_def)
       (simp add: sample_revision_def)
qed

lemma sample_drain:
  "drain_once sample_interp sample_platform wo_now sample_app sample_sql_store sample_worker due_world =
     Some (Inr \<lparr>wr_claimed = 1, wr_delivered = 1, wr_retried = 0, wr_dead_lettered = 0\<rparr>, drained_world)"
proof -
  have fields: "ci_subscription_id sample_claimed = ''mail''" "ci_intent_id sample_claimed = 9"
    by (simp_all add: claimed_of_def sample_intent_def)
  have sub: "sb_stream (hd (ap_subscriptions sample_app)) = sample_stream"
    "sb_handler (hd (ap_subscriptions sample_app)) c w = (Inr (), w)" for c :: "(json, json) commit" and w :: world
    by (simp_all add: sample_app_def)
  have settle: "so_settle sample_sql_store
      [\<lparr>st_intent_id = 9, st_status = ''delivered'', st_available_at = None, st_error = None\<rparr>] leased_world =
      (Inr (), drained_world)"
    by (simp add: sample_sql_store_def sql_settle settle_one_def leased_world_def drained_world_def due_world_def
        sample_outbox_def sample_intent_def lease_intent_def sample_db_def)
  have rec: "reconstruct sample_platform sample_app sample_sql_store sample_stream sample_claimed leased_world =
     Some (Inr \<lparr>co_kind = ''create'', co_revision = sample_revision, co_changed = {''a''}\<rparr>, leased_world)"
    by (rule sample_reconstruct) (simp_all add: sample_fields leased_world_def due_world_def sample_outbox_def sample_db_def
        claimed_of_def sample_row_def)
  show ?thesis
    by (simp add: drain_once_def py_bind_pure sample_claims deliver_def fields sample_subscription attempt_def sub
        py_try_def py_bind_def rec py_run delivered_def settle empty_report_def)
qed

section \<open>Properties\<close>



text \<open>
  C30: At-least-once delivery: however a drain of the SQL store ends, an intent that was in the outbox before
  and is not there afterwards was claimed in it, its commit was rebuilt from the stored revision and the
  handler of its subscription ran on that commit and returned, as long as handlers themselves remove no intents.
\<close>

theorem drained_intents_were_handled:
  assumes "\<And>b c w i. b \<in> set (ap_subscriptions A) \<Longrightarrow> i \<in> in_intent_id ` set (db_intents (wo_db w)) \<Longrightarrow>
      i \<in> in_intent_id ` set (db_intents (wo_db (snd (sb_handler b c w))))"
    and "drain_once I P clock A (sql_store P Q name encs) wk w = Some (out, w')"
    and "u \<in> in_intent_id ` set (db_intents (wo_db w))" "u \<notin> in_intent_id ` set (db_intents (wo_db w'))"
  shows "\<exists>cs w1 intent w2. so_claim (sql_store P Q name encs) (wk_queue wk) (wk_batch_size wk) (wk_lease wk) w = (Inr cs, w1) \<and>
    intent \<in> set cs \<and> ci_intent_id intent = u \<and> handled P A (sql_store P Q name encs) intent w2"
proof -
  let ?has = "\<lambda>w. u \<in> in_intent_id ` set (db_intents (wo_db w))"
  have claim: "?has w1" if "so_claim (sql_store P Q name encs) (wk_queue wk) (wk_batch_size wk) (wk_lease wk) w = (r, w1)" for r w1
    using that assms(3) by (cases r) (auto simp: sql_claim store_claim_Inr store_claim_Inl claim_mark_ids lift_eventic_def
        split: sum.splits prod.splits)
  have reach: "?has w2" if "reaches A w1 w2" "?has w1" for w1 w2
    using that(1) _ that(2) by (rule reaches_invariant) (rule assms(1))
  from assms(2) show ?thesis
  proof (cases rule: drain_once_cases)
    case (settled cs w1 ss w2)
    have "?has w2" by (rule reach [OF settled(3) claim [OF settled(1)]])
    then have "\<exists>st \<in> set ss. st_status st = ''delivered'' \<and> st_intent_id st = u"
      using settled(6) assms(4) settle_all_ids [of "wo_db w2" ss _ u] by (auto simp: sql_settle split: sum.splits)
    then obtain st where "st \<in> set ss" "st_status st = ''delivered''" "st_intent_id st = u" by blast
    with settled(5) obtain intent w3 where "intent \<in> set cs" "ci_intent_id intent = u"
      "handled P A (sql_store P Q name encs) intent w3" by (auto simp: sound_settlement_def)
    with settled(1) show ?thesis by blast
  qed (use claim reach assms(4) in blast)+
qed

lemma drained_intents_were_handled_witness:
  "\<exists>cs w1 intent w2. so_claim sample_sql_store ''default'' 10 30 due_world = (Inr cs, w1) \<and> intent \<in> set cs \<and>
    ci_intent_id intent = 9 \<and> handled sample_platform (sample_app :: (json, json, world) app) sample_sql_store intent w2"
  using drained_intents_were_handled [OF _ sample_drain [unfolded sample_sql_store_def], of 9]
  by (simp add: sample_sql_store_def sample_worker_def due_world_def drained_world_def sample_db_def sample_outbox_def
      sample_intent_def sample_app_def)

text \<open>
  No claimed intent is left behind: when a drain of the SQL store returns and the handlers do not write
  the tables, each claimed intent has one more attempt on record and is gone, pending again or dead, and in
  neither case leased.
\<close>

theorem drained_intents_are_not_leased:
  assumes "\<And>b c w. b \<in> set (ap_subscriptions A) \<Longrightarrow> wo_db (snd (sb_handler b c w)) = wo_db w"
    and "drain_once I P clock A (sql_store P Q name encs) wk w = Some (Inr rep, w')" "outbox_ok (wo_db w)"
    and "so_claim (sql_store P Q name encs) (wk_queue wk) (wk_batch_size wk) (wk_lease wk) w = (Inr cs, w1)"
    and "u \<in> ci_intent_id ` set cs"
  shows "\<exists>i. intent_of (wo_db w) u = Some i \<and>
    (case intent_of (wo_db w') u of
       None \<Rightarrow> True
     | Some j \<Rightarrow> in_status j \<in> {''pending'', ''dead''} \<and> in_leased_until j = None \<and> in_attempts j = in_attempts i + 1)"
  using assms(2)
proof (cases rule: drain_once_cases)
  case (settled cs' w1' ss w2)
  then have same: "cs' = cs" "w1' = w1" using assms(4) by simp_all
  note claim = sql_claim_Inr [OF assms(4)]
  have "wo_db w2 = wo_db w1"
    using settled(3) unfolding same by (rule reaches_invariant [where K = "\<lambda>w. wo_db w = wo_db w1"]) (simp_all add: assms(1))
  moreover obtain d where "settle_all (wo_db w2) ss = Inr d" "w' = w2\<lparr>wo_db := d\<rparr>"
    using settled(6,7) by (auto simp: sql_settle split: sum.splits)
  ultimately have d: "settle_all (wo_db w1) ss = Inr (wo_db w')" by simp
  obtain i where i: "intent_of (wo_db w) u = Some i" "intent_of (wo_db w1) u = Some (lease_intent (wo_now w + wk_lease wk) i)"
    using claimed_ids(3) [OF claim assms(3,5)] by blast
  have ids: "map st_intent_id ss = map ci_intent_id cs" using settled(4) same by simp
  then have "u \<in> set (map st_intent_id ss)" using assms(5) by (metis set_map)
  then obtain st where st: "st \<in> set ss" "u = st_intent_id st" by auto
  have "distinct (map st_intent_id ss)" using claimed_ids(2) [OF claim assms(3)] ids by simp
  from settle_all_named [OF d this st(1)] st(2) i(2) have "intent_of (wo_db w') u =
      (if st_status st = ''delivered'' then None
       else Some (settle_update st (lease_intent (wo_now w + wk_lease wk) i)))" by simp
  with i(1) show ?thesis by (simp add: settle_update_def lease_intent_def)
qed (use assms(4,5) in auto)

lemma drained_intents_are_not_leased_witness:
  "\<exists>i. intent_of (wo_db due_world) 9 = Some i \<and>
    (case intent_of (wo_db drained_world) 9 of
       None \<Rightarrow> True
     | Some j \<Rightarrow> in_status j \<in> {''pending'', ''dead''} \<and> in_leased_until j = None \<and> in_attempts j = in_attempts i + 1)"
proof (rule drained_intents_are_not_leased [OF _ sample_drain [unfolded sample_sql_store_def] _
      sample_claims [unfolded sample_sql_store_def]])
  show "outbox_ok (wo_db due_world)" using sample_outbox_ok by (simp add: due_world_def)
  show "9 \<in> ci_intent_id ` set [sample_claimed]" by (simp add: claimed_of_def sample_intent_def)
  show "wo_db (snd (sb_handler b c w)) = wo_db w" if "b \<in> set (ap_subscriptions sample_app)"
    for b :: "(json, json, world) subscription" and c w
    using that by (simp add: sample_app_def)
qed

text \<open>
  A drain that raises settles nothing: if an exception leaves it after the claim, for instance because
  computing a delay overflows, the tables are as the claim left them, and every claimed intent, the delivered
  ones included, stays leased until the lease runs out.
\<close>

theorem raised_drain_settles_nothing:
  assumes "\<And>b c w. b \<in> set (ap_subscriptions A) \<Longrightarrow> wo_db (snd (sb_handler b c w)) = wo_db w"
    and "drain_once I P clock A (sql_store P Q name encs) wk w = Some (Inl e, w')" "outbox_ok (wo_db w)"
    and "so_claim (sql_store P Q name encs) (wk_queue wk) (wk_batch_size wk) (wk_lease wk) w = (Inr cs, w1)"
  shows "wo_db w' = wo_db w1 \<and>
    (\<forall>u \<in> ci_intent_id ` set cs. leased_until_at_least (wo_db w') u (wo_now w + wk_lease wk))"
proof -
  have reach: "wo_db w2 = wo_db w1" if "reaches A w1 w2" for w2
    using that by (rule reaches_invariant [where K = "\<lambda>w. wo_db w = wo_db w1"]) (simp_all add: assms(1))
  from assms(2) have "wo_db w' = wo_db w1"
  proof (cases rule: drain_once_cases)
    case (refused e)
    with assms(4) show ?thesis by simp
  next
    case (escaped cs' w1' e)
    with assms(4) have "reaches A w1 w'" by simp
    then show ?thesis by (rule reach)
  next
    case (settled cs' w1' ss w2)
    with assms(4) have "reaches A w1 w2" by simp
    from reach [OF this] settled(6,7) show ?thesis by (auto simp: sql_settle split: sum.splits)
  qed simp_all
  moreover have "leased_until_at_least (wo_db w1) u (wo_now w + wk_lease wk)" if "u \<in> ci_intent_id ` set cs" for u
    using claimed_ids(3) [OF sql_claim_Inr [OF assms(4)] assms(3) that]
    by (auto simp: leased_until_at_least_def lease_intent_def)
  ultimately show ?thesis by simp
qed

text \<open>A handler that always fails, a policy of 5000 attempts and an intent that has had 1100.\<close>

definition stubborn_app :: "(json, json, world) app" where
  "stubborn_app =
     sample_app\<lparr>ap_subscriptions := [(hd (ap_subscriptions sample_app))
       \<lparr>sb_handler := \<lambda>c w. (Inl (Python ValueError), w),
        sb_delivery := Outbox ''q'' (default_backoff\<lparr>bo_max_attempts := 5000\<rparr>) True\<rparr>]\<rparr>"

definition ieee_interp :: interp where
  "ieee_interp = sample_interp\<lparr>it_pow :=
     \<lambda>v w. if 1024 \<le> float_scaled w div 2 ^ 1075 then infinity_bits else power_of_two (nat (float_scaled w div 2 ^ 1075))\<rparr>"

definition old_world :: world where
  "old_world = due_world\<lparr>wo_db := sample_outbox\<lparr>db_intents := [sample_intent\<lparr>in_attempts := 1100\<rparr>]\<rparr>\<rparr>"

definition old_leased :: world where
  "old_leased = due_world\<lparr>wo_db := sample_outbox\<lparr>db_intents := [lease_intent 230 (sample_intent\<lparr>in_attempts := 1100\<rparr>)]\<rparr>\<rparr>"

abbreviation old_claimed :: claimed_intent where
  "old_claimed \<equiv> claimed_of (sample_intent\<lparr>in_attempts := 1100\<rparr>, sample_row)"

lemma old_claims:
  "so_claim sample_sql_store (wk_queue sample_worker) (wk_batch_size sample_worker) (wk_lease sample_worker) old_world =
     (Inr [old_claimed], old_leased)"
  by (simp add: sample_sql_store_def sql_claim sample_worker_def old_world_def due_world_def store_claim_def
      claim_select_def sample_outbox_def sample_intent_def claimable_def revision_of_intent_def sample_db_def
      claim_mark_leased_def lease_intent_def Let_def old_leased_def lift_eventic_def)

lemma huge_delay_overflows:
  "disposition ieee_interp 1101 (default_backoff\<lparr>bo_max_attempts := 5000\<rparr>) txt now = Inl (Python OverflowError)"
proof -
  obtain w where w: "float_of_int (int 1100) = Inr w" "float_scaled w = int 1100 * 2 ^ 1075"
    by (rule float_of_int_exact [of 1100]) simp_all
  have two: "bo_factor (default_backoff\<lparr>bo_max_attempts := 5000\<rparr>) = power_of_two 1"
    by (simp add: default_backoff_def power_of_two_def)
  have "it_pow ieee_interp (power_of_two 1) w = infinity_bits" by (simp add: ieee_interp_def w(2))
  moreover have "power_of_two 1 \<noteq> one_bits" by (simp add: power_of_two_def one_bits_def)
  moreover have "\<not> float_finite infinity_bits" "\<not> float_nan infinity_bits"
    by (simp_all add: infinity_bits_def float_finite_def float_nan_def float_exp_def float_frac_def)
  ultimately have "float_pow (it_pow ieee_interp) (power_of_two 1) 1100 = Inl (Python OverflowError)"
    using w(1) power_of_two_finite [of 1] by (simp add: float_pow_def power_of_two_parts Let_def)
  then show ?thesis by (simp only: disposition_def two) (simp add: default_backoff_def)
qed

lemma stubborn_drain:
  "drain_once ieee_interp sample_platform wo_now stubborn_app sample_sql_store sample_worker old_world =
     Some (Inl (Python OverflowError), old_leased)"
proof -
  let ?b = "hd (ap_subscriptions stubborn_app)"
  have sub: "find_subscription stubborn_app ''mail'' = Some ?b"
    by (simp add: find_subscription_def stubborn_app_def sample_app_def)
  have b: "sb_stream ?b = sample_stream" "sb_handler ?b c w = (Inl (Python ValueError), w)"
    "backoff_of ?b = default_backoff\<lparr>bo_max_attempts := 5000\<rparr>" for c w
    by (simp_all add: stubborn_app_def sample_app_def backoff_of_def)
  have fields: "ci_subscription_id old_claimed = ''mail''" "ci_attempts old_claimed = 1101"
    by (simp_all add: claimed_of_def sample_intent_def)
  have "reconstruct sample_platform stubborn_app sample_sql_store sample_stream old_claimed old_leased =
     Some (Inr \<lparr>co_kind = ''create'', co_revision = sample_revision, co_changed = {''a''}\<rparr>, old_leased)"
    by (rule sample_reconstruct) (simp_all add: sample_fields stubborn_app_def old_leased_def due_world_def
        sample_outbox_def sample_db_def claimed_of_def sample_row_def)
  then have "attempt sample_platform stubborn_app sample_sql_store ?b old_claimed old_leased =
      Some (Inl (Python ValueError), old_leased)"
    by (simp add: attempt_def b py_bind_def py_total_def)
  then show ?thesis
    by (simp add: drain_once_def py_bind_pure old_claims deliver_def fields sub py_try_def py_bind_def retry_or_dead_def
        py_run py_reader_def b huge_delay_overflows)
qed

lemma raised_drain_settles_nothing_witness: "leased_until_at_least (wo_db old_leased) 9 230"
proof -
  have ok: "outbox_ok (wo_db old_world)"
    by (simp add: old_world_def due_world_def outbox_ok_def sample_outbox_def sample_intent_def intent_ok_def)
  have quiet: "wo_db (snd (sb_handler b c w)) = wo_db w" if "b \<in> set (ap_subscriptions stubborn_app)" for b c w
    using that by (simp add: stubborn_app_def sample_app_def)
  from raised_drain_settles_nothing [OF quiet stubborn_drain [unfolded sample_sql_store_def] ok
      old_claims [unfolded sample_sql_store_def]]
  show ?thesis by (simp add: claimed_of_def sample_intent_def old_world_def due_world_def sample_worker_def)
qed

text \<open>
  Stopping works: \<open>run_forever\<close> returns exactly when the stop flag is found set after some number of
  drains that did not raise, each followed by the wait, and it does nothing after that; a flag set before the
  first drain means that nothing is claimed.
\<close>

theorem run_forever_stops:
  "run_forever I P clock A S wk stopped wait w = Some (Inr (), w') \<longleftrightarrow>
     stopped w' \<and> (\<exists>k. running (drain_round (drain_once I P clock A S wk) wait) stopped k w = Some w')"
  using poll_loop_running poll_loop_returned [of _ stopped wait w "(Inr (), w')"]
  unfolding run_forever_def by fastforce

end
