(* ===== verification/Conformance_Facts.thy ===== *)
theory Conformance_Facts
  imports Conformance Worker_Promises
begin

text \<open>The concurrent steps of the conformance kit pass on the SQL store, whoever goes first.\<close>

section \<open>Racing writers\<close>

definition racer_doc :: "nat \<Rightarrow> json" where
  "racer_doc i = JObj [(''racer'', JInt (int i))]"

lemma racer_bytes:
  "race_payload P i = Inr (dumps P (racer_doc i))" "py_canonical_bytes P (JObj []) = Inr (dumps P (JObj []))"
  "canonical_bytes P (racer_doc i) = Some (dumps P (racer_doc i))" "canonical_bytes P (JObj []) = Some (dumps P (JObj []))"
  by (simp_all add: race_payload_def racer_doc_def py_canonical_bytes_def canonical_bytes_alt canon_obj)

definition racer_request :: "platform \<Rightarrow> race_step \<Rightarrow> nat \<Rightarrow> commit_request" where
  "racer_request P r i = race_request r P (dumps P (racer_doc i)) (dumps P (JObj []))"

lemma race_outcomes_Cons:
  "race_outcomes P S r (i # order) w =
     (let (res, w') = so_commit S [racer_request P r i] w; (outs, w'') = race_outcomes P S r order w'
      in (race_outcome res # outs, w''))"
  by (simp add: racer_bytes racer_request_def)

definition race_target :: "race_step \<Rightarrow> int" where
  "race_target r = (case rs_expected_revision r of None \<Rightarrow> 0 | Some e \<Rightarrow> e + 1)"

lemma racer_fields:
  "cq_stream (racer_request P r i) = rs_stream r" "cq_aggregate_id (racer_request P r i) = rs_aggregate_id r"
  "cq_expected_revision (racer_request P r i) = rs_expected_revision r" "cq_intents (racer_request P r i) = []"
  "cq_kind (racer_request P r i) = rs_kind r" "cq_schema_version (racer_request P r i) = rs_schema_version r"
  "cq_digest (racer_request P r i) = digest P (dumps P (racer_doc i))"
  "target_of (racer_request P r i) = race_target r"
  "request_rid P (racer_request P r i) = revision_id P (rs_stream r) (rs_aggregate_id r) (race_target r)"
  by (simp_all add: racer_request_def race_request_def target_of_def request_rid_def race_target_def)

text \<open>A race step over an aggregate whose head it names.\<close>

definition race_ready :: "platform \<Rightarrow> db \<Rightarrow> race_step \<Rightarrow> bool" where
  "race_ready P d r \<longleftrightarrow>
     rs_stream r \<noteq> [] \<and> 1 \<le> rs_schema_version r \<and>
     rs_kind r = (if rs_expected_revision r = None then ''create'' else ''change'') \<and>
     (case rs_expected_revision r of None \<Rightarrow> True | Some e \<Rightarrow> 0 \<le> e) \<and>
     (case select_head d (rs_stream r) (rs_aggregate_id r) of
        None \<Rightarrow> rs_expected_revision r = None
      | Some h \<Rightarrow> rs_expected_revision r = Some (hd_revision h)) \<and>
     revision_id P (rs_stream r) (rs_aggregate_id r) (race_target r) \<notin> rv_revision_id ` set (db_revisions d)"

lemma racer_ok:
  assumes "float_codec P"
  shows "request_ok P (racer_request P r i)"
proof -
  have "loads P (dumps P (racer_doc i)) = Some (racer_doc i)" "loads P (dumps P (JObj [])) = Some (JObj [])"
    by (rule loads_dumps [OF assms(1)]; simp add: racer_doc_def)+
  then show ?thesis
    using racer_bytes(3) [of P i] by (simp add: request_ok_def racer_request_def race_request_def is_doc_def racer_doc_def)
qed

lemma racer_wf:
  assumes "float_codec P" "race_ready P d r"
  shows "request_wf P (racer_request P r i)"
  using racer_ok [OF assms(1)] assms(2) by (auto simp: request_wf_def race_ready_def racer_fields)

text \<open>The first writer wins.\<close>

lemma first_racer_wins:
  assumes "float_codec P" "store_ok P encs d" "encs (rs_stream r) = None" "race_ready P d r"
  shows "\<exists>d' res row. commit_one P encs now d (racer_request P r i) = Inr (d', res) \<and> store_ok P encs d' \<and>
    row \<in> set (db_revisions d') \<and> rv_key row = (rs_stream r, rs_aggregate_id r, race_target r) \<and>
    rv_digest row = digest P (dumps P (racer_doc i))"
proof -
  let ?req = "racer_request P r i"
  have wf: "request_wf P ?req" by (rule racer_wf [OF assms(1,4)])
  have cas: "cas_ok ?req (select_head d (cq_stream ?req) (cq_aggregate_id ?req))"
    using assms(4) by (simp add: cas_ok_def racer_fields race_ready_def split: option.splits)
  have rid: "request_rid P ?req \<notin> rv_revision_id ` set (db_revisions d)"
    using assms(4) by (simp add: racer_fields race_ready_def)
  have fresh: "intents_fresh P d (cq_intents ?req)" by (simp add: racer_fields intents_fresh_def)
  have exact: "encodes_exactly P encs d ?req"
    using assms(3) by (simp add: encodes_exactly_def racer_fields encoding_for_def split: option.split)
  obtain d' where run: "commit_one P encs now d ?req = Inr (d', commit_result_of P now ?req False)"
    using commit_one_decides [OF assms(1,2) wf fresh rid cas, of now] exact by auto
  have ok: "store_ok P encs d'" by (rule commit_one_preserves [OF assms(1,2) racer_ok [OF assms(1)] run])
  obtain row where "db_revisions d' = db_revisions d @ [row]" "rv_key row = (rs_stream r, rs_aggregate_id r, race_target r)"
    "rv_digest row = digest P (dumps P (racer_doc i))"
    using commit_one_log [OF run] by (auto simp: commit_result_of_def racer_fields)
  with run ok show ?thesis by (intro exI [of _ d'] exI [of _ "commit_result_of P now ?req False"] exI [of _ row]) simp
qed

text \<open>Everybody after the winner is told so.\<close>

lemma later_racer_loses:
  assumes "float_codec P" "store_ok P encs d" "row \<in> set (db_revisions d)"
    and "rv_key row = (rs_stream r, rs_aggregate_id r, race_target r)"
    and "rv_digest row \<noteq> digest P (dumps P (racer_doc i))"
  shows "commit_one P encs now d (racer_request P r i) = Inl (Eventic RevisionConflict)"
proof -
  let ?req = "racer_request P r i"
  have "select_revision_row d (rv_stream row) (rv_aggregate_id row) (rv_revision row) = Some row"
    by (rule select_revision_row_unique) (use assms(2,3) in \<open>simp_all add: store_ok_def\<close>)
  then have "select_revision_row d (cq_stream ?req) (cq_aggregate_id ?req) (target_of ?req) = Some row"
    using assms(4) by (simp add: rv_key_def racer_fields)
  from commit_one_taken [OF assms(2) racer_ok [OF assms(1)] this] assms(5) show ?thesis
    by (simp add: same_content_def racer_fields)
qed

lemma losers:
  assumes "float_codec P" "store_ok P encs (wo_db w)" "row \<in> set (db_revisions (wo_db w))"
    and "rv_key row = (rs_stream r, rs_aggregate_id r, race_target r)"
    and "\<And>i. i \<in> set order \<Longrightarrow> rv_digest row \<noteq> digest P (dumps P (racer_doc i))"
  shows "race_outcomes P (sql_store P Q name encs) r order w = (replicate (length order) Conflict, w)"
  using assms(5)
proof (induction order)
  case (Cons i order)
  have "commit_one P encs (wo_db_now w) (wo_db w) (racer_request P r i) = Inl (Eventic RevisionConflict)"
    by (rule later_racer_loses [OF assms(1-4)]) (use Cons.prems in auto)
  then have "so_commit (sql_store P Q name encs) [racer_request P r i] w = (Inl (Eventic RevisionConflict), w)"
    by (simp add: sql_commit_one commit_error_def)
  with Cons show ?case by (simp add: race_outcomes_Cons race_outcome_def del: race_outcomes.simps(2))
qed simp

definition racers_distinct :: "platform \<Rightarrow> nat list \<Rightarrow> bool" where
  "racers_distinct P order \<longleftrightarrow> distinct (map (\<lambda>i. digest P (dumps P (racer_doc i))) order)"

lemma race_outcomes_decide:
  assumes "float_codec P" "store_ok P encs (wo_db w)" "encs (rs_stream r) = None" "race_ready P (wo_db w) r"
    and "racers_distinct P (i # order)"
  shows "\<exists>d res. commit_one P encs (wo_db_now w) (wo_db w) (racer_request P r i) = Inr (d, res) \<and>
    race_outcomes P (sql_store P Q name encs) r (i # order) w =
      (Won # replicate (length order) Conflict, w\<lparr>wo_db := d\<rparr>)"
proof -
  let ?S = "sql_store P Q name encs"
  obtain d' res row where run: "commit_one P encs (wo_db_now w) (wo_db w) (racer_request P r i) = Inr (d', res)"
    and ok: "store_ok P encs d'" and row: "row \<in> set (db_revisions d')" "rv_key row = (rs_stream r, rs_aggregate_id r, race_target r)"
    and dig: "rv_digest row = digest P (dumps P (racer_doc i))"
    using first_racer_wins [OF assms(1-4), of "wo_db_now w" i] by blast
  have other: "rv_digest row \<noteq> digest P (dumps P (racer_doc j))" if "j \<in> set order" for j
    using assms(5) that dig by (auto simp: racers_distinct_def)
  have "race_outcomes P ?S r order (w\<lparr>wo_db := d'\<rparr>) = (replicate (length order) Conflict, w\<lparr>wo_db := d'\<rparr>)"
    by (rule losers [OF assms(1) _ _ row(2) other]) (simp_all add: ok row(1))
  then show ?thesis
    by (simp add: race_outcomes_Cons sql_commit_one run race_outcome_def del: race_outcomes.simps(2))
qed

text \<open>The step passes, and the world is the one that the first writer left.\<close>

lemma run_race_decides:
  assumes "float_codec P" "store_ok P encs (wo_db w)" "encs (rs_stream r) = None" "race_ready P (wo_db w) r"
    and "racers_distinct P (i # order)" "length (i # order) = rs_writers r"
  shows "\<exists>d res. commit_one P encs (wo_db_now w) (wo_db w) (racer_request P r i) = Inr (d, res) \<and>
    run_race P (sql_store P Q name encs) r (i # order) w = (Inr (), w\<lparr>wo_db := d\<rparr>)"
proof -
  have "count_list (replicate n Conflict) Won = 0" "count_list (replicate n Conflict) Conflict = n" for n
    by (induction n) simp_all
  then have "judge_race (rs_writers r) (Won # replicate (length order) Conflict) = Inr ()"
    by (simp add: judge_race_def flip: assms(6))
  with race_outcomes_decide [OF assms(1-5), of Q name] show ?thesis
    by (auto simp: run_race_def simp del: race_outcomes.simps(2))
qed

section \<open>Concurrent drainers\<close>

lemma drop_filter_notin:
  "distinct (map f xs) \<Longrightarrow> filter (\<lambda>x. f x \<notin> f ` set (take n xs)) xs = drop n xs"
proof (induction xs arbitrary: n)
  case (Cons x xs)
  show ?case
  proof (cases n)
    case (Suc m)
    have "f y \<noteq> f x" if "y \<in> set xs" for y
      using Cons.prems imageI [OF that, of f] by auto
    then have "filter (\<lambda>y. f y \<notin> insert (f x) (f ` set (take m xs))) xs = filter (\<lambda>y. f y \<notin> f ` set (take m xs)) xs"
      by (intro filter_cong) auto
    with Cons Suc show ?thesis by simp
  qed simp
qed simp

lemma claim_queue_ids: "outbox_ok d \<Longrightarrow> distinct (map in_intent_id (claim_queue d queue now))"
  by (auto simp: outbox_ok_def claim_queue_def distinct_map inj_on_def)

lemma filter_map_if:
  "(\<And>x. \<not> Q (g x)) \<Longrightarrow> filter Q (map (\<lambda>x. if R x then g x else x) xs) = filter (\<lambda>x. \<not> R x) (filter Q xs)"
  by (induction xs) auto

text \<open>A claim removes the front of the queue, and nothing else, from what can be claimed at that time.\<close>

lemma claim_queue_after:
  assumes "outbox_ok d" "0 \<le> lease"
  shows "claim_queue (claim_mark_leased d (claim_ids d queue now limit) (now + lease)) queue now =
    drop (nat limit) (claim_queue d queue now)"
proof -
  let ?ids = "set (claim_ids d queue now limit)"
  let ?q = "\<lambda>i. in_queue i = queue \<and> claimable now i \<and> revision_of_intent d i \<noteq> None"
  let ?d = "claim_mark_leased d (claim_ids d queue now limit) (now + lease)"
  have same: "revision_of_intent ?d i = revision_of_intent d i" for i
    by (simp add: claim_mark_leased_def revision_of_intent_def)
  have leased: "\<not> claimable now (lease_intent (now + lease) i)" for i
    using assms(2) by (simp add: claimable_def lease_intent_def)
  have "claim_queue ?d queue now = sort_key in_available_at (filter (\<lambda>i. in_intent_id i \<notin> ?ids) (filter ?q (db_intents d)))"
    unfolding claim_queue_def intents_claim same
    by (subst filter_map_if) (simp_all add: leased)
  also have "\<dots> = filter (\<lambda>i. in_intent_id i \<notin> ?ids) (claim_queue d queue now)"
    by (simp only: claim_queue_def filter_sort)
  also have "\<dots> = drop (nat limit) (claim_queue d queue now)"
    unfolding claim_ids_alt set_map
    by (rule drop_filter_notin [OF claim_queue_ids [OF assms(1)]])
  finally show ?thesis .
qed

lemma drainer_claims_take:
  assumes "outbox_ok (wo_db w)" "1 \<le> ds_limit q" "0 \<le> ds_lease q"
    and "fst (drainer_claims (sql_store P Q name encs) q n w) = sets"
  shows "\<Union> (set sets) = in_intent_id ` set (take (n * nat (ds_limit q)) (claim_queue (wo_db w) (ds_queue q) (wo_now w))) \<and>
    sum_list (map card sets) = card (\<Union> (set sets))"
  using assms(1,4)
proof (induction n arbitrary: w sets)
  case (Suc n)
  let ?l = "nat (ds_limit q)" and ?queue = "claim_queue (wo_db w) (ds_queue q) (wo_now w)"
  let ?ids = "claim_ids (wo_db w) (ds_queue q) (wo_now w) (ds_limit q)"
  let ?w = "w\<lparr>wo_db := claim_mark_leased (wo_db w) ?ids (wo_now w + ds_lease q)\<rparr>"
  obtain cs where cs: "store_claim (wo_db w) (ds_queue q) (ds_limit q) (ds_lease q) (wo_now w) = (Inr cs, wo_db ?w)"
    using assms(2) by (simp add: store_claim_Inr)
  define rest where "rest = fst (drainer_claims (sql_store P Q name encs) q n ?w)"
  have sets: "sets = set (map ci_intent_id cs) # rest"
    using Suc.prems(2) by (simp add: sql_claim cs lift_eventic_def rest_def split_def Let_def)
  have "outbox_ok (wo_db ?w)" using claim_keeps_ok Suc.prems(1) by simp
  from Suc.IH [OF this] have IH: "\<Union> (set rest) = in_intent_id ` set (take (n * ?l) (drop ?l ?queue))"
    "sum_list (map card rest) = card (\<Union> (set rest))"
    using claim_queue_after [OF Suc.prems(1) assms(3)] by (simp_all add: rest_def)
  have mine: "set (map ci_intent_id cs) = in_intent_id ` set (take ?l ?queue)"
    by (simp only: claimed_ids(1) [OF cs Suc.prems(1)] claim_ids_alt set_map)
  from claim_queue_ids [OF Suc.prems(1)] have "distinct (map in_intent_id (take ?l ?queue) @ map in_intent_id (drop ?l ?queue))"
    by (metis append_take_drop_id map_append)
  then have disjoint: "set (map ci_intent_id cs) \<inter> \<Union> (set rest) = {}"
    unfolding IH mine by (auto dest: in_set_takeD)
  have "\<Union> (set sets) = in_intent_id ` set (take (Suc n * ?l) ?queue)"
    by (simp add: sets IH mine take_add image_Un del: set_map)
  moreover have "card (\<Union> (set sets)) = card (set (map ci_intent_id cs)) + card (\<Union> (set rest))"
    using card_Un_disjoint [OF finite_set _ disjoint] IH(1) by (simp add: sets del: set_map)
  ultimately show ?case using IH(2) by (simp add: sets del: set_map)
qed simp

section \<open>Properties\<close>

text \<open>
  A race has one winner: whichever order the writers' transactions happen in, the race step of the kit
  passes on the SQL store.  The first writer commits and every other one is told that the revision was taken,
  for a stream without a configured encoding, a step that names the aggregate's head and writers whose
  documents have different digests.
\<close>

theorem races_have_one_winner:
  assumes "float_codec P" "store_ok P encs (wo_db w)" "encs (rs_stream r) = None" "race_ready P (wo_db w) r"
    and "racers_distinct P order" "order \<noteq> []" "length order = rs_writers r"
  shows "fst (run_race P (sql_store P Q name encs) r order w) = Inr ()"
proof -
  obtain i rest where order: "order = i # rest" using assms(6) by (cases order) simp_all
  from run_race_decides [OF assms(1-4), of i rest Q name] assms(5,7) show ?thesis by (auto simp: order)
qed

definition sample_race :: race_step where
  "sample_race =
     \<lparr>rs_name = ''three writers race one create'', rs_stream = ''todos'', rs_aggregate_id = 5, rs_expected_revision = None,
      rs_kind = ''create'', rs_writers = 3, rs_schema_version = 1, rs_meta_version = 1, rs_fingerprint = ''f''\<rparr>"

lemma races_have_one_winner_witness:
  "fst (run_race sample_platform sample_sql_store sample_race [2, 0, 1] (sample_world empty_db)) = Inr ()"
proof -
  have ready: "race_ready sample_platform empty_db sample_race"
    by (simp add: race_ready_def sample_race_def empty_db_def select_head_def)
  have "racers_distinct sample_platform [2, 0, 1]"
    by (simp add: racers_distinct_def sample_platform_def racer_doc_def) code_simp
  then show ?thesis
    unfolding sample_sql_store_def
    by (intro races_have_one_winner) (use ready sample_float_codec sample_empty_ok in \<open>simp_all add: sample_world_def sample_race_def\<close>)
qed

text \<open>
  Drainers that claim at the same time never share an intent: the kit's check of concurrent drainers can
  fail only on the number of intents, which is what the drainers can take together or the length of the queue,
  whichever is less.
\<close>

theorem concurrent_drainers_never_share:
  assumes "outbox_ok (wo_db w)" "1 \<le> ds_limit q" "0 \<le> ds_lease q"
  shows "fst (run_drainers (sql_store P Q name encs) q w) =
    (if ds_expect_total q = min (ds_drainers q * nat (ds_limit q)) (length (claim_queue (wo_db w) (ds_queue q) (wo_now w)))
     then Inr () else Inl (Step_failure Wrong_total))"
proof -
  let ?n = "ds_drainers q * nat (ds_limit q)" and ?queue = "claim_queue (wo_db w) (ds_queue q) (wo_now w)"
  define sets where "sets = fst (drainer_claims (sql_store P Q name encs) q (ds_drainers q) w)"
  have "distinct (map in_intent_id (take ?n ?queue))"
    using claim_queue_ids [OF assms(1)] by (simp flip: take_map)
  from distinct_card [OF this] have "card (in_intent_id ` set (take ?n ?queue)) = min ?n (length ?queue)"
    by (simp add: min.commute)
  with drainer_claims_take [OF assms sets_def [symmetric]] show ?thesis
    by (auto simp: run_drainers_def judge_drainers_def split_def sets_def Let_def)
qed

definition sample_drainers :: drainers_step where
  "sample_drainers =
     \<lparr>ds_name = ''two drainers, one intent'', ds_queue = ''default'', ds_drainers = 2, ds_limit = 1,
      ds_expect_total = 1, ds_lease = 30\<rparr>"

lemma concurrent_drainers_never_share_witness:
  "fst (run_drainers sample_sql_store sample_drainers (sample_world sample_outbox\<lparr>wo_now := 200\<rparr>)) = Inr ()"
proof -
  have "length (claim_queue sample_outbox ''default'' 200) = 1"
    by (simp add: claim_queue_def sample_outbox_def sample_intent_def claimable_def revision_of_intent_def sample_db_def)
  then show ?thesis
    unfolding sample_sql_store_def
    by (subst concurrent_drainers_never_share) (simp_all add: sample_drainers_def sample_world_def sample_outbox_ok)
qed

end
