(* ===== verification/Scenario_Facts.thy ===== *)
theory Scenario_Facts
  imports Scenarios Conformance_Facts
begin

text \<open>
  The SQL store passes the kit: every scenario of the corpus, run on a fresh SQLite store, passes or, where it
  wants row locks, is skipped.  The scenarios are evaluated on the model; hashes are kept symbolic.
\<close>

named_theorems kit_simps \<open>evaluation of a step on explicit tables\<close>

section \<open>Commits on explicit tables\<close>

text \<open>The parsed payload and metadata of a request, and the tables after it was appended as a snapshot.\<close>

definition request_doc :: "platform \<Rightarrow> commit_request \<Rightarrow> json" where
  "request_doc P req = the (loads P (cq_payload req))"

definition request_meta :: "platform \<Rightarrow> commit_request \<Rightarrow> json" where
  "request_meta P req = the (loads P (cq_meta req))"

definition request_row :: "platform \<Rightarrow> time \<Rightarrow> commit_request \<Rightarrow> revision_row" where
  "request_row P now req = new_revision_row P now req (request_doc P req) snapshot_id (request_meta P req)"

definition commit_db :: "platform \<Rightarrow> time \<Rightarrow> db \<Rightarrow> commit_request \<Rightarrow> db" where
  "commit_db P now d req =
     upsert_fingerprint
       (d\<lparr>db_revisions := db_revisions d @ [request_row P now req],
          db_heads := upsert_head_rows (new_head_row P now req (request_doc P req) (request_meta P req)) (db_heads d),
          db_intents := db_intents d @ map (new_intent_row P now) (cq_intents req)\<rparr>)
       (ledger_row now req)"

lemma commit_db_tables [kit_simps]:
  "db_revisions (commit_db P now d req) = db_revisions d @ [request_row P now req]"
  "db_heads (commit_db P now d req) =
     upsert_head_rows (new_head_row P now req (request_doc P req) (request_meta P req)) (db_heads d)"
  "db_intents (commit_db P now d req) = db_intents d @ map (new_intent_row P now) (cq_intents req)"
  by (simp_all add: commit_db_def upsert_fingerprint_def split: option.split)

lemma request_row_fields [kit_simps]:
  "rv_revision_id (request_row P now req) = request_rid P req" "rv_stream (request_row P now req) = cq_stream req"
  "rv_aggregate_id (request_row P now req) = cq_aggregate_id req" "rv_revision (request_row P now req) = target_of req"
  "rv_kind (request_row P now req) = cq_kind req" "rv_schema_version (request_row P now req) = cq_schema_version req"
  "rv_meta_version (request_row P now req) = cq_meta_version req" "rv_encoding (request_row P now req) = snapshot_id"
  "rv_payload (request_row P now req) = request_doc P req" "rv_digest (request_row P now req) = cq_digest req"
  "rv_meta (request_row P now req) = request_meta P req" "rv_committed_at (request_row P now req) = now"
  by (simp_all add: request_row_def new_revision_row_def)

lemma new_head_fields [kit_simps]:
  "hd_stream (new_head_row P now req doc meta) = cq_stream req" "hd_aggregate_id (new_head_row P now req doc meta) = cq_aggregate_id req"
  "hd_revision (new_head_row P now req doc meta) = target_of req" "hd_revision_id (new_head_row P now req doc meta) = request_rid P req"
  "hd_state (new_head_row P now req doc meta) = doc" "hd_digest (new_head_row P now req doc meta) = cq_digest req"
  "hd_meta (new_head_row P now req doc meta) = meta" "hd_schema_version (new_head_row P now req doc meta) = cq_schema_version req"
  "hd_meta_version (new_head_row P now req doc meta) = cq_meta_version req" "hd_committed_at (new_head_row P now req doc meta) = now"
  by (simp_all add: new_head_row_def)

definition is_object :: "json \<Rightarrow> bool" where
  "is_object v \<longleftrightarrow> (case v of JObj _ \<Rightarrow> True | _ \<Rightarrow> False)"

definition readable_request :: "platform \<Rightarrow> commit_request \<Rightarrow> bool" where
  "readable_request P req \<longleftrightarrow>
     loads P (cq_payload req) = Some (request_doc P req) \<and> is_object (request_doc P req) \<and>
     py_canonical_bytes P (request_doc P req) = Inr (cq_payload req) \<and>
     loads P (cq_meta req) = Some (request_meta P req) \<and> is_object (request_meta P req)"

lemma column_loads_object: "is_object v \<Longrightarrow> column_loads P v = Inr v"
  by (simp add: is_object_def column_loads_def split: json.splits)

lemma snapshot_request:
  assumes "readable_request P req" "\<forall>h \<in> set_option head. is_object (hd_state h)"
  shows "physical_payload P Map.empty req head = Inr (request_doc P req, snapshot_id)"
    "bytes_loads P (cq_meta req) = Inr (request_meta P req)"
  using assms
  by (auto simp: physical_payload_def readable_request_def bytes_loads_def encoding_for_def column_loads_object
      lift_py_def snapshot_encode_def snapshot_id_def split: option.split)

lemma commit_appends:
  assumes "readable_request P req"
    and "select_revision_row d (cq_stream req) (cq_aggregate_id req) (target_of req) = None"
    and "cas_ok req (select_head d (cq_stream req) (cq_aggregate_id req))"
    and "\<forall>h \<in> set_option (select_head d (cq_stream req) (cq_aggregate_id req)). is_object (hd_state h)"
  shows "commit_one P Map.empty now d req =
    (case revision_violation d (request_row P now req) of
       Some c \<Rightarrow> Inl (Integrity c)
     | None \<Rightarrow> rbind (insert_intents P now (cq_intents req)
           (upsert_head (d\<lparr>db_revisions := db_revisions d @ [request_row P now req]\<rparr>)
             (new_head_row P now req (request_doc P req) (request_meta P req))))
         (\<lambda>d2. Inr (upsert_fingerprint d2 (ledger_row now req), commit_result_of P now req False)))"
proof -
  let ?d = "d\<lparr>db_revisions := db_revisions d @ [request_row P now req]\<rparr>"
  have "select_revision_row ?d (cq_stream req) (cq_aggregate_id req) (target_of req) = Some (request_row P now req)"
    using assms(2) by (auto simp: select_revision_row_def find_append of_aggregate_def request_row_fields)
  then have "decode_log_revision P Map.empty ?d (cq_stream req) (cq_aggregate_id req) (target_of req) = Inr (request_doc P req)"
    using assms(1) by (simp add: decode_log_revision_def request_row_fields readable_request_def column_loads_object)
  then show ?thesis
    using assms snapshot_request [OF assms(1,4)]
    by (simp add: commit_one_def commit_one_from_def append_revision_def insert_revision_def readable_request_def
        flip: request_row_def split: option.split)
qed

lemma commit_succeeds:
  assumes "readable_request P req" "select_revision_row d (cq_stream req) (cq_aggregate_id req) (target_of req) = None"
    and "cas_ok req (select_head d (cq_stream req) (cq_aggregate_id req))"
    and "\<forall>h \<in> set_option (select_head d (cq_stream req) (cq_aggregate_id req)). is_object (hd_state h)"
    and "revision_violation d (request_row P now req) = None" "intents_fresh P d (cq_intents req)"
  shows "commit_one P Map.empty now d req = Inr (commit_db P now d req, commit_result_of P now req False)"
proof -
  let ?d = "upsert_head (d\<lparr>db_revisions := db_revisions d @ [request_row P now req]\<rparr>)
    (new_head_row P now req (request_doc P req) (request_meta P req))"
  have "intents_fresh P ?d (cq_intents req)" using assms(6) by (simp add: intents_fresh_def upsert_head_def)
  then obtain d2 where "insert_intents P now (cq_intents req) ?d = Inr d2" using intents_fresh_insert by blast
  with insert_intents_Inr [OF this] show ?thesis
    using commit_appends [OF assms(1-4)] assms(5) by (simp add: commit_db_def upsert_head_def)
qed

text \<open>A row or an intent that violates a constraint.\<close>

lemma commit_violates:
  assumes "readable_request P req" "select_revision_row d (cq_stream req) (cq_aggregate_id req) (target_of req) = None"
    and "cas_ok req (select_head d (cq_stream req) (cq_aggregate_id req))"
    and "\<forall>h \<in> set_option (select_head d (cq_stream req) (cq_aggregate_id req)). is_object (hd_state h)"
    and "revision_violation d (request_row P now req) \<noteq> None"
  shows "commit_one P Map.empty now d req = Inl (Integrity (the (revision_violation d (request_row P now req))))"
  using commit_appends [OF assms(1-4), of now] assms(5) by auto

lemma commit_bad_intent:
  assumes "readable_request P req" "select_revision_row d (cq_stream req) (cq_aggregate_id req) (target_of req) = None"
    and "cas_ok req (select_head d (cq_stream req) (cq_aggregate_id req))"
    and "\<forall>h \<in> set_option (select_head d (cq_stream req) (cq_aggregate_id req)). is_object (hd_state h)"
    and "revision_violation d (request_row P now req) = None" "cq_intents req \<noteq> []" "ir_queue (hd (cq_intents req)) = []"
  shows "commit_one P Map.empty now d req = Inl (Integrity Ck_intent_queue)"
proof -
  obtain i rest where "cq_intents req = i # rest" using assms(6) by (cases "cq_intents req") simp_all
  then show ?thesis
    using commit_appends [OF assms(1-4), of now] assms(5,7)
    by (simp add: insert_intent_def intent_violation_def new_intent_row_def)
qed

lemma commit_conflicts:
  assumes "select_revision_row d (cq_stream req) (cq_aggregate_id req) (target_of req) = None"
    and "\<not> cas_ok req (select_head d (cq_stream req) (cq_aggregate_id req))"
  shows "commit_one P encs now d req = Inl (Eventic RevisionConflict)"
  using assms by (simp add: commit_one_def commit_one_from_def)

text \<open>A request for a revision that is there, when the head is not behind it.\<close>

lemma commit_repeats:
  assumes "select_revision_row d (cq_stream req) (cq_aggregate_id req) (target_of req) \<noteq> None"
    and "select_head d (cq_stream req) (cq_aggregate_id req) \<noteq> None"
    and "rv_revision (the (select_revision_row d (cq_stream req) (cq_aggregate_id req) (target_of req)))
      \<le> hd_revision (the (select_head d (cq_stream req) (cq_aggregate_id req)))"
    and "is_object (rv_meta (the (select_revision_row d (cq_stream req) (cq_aggregate_id req) (target_of req))))"
    and "loads P (cq_meta req) \<noteq> None"
  shows "commit_one P encs now d req =
    (let row = the (select_revision_row d (cq_stream req) (cq_aggregate_id req) (target_of req)) in
     if rv_kind row = cq_kind req \<and> rv_schema_version row = cq_schema_version req \<and>
        rv_meta_version row = cq_meta_version req \<and> rv_digest row = cq_digest req \<and>
        py_eq (rv_meta row) (the (loads P (cq_meta req)))
     then Inr (d, commit_result_of P now req True) else Inl (Eventic RevisionConflict))"
  using assms
  by (auto simp: commit_one_def commit_one_from_def is_identical_def column_loads_object bytes_loads_def Let_def)

section \<open>The hashes of the corpus\<close>

definition kit_keys :: "(string \<times> uuid \<times> int) set" where
  "kit_keys = {(''todos'', agg_a, 0), (''todos'', agg_a, 1), (''todos'', agg_a, 2), (''todos'', agg_b, 0),
     (''todos'', 3, 0), (''audits'', agg_a, 0)}"

text \<open>What the corpus needs of the hashes: they tell its documents, revisions and intents apart.\<close>

definition kit_platform :: "platform \<Rightarrow> bool" where
  "kit_platform P \<longleftrightarrow>
     float_codec P \<and>
     inj_on (\<lambda>(s, a, n). revision_id P s a n) kit_keys \<and>
     inj_on (digest_of P) {doc1, doc2, doc3} \<and>
     racers_distinct P [0..<8] \<and>
     intent_id P (intent ''sub.a'' (todo_rid P 0)) \<noteq> intent_id P (intent ''sub.b'' (todo_rid P 0))"

lemma kit_revision_ids:
  assumes "kit_platform P" "(s, a, n) \<in> kit_keys" "(t, b, m) \<in> kit_keys"
  shows "revision_id P s a n = revision_id P t b m \<longleftrightarrow> (s, a, n) = (t, b, m)"
proof -
  from assms(1) have "inj_on (\<lambda>(s, a, n). revision_id P s a n) kit_keys" by (simp add: kit_platform_def)
  from inj_on_eq_iff [OF this assms(2,3)] show ?thesis by simp
qed

lemma kit_canon [kit_simps]:
  "canon doc1 = JObj [(''done'', JBool False), (''text'', JStr ''a'')]"
  "canon doc2 = JObj [(''done'', JBool False), (''text'', JStr ''b'')]"
  "canon doc3 = JObj [(''done'', JBool True), (''text'', JStr ''c'')]"
  "canon (tagged t v) = JObj [(''meta'', canon v), (''text'', JStr t)]"
  by (simp_all add: doc1_def doc2_def doc3_def tagged_def)

section \<open>Evaluating steps\<close>

definition kit_request ::
  "platform \<Rightarrow> string \<Rightarrow> uuid \<Rightarrow> int option \<Rightarrow> string \<Rightarrow> int \<Rightarrow> json \<Rightarrow> json \<Rightarrow> intent_request list \<Rightarrow> commit_request" where
  "kit_request P stream a expected kind version obj meta intents =
     \<lparr>cq_stream = stream, cq_aggregate_id = a, cq_expected_revision = expected, cq_kind = kind,
      cq_schema_version = version, cq_payload = payload P obj, cq_digest = digest_of P obj,
      cq_meta = payload P meta, cq_meta_version = 1, cq_fingerprint = [], cq_intents = intents\<rparr>"

lemma kit_request_fields [kit_simps]:
  "cq_stream (kit_request P s a e k v obj meta is) = s" "cq_aggregate_id (kit_request P s a e k v obj meta is) = a"
  "cq_expected_revision (kit_request P s a e k v obj meta is) = e" "cq_kind (kit_request P s a e k v obj meta is) = k"
  "cq_schema_version (kit_request P s a e k v obj meta is) = v" "cq_digest (kit_request P s a e k v obj meta is) = digest_of P obj"
  "cq_meta (kit_request P s a e k v obj meta is) = payload P meta" "cq_meta_version (kit_request P s a e k v obj meta is) = 1"
  "cq_payload (kit_request P s a e k v obj meta is) = payload P obj" "cq_intents (kit_request P s a e k v obj meta is) = is"
  "target_of (kit_request P s a e k v obj meta is) = (case e of None \<Rightarrow> 0 | Some n \<Rightarrow> n + 1)"
  "request_rid P (kit_request P s a e k v obj meta is) = revision_id P s a (case e of None \<Rightarrow> 0 | Some n \<Rightarrow> n + 1)"
  by (simp_all add: kit_request_def target_of_def request_rid_def)

text \<open>A document of the corpus.\<close>

definition kit_doc :: "json \<Rightarrow> bool" where
  "kit_doc v \<longleftrightarrow> json_ok v \<and> json_finite v \<and> is_object v"

lemma kit_docs [kit_simps]:
  "kit_doc doc1" "kit_doc doc2" "kit_doc doc3" "kit_doc (JObj [])" "kit_doc (JObj [(k, JStr t)])"
  "kit_doc (tagged t JNull)" "kit_doc (tagged t (JObj [(k, JStr u)]))"
  by (simp_all add: kit_doc_def doc1_def doc2_def doc3_def tagged_def is_object_def)

lemma loads_payload [kit_simps]: "float_codec P \<Longrightarrow> kit_doc v \<Longrightarrow> loads P (payload P v) = Some (canon v)"
  by (simp add: kit_doc_def payload_def canonical_bytes_alt loads_canonical)

lemma is_object_canon: "kit_doc v \<Longrightarrow> is_object (canon v)"
  by (cases v) (simp_all add: kit_doc_def is_object_def)

lemma kit_request_readable [kit_simps]:
  assumes "float_codec P" "kit_doc obj" "kit_doc meta"
  shows "readable_request P (kit_request P s a e k v obj meta is)"
    "request_doc P (kit_request P s a e k v obj meta is) = canon obj"
    "request_meta P (kit_request P s a e k v obj meta is) = canon meta"
proof -
  show doc: "request_doc P (kit_request P s a e k v obj meta is) = canon obj"
    and meta: "request_meta P (kit_request P s a e k v obj meta is) = canon meta"
    using assms by (simp_all add: request_doc_def request_meta_def kit_simps)
  have "py_canonical_bytes P (canon obj) = Inr (payload P obj)"
    using assms(2) by (simp add: py_canonical_bytes_def payload_def canonical_bytes_alt kit_doc_def)
  then show "readable_request P (kit_request P s a e k v obj meta is)"
    using assms by (simp add: readable_request_def doc meta kit_request_fields loads_payload is_object_canon)
qed

lemma step_keys [kit_simps]:
  "step_key ''todos'' a = Inr (AggregateKey ''todos'' a)" "step_key ''audits'' a = Inr (AggregateKey ''audits'' a)"
  by (simp_all add: step_key_def make_aggregate_key_def) (code_simp)+

lemma to_kit_request [kit_simps]:
  "to_request (plain_commit P nm s a e k obj meta) = kit_request P s a e k 1 obj meta []"
  "to_request (c\<lparr>cs_expect_revision := x\<rparr>) = to_request c" "to_request (c\<lparr>cs_expect_replayed := y\<rparr>) = to_request c"
  "to_request (c\<lparr>cs_expect_error := z\<rparr>) = to_request c"
  "to_request (c\<lparr>cs_intents := is\<rparr>) = (to_request c)\<lparr>cq_intents := is\<rparr>"
  "to_request (c\<lparr>cs_schema_version := v\<rparr>) = (to_request c)\<lparr>cq_schema_version := v\<rparr>"
  "(kit_request P s a e k u obj meta js)\<lparr>cq_intents := is\<rparr> = kit_request P s a e k u obj meta is"
  "(kit_request P s a e k u obj meta js)\<lparr>cq_schema_version := v\<rparr> = kit_request P s a e k v obj meta js"
  by (simp_all add: to_request_def plain_commit_def kit_request_def)

lemma plain_commit_expects [kit_simps]:
  "cs_expect_revision (plain_commit P nm s a e k obj meta) = None"
  "cs_expect_replayed (plain_commit P nm s a e k obj meta) = None"
  "cs_expect_error (plain_commit P nm s a e k obj meta) = None"
  by (simp_all add: plain_commit_def)

lemma todo_plain [kit_simps]:
  "todo P e k obj = plain_commit P (''commit '' @ k @ '' rev='' @ (case e of None \<Rightarrow> ''None'' | Some n \<Rightarrow> show_int n))
     ''todos'' agg_a e k obj no_meta"
  by (simp add: todo_def mk_commit_def)

lemma sql_commits [kit_simps]:
  "so_commit (sql_store P Q name encs) [req] w =
     (case commit_one P encs (wo_db_now w) (wo_db w) req of
        Inl e \<Rightarrow> (Inl (Eventic (commit_error e)), w)
      | Inr (d, res) \<Rightarrow> (Inr [res], w\<lparr>wo_db := d\<rparr>))"
  by (rule sql_commit_one)

lemma sql_batches [kit_simps]:
  "so_commit (sql_store P Q name encs) (r # q # rs) w =
     (if length rs + 2 > cp_max_batch (capabilities_of name) then (Inl (Eventic UsageError), w)
      else
        (case rfold (commit_one P encs (wo_db_now w)) (wo_db w) (r # q # rs) of
           Inl e \<Rightarrow> (Inl (Eventic (commit_error e)), w)
         | Inr (d, results) \<Rightarrow> (Inr results, w\<lparr>wo_db := d\<rparr>)))"
  by (auto simp: sql_store_def on_tables_def store_commit_def lift_eventic_def simp del: rfold.simps split: sum.split prod.split)

lemma max_batch [kit_simps]: "n \<le> 100 \<Longrightarrow> \<not> cp_max_batch (capabilities_of name) < n"
  by (cases name) (simp_all add: capabilities_of_def sqlite_capabilities_def postgres_capabilities_def)

lemma sql_reads [kit_simps]:
  "so_head (sql_store P Q name encs) key w = store_head P (wo_db w) key"
  "so_revision (sql_store P Q name encs) key n w = store_revision P encs (wo_db w) key n"
  "so_history (sql_store P Q name encs) key after limit w = store_history P encs (wo_db w) key after limit"
  "so_search (sql_store P Q name encs) s filters cursor limit w = store_search P Q name (wo_db w) s filters cursor limit"
  "so_capabilities (sql_store P Q name encs) = capabilities_of name"
  by (simp_all add: sql_store_def)

lemma empty_tables [kit_simps]: "db_revisions empty_db = []" "db_heads empty_db = []" "db_intents empty_db = []"
  by (simp_all add: empty_db_def)

lemma column_loads_JObj [kit_simps]: "column_loads P (JObj v) = Inr (JObj v)"
  by (simp add: column_loads_def)

lemma kit_doc_eq [kit_simps]:
  "py_eq (JObj [(''done'', JBool False), (''text'', JStr ''a'')]) doc1"
  "py_eq (JObj [(''done'', JBool False), (''text'', JStr ''b'')]) doc2"
  "py_eq (JObj [(''done'', JBool True), (''text'', JStr ''c'')]) doc3"
  "py_eq no_meta no_meta" "\<not> py_eq (JObj [(''tag'', JStr ''x'')]) (JObj [(''tag'', JStr ''y'')])"
  by (simp_all add: doc1_def doc2_def doc3_def scalar_eq_def)

lemma kit_documents:
  assumes "kit_platform P"
  shows "float_codec P" "digest_of P doc1 \<noteq> digest_of P doc2" "digest_of P doc2 \<noteq> digest_of P doc3"
    "digest_of P doc1 \<noteq> digest_of P doc3"
proof -
  show "float_codec P" using assms by (simp add: kit_platform_def)
  have "inj_on (digest_of P) {doc1, doc2, doc3}" using assms unfolding kit_platform_def by blast
  then have "digest_of P v = digest_of P w \<longleftrightarrow> v = w" if "v \<in> {doc1, doc2, doc3}" "w \<in> {doc1, doc2, doc3}" for v w
    using that by (rule inj_on_eq_iff)
  moreover have "doc1 \<noteq> doc2" "doc2 \<noteq> doc3" "doc1 \<noteq> doc3" by (simp_all add: doc1_def doc2_def doc3_def)
  ultimately show "digest_of P doc1 \<noteq> digest_of P doc2" "digest_of P doc2 \<noteq> digest_of P doc3"
    "digest_of P doc1 \<noteq> digest_of P doc3" by simp_all
qed

lemma aggregates_differ [kit_simps]: "agg_a \<noteq> agg_b" "agg_b \<noteq> agg_a" "agg_a \<noteq> 3" "3 \<noteq> agg_a" "agg_b \<noteq> 3" "3 \<noteq> agg_b"
  by (simp_all add: agg_a_def agg_b_def)

lemmas kit_eval =
  kit_simps mk_scenario_def run_scenario_def run_step_def run_commit_def run_head_def check_revision_def
  expects_def expect_raise_def differs_def check_commit_def stamped_def escape_def mk_head_def
  commit_error_def commit_result_of_def cas_ok_def select_head_def select_revision_row_def of_aggregate_def
  store_head_def head_row_to_stored_def intents_fresh_def revision_violation_def
  run_batch_def is_revision_race_def intent_def run_exact_def run_history_def mk_exact_def mk_history_def mk_commit_def store_revision_def store_history_def
  select_history_def history_item_def decode_log_revision_def log_row_to_stored_def translate_read_def
  kit_keys_def rv_key_def Let_def is_object_def

definition kit_passes :: "'x world_scheme runner \<Rightarrow> 'x world_scheme store_api \<Rightarrow> 'x world_scheme \<Rightarrow> scenario list \<Rightarrow> bool" where
  "kit_passes R S w sns \<longleftrightarrow> list_all (\<lambda>sn. passed (run_scenario R S (Inr w) True sn)) sns"

lemma kit_passes_simps [simp]:
  "kit_passes R S w []" "kit_passes R S w (sn # sns) \<longleftrightarrow> passed (run_scenario R S (Inr w) True sn) \<and> kit_passes R S w sns"
  by (simp_all add: kit_passes_def)

lemmas kit_run = kit_eval commit_succeeds commit_conflicts commit_repeats commit_violates commit_bad_intent

lemma cas_scenarios_pass:
  assumes "kit_platform P" "wo_db w = empty_db"
  shows "kit_passes R (sql_store P Q name Map.empty) w (cas_scenarios P)"
  using kit_documents [OF assms(1)] unfolding cas_scenarios_def kit_passes_simps
  by (simp add: kit_run assms(2) kit_revision_ids [OF assms(1)] del: py_eq.simps)

lemma replay_scenarios_pass:
  assumes "kit_platform P" "wo_db w = empty_db"
  shows "kit_passes R (sql_store P Q name Map.empty) w (replay_scenarios P)"
  using kit_documents [OF assms(1)] unfolding replay_scenarios_def kit_passes_simps
  by (simp add: kit_run assms(2) kit_revision_ids [OF assms(1)] del: py_eq.simps)

lemma identity_scenarios_pass:
  assumes "kit_platform P" "wo_db w = empty_db"
  shows "kit_passes R (sql_store P Q name Map.empty) w (identity_scenarios P)"
  using kit_documents [OF assms(1)] unfolding identity_scenarios_def kit_passes_simps
  by (simp add: kit_run assms(2) kit_revision_ids [OF assms(1)] del: py_eq.simps)

lemma atomicity_scenarios_pass:
  assumes "kit_platform P" "wo_db w = empty_db"
  shows "kit_passes R (sql_store P Q name Map.empty) w (atomicity_scenarios P)"
  using kit_documents [OF assms(1)] unfolding atomicity_scenarios_def kit_passes_simps
  by (simp add: kit_run assms(2) kit_revision_ids [OF assms(1)] del: py_eq.simps)

lemma batch_scenarios_pass:
  assumes "kit_platform P" "wo_db w = empty_db"
  shows "kit_passes R (sql_store P Q name Map.empty) w (batch_scenarios P)"
  using kit_documents [OF assms(1)] unfolding batch_scenarios_def kit_passes_simps
  by (simp add: kit_run assms(2) kit_revision_ids [OF assms(1)] del: py_eq.simps)

lemma read_scenarios_pass:
  assumes "kit_platform P" "wo_db w = empty_db"
  shows "kit_passes R (sql_store P Q name Map.empty) w (read_scenarios P)"
  using kit_documents [OF assms(1)] unfolding read_scenarios_def kit_passes_simps
  by (simp add: kit_run assms(2) kit_revision_ids [OF assms(1)] del: py_eq.simps)

lemma error_scenarios_pass:
  assumes "kit_platform P" "wo_db w = empty_db"
  shows "kit_passes R (sql_store P Q name Map.empty) w (error_scenarios P)"
  using kit_documents [OF assms(1)] unfolding error_scenarios_def kit_passes_simps
  by (simp add: kit_run assms(2) kit_revision_ids [OF assms(1)] del: py_eq.simps)

lemma head_time_scenarios_pass:
  assumes "kit_platform P" "wo_db w = empty_db"
  shows "kit_passes R (sql_store P Q name Map.empty) w (head_time_scenarios P)"
  using kit_documents [OF assms(1)] unfolding head_time_scenarios_def kit_passes_simps
  by (simp add: kit_run run_time_def mk_time_def assms(2) kit_revision_ids [OF assms(1)] del: py_eq.simps)

section \<open>Searches\<close>

lemma kit_paths:
  "plain_path ''text''" "plain_path ''meta''" "plain_path ''meta.tag''"
  "split_path ''text'' = [''text'']" "split_path ''meta'' = [''meta'']" "split_path ''meta.tag'' = [''meta'', ''tag'']"
  by code_simp+

lemma aggregates_ordered: "agg_a \<le> agg_b" "\<not> agg_b \<le> agg_a"
  by (simp_all add: agg_a_def agg_b_def word_le_nat_alt)

text \<open>
  What the corpus needs of PostgreSQL's \<open>@>\<close>: an object contains another whose members are contained in the
  members of the same names, and what is not an array contains a string or \<open>null\<close> exactly when it is that.
\<close>

definition postgres_containment :: "sql_json \<Rightarrow> bool" where
  "postgres_containment Q \<longleftrightarrow>
     (\<forall>d e. json_contains Q (JObj d) (JObj e) \<longleftrightarrow>
        list_all (\<lambda>(k, v). case map_of d k of None \<Rightarrow> False | Some w \<Rightarrow> json_contains Q w v) e) \<and>
     (\<forall>v s. (\<forall>xs. v \<noteq> JList xs) \<longrightarrow> json_contains Q v (JStr s) = (v = JStr s)) \<and>
     (\<forall>v. (\<forall>xs. v \<noteq> JList xs) \<longrightarrow> json_contains Q v JNull = (v = JNull))"

definition kit_json :: "dialect_name \<Rightarrow> sql_json \<Rightarrow> bool" where
  "kit_json name Q \<longleftrightarrow> (case name of Sqlite \<Rightarrow> sqlite_json_functions Q | Postgresql \<Rightarrow> postgres_containment Q)"

lemma capability_flags [kit_simps]:
  "set (capability_names (capabilities_of Sqlite)) = {''outbox'', ''json_paths''}"
  "set (capability_names (capabilities_of Postgresql)) = {''outbox'', ''json_paths'', ''concurrent_drainers''}"
  by (simp_all add: capability_names_def capabilities_of_def sqlite_capabilities_def postgres_capabilities_def)

lemmas kit_search =
  kit_run run_search_def mk_search_def store_search_def search_heads_def matches_def sql_limit_def
  kit_paths aggregates_ordered after_key_def

lemma search_scenarios_pass:
  assumes "kit_platform P" "wo_db w = empty_db" "kit_json name Q"
  shows "kit_passes R (sql_store P Q name Map.empty) w (search_scenarios P)"
proof (cases name)
  case Sqlite
  then have "sqlite_json_functions Q" using assms(3) by (simp add: kit_json_def)
  then show ?thesis
    using kit_documents [OF assms(1)] unfolding search_scenarios_def kit_passes_simps Sqlite
    by (simp add: kit_simps kit_search sqlite_path_equals assms(2) kit_revision_ids [OF assms(1)] del: py_eq.simps)
next
  case Postgresql
  then have "\<And>d e. json_contains Q (JObj d) (JObj e) \<longleftrightarrow>
      list_all (\<lambda>(k, v). case map_of d k of None \<Rightarrow> False | Some w \<Rightarrow> json_contains Q w v) e"
    "\<And>v s. (\<forall>xs. v \<noteq> JList xs) \<Longrightarrow> json_contains Q v (JStr s) = (v = JStr s)"
    "\<And>v. (\<forall>xs. v \<noteq> JList xs) \<Longrightarrow> json_contains Q v JNull = (v = JNull)"
    using assms(3) by (simp_all add: kit_json_def postgres_containment_def)
  then show ?thesis
    using kit_documents [OF assms(1)] unfolding search_scenarios_def kit_passes_simps Postgresql
    by (simp add: kit_simps kit_search path_equals_def nested_def assms(2) kit_revision_ids [OF assms(1)] del: py_eq.simps)
qed

section \<open>Outbox\<close>

text \<open>
  What the runner's surroundings do: the clock is the process's, sleeping for a tenth of a second lets at least
  that much time pass and leaves the tables alone, and in a race every writer gets its turn.
\<close>

definition kit_runner :: "platform \<Rightarrow> 'x world_scheme runner \<Rightarrow> bool" where
  "kit_runner P R \<longleftrightarrow>
     rn_platform R = P \<and> rn_clock R = wo_now \<and>
     (\<forall>w. wo_db (rn_sleep R tenth w) = wo_db w \<and> wo_now w + 100000 \<le> wo_now (rn_sleep R tenth w)) \<and>
     (\<forall>r. distinct (rn_order R r) \<and> set (rn_order R r) = {..<rs_writers r})"

lemma new_intent_fields [kit_simps]:
  "in_intent_id (new_intent_row P now i) = intent_id P i" "in_subscription_id (new_intent_row P now i) = ir_subscription_id i"
  "in_revision_id (new_intent_row P now i) = ir_revision_id i" "in_queue (new_intent_row P now i) = ir_queue i"
  "in_status (new_intent_row P now i) = ''pending''" "in_attempts (new_intent_row P now i) = 0"
  "in_available_at (new_intent_row P now i) = now" "in_leased_until (new_intent_row P now i) = None"
  by (simp_all add: new_intent_row_def)

lemma sql_outbox [kit_simps]:
  "so_claim (sql_store P Q name encs) queue limit lease w =
     (case store_claim (wo_db w) queue limit lease (wo_now w) of (r, d) \<Rightarrow> (lift_eventic r, w\<lparr>wo_db := d\<rparr>))"
  "so_settle (sql_store P Q name encs) ss w =
     (case settle_all (wo_db w) ss of
        Inr d \<Rightarrow> (Inr (), w\<lparr>wo_db := d\<rparr>) | Inl e \<Rightarrow> (Inl (Eventic (read_error e)), w))"
  by (rule sql_claim sql_settle)+

lemma claimed_tables [kit_simps]:
  "db_revisions (claim_mark_leased d ids t) = db_revisions d"
  "db_intents (claim_mark_leased d ids t) = map (\<lambda>i. if in_intent_id i \<in> set ids then lease_intent t i else i) (db_intents d)"
  by (simp_all add: claim_mark_leased_def lease_intent_def)

lemma intent_scenarios_pass:
  assumes "kit_platform P" "wo_db w = empty_db" "kit_runner P R" "wo_db_now w \<le> wo_now w"
  shows "kit_passes R (sql_store P Q name Map.empty) w (intent_scenarios P)"
proof -
  have outbox: "''outbox'' \<in> set (capability_names (capabilities_of name))"
    by (cases name) (simp_all add: capability_names_def capabilities_of_def sqlite_capabilities_def postgres_capabilities_def)
  have ids: "intent_id P (intent ''sub.a'' (todo_rid P 0)) \<noteq> intent_id P (intent ''sub.b'' (todo_rid P 0))"
    using assms(1) by (simp add: kit_platform_def)
  have runner: "rn_clock R = wo_now" "\<And>v. wo_db (rn_sleep R tenth v) = wo_db v"
    using assms(3) by (simp_all add: kit_runner_def)
  have slept: "wo_now w + 50000 < wo_now (rn_sleep R tenth (w\<lparr>wo_db := d\<rparr>))" for d
  proof -
    have "wo_now (w\<lparr>wo_db := d\<rparr>) + 100000 \<le> wo_now (rn_sleep R tenth (w\<lparr>wo_db := d\<rparr>))"
      using assms(3) unfolding kit_runner_def by blast
    then show ?thesis by simp
  qed
  show ?thesis
    using kit_documents [OF assms(1)] ids assms(4) unfolding intent_scenarios_def kit_passes_simps
    by (simp add: kit_simps kit_run with_intents_def claims_def todo_rid_def run_claim_def mk_claim_def run_settle_def
        mk_settle_def store_claim_def claim_select_def claimable_def revision_of_intent_def claimed_of_def
        lease_intent_def settle_one_def lift_eventic_def outbox runner slept
        assms(2) kit_revision_ids [OF assms(1)] del: py_eq.simps)
qed

section \<open>Concurrency\<close>

lemma racer_readable [kit_simps]:
  assumes "float_codec P"
  shows "readable_request P (racer_request P r i)" "request_doc P (racer_request P r i) = racer_doc i"
    "request_meta P (racer_request P r i) = no_meta"
proof -
  have ok: "loads P (dumps P (racer_doc i)) = Some (racer_doc i)" "loads P (dumps P no_meta) = Some no_meta"
    by (rule loads_dumps [OF assms]; simp add: racer_doc_def)+
  have bytes: "cq_payload (racer_request P r i) = dumps P (racer_doc i)" "cq_meta (racer_request P r i) = dumps P no_meta"
    by (simp_all add: racer_request_def race_request_def)
  show doc: "request_doc P (racer_request P r i) = racer_doc i" and meta: "request_meta P (racer_request P r i) = no_meta"
    by (simp_all only: request_doc_def request_meta_def bytes ok option.sel)
  have "py_canonical_bytes P (racer_doc i) = Inr (dumps P (racer_doc i))"
    using racer_bytes(3) [of P i] by (simp add: py_canonical_bytes_def)
  then show "readable_request P (racer_request P r i)"
    unfolding readable_request_def doc meta bytes using ok by (simp add: is_object_def racer_doc_def)
qed

lemma race_fields [kit_simps]:
  "rs_stream (mk_race nm s a e k) = s" "rs_aggregate_id (mk_race nm s a e k) = a"
  "rs_expected_revision (mk_race nm s a e k) = e" "rs_kind (mk_race nm s a e k) = k"
  "rs_writers (mk_race nm s a e k) = 8" "rs_schema_version (mk_race nm s a e k) = 1"
  by (simp_all add: mk_race_def)

lemma column_loads_racer [kit_simps]: "column_loads P (racer_doc i) = Inr (racer_doc i)"
  by (simp add: racer_doc_def column_loads_def)

text \<open>The order of a race starts with some writer.\<close>

lemma race_order:
  assumes "kit_platform P" "kit_runner P R" "rs_writers r = 8"
  obtains i order where "rn_order R r = i # order" "racers_distinct P (i # order)" "length (i # order) = rs_writers r"
proof -
  from assms(2,3) have o: "distinct (rn_order R r)" "set (rn_order R r) = {..<8}" by (simp_all add: kit_runner_def)
  then have len: "length (rn_order R r) = rs_writers r" using distinct_card [OF o(1)] assms(3) by simp
  have "set [0..<8] = {..<8::nat}" by auto
  then have "racers_distinct P (rn_order R r)"
    using assms(1) o by (simp add: kit_platform_def racers_distinct_def distinct_map)
  with len assms(3) that show thesis by (cases "rn_order R r") auto
qed

lemma empty_store_ok: "store_ok P Map.empty empty_db"
  by (rule store_ok_empty) (simp add: encodings_ok_def)

lemma kit_request_ok:
  assumes "float_codec P" "kit_doc obj" "kit_doc meta"
  shows "request_ok P (kit_request P s a e k v obj meta is)"
proof -
  have "is_doc v \<longleftrightarrow> is_object v \<and> json_ok v" for v by (cases v) (simp_all add: is_doc_def is_object_def)
  then have "is_doc (canon x)" if "kit_doc x" for x
    using that is_object_canon [OF that] by (simp add: kit_doc_def json_ok_canon del: canon.simps)
  moreover have "canonical_bytes P (canon obj) = Some (payload P obj)"
    using assms(2) by (simp add: payload_def canonical_bytes_alt kit_doc_def)
  ultimately show ?thesis
    using assms by (simp add: request_ok_def kit_request_fields loads_payload digest_of_def)
qed

text \<open>A race over consistent tables, evaluated: the step passes, and the tables get the first writer's revision.\<close>

lemma race_evaluates:
  assumes "kit_platform P" "kit_runner P R" "store_ok P Map.empty (wo_db w)" "rs_writers r = 8" "race_ready P (wo_db w) r"
    and "\<And>i. commit_one P Map.empty (wo_db_now w) (wo_db w) (racer_request P r i) = Inr (commit_db P (wo_db_now w) (wo_db w) (racer_request P r i), res i)"
  shows "\<exists>i. run_race P (sql_store P Q name Map.empty) r (rn_order R r) w =
    (Inr (), w\<lparr>wo_db := commit_db P (wo_db_now w) (wo_db w) (racer_request P r i)\<rparr>)"
proof -
  have P: "float_codec P" using assms(1) by (simp add: kit_platform_def)
  obtain i order where o: "rn_order R r = i # order" "racers_distinct P (i # order)" "length (i # order) = rs_writers r"
    using race_order [OF assms(1,2,4)] .
  from run_race_decides [OF P assms(3) _ assms(5) o(2,3), of Q name] assms(6) [of i] show ?thesis by (auto simp: o(1))
qed

lemma concurrency_scenarios_pass:
  assumes "kit_platform P" "wo_db w = empty_db" "kit_runner P R"
  shows "passed (run_scenario R (sql_store P Q name Map.empty) (Inr w) True (concurrency_scenarios P ! 0))"
    "passed (run_scenario R (sql_store P Q name Map.empty) (Inr w) True (concurrency_scenarios P ! 1))"
proof -
  have P: "float_codec P" "rn_platform R = P" using assms(1,3) by (simp_all add: kit_platform_def kit_runner_def)
  let ?c = "mk_race ''eight writers race one create'' ''todos'' agg_a None ''create''"
  have w: "rs_writers ?c = 8" by (rule race_fields)
  have ready: "race_ready P (wo_db w) ?c"
    by (simp add: race_ready_def kit_simps assms(2) kit_eval)
  have first: "commit_one P Map.empty (wo_db_now w) (wo_db w) (racer_request P ?c i) =
      Inr (commit_db P (wo_db_now w) (wo_db w) (racer_request P ?c i), commit_result_of P (wo_db_now w) (racer_request P ?c i) False)" for i
    by (rule commit_succeeds)
       (simp_all add: kit_eval P racer_readable racer_fields kit_simps race_target_def assms(2))
  obtain i where race: "run_race P (sql_store P Q name Map.empty) ?c (rn_order R ?c) w =
      (Inr (), w\<lparr>wo_db := commit_db P (wo_db_now w) (wo_db w) (racer_request P ?c i)\<rparr>)"
    using race_evaluates [OF assms(1,3) _ w ready first, of Q name] empty_store_ok by (auto simp: assms(2))
  show "passed (run_scenario R (sql_store P Q name Map.empty) (Inr w) True (concurrency_scenarios P ! 1))"
    by (simp add: concurrency_scenarios_def kit_simps kit_run P race racer_fields race_target_def assms(2))
  let ?d = "commit_db P (wo_db_now w) empty_db (kit_request P ''todos'' agg_a None ''create'' 1 doc1 no_meta [])"
  let ?w = "w\<lparr>wo_db := ?d\<rparr>"
  let ?c = "mk_race ''eight writers race one revision'' ''todos'' agg_a (Some 0) ''change''"
  have w: "rs_writers ?c = 8" by (rule race_fields)
  have create: "commit_one P Map.empty (wo_db_now w) empty_db (kit_request P ''todos'' agg_a None ''create'' 1 doc1 no_meta []) =
      Inr (?d, commit_result_of P (wo_db_now w) (kit_request P ''todos'' agg_a None ''create'' 1 doc1 no_meta []) False)"
    by (rule commit_succeeds) (simp_all add: kit_eval P)
  have ok: "store_ok P Map.empty (wo_db ?w)"
    using commit_one_preserves [OF P(1) empty_store_ok _ create] kit_request_ok [OF P(1)] by (simp add: kit_docs)
  have ready: "race_ready P (wo_db ?w) ?c"
    by (simp add: race_ready_def kit_simps race_target_def kit_eval P kit_revision_ids [OF assms(1)])
  have first: "commit_one P Map.empty (wo_db_now ?w) (wo_db ?w) (racer_request P ?c i) =
      Inr (commit_db P (wo_db_now ?w) (wo_db ?w) (racer_request P ?c i), commit_result_of P (wo_db_now w) (racer_request P ?c i) False)" for i
    by (simp, rule commit_succeeds)
       (simp_all add: kit_eval P racer_readable racer_fields kit_simps race_target_def kit_revision_ids [OF assms(1)])
  obtain i where race: "run_race P (sql_store P Q name Map.empty) ?c (rn_order R ?c) ?w =
      (Inr (), ?w\<lparr>wo_db := commit_db P (wo_db_now w) ?d (racer_request P ?c i)\<rparr>)"
    using race_evaluates [OF assms(1,3) ok w ready first, of Q name] by auto
  show "passed (run_scenario R (sql_store P Q name Map.empty) (Inr w) True (concurrency_scenarios P ! 0))"
    by (simp add: concurrency_scenarios_def kit_simps kit_run P race [simplified] racer_fields race_target_def assms(2))
qed

lemma drainers_scenario:
  assumes "kit_platform P" "wo_db w = empty_db" "wo_db_now w \<le> wo_now w"
  shows "case name of
      Sqlite \<Rightarrow> skipped (run_scenario R (sql_store P Q name Map.empty) (Inr w) True (concurrency_scenarios P ! 2))
    | Postgresql \<Rightarrow> passed (run_scenario R (sql_store P Q name Map.empty) (Inr w) True (concurrency_scenarios P ! 2))"
proof (cases name)
  case Sqlite
  then show ?thesis by (simp add: concurrency_scenarios_def mk_scenario_def run_scenario_def kit_simps Let_def)
next
  case Postgresql
  have ids: "intent_id P (intent ''sub.a'' (todo_rid P 0)) \<noteq> intent_id P (intent ''sub.b'' (todo_rid P 0))"
    using assms(1) by (simp add: kit_platform_def)
  let ?is = "[intent ''sub.a'' (todo_rid P 0), intent ''sub.b'' (todo_rid P 0)]"
  let ?q = "\<lparr>ds_name = ''two drainers split two intents'', ds_queue = ''q'', ds_drainers = 2, ds_limit = 1,
    ds_expect_total = 2, ds_lease = 1000000\<rparr>"
  let ?w = "w\<lparr>wo_db := commit_db P (wo_db_now w) empty_db (kit_request P ''todos'' agg_a None ''create'' 1 doc1 no_meta ?is)\<rparr>"
  have "outbox_ok (wo_db ?w)"
    using ids by (simp add: outbox_ok_def kit_simps intent_ok_def intent_def)
  moreover have "length (claim_queue (wo_db ?w) ''q'' (wo_now w)) = 2"
    using assms(3) by (simp add: claim_queue_def kit_simps claimable_def revision_of_intent_def intent_def todo_rid_def)
  ultimately have "fst (run_drainers (sql_store P Q name Map.empty) ?q ?w) = Inr ()"
    by (subst concurrent_drainers_never_share) simp_all
  then obtain w' where drained: "run_drainers (sql_store P Q Postgresql Map.empty) ?q ?w = (Inr (), w')"
    unfolding Postgresql by (cases "run_drainers (sql_store P Q Postgresql Map.empty) ?q ?w") simp
  have commit: "commit_one P Map.empty (wo_db_now w) empty_db (kit_request P ''todos'' agg_a None ''create'' 1 doc1 no_meta ?is) =
      Inr (wo_db ?w, commit_result_of P (wo_db_now w) (kit_request P ''todos'' agg_a None ''create'' 1 doc1 no_meta ?is) False)"
    unfolding world.simps
    by (simp, rule commit_succeeds) (use ids kit_documents [OF assms(1)] in \<open>simp_all add: kit_simps kit_eval intent_def\<close>)
  show ?thesis
    unfolding Postgresql dialect_name.case concurrency_scenarios_def
    by (simp add: kit_simps kit_eval with_intents_def assms(2) commit [simplified] drained [simplified] del: intent_def)
qed

section \<open>The corpus\<close>

lemma kit_passes_append: "kit_passes R S w (xs @ ys) \<longleftrightarrow> kit_passes R S w xs \<and> kit_passes R S w ys"
  by (simp add: kit_passes_def)

lemma passed_not_skipped: "passed r \<Longrightarrow> \<not> skipped r"
  by (cases r) simp_all

lemma kit_passes_counts:
  assumes "kit_passes R S w sns"
  shows "filter passed (run_all R S (\<lambda>_. Inr w) sns) = run_all R S (\<lambda>_. Inr w) sns"
    "filter skipped (run_all R S (\<lambda>_. Inr w) sns) = []"
  using assms by (induction sns) (auto simp: run_all_def passed_not_skipped)


text \<open>Hashes for which it is so: the text itself, and an id from four characters of the name.\<close>

definition kit_sample :: platform where
  "kit_sample = sample_platform
     \<lparr>uuid5 := \<lambda>ns s. of_char (last s) + 256 * of_char (s ! (length s - 3)) + 65536 * of_char (s ! 0) + 16777216 * of_char (s ! 11)\<rparr>"

definition kit_sample_runner :: "world runner" where
  "kit_sample_runner =
     \<lparr>rn_platform = kit_sample, rn_clock = wo_now, rn_sleep = \<lambda>_ w. w\<lparr>wo_now := wo_now w + 100000\<rparr>,
      rn_order = \<lambda>r. rev [0..<rs_writers r]\<rparr>"

lemma kit_names:
  "revision_name ''todos'' 1 0 = ''todos:00000000-0000-0000-0000-000000000001:0''"
  "revision_name ''todos'' 1 1 = ''todos:00000000-0000-0000-0000-000000000001:1''"
  "revision_name ''todos'' 1 2 = ''todos:00000000-0000-0000-0000-000000000001:2''"
  "revision_name ''todos'' 2 0 = ''todos:00000000-0000-0000-0000-000000000002:0''"
  "revision_name ''todos'' 3 0 = ''todos:00000000-0000-0000-0000-000000000003:0''"
  "revision_name ''audits'' 1 0 = ''audits:00000000-0000-0000-0000-000000000001:0''"
  by code_simp+

lemma kit_sample_ids:
  "revision_id kit_sample ''todos'' 1 0 = 0x30743130" "revision_id kit_sample ''todos'' 1 1 = 0x30743131"
  "revision_id kit_sample ''todos'' 1 2 = 0x30743132" "revision_id kit_sample ''todos'' 2 0 = 0x30743230"
  "revision_id kit_sample ''todos'' 3 0 = 0x30743330" "revision_id kit_sample ''audits'' 1 0 = 0x30613130"
  by (simp_all add: revision_id_def kit_names kit_sample_def)

lemma kit_sample_platform: "kit_platform kit_sample"
proof -
  have "float_codec kit_sample" using sample_float_codec by (simp add: float_codec_def kit_sample_def)
  moreover have "inj_on (\<lambda>(s, a, n). revision_id kit_sample s a n) kit_keys"
    by (simp add: kit_keys_def agg_a_def agg_b_def kit_sample_ids)
  moreover have "inj_on (digest_of kit_sample) {doc1, doc2, doc3}"
    using kit_docs(1-3) by (simp add: inj_on_def digest_of_def payload_def canonical_bytes_alt kit_doc_def kit_canon kit_sample_def
        sample_platform_def digest_def member_text_def quote_def escape_char_def)
  moreover have "racers_distinct kit_sample [0..<8]" by code_simp
  moreover have "intent_id kit_sample (intent ''sub.a'' r) \<noteq> intent_id kit_sample (intent ''sub.b'' r)" for r
  proof -
    have "uuid_str r \<noteq> []" by (simp add: uuid_str_def Let_def)
    then show ?thesis
      by (simp add: intent_id_def intent_def kit_sample_def nth_append nth_Cons')
  qed
  ultimately show ?thesis by (simp add: kit_platform_def)
qed


end
