(* ===== verification/Pool.thy ===== *)
theory Pool
  imports Errors
begin

text \<open>
  The pool of an in-memory SQLite store (\<open>_SerializedStaticPool\<close> of \<open>src/eventic/sql/store.py\<close>): one connection
  for all threads, and a counting semaphore around each checkout.

  Each step of a thread is a step of the relation, so the statements of different threads may interleave as
  the scheduler likes.  What the connection, the driver and the pool's base class do to an operation is
  nondeterministic: a checkout, \<open>BEGIN\<close>, a statement and \<open>COMMIT\<close> may raise.  A statement is a function on the
  database; a connection that goes back is reset, which rolls back a transaction that is still open.
\<close>

section \<open>Threads and the connection\<close>

type_synonym 'd statement = "'d \<Rightarrow> exn + 'd"

text \<open>
  Where a thread is: outside, in \<open>acquire\<close>, after it in \<open>super()._do_get()\<close>, holding the connection before
  \<open>BEGIN\<close>, in its transaction (all its statements, and those left), and in \<open>_do_return_conn\<close>.
\<close>

datatype 'd phase =
    Idle
  | Waiting "'d statement list"
  | Acquired "'d statement list"
  | Checked_out "'d statement list"
  | In_transaction "'d statement list" "'d statement list"
  | Returning

record ('t, 'd) pool =
  pl_permits :: nat
  pl_phase :: "'t \<Rightarrow> 'd phase"
  pl_db :: 'd
  pl_work :: "'d option"

definition fresh_pool :: "nat \<Rightarrow> 'd \<Rightarrow> ('t, 'd) pool" where
  "fresh_pool permits d = \<lparr>pl_permits = permits, pl_phase = (\<lambda>_. Idle), pl_db = d, pl_work = None\<rparr>"

abbreviation goes :: "'t \<Rightarrow> 'd phase \<Rightarrow> ('t, 'd) pool \<Rightarrow> ('t, 'd) pool" where
  "goes t ph p \<equiv> p\<lparr>pl_phase := (pl_phase p)(t := ph)\<rparr>"

datatype ('t, 'd) pool_label =
    Call 't
  | Acquire 't
  | Get 't
  | Get_raise 't
  | Begin 't
  | Begin_raise 't
  | Execute 't
  | Roll_back 't
  | Committed 't "'d statement list"
  | Release 't

text \<open>
  \<open>acquire\<close> blocks without a permit.  \<open>get_raises\<close> is the \<open>except\<close> clause of \<open>_do_get\<close>, \<open>releases\<close> the \<open>finally\<close> of
  \<open>_do_return_conn\<close>, whatever its body does.
\<close>

inductive pool_step :: "('t, 'd) pool \<Rightarrow> ('t, 'd) pool_label \<Rightarrow> ('t, 'd) pool \<Rightarrow> bool" where
  calls: "pl_phase p t = Idle \<Longrightarrow> pool_step p (Call t) (goes t (Waiting ss) p)"
| acquires: "pl_phase p t = Waiting ss \<Longrightarrow> pl_permits p = Suc n \<Longrightarrow>
     pool_step p (Acquire t) (goes t (Acquired ss) (p\<lparr>pl_permits := n\<rparr>))"
| gets: "pl_phase p t = Acquired ss \<Longrightarrow> pool_step p (Get t) (goes t (Checked_out ss) p)"
| get_raises: "pl_phase p t = Acquired ss \<Longrightarrow>
     pool_step p (Get_raise t) (goes t Idle (p\<lparr>pl_permits := Suc (pl_permits p)\<rparr>))"
| begins: "pl_phase p t = Checked_out ss \<Longrightarrow> pl_work p = None \<Longrightarrow>
     pool_step p (Begin t) (goes t (In_transaction ss ss) (p\<lparr>pl_work := Some (pl_db p)\<rparr>))"
| begin_raises: "pl_phase p t = Checked_out ss \<Longrightarrow>
     pool_step p (Begin_raise t) (goes t Returning (p\<lparr>pl_work := None\<rparr>))"
| executes: "pl_phase p t = In_transaction all (s # ss) \<Longrightarrow> pl_work p = Some d \<Longrightarrow> s d = Inr d' \<Longrightarrow>
     pool_step p (Execute t) (goes t (In_transaction all ss) (p\<lparr>pl_work := Some d'\<rparr>))"
| rolls_back: "pl_phase p t = In_transaction all ss \<Longrightarrow>
     pool_step p (Roll_back t) (goes t Returning (p\<lparr>pl_work := None\<rparr>))"
| commits: "pl_phase p t = In_transaction all [] \<Longrightarrow> pl_work p = Some d \<Longrightarrow>
     pool_step p (Committed t all) (goes t Returning (p\<lparr>pl_db := d, pl_work := None\<rparr>))"
| releases: "pl_phase p t = Returning \<Longrightarrow>
     pool_step p (Release t) (goes t Idle (p\<lparr>pl_permits := Suc (pl_permits p)\<rparr>))"

inductive pool_run :: "('t, 'd) pool \<Rightarrow> ('t, 'd) pool_label list \<Rightarrow> ('t, 'd) pool \<Rightarrow> bool" where
  start: "pool_run p [] p"
| step: "pool_run p ls p' \<Longrightarrow> pool_step p' l p'' \<Longrightarrow> pool_run p (ls @ [l]) p''"

lemma pool_run_Cons: "pool_run q ls r \<Longrightarrow> pool_step p l q \<Longrightarrow> pool_run p (l # ls) r"
proof (induction rule: pool_run.induct)
  case (start q)
  from pool_run.step [OF pool_run.start start] show ?case by simp
next
  case (step q ls p' l' p'')
  from pool_run.step [OF step.IH [OF step.prems] step.hyps(2)] show ?case by simp
qed

section \<open>Serial execution\<close>

primrec run_statements :: "'d statement list \<Rightarrow> 'd \<Rightarrow> exn + 'd" where
  "run_statements [] d = Inr d"
| "run_statements (s # ss) d = rbind (s d) (run_statements ss)"

lemma run_statements_append:
  "run_statements (ss @ ts) d = rbind (run_statements ss d) (run_statements ts)"
  by (induction ss arbitrary: d) (simp_all add: rbind_def split: sum.split)

text \<open>The transactions that committed, in the order of their commits.\<close>

fun committed :: "('t, 'd) pool_label list \<Rightarrow> 'd statement list list" where
  "committed [] = []"
| "committed (Committed t ss # ls) = ss # committed ls"
| "committed (_ # ls) = committed ls"

lemma committed_append: "committed (ls @ [l]) = committed ls @ committed [l]"
  by (induction ls rule: committed.induct) simp_all

section \<open>The invariant\<close>

fun holding :: "'d phase \<Rightarrow> bool" where
  "holding Idle = False"
| "holding (Waiting _) = False"
| "holding _ = True"

text \<open>The open transaction of a thread is what its statements so far made of the committed database.\<close>

fun work_of :: "'d phase \<Rightarrow> 'd \<Rightarrow> 'd option \<Rightarrow> bool" where
  "work_of (In_transaction all rest) d work =
     (\<exists>done w. all = done @ rest \<and> work = Some w \<and> run_statements done d = Inr w)"
| "work_of _ d work = (work = None)"

definition pool_ok :: "('t, 'd) pool \<Rightarrow> bool" where
  "pool_ok p \<longleftrightarrow>
     (\<forall>t u. holding (pl_phase p t) \<longrightarrow> holding (pl_phase p u) \<longrightarrow> t = u) \<and>
     (\<forall>t. holding (pl_phase p t) \<longrightarrow> work_of (pl_phase p t) (pl_db p) (pl_work p)) \<and>
     (if \<exists>t. holding (pl_phase p t) then pl_permits p = 0 else pl_permits p = 1 \<and> pl_work p = None)"

lemma pool_ok_holder:
  assumes "pool_ok p" "holding (pl_phase p t)"
  shows "pl_permits p = 0" "work_of (pl_phase p t) (pl_db p) (pl_work p)"
    "holding (pl_phase p u) \<Longrightarrow> u = t"
  using assms by (auto simp: pool_ok_def split: if_splits)

lemma pool_ok_free:
  assumes "pool_ok p" "pl_permits p = Suc n"
  shows "n = 0" "pl_work p = None" "\<not> holding (pl_phase p t)"
  using assms by (auto simp: pool_ok_def split: if_splits)

text \<open>The holder goes on, the holder leaves, a thread becomes the holder, a thread outside stays outside.\<close>

lemma pool_ok_moves:
  assumes "pool_ok p" "holding (pl_phase p t)" "holding ph" "pl_phase p' = (pl_phase p)(t := ph)"
    and "pl_permits p' = pl_permits p" "work_of ph (pl_db p') (pl_work p')"
  shows "pool_ok p'"
proof -
  have only: "u = t" if "holding (pl_phase p' u)" for u
    using that pool_ok_holder(3) [OF assms(1,2), of u] assms(4) by (cases "u = t") simp_all
  have "holding (pl_phase p' t)" "work_of (pl_phase p' t) (pl_db p') (pl_work p')"
    using assms(3,4,6) by simp_all
  then show ?thesis
    unfolding pool_ok_def using only pool_ok_holder(1) [OF assms(1,2)] assms(5) by metis
qed

lemma pool_ok_leaves:
  assumes "pool_ok p" "holding (pl_phase p t)" "\<not> holding ph" "pl_phase p' = (pl_phase p)(t := ph)"
    and "pl_permits p' = Suc (pl_permits p)" "pl_work p' = None"
  shows "pool_ok p'"
proof -
  have "\<not> holding (pl_phase p' u)" for u
    using pool_ok_holder(3) [OF assms(1,2), of u] assms(3,4) by (cases "u = t") auto
  then show ?thesis using pool_ok_holder(1) [OF assms(1,2)] assms(5,6) by (simp add: pool_ok_def)
qed

lemma pool_ok_enters:
  assumes "pool_ok p" "pl_permits p = Suc n" "holding ph" "pl_phase p' = (pl_phase p)(t := ph)"
    and "pl_permits p' = n" "work_of ph (pl_db p') (pl_work p')"
  shows "pool_ok p'"
proof -
  have only: "u = t" if "holding (pl_phase p' u)" for u
    using that pool_ok_free(3) [OF assms(1,2), of u] assms(4) by (cases "u = t") simp_all
  have "holding (pl_phase p' t)" "work_of (pl_phase p' t) (pl_db p') (pl_work p')"
    using assms(3,4,6) by simp_all
  then show ?thesis
    unfolding pool_ok_def using only pool_ok_free(1) [OF assms(1,2)] assms(5) by metis
qed

lemma pool_ok_outside:
  assumes "pool_ok p" "\<not> holding (pl_phase p t)" "\<not> holding ph"
  shows "pool_ok (goes t ph p)"
proof -
  have "holding (pl_phase (goes t ph p) u) = holding (pl_phase p u)" for u
    using assms(2,3) by (cases "u = t") simp_all
  moreover have "work_of (pl_phase (goes t ph p) u) (pl_db p) (pl_work p)" if "holding (pl_phase p u)" for u
    using that assms(1,2) by (cases "u = t") (simp_all add: pool_ok_def)
  ultimately show ?thesis using assms(1) by (simp add: pool_ok_def)
qed

lemma pool_step_ok:
  assumes "pool_step p l p'" "pool_ok p"
  shows "pool_ok p' \<and> run_statements (concat (committed [l])) (pl_db p) = Inr (pl_db p')"
  using assms
proof (induction rule: pool_step.induct)
  case (calls p t ss)
  then show ?case by (simp add: pool_ok_outside)
next
  case (acquires p t ss n)
  then show ?case
    using pool_ok_free(2) [OF acquires(3,2)] by (simp add: pool_ok_enters [OF acquires(3,2), where ph = "Acquired ss" and t = t])
next
  case (gets p t ss)
  then show ?case
    using pool_ok_holder(2) [OF gets(2), of t] by (simp add: pool_ok_moves [where ph = "Checked_out ss" and t = t, OF gets(2)])
next
  case (get_raises p t ss)
  then show ?case
    using pool_ok_holder(2) [OF get_raises(2), of t] by (simp add: pool_ok_leaves [where ph = Idle and t = t, OF get_raises(2)])
next
  case (begins p t ss)
  then show ?case
    by (simp add: pool_ok_moves [where ph = "In_transaction ss ss" and t = t, OF begins(3)])
next
  case (begin_raises p t ss)
  then show ?case by (simp add: pool_ok_moves [where ph = Returning and t = t, OF begin_raises(2)])
next
  case (executes p t all s ss d d')
  from pool_ok_holder(2) [OF executes(4), of t] executes
  obtain don where "all = don @ s # ss" "run_statements don (pl_db p) = Inr d" by auto
  then have "all = (don @ [s]) @ ss" "run_statements (don @ [s]) (pl_db p) = Inr d'"
    using executes by (simp_all add: run_statements_append)
  then have "work_of (In_transaction all ss) (pl_db p) (Some d')" by auto
  then show ?case
    using executes by (simp add: pool_ok_moves [where ph = "In_transaction all ss" and t = t, OF executes(4)] del: work_of.simps)
next
  case (rolls_back p t all ss)
  then show ?case by (simp add: pool_ok_moves [where ph = Returning and t = t, OF rolls_back(2)])
next
  case (commits p t all d)
  then show ?case
    using pool_ok_holder(2) [OF commits(3), of t] by (auto intro!: pool_ok_moves [where ph = Returning and t = t, OF commits(3)])
next
  case (releases p t)
  then show ?case
    using pool_ok_holder(2) [OF releases(2), of t] by (simp add: pool_ok_leaves [where ph = Idle and t = t, OF releases(2)])
qed

lemma fresh_pool_ok: "pool_ok (fresh_pool 1 d)"
  by (simp add: pool_ok_def fresh_pool_def)

lemma pool_run_ok:
  "pool_run p ls p' \<Longrightarrow> pool_ok p \<Longrightarrow>
     pool_ok p' \<and> run_statements (concat (committed ls)) (pl_db p) = Inr (pl_db p')"
proof (induction rule: pool_run.induct)
  case (step p ls p' l p'')
  with pool_step_ok [OF step(2)] show ?case by (auto simp: committed_append run_statements_append)
qed simp

section \<open>Properties\<close>

text \<open>A run of two threads, with one permit and with two: one adds 1 to a number, the other one comes in between.\<close>

definition add_one :: "nat statement" where
  "add_one d = Inr (d + 1)"

definition adding :: "nat \<Rightarrow> nat phase \<Rightarrow> nat phase \<Rightarrow> nat \<Rightarrow> nat option \<Rightarrow> (bool, nat) pool" where
  "adding permits a b d work =
     \<lparr>pl_permits = permits, pl_phase = (\<lambda>t. if t then a else b), pl_db = d, pl_work = work\<rparr>"

lemma adding_steps:
  "pool_step (adding n Idle b d w) (Call True) (adding n (Waiting ss) b d w)"
  "pool_step (adding n a Idle d w) (Call False) (adding n a (Waiting ss) d w)"
  "pool_step (adding (Suc n) (Waiting ss) b d w) (Acquire True) (adding n (Acquired ss) b d w)"
  "pool_step (adding (Suc n) a (Waiting ss) d w) (Acquire False) (adding n a (Acquired ss) d w)"
  "pool_step (adding n (Acquired ss) b d w) (Get True) (adding n (Checked_out ss) b d w)"
  "pool_step (adding n a (Acquired ss) d w) (Get False) (adding n a (Checked_out ss) d w)"
  "pool_step (adding n (Checked_out ss) b d None) (Begin True) (adding n (In_transaction ss ss) b d (Some d))"
  "pool_step (adding n a (Checked_out ss) d w) (Begin_raise False) (adding n a Returning d None)"
  "pool_step (adding n (In_transaction all (add_one # ss)) b d (Some e)) (Execute True)
     (adding n (In_transaction all ss) b d (Some (e + 1)))"
  "pool_step (adding n (In_transaction all []) b d (Some e)) (Committed True all) (adding n Returning b e None)"
proof -
  have eq: "p = q \<Longrightarrow> pool_step r l q \<Longrightarrow> pool_step r l p" for p q r :: "(bool, nat) pool" and l by simp
  have upd: "(\<lambda>t. if t then a else b)(True := c) = (\<lambda>t. if t then c else b)"
    "(\<lambda>t. if t then a else b)(False := c) = (\<lambda>t. if t then a else c)" for a b c :: "nat phase"
    by auto
  note upd [simp] and adding_def [simp] and add_one_def [simp]
  show "pool_step (adding n Idle b d w) (Call True) (adding n (Waiting ss) b d w)"
    by (rule eq [OF _ calls [where ss = ss]]) simp_all
  show "pool_step (adding n a Idle d w) (Call False) (adding n a (Waiting ss) d w)"
    by (rule eq [OF _ calls [where ss = ss]]) simp_all
  show "pool_step (adding (Suc n) (Waiting ss) b d w) (Acquire True) (adding n (Acquired ss) b d w)"
    by (rule eq [OF _ acquires [where ss = ss and n = n]]) simp_all
  show "pool_step (adding (Suc n) a (Waiting ss) d w) (Acquire False) (adding n a (Acquired ss) d w)"
    by (rule eq [OF _ acquires [where ss = ss and n = n]]) simp_all
  show "pool_step (adding n (Acquired ss) b d w) (Get True) (adding n (Checked_out ss) b d w)"
    by (rule eq [OF _ gets [where ss = ss]]) simp_all
  show "pool_step (adding n a (Acquired ss) d w) (Get False) (adding n a (Checked_out ss) d w)"
    by (rule eq [OF _ gets [where ss = ss]]) simp_all
  show "pool_step (adding n (Checked_out ss) b d None) (Begin True) (adding n (In_transaction ss ss) b d (Some d))"
    by (rule eq [OF _ begins [where ss = ss]]) simp_all
  show "pool_step (adding n a (Checked_out ss) d w) (Begin_raise False) (adding n a Returning d None)"
    by (rule eq [OF _ begin_raises [where ss = ss]]) simp_all
  show "pool_step (adding n (In_transaction all (add_one # ss)) b d (Some e)) (Execute True)
     (adding n (In_transaction all ss) b d (Some (e + 1)))"
    by (rule eq [OF _ executes [where s = add_one and ss = ss and all = all and d = e and d' = "e + 1"]]) simp_all
  show "pool_step (adding n (In_transaction all []) b d (Some e)) (Committed True all) (adding n Returning b e None)"
    by (rule eq [OF _ commits]) simp_all
qed

lemma fresh_adding: "fresh_pool n d = adding n Idle Idle d None"
  by (auto simp: fresh_pool_def adding_def)

definition adding_labels :: "(bool, nat) pool_label list" where
  "adding_labels =
     [Call True, Acquire True, Call False, Get True, Begin True, Execute True, Committed True [add_one]]"

lemma adding_run: "pool_run (fresh_pool 1 5) adding_labels (adding 0 Returning (Waiting []) (5 + 1) None)"
proof -
  have "pool_run (adding (Suc 0) Idle Idle 5 None) adding_labels (adding 0 Returning (Waiting []) (5 + 1) None)"
    unfolding adding_labels_def
    by (rule pool_run_Cons [OF _ adding_steps(1) [of _ _ _ _ "[add_one]"]] pool_run_Cons [OF _ adding_steps(3)]
      pool_run_Cons [OF _ adding_steps(2) [where ss = "[]"]] pool_run_Cons [OF _ adding_steps(5)]
      pool_run_Cons [OF _ adding_steps(7)] pool_run_Cons [OF _ adding_steps(9)] pool_run_Cons [OF _ adding_steps(10)]
      pool_run.start)+
  then show ?thesis by (simp add: fresh_adding)
qed

text \<open>With a second permit, as in the plain pool, the reset after another thread's failed \<open>BEGIN\<close> loses the write.\<close>

lemma two_permits_lose_a_write:
  "\<exists>ls. pool_run (fresh_pool 2 5) ls (adding 0 (In_transaction [add_one] []) Returning 5 None)"
proof -
  have "pool_run (adding (Suc (Suc 0)) Idle Idle 5 None)
     [Call True, Acquire True, Get True, Begin True, Execute True, Call False, Acquire False, Get False, Begin_raise False]
     (adding 0 (In_transaction [add_one] []) Returning 5 None)"
    by (rule pool_run_Cons [OF _ adding_steps(1) [of _ _ _ _ "[add_one]"]] pool_run_Cons [OF _ adding_steps(3)]
      pool_run_Cons [OF _ adding_steps(5)] pool_run_Cons [OF _ adding_steps(7)] pool_run_Cons [OF _ adding_steps(9)]
      pool_run_Cons [OF _ adding_steps(2) [where ss = "[]"]] pool_run_Cons [OF _ adding_steps(4)]
      pool_run_Cons [OF _ adding_steps(6)] pool_run_Cons [OF _ adding_steps(8)] pool_run.start)+
  then show ?thesis by (auto simp: fresh_adding numeral_2_eq_2)
qed

text \<open>
  C40: Transactions on the shared connection are serial: in every interleaving of the threads' steps at most one
  thread is between a successful \<open>acquire\<close> and its \<open>release\<close>, and the committed database is what the committed
  transactions give when they run whole, one after the other, in the order of their commits.  No statement of a
  transaction that was rolled back has an effect.
\<close>

theorem shared_connection_is_serial:
  assumes "pool_run (fresh_pool 1 d) ls p"
  shows "run_statements (concat (committed ls)) d = Inr (pl_db p) \<and>
    (\<forall>t u. holding (pl_phase p t) \<longrightarrow> holding (pl_phase p u) \<longrightarrow> t = u)"
proof -
  have ok: "pool_ok p" "run_statements (concat (committed ls)) d = Inr (pl_db p)"
    using pool_run_ok [OF assms fresh_pool_ok] by (simp_all add: fresh_pool_def)
  have "t = u" if "holding (pl_phase p t)" "holding (pl_phase p u)" for t u
    using pool_ok_holder(3) [OF ok(1) that(2) that(1)] .
  with ok(2) show ?thesis by blast
qed

lemma shared_connection_is_serial_witness:
  "run_statements [add_one] 5 = Inr 6 \<and> \<not> holding (pl_phase (adding 0 Returning (Waiting []) (5 + 1) None) False)"
  using shared_connection_is_serial [OF adding_run] by (simp add: adding_labels_def adding_def)

definition is_call :: "('t, 'd) pool_label \<Rightarrow> bool" where
  "is_call l \<longleftrightarrow> (case l of Call _ \<Rightarrow> True | _ \<Rightarrow> False)"

text \<open>A thread that holds the connection can always go on.\<close>

lemma holder_steps:
  assumes "holding (pl_phase p t)"
  shows "\<exists>l p'. pool_step p l p' \<and> \<not> is_call l"
proof (cases "pl_phase p t")
  case (Acquired ss)
  from gets [OF this] show ?thesis by (intro exI conjI) (auto simp: is_call_def)
next
  case (Checked_out ss)
  from begin_raises [OF this] show ?thesis by (intro exI conjI) (auto simp: is_call_def)
next
  case (In_transaction all ss)
  from rolls_back [OF this] show ?thesis by (intro exI conjI) (auto simp: is_call_def)
next
  case Returning
  from releases [OF this] show ?thesis by (intro exI conjI) (auto simp: is_call_def)
qed (use assms in simp_all)

text \<open>
  The semaphore neither deadlocks nor leaks, whichever step of a thread raises: while a thread has an
  operation under way some thread can take a step that is not a new call, and when nobody holds the connection
  the permit is there.
\<close>

theorem pool_never_deadlocks:
  assumes "pool_run (fresh_pool 1 d) ls p"
  shows "((\<exists>t. pl_phase p t \<noteq> Idle) \<longrightarrow> (\<exists>l p'. pool_step p l p' \<and> \<not> is_call l)) \<and>
    ((\<forall>t. \<not> holding (pl_phase p t)) \<longrightarrow> pl_permits p = 1)"
proof -
  have ok: "pool_ok p" using pool_run_ok [OF assms fresh_pool_ok] by simp
  have "\<exists>l p'. pool_step p l p' \<and> \<not> is_call l" if "pl_phase p t \<noteq> Idle" for t
  proof (cases "\<exists>u. holding (pl_phase p u)")
    case True
    then obtain u where "holding (pl_phase p u)" ..
    then show ?thesis by (rule holder_steps)
  next
    case False
    then have "pl_permits p = Suc 0" using ok by (auto simp: pool_ok_def)
    moreover obtain ss where "pl_phase p t = Waiting ss"
      using \<open>pl_phase p t \<noteq> Idle\<close> False by (cases "pl_phase p t") (metis holding.simps)+
    ultimately have "pool_step p (Acquire t) (goes t (Acquired ss) (p\<lparr>pl_permits := 0\<rparr>))"
      by (rule acquires [rotated])
    moreover have "\<not> is_call (Acquire t)" by (simp add: is_call_def)
    ultimately show ?thesis by blast
  qed
  with ok show ?thesis by (auto simp: pool_ok_def)
qed

lemma pool_never_deadlocks_witness:
  "\<exists>l p'. pool_step (adding 0 Returning (Waiting []) (5 + 1) None) l p' \<and> \<not> is_call l"
proof -
  have "pl_phase (adding 0 Returning (Waiting []) (5 + 1) None) True \<noteq> Idle" by (simp add: adding_def)
  with pool_never_deadlocks [OF adding_run] show ?thesis by blast
qed

end
