(* ===== verification/Schema.thy ===== *)
theory Schema
  imports Tables Delivery
begin

text \<open>
  The declared tables (\<open>src/eventic/sql/tables.py\<close>) and the Alembic baseline
  (\<open>src/eventic/sql/migrations/versions/0001_baseline.py\<close>) as data, what running them does to the catalogue of
  a database, and what the declared constraints say of rows.

  A column type is the SQLAlchemy type it is declared with; the JSON type is the one with the JSONB variant.
  The text of a check constraint is the value of a small expression type.  The name a database gives to an
  unnamed primary key is not part of a definition.
\<close>

section \<open>Definitions of tables\<close>

datatype column_type = SqlText | SqlUuid | SqlInteger | SqlString nat | SqlJson | SqlDateTime

record column =
  cl_name :: string
  cl_type :: column_type
  cl_nullable :: bool
  cl_default :: "string option"

datatype check =
    At_least string int
  | One_of string "string list"
  | Not_empty string
  | Zero_iff string string string

record table_def =
  td_name :: string
  td_columns :: "column list"
  td_primary_key :: "string list"
  td_checks :: "(string \<times> check) list"
  td_uniques :: "(string \<times> string list) list"

abbreviation required :: "string \<Rightarrow> column_type \<Rightarrow> column" where
  "required n t \<equiv> \<lparr>cl_name = n, cl_type = t, cl_nullable = False, cl_default = None\<rparr>"

abbreviation optional :: "string \<Rightarrow> column_type \<Rightarrow> column" where
  "optional n t \<equiv> \<lparr>cl_name = n, cl_type = t, cl_nullable = True, cl_default = None\<rparr>"

section \<open>The metadata\<close>

definition eventic_revision :: table_def where
  "eventic_revision =
     \<lparr>td_name = ''eventic_revision'',
      td_columns =
        [required ''revision_id'' SqlUuid, required ''stream'' SqlText, required ''aggregate_id'' SqlUuid,
         required ''revision'' SqlInteger, required ''kind'' SqlText, required ''schema_version'' SqlInteger,
         required ''meta_version'' SqlInteger, required ''encoding'' SqlText, required ''payload'' SqlJson,
         required ''digest'' (SqlString 64), required ''meta'' SqlJson, required ''committed_at'' SqlDateTime],
      td_primary_key = [''revision_id''],
      td_checks =
        [(''ck_revision_nonneg'', At_least ''revision'' 0),
         (''ck_kind'', One_of ''kind'' [''create'', ''change'']),
         (''ck_schema_version'', At_least ''schema_version'' 1),
         (''ck_encoding'', One_of ''encoding'' [''snapshot/1'', ''delta/1'']),
         (''ck_create_at_zero'', Zero_iff ''revision'' ''kind'' ''create''),
         (''ck_stream_nonempty'', Not_empty ''stream'')],
      td_uniques = [(''uq_revision'', [''stream'', ''aggregate_id'', ''revision''])]\<rparr>"

definition eventic_head :: table_def where
  "eventic_head =
     \<lparr>td_name = ''eventic_head'',
      td_columns =
        [required ''stream'' SqlText, required ''aggregate_id'' SqlUuid, required ''revision'' SqlInteger,
         required ''revision_id'' SqlUuid, required ''schema_version'' SqlInteger,
         required ''meta_version'' SqlInteger, required ''state'' SqlJson, required ''digest'' (SqlString 64),
         required ''meta'' SqlJson, required ''committed_at'' SqlDateTime],
      td_primary_key = [''stream'', ''aggregate_id''], td_checks = [], td_uniques = []\<rparr>"

definition eventic_intent :: table_def where
  "eventic_intent =
     \<lparr>td_name = ''eventic_intent'',
      td_columns =
        [required ''intent_id'' SqlUuid, required ''subscription_id'' SqlText, required ''revision_id'' SqlUuid,
         required ''queue'' SqlText, required ''status'' SqlText,
         (required ''attempts'' SqlInteger)\<lparr>cl_default := Some ''0''\<rparr>, required ''available_at'' SqlDateTime,
         optional ''leased_until'' SqlDateTime, optional ''last_error'' SqlText, required ''created_at'' SqlDateTime],
      td_primary_key = [''intent_id''],
      td_checks =
        [(''ck_intent_queue'', Not_empty ''queue''),
         (''ck_intent_status'', One_of ''status'' [''pending'', ''leased'', ''dead''])],
      td_uniques = [(''uq_intent_sub_rev'', [''subscription_id'', ''revision_id''])]\<rparr>"

definition eventic_schema :: table_def where
  "eventic_schema =
     \<lparr>td_name = ''eventic_schema'',
      td_columns =
        [required ''stream'' SqlText, required ''schema_version'' SqlInteger,
         required ''fingerprint'' (SqlString 64), required ''first_seen'' SqlDateTime],
      td_primary_key = [''stream'', ''schema_version''], td_checks = [], td_uniques = []\<rparr>"

text \<open>An index: its name, its table and its columns.\<close>

type_synonym index_def = "string \<times> string \<times> string list"

definition metadata :: "(table_def \<times> index_def list) list" where
  "metadata =
     [(eventic_revision, [(''ix_revision_sai'', ''eventic_revision'', [''stream'', ''aggregate_id'', ''revision''])]),
      (eventic_head, []),
      (eventic_intent, [(''ix_intent_drain'', ''eventic_intent'', [''queue'', ''status'', ''available_at''])]),
      (eventic_schema, [])]"

section \<open>The catalogue of a database\<close>

record catalogue =
  ct_tables :: "table_def list"
  ct_indexes :: "index_def list"

definition no_tables :: catalogue where
  "no_tables = \<lparr>ct_tables = [], ct_indexes = []\<rparr>"

definition has_table :: "catalogue \<Rightarrow> string \<Rightarrow> bool" where
  "has_table c n \<longleftrightarrow> n \<in> set (map td_name (ct_tables c))"

text \<open>\<open>metadata.create_all\<close> creates the tables that are missing, each with its indexes.\<close>

definition create_missing :: "table_def \<times> index_def list \<Rightarrow> catalogue \<Rightarrow> catalogue" where
  "create_missing t c =
     (if has_table c (td_name (fst t)) then c
      else c\<lparr>ct_tables := ct_tables c @ [fst t], ct_indexes := ct_indexes c @ snd t\<rparr>)"

definition create_all :: "catalogue \<Rightarrow> catalogue" where
  "create_all c = fold create_missing metadata c"

section \<open>The baseline migration\<close>

datatype operation =
    Create_table table_def
  | Create_index index_def
  | Drop_index string string
  | Drop_table string

definition operate :: "operation \<Rightarrow> catalogue \<Rightarrow> exn + catalogue" where
  "operate p c =
     (case p of
        Create_table t \<Rightarrow>
          (if has_table c (td_name t) then Inl (Python OtherException) else Inr (c\<lparr>ct_tables := ct_tables c @ [t]\<rparr>))
      | Create_index (n, t, cols) \<Rightarrow>
          (if \<not> has_table c t \<or> n \<in> set (map fst (ct_indexes c)) then Inl (Python OtherException)
           else Inr (c\<lparr>ct_indexes := ct_indexes c @ [(n, t, cols)]\<rparr>))
      | Drop_index n t \<Rightarrow>
          (if n \<notin> set (map fst (ct_indexes c)) then Inl (Python OtherException)
           else Inr (c\<lparr>ct_indexes := filter (\<lambda>i. fst i \<noteq> n) (ct_indexes c)\<rparr>))
      | Drop_table n \<Rightarrow>
          (if \<not> has_table c n then Inl (Python OtherException)
           else Inr \<lparr>ct_tables = filter (\<lambda>t. td_name t \<noteq> n) (ct_tables c),
                     ct_indexes = filter (\<lambda>i. fst (snd i) \<noteq> n) (ct_indexes c)\<rparr>))"

fun operate_all :: "operation list \<Rightarrow> catalogue \<Rightarrow> exn + catalogue" where
  "operate_all [] c = Inr c"
| "operate_all (p # ps) c = rbind (operate p c) (operate_all ps)"

definition upgrade :: "operation list" where
  "upgrade =
     [Create_table
        \<lparr>td_name = ''eventic_head'',
         td_columns =
           [required ''stream'' SqlText, required ''aggregate_id'' SqlUuid, required ''revision'' SqlInteger,
            required ''revision_id'' SqlUuid, required ''schema_version'' SqlInteger,
            required ''meta_version'' SqlInteger, required ''state'' SqlJson, required ''digest'' (SqlString 64),
            required ''meta'' SqlJson, required ''committed_at'' SqlDateTime],
         td_primary_key = [''stream'', ''aggregate_id''], td_checks = [], td_uniques = []\<rparr>,
      Create_table
        \<lparr>td_name = ''eventic_intent'',
         td_columns =
           [required ''intent_id'' SqlUuid, required ''subscription_id'' SqlText, required ''revision_id'' SqlUuid,
            required ''queue'' SqlText, required ''status'' SqlText,
            (required ''attempts'' SqlInteger)\<lparr>cl_default := Some ''0''\<rparr>, required ''available_at'' SqlDateTime,
            optional ''leased_until'' SqlDateTime, optional ''last_error'' SqlText, required ''created_at'' SqlDateTime],
         td_primary_key = [''intent_id''],
         td_checks =
           [(''ck_intent_queue'', Not_empty ''queue''),
            (''ck_intent_status'', One_of ''status'' [''pending'', ''leased'', ''dead''])],
         td_uniques = [(''uq_intent_sub_rev'', [''subscription_id'', ''revision_id''])]\<rparr>,
      Create_index (''ix_intent_drain'', ''eventic_intent'', [''queue'', ''status'', ''available_at'']),
      Create_table
        \<lparr>td_name = ''eventic_revision'',
         td_columns =
           [required ''revision_id'' SqlUuid, required ''stream'' SqlText, required ''aggregate_id'' SqlUuid,
            required ''revision'' SqlInteger, required ''kind'' SqlText, required ''schema_version'' SqlInteger,
            required ''meta_version'' SqlInteger, required ''encoding'' SqlText, required ''payload'' SqlJson,
            required ''digest'' (SqlString 64), required ''meta'' SqlJson, required ''committed_at'' SqlDateTime],
         td_primary_key = [''revision_id''],
         td_checks =
           [(''ck_create_at_zero'', Zero_iff ''revision'' ''kind'' ''create''),
            (''ck_encoding'', One_of ''encoding'' [''snapshot/1'', ''delta/1'']),
            (''ck_kind'', One_of ''kind'' [''create'', ''change'']),
            (''ck_stream_nonempty'', Not_empty ''stream''),
            (''ck_revision_nonneg'', At_least ''revision'' 0),
            (''ck_schema_version'', At_least ''schema_version'' 1)],
         td_uniques = [(''uq_revision'', [''stream'', ''aggregate_id'', ''revision''])]\<rparr>,
      Create_index (''ix_revision_sai'', ''eventic_revision'', [''stream'', ''aggregate_id'', ''revision'']),
      Create_table
        \<lparr>td_name = ''eventic_schema'',
         td_columns =
           [required ''stream'' SqlText, required ''schema_version'' SqlInteger,
            required ''fingerprint'' (SqlString 64), required ''first_seen'' SqlDateTime],
         td_primary_key = [''stream'', ''schema_version''], td_checks = [], td_uniques = []\<rparr>]"

definition downgrade :: "operation list" where
  "downgrade =
     [Drop_table ''eventic_schema'', Drop_index ''ix_revision_sai'' ''eventic_revision'', Drop_table ''eventic_revision'',
      Drop_index ''ix_intent_drain'' ''eventic_intent'', Drop_table ''eventic_intent'', Drop_table ''eventic_head'']"

section \<open>Two catalogues with the same schema\<close>

text \<open>The order in which constraints and tables were declared is not part of a schema; that of columns is.\<close>

definition same_table :: "table_def \<Rightarrow> table_def \<Rightarrow> bool" where
  "same_table t u \<longleftrightarrow>
     td_name t = td_name u \<and> td_columns t = td_columns u \<and> td_primary_key t = td_primary_key u \<and>
     set (td_checks t) = set (td_checks u) \<and> set (td_uniques t) = set (td_uniques u)"

definition table_of :: "catalogue \<Rightarrow> string \<Rightarrow> table_def option" where
  "table_of c n = List.find (\<lambda>t. td_name t = n) (ct_tables c)"

definition same_schema :: "catalogue \<Rightarrow> catalogue \<Rightarrow> bool" where
  "same_schema c d \<longleftrightarrow>
     set (map td_name (ct_tables c)) = set (map td_name (ct_tables d)) \<and> set (ct_indexes c) = set (ct_indexes d) \<and>
     list_all (\<lambda>t. case table_of d (td_name t) of None \<Rightarrow> False | Some u \<Rightarrow> same_table t u) (ct_tables c)"

section \<open>What the declared constraints say of rows\<close>

datatype cell = VNull | VText string | VInt int | VUuid uuid | VJson json | VTime time

type_synonym sql_row = "(string \<times> cell) list"

definition revision_values :: "revision_row \<Rightarrow> sql_row" where
  "revision_values r =
     [(''revision_id'', VUuid (rv_revision_id r)), (''stream'', VText (rv_stream r)),
      (''aggregate_id'', VUuid (rv_aggregate_id r)), (''revision'', VInt (rv_revision r)), (''kind'', VText (rv_kind r)),
      (''schema_version'', VInt (rv_schema_version r)), (''meta_version'', VInt (rv_meta_version r)),
      (''encoding'', VText (rv_encoding r)), (''payload'', VJson (rv_payload r)), (''digest'', VText (rv_digest r)),
      (''meta'', VJson (rv_meta r)), (''committed_at'', VTime (rv_committed_at r))]"

definition intent_values :: "intent_row \<Rightarrow> sql_row" where
  "intent_values i =
     [(''intent_id'', VUuid (in_intent_id i)), (''subscription_id'', VText (in_subscription_id i)),
      (''revision_id'', VUuid (in_revision_id i)), (''queue'', VText (in_queue i)), (''status'', VText (in_status i)),
      (''attempts'', VInt (in_attempts i)), (''available_at'', VTime (in_available_at i)),
      (''leased_until'', case in_leased_until i of None \<Rightarrow> VNull | Some t \<Rightarrow> VTime t),
      (''last_error'', case in_last_error i of None \<Rightarrow> VNull | Some t \<Rightarrow> VText t),
      (''created_at'', VTime (in_created_at i))]"

definition column_value :: "sql_row \<Rightarrow> string \<Rightarrow> cell" where
  "column_value r n = (case map_of r n of None \<Rightarrow> VNull | Some v \<Rightarrow> v)"

text \<open>A check over a column that is null is unknown, and then the constraint holds.\<close>

definition check_holds :: "sql_row \<Rightarrow> check \<Rightarrow> bool" where
  "check_holds r c =
     (case c of
        At_least n k \<Rightarrow> (case column_value r n of VInt i \<Rightarrow> k \<le> i | VNull \<Rightarrow> True | _ \<Rightarrow> False)
      | One_of n ts \<Rightarrow> (case column_value r n of VText t \<Rightarrow> t \<in> set ts | VNull \<Rightarrow> True | _ \<Rightarrow> False)
      | Not_empty n \<Rightarrow> (case column_value r n of VText t \<Rightarrow> t \<noteq> [] | VNull \<Rightarrow> True | _ \<Rightarrow> False)
      | Zero_iff n m t \<Rightarrow>
          (case (column_value r n, column_value r m) of
             (VInt i, VText s) \<Rightarrow> (i = 0) = (s = t) | (VNull, _) \<Rightarrow> True | (_, VNull) \<Rightarrow> True | _ \<Rightarrow> False))"

definition unique_in :: "sql_row list \<Rightarrow> sql_row \<Rightarrow> string list \<Rightarrow> bool" where
  "unique_in rows r cols \<longleftrightarrow> map (column_value r) cols \<notin> set (map (\<lambda>q. map (column_value q) cols) rows)"

text \<open>A table takes a row when its checks hold and neither its primary key nor a unique constraint has it already.\<close>

definition admits :: "table_def \<Rightarrow> sql_row list \<Rightarrow> sql_row \<Rightarrow> bool" where
  "admits t rows r \<longleftrightarrow>
     list_all (\<lambda>c. check_holds r (snd c)) (td_checks t) \<and> unique_in rows r (td_primary_key t) \<and>
     list_all (\<lambda>u. unique_in rows r (snd u)) (td_uniques t)"

lemma first_violated_None: "first_violated cs = None \<longleftrightarrow> list_all fst cs"
  by (induction cs) (auto split: if_splits)

lemma revision_columns [simp]:
  "column_value (revision_values r) ''revision_id'' = VUuid (rv_revision_id r)"
  "column_value (revision_values r) ''stream'' = VText (rv_stream r)"
  "column_value (revision_values r) ''aggregate_id'' = VUuid (rv_aggregate_id r)"
  "column_value (revision_values r) ''revision'' = VInt (rv_revision r)"
  "column_value (revision_values r) ''kind'' = VText (rv_kind r)"
  "column_value (revision_values r) ''schema_version'' = VInt (rv_schema_version r)"
  "column_value (revision_values r) ''encoding'' = VText (rv_encoding r)"
  by (simp_all add: column_value_def revision_values_def)

lemma intent_columns [simp]:
  "column_value (intent_values i) ''intent_id'' = VUuid (in_intent_id i)"
  "column_value (intent_values i) ''subscription_id'' = VText (in_subscription_id i)"
  "column_value (intent_values i) ''revision_id'' = VUuid (in_revision_id i)"
  "column_value (intent_values i) ''queue'' = VText (in_queue i)"
  "column_value (intent_values i) ''status'' = VText (in_status i)"
  by (simp_all add: column_value_def intent_values_def)

lemma baseline_schema:
  "case operate_all upgrade no_tables of Inl e \<Rightarrow> False | Inr c \<Rightarrow> same_schema (create_all no_tables) c"
  by code_simp

section \<open>Properties\<close>

text \<open>
  The baseline migration and the metadata declare one schema: run on an empty database it creates the
  very tables, columns, keys, constraints and indexes that \<open>create_all\<close> creates, and its downgrade leaves
  nothing behind.
\<close>

theorem baseline_is_the_metadata:
  "case operate_all upgrade no_tables of
     Inl e \<Rightarrow> False
   | Inr c \<Rightarrow> same_schema c (create_all no_tables) \<and> same_schema (create_all no_tables) c \<and>
       operate_all downgrade c = Inr no_tables"
  by code_simp

text \<open>
  The constraints the statements of the model check are those the tables declare: a row of the log and
  an intent violate none exactly when the declared table admits their values.
\<close>

theorem declared_constraints_are_checked:
  "(revision_violation d r = None \<longleftrightarrow>
     admits eventic_revision (map revision_values (db_revisions d)) (revision_values r)) \<and>
   (intent_violation d i = None \<longleftrightarrow> admits eventic_intent (map intent_values (db_intents d)) (intent_values i))"
proof
  have pkey: "unique_in (map revision_values rows) (revision_values r) [''revision_id''] \<longleftrightarrow>
      rv_revision_id r \<notin> set (map rv_revision_id rows)" for rows
    by (auto simp: unique_in_def)
  have unique: "unique_in (map revision_values rows) (revision_values r) [''stream'', ''aggregate_id'', ''revision''] \<longleftrightarrow>
      rv_key r \<notin> set (map rv_key rows)" for rows
    by (auto simp: unique_in_def rv_key_def)
  show "revision_violation d r = None \<longleftrightarrow>
     admits eventic_revision (map revision_values (db_revisions d)) (revision_values r)"
    unfolding revision_violation_def admits_def eventic_revision_def first_violated_None
    by (simp add: pkey unique check_holds_def snapshot_id_def delta_id_def)
  have pkey: "unique_in (map intent_values rows) (intent_values i) [''intent_id''] \<longleftrightarrow>
      in_intent_id i \<notin> set (map in_intent_id rows)" for rows
    by (auto simp: unique_in_def)
  have unique: "unique_in (map intent_values rows) (intent_values i) [''subscription_id'', ''revision_id''] \<longleftrightarrow>
      (in_subscription_id i, in_revision_id i) \<notin> set (map (\<lambda>j. (in_subscription_id j, in_revision_id j)) rows)" for rows
    by (auto simp: unique_in_def)
  show "intent_violation d i = None \<longleftrightarrow> admits eventic_intent (map intent_values (db_intents d)) (intent_values i)"
    unfolding intent_violation_def admits_def eventic_intent_def first_violated_None
    by (simp add: pkey unique check_holds_def)
qed

end
