(* ===== verification/Admin.thy ===== *)
theory Admin
  imports Samples Paging
begin

text \<open>
  The administrative operations (\<open>src/eventic/sql/admin.py\<close>): rebuilding the heads from the log,
  verifying log and heads, comparing schema fingerprints and listing intents.

  The log is read in chunks, each query starting after the last key of the chunk before.  The callbacks
  that consume it never write the log, so the chunks are read from the database the operation starts
  with.  A chunk size of zero reads nothing, a negative one is SQLite's "no limit".
\<close>

section \<open>Reading the log in chunks\<close>

definition after_log_key :: "(string \<times> uuid \<times> int) option \<Rightarrow> revision_row \<Rightarrow> bool" where
  "after_log_key after r = (case after of None \<Rightarrow> True | Some k \<Rightarrow> k < rv_key r)"

lemma select_all_log_alt:
  "select_all_log_for d stream chunk after =
     sql_limit chunk (sort_key rv_key
       (filter (\<lambda>r. in_scope stream (rv_stream r) \<and> after_log_key after r) (db_revisions d)))"
  by (simp add: select_all_log_for_def after_log_key_def)

lemma set_sql_limit: "x \<in> set (sql_limit n xs) \<Longrightarrow> x \<in> set xs"
  by (auto simp: sql_limit_def dest: in_set_takeD split: if_splits)

function log_chunks ::
  "db \<Rightarrow> string option \<Rightarrow> int \<Rightarrow> (string \<times> uuid \<times> int) option \<Rightarrow> revision_row list list" where
  "log_chunks d stream chunk after =
     (let rows = select_all_log_for d stream chunk after in
      if rows = [] then [] else rows # log_chunks d stream chunk (Some (rv_key (last rows))))"
  by pat_completeness auto
termination
proof (relation "measure (\<lambda>(d, stream, chunk, after). length (filter (after_log_key after) (db_revisions d)))")
  fix d :: db and stream chunk after rows
  assume rows: "rows = select_all_log_for d stream chunk after" "rows \<noteq> []"
  have "last rows \<in> set (sort_key rv_key
      (filter (\<lambda>r. in_scope stream (rv_stream r) \<and> after_log_key after r) (db_revisions d)))"
    by (rule set_sql_limit [of _ chunk]) (use last_in_set [OF rows(2)] rows(1) in \<open>simp add: select_all_log_alt\<close>)
  then have last: "last rows \<in> set (db_revisions d)" "after_log_key after (last rows)" by simp_all
  let ?new = "after_log_key (Some (rv_key (last rows)))"
  have new_old: "after_log_key after r" if "?new r" for r
    using that last(2) by (auto simp: after_log_key_def split: option.splits)
  have "filter ?new (db_revisions d) = filter ?new (filter (after_log_key after) (db_revisions d))"
    using new_old by (auto intro!: filter_cong)
  moreover have "length (filter ?new (filter (after_log_key after) (db_revisions d)))
      < length (filter (after_log_key after) (db_revisions d))"
    by (rule length_filter_less [of "last rows"]) (use last in \<open>auto simp: after_log_key_def\<close>)
  ultimately show "((d, stream, chunk, Some (rv_key (last rows))), d, stream, chunk, after)
      \<in> measure (\<lambda>(d, stream, chunk, after). length (filter (after_log_key after) (db_revisions d)))"
    by simp
qed simp

declare log_chunks.simps [simp del]

text \<open>Fold one log row into the document of its aggregate; a broken delta leaves the document as it is.\<close>

definition accumulate_into :: "platform \<Rightarrow> doc \<Rightarrow> revision_row \<Rightarrow> exn + doc" where
  "accumulate_into P doc r =
     rbind (column_loads P (rv_payload r)) (\<lambda>payload.
       if rv_encoding r = snapshot_id then
         (case payload of JObj d \<Rightarrow> Inr d | _ \<Rightarrow> Inl (Python TypeError))
       else
         (case delta_decode_row payload (JObj doc) of
            Inr (JObj d) \<Rightarrow> Inr d
          | Inr _ \<Rightarrow> Inl (Python TypeError)
          | Inl e \<Rightarrow> if e = Python ValueError then Inr doc else Inl e))"

text \<open>
  \<open>emit\<close> gets each aggregate's key and document when the key changes and at the end; \<open>current\<close> is the
  aggregate in progress.
\<close>

type_synonym agg = "string \<times> uuid"

fun fold_log ::
  "platform \<Rightarrow> ('s \<Rightarrow> agg \<Rightarrow> doc \<Rightarrow> exn + 's) \<Rightarrow> 's \<Rightarrow> (agg \<times> doc) option \<Rightarrow> revision_row list \<Rightarrow> exn + 's" where
  "fold_log P emit s current [] =
     (case current of None \<Rightarrow> Inr s | Some (key, doc) \<Rightarrow> emit s key doc)"
| "fold_log P emit s current (r # rows) =
     (let key = (rv_stream r, rv_aggregate_id r) in
      case current of
        None \<Rightarrow>
          rbind (accumulate_into P [] r) (\<lambda>doc. fold_log P emit s (Some (key, doc)) rows)
      | Some (k, doc) \<Rightarrow>
          if key \<noteq> k then
            rbind (emit s k doc) (\<lambda>s'.
            rbind (accumulate_into P [] r) (\<lambda>doc'. fold_log P emit s' (Some (key, doc')) rows))
          else
            rbind (accumulate_into P doc r) (\<lambda>doc'. fold_log P emit s (Some (k, doc')) rows))"

definition stream_log ::
  "platform \<Rightarrow> ('s \<Rightarrow> agg \<Rightarrow> doc \<Rightarrow> exn + 's) \<Rightarrow> 's \<Rightarrow> db \<Rightarrow> string option \<Rightarrow> int \<Rightarrow> exn + 's" where
  "stream_log P emit s d stream chunk =
     fold_log P emit s None (concat (log_chunks d stream chunk None))"

section \<open>Rebuilding the heads\<close>

record rebuild_report =
  rb_streams :: "string list"
  rb_rebuilt :: nat
  rb_orphans :: nat
  rb_mismatches :: nat

record rebuild_state =
  rs_db :: db
  rs_mismatches :: nat
  rs_rebuilt :: nat
  rs_streams :: "string set"
  rs_emitted :: "agg set"

definition rebuild_emit :: "platform \<Rightarrow> rebuild_state \<Rightarrow> agg \<Rightarrow> doc \<Rightarrow> exn + rebuild_state" where
  "rebuild_emit P s key doc =
     (let s1 = s\<lparr>rs_emitted := insert key (rs_emitted s), rs_streams := insert (fst key) (rs_streams s)\<rparr>;
          mismatch = s1\<lparr>rs_mismatches := rs_mismatches s1 + 1\<rparr> in
      case select_latest_revision (rs_db s1) (fst key) (snd key) of
        None \<Rightarrow> Inr mismatch
      | Some l \<Rightarrow>
          rbind (py_canonical_bytes P (JObj doc)) (\<lambda>b.
            if digest P b \<noteq> rv_digest l then Inr mismatch
            else
              rbind (column_loads P (rv_meta l)) (\<lambda>meta.
                Inr (s1\<lparr>rs_db := upsert_head (rs_db s1)
                  \<lparr>hd_stream = fst key, hd_aggregate_id = snd key, hd_revision = rv_revision l,
                   hd_revision_id = rv_revision_id l, hd_schema_version = rv_schema_version l,
                   hd_meta_version = rv_meta_version l, hd_state = JObj doc, hd_digest = rv_digest l,
                   hd_meta = meta, hd_committed_at = rv_committed_at l\<rparr>,
                  rs_rebuilt := rs_rebuilt s1 + 1\<rparr>))))"

text \<open>One transaction: an exception leaves the database as it was.\<close>

definition rebuild_heads :: "platform \<Rightarrow> db \<Rightarrow> string option \<Rightarrow> int \<Rightarrow> (exn + rebuild_report) \<times> db" where
  "rebuild_heads P d stream chunk =
     (let head_keys = set (map (\<lambda>h. (hd_stream h, hd_aggregate_id h)) (select_all_heads_for d stream));
          d1 = delete_heads d stream;
          s = \<lparr>rs_db = d1, rs_mismatches = 0, rs_rebuilt = 0, rs_streams = {}, rs_emitted = {}\<rparr> in
      case stream_log P (rebuild_emit P) s d1 stream chunk of
        Inl e \<Rightarrow> (Inl e, d)
      | Inr t \<Rightarrow>
          (Inr \<lparr>rb_streams = sorted_list_of_set (rs_streams t), rb_rebuilt = rs_rebuilt t,
                rb_orphans = card (head_keys - rs_emitted t), rb_mismatches = rs_mismatches t\<rparr>,
           rs_db t))"

section \<open>Verifying\<close>

record verify_report =
  vr_streams :: "string list"
  vr_checked :: nat
  vr_mismatches :: nat

text \<open>\<open>_decode_row\<close>: the window is the row's own checkpoint distance, not the store's.\<close>

fun admin_window_loop :: "platform \<Rightarrow> int \<Rightarrow> revision_row list \<Rightarrow> json \<Rightarrow> int \<Rightarrow> exn + json option" where
  "admin_window_loop P c [] doc prev = Inr (Some doc)"
| "admin_window_loop P c (r # rs) doc prev =
     (if rv_revision r \<le> c then admin_window_loop P c rs doc prev
      else if rv_encoding r = snapshot_id then
        rbind (column_loads P (rv_payload r)) (\<lambda>doc'. admin_window_loop P c rs doc' (rv_revision r))
      else
        rbind (column_loads P (rv_payload r)) (\<lambda>payload.
          case payload of
            JObj p \<Rightarrow>
              if \<not> base_is p prev then Inr None
              else rbind (delta_decode_row payload doc) (\<lambda>doc'. admin_window_loop P c rs doc' (rv_revision r))
          | _ \<Rightarrow> Inl (Python AttributeError)))"

definition admin_decode_row :: "platform \<Rightarrow> db \<Rightarrow> revision_row \<Rightarrow> exn + json option" where
  "admin_decode_row P d r =
     (if rv_encoding r = snapshot_id then
        rbind (column_loads P (rv_payload r)) (\<lambda>doc. Inr (Some doc))
      else
        rbind (column_loads P (rv_payload r)) (\<lambda>delta.
        rbind (payload_every delta) (\<lambda>every.
          (let window = select_window d (rv_stream r) (rv_aggregate_id r)
                 (max 0 (rv_revision r - every)) (rv_revision r) in
           case List.find (\<lambda>q. rv_encoding q = snapshot_id) (rev window) of
             None \<Rightarrow> Inr None
           | Some checkpoint \<Rightarrow>
               rbind (column_loads P (rv_payload checkpoint)) (\<lambda>doc.
                 admin_window_loop P (rv_revision checkpoint) window doc (rv_revision checkpoint))))))"

definition row_mismatch :: "platform \<Rightarrow> db \<Rightarrow> revision_row \<Rightarrow> exn + bool" where
  "row_mismatch P d r =
     rbind (admin_decode_row P d r) (\<lambda>doc.
       case doc of
         None \<Rightarrow> Inr True
       | Some JNull \<Rightarrow> Inr True
       | Some v \<Rightarrow> rbind (py_canonical_bytes P v) (\<lambda>b. Inr (digest P b \<noteq> rv_digest r)))"

fun verify_rows :: "platform \<Rightarrow> db \<Rightarrow> revision_row list \<Rightarrow> exn + nat" where
  "verify_rows P d [] = Inr 0"
| "verify_rows P d (r # rs) =
     rbind (row_mismatch P d r) (\<lambda>bad.
     rbind (verify_rows P d rs) (\<lambda>n. Inr ((if bad then 1 else 0) + n)))"

definition verify_emit :: "platform \<Rightarrow> db \<Rightarrow> nat \<Rightarrow> agg \<Rightarrow> doc \<Rightarrow> exn + nat" where
  "verify_emit P d mismatches key doc =
     rbind (py_canonical_bytes P (JObj doc)) (\<lambda>b.
       case select_head d (fst key) (snd key) of
         None \<Rightarrow> Inr (mismatches + 1)
       | Some live \<Rightarrow> Inr (if hd_digest live \<noteq> digest P b then mismatches + 1 else mismatches))"

definition verify :: "platform \<Rightarrow> db \<Rightarrow> string option \<Rightarrow> int \<Rightarrow> exn + verify_report" where
  "verify P d stream chunk =
     (let rows = concat (log_chunks d stream chunk None) in
      rbind (verify_rows P d rows) (\<lambda>bad.
      rbind (stream_log P (verify_emit P d) bad d stream chunk) (\<lambda>mismatches.
        Inr \<lparr>vr_streams = sorted_list_of_set (rv_stream ` set rows),
             vr_checked = length rows, vr_mismatches = mismatches\<rparr>)))"

section \<open>Schema check\<close>

record schema_report =
  sc_streams :: "(string \<times> int \<times> string \<times> string option \<times> bool option) list"
  sc_drift :: bool
  sc_baseline_missing :: bool

text \<open>One declared stream: its name, schema version and fingerprint.\<close>

definition check_stream :: "db \<Rightarrow> string \<times> int \<times> string \<Rightarrow> string \<times> int \<times> string \<times> string option \<times> bool option" where
  "check_stream d s =
     (case s of (name, version, declared) \<Rightarrow>
        (case select_fingerprint d name version of
           None \<Rightarrow> (name, version, declared, None, None)
         | Some f \<Rightarrow> (name, version, declared, Some (fp_fingerprint f), Some (fp_fingerprint f = declared))))"

definition admin_check :: "db \<Rightarrow> (string \<times> int \<times> string) list \<Rightarrow> schema_report" where
  "admin_check d streams =
     (let rows = map (check_stream d) streams in
      \<lparr>sc_streams = rows,
       sc_drift = list_ex (\<lambda>(_, _, _, _, ok). ok = Some False) rows,
       sc_baseline_missing = list_ex (\<lambda>(_, _, _, stored, _). stored = None) rows\<rparr>)"

section \<open>Listing intents\<close>

text \<open>The cursor is the pair that the text of a cursor encodes (\<open>Cursor\<close>).  A page of size zero has no last row to point at.\<close>

definition intent_key :: "intent_row \<Rightarrow> time \<times> uuid" where
  "intent_key i = (in_created_at i, in_intent_id i)"

definition select_intents :: "db \<Rightarrow> string option \<Rightarrow> int option \<Rightarrow> (time \<times> uuid) option \<Rightarrow> intent_row list" where
  "select_intents d status limit cursor =
     (let rows = sort_key intent_key
            (filter (\<lambda>i. in_scope status (in_status i) \<and> after_key intent_key cursor i) (db_intents d)) in
      case limit of None \<Rightarrow> rows | Some n \<Rightarrow> sql_limit n rows)"

definition list_intents ::
  "db \<Rightarrow> string option \<Rightarrow> int option \<Rightarrow> (time \<times> uuid) option \<Rightarrow> exn + (intent_row list \<times> (time \<times> uuid) option)" where
  "list_intents d status limit cursor =
     (let out = select_intents d status limit cursor in
      case limit of
        None \<Rightarrow> Inr (out, None)
      | Some n \<Rightarrow>
          if int (length out) = n then
            (if out = [] then Inl (Python OtherException) else Inr (out, Some (intent_key (last out))))
          else Inr (out, None))"

section \<open>Chunks cover the log\<close>

definition log_rows :: "db \<Rightarrow> string option \<Rightarrow> revision_row list" where
  "log_rows d stream = sort_key rv_key (filter (\<lambda>r. in_scope stream (rv_stream r)) (db_revisions d))"

lemma after_log_key_alt: "after_log_key after = after_key rv_key after"
  by (simp add: fun_eq_iff after_log_key_def after_key_def)

lemma fetch_log:
  "select_all_log_for d stream (int n) after = take n (filter (after_key rv_key after) (log_rows d stream))"
  by (simp add: select_all_log_alt sql_limit_def log_rows_def filter_sort_key after_log_key_alt conj_commute)

interpretation log_pager: keyset_pager "log_rows d stream" rv_key "\<lambda>n after. select_all_log_for d stream (int n) after"
  for d :: db and stream :: "string option"
  by unfold_locales (simp_all only: fetch_log log_rows_def sorted_sort_key)

lemma distinct_log_rows: "distinct (map rv_key (db_revisions d)) \<Longrightarrow> distinct (map rv_key (log_rows d stream))"
  by (auto simp: log_rows_def distinct_map intro: inj_on_subset)

lemma concat_log_chunks:
  assumes "distinct (map rv_key (db_revisions d))" "0 < n"
  shows "concat (log_chunks d stream (int n) after) = filter (after_key rv_key after) (log_rows d stream)"
  using assms
proof (induction d stream "int n" after rule: log_chunks.induct)
  case (1 d stream after)
  let ?rows = "select_all_log_for d stream (int n) after"
  note keys = distinct_log_rows [OF 1(2), of stream]
  show ?case
  proof (cases "?rows = []")
    case True
    with log_pager.page_empty [OF 1(3), of d stream after] show ?thesis
      by (subst log_chunks.simps) simp
  next
    case False
    then have "concat (log_chunks d stream (int n) (Some (rv_key (last ?rows)))) =
        filter (after_key rv_key (Some (rv_key (last ?rows)))) (log_rows d stream)"
      using 1 by simp
    with False log_pager.page_split [OF keys False] show ?thesis
      by (subst log_chunks.simps) (simp add: Let_def)
  qed
qed

text \<open>So every positive chunk size reads the whole log in scope, in key order.\<close>

lemma chunks_read_the_log:
  assumes "distinct (map rv_key (db_revisions d))" "0 < chunk"
  shows "concat (log_chunks d stream chunk None) = log_rows d stream"
  using concat_log_chunks [OF assms(1), of "nat chunk" stream None] assms(2)
  by (simp add: after_key_def)

lemma chunk_zero_reads_nothing: "log_chunks d stream 0 after = []"
  by (subst log_chunks.simps) (simp add: select_all_log_alt sql_limit_def)

end
