(* ===== verification/Admin_Facts.thy ===== *)
theory Admin_Facts
  imports Admin
begin

text \<open>
  Rebuilding and verifying a consistent store: folding the log over an aggregate gives what the store's
  own windowed decoding gives, so a rebuild restores the heads exactly and a verification finds nothing.
\<close>

section \<open>Single rows\<close>

lemma distinct_singleton: "distinct xs \<Longrightarrow> set xs = {x} \<Longrightarrow> xs = [x]"
proof (induction xs)
  case (Cons y ys)
  then have "y = x" "set ys \<subseteq> {x}" "x \<notin> set ys" by auto
  then have "set ys = {}" by (metis subset_singletonD singletonI)
  with \<open>y = x\<close> show ?case by simp
qed simp

lemma select_window_single:
  assumes "distinct (map rv_key (db_revisions d))" "r \<in> set (db_revisions d)"
  shows "select_window d (rv_stream r) (rv_aggregate_id r) (rv_revision r) (rv_revision r) = [r]"
proof -
  let ?f = "filter (\<lambda>q. of_aggregate (rv_stream r) (rv_aggregate_id r) q \<and> rv_revision r \<le> rv_revision q \<and>
      rv_revision q \<le> rv_revision r) (db_revisions d)"
  have "set ?f = {r}"
  proof -
    have "q = r" if "q \<in> set ?f" for q
    proof -
      have "rv_key q = rv_key r" using that by (auto simp: of_aggregate_def rv_key_def)
      with assms that show ?thesis by (auto simp: distinct_map dest: inj_onD)
    qed
    moreover have "r \<in> set ?f" using assms(2) by (simp add: of_aggregate_def)
    ultimately show ?thesis by blast
  qed
  moreover have "distinct ?f" using assms(1) by (simp add: distinct_map)
  ultimately have "?f = [r]" by (intro distinct_singleton)
  then show ?thesis by (simp add: select_window_def)
qed

text \<open>A snapshot row decodes to its payload, every other row to its delta over the row before.\<close>

lemma decode_checkpoint:
  assumes "store_ok P encs d" "r \<in> set (db_revisions d)"
    and "is_checkpoint (encoding_for encs (rv_stream r)) (rv_revision r)"
  shows "row_decodes P encs d r = column_loads P (rv_payload r)"
proof -
  have keys: "distinct (map rv_key (db_revisions d))" and "rv_encoding r = snapshot_id"
    using assms by (auto simp: store_ok_def log_row_ok_def)
  then show ?thesis
    using assms(3) select_window_single [OF keys assms(2)] select_revision_row_unique [OF keys assms(2)]
    by (cases "encs (rv_stream r)"; cases "the (encs (rv_stream r))")
       (auto simp: row_decodes_def decode_log_revision_def encoding_for_def window_start_def decode_window_def rbind_def
          split: sum.split)
qed

lemma decode_successor:
  assumes ok: "store_ok P encs d" and q: "q \<in> set (db_revisions d)" and r: "r \<in> set (db_revisions d)"
    and same: "rv_stream r = rv_stream q" "rv_aggregate_id r = rv_aggregate_id q" "rv_revision r = rv_revision q + 1"
    and dq: "row_decodes P encs d q = Inr dq"
  shows "row_decodes P encs d r =
    (if rv_encoding r = snapshot_id then column_loads P (rv_payload r)
     else rbind (column_loads P (rv_payload r)) (\<lambda>payload. delta_step payload (rv_revision q) dq))"
proof (cases "is_checkpoint (encoding_for encs (rv_stream r)) (rv_revision r)")
  case True
  then have "rv_encoding r = snapshot_id" using ok r by (auto simp: store_ok_def log_row_ok_def)
  with decode_checkpoint [OF ok r True] show ?thesis by simp
next
  case False
  then obtain every where every: "encs (rv_stream r) = Some (Delta every)" "1 \<le> every" "rv_revision r mod every \<noteq> 0"
    using ok by (cases "encs (rv_stream r)"; cases "the (encs (rv_stream r))")
      (auto simp: encoding_for_def encodings_ok_def store_ok_def)
  define n where "n = rv_revision r"
  define m where "m = checkpoint_below every n"
  let ?w = "select_window d (rv_stream r) (rv_aggregate_id r) m (n - 1)"
  have keys: "distinct (map rv_key (db_revisions d))" using ok by (simp add: store_ok_def)
  have "0 \<le> rv_revision q" using ok q by (auto simp: store_ok_def log_row_ok_def)
  then have n: "0 < n" "n mod every \<noteq> 0" "rv_revision q = n - 1" using same every by (auto simp: n_def)
  have m: "0 \<le> m" "m \<le> n - 1" "m mod every = 0" "m = checkpoint_below every (n - 1)"
    using checkpoint_below_bounds [OF every(2), of "n - 1"] checkpoint_below_bounds [OF every(2), of n]
      checkpoint_below_pred [OF every(2) n(1,2)] n(1) by (simp_all add: m_def)
  have key: "(rv_stream r, rv_aggregate_id r, n - 1) \<in> rv_key ` set (db_revisions d)"
    using q same n by (force simp: rv_key_def)
  from all_revisions_below [OF ok key m(1,2)] obtain ck0 where
    ck0: "ck0 \<in> set (db_revisions d)" "rv_key ck0 = (rv_stream r, rv_aggregate_id r, m)" by auto
  then have ck0_enc: "rv_encoding ck0 = snapshot_id"
    using ok every m(3) by (auto simp: store_ok_def log_row_ok_def rv_key_def encoding_for_def)
  have reach: "decode_window P k (select_window d (rv_stream r) (rv_aggregate_id r) st k) =
      decode_window P k (select_window d (rv_stream r) (rv_aggregate_id r) m k)" if "st \<le> m" "m \<le> k" for k st
    by (rule decode_window_reach [OF that(1) _ ck0_enc])
       (use ck0 that in \<open>auto simp: set_select_window of_aggregate_def rv_key_def\<close>)
  have prev: "decode_window P (n - 1) ?w = Inr dq"
    using reach [of "window_start every (n - 1)" "n - 1"] window_start_reach [OF every(2), of "n - 1"] dq n(1,3) m(2,4)
      same(1,2) [symmetric]
    by (simp add: row_decodes_def decode_log_revision_def every(1))
  have last: "?w \<noteq> []" "rv_revision (last ?w) = n - 1"
    using prev by (auto simp: decode_window_def split: if_splits)
  have w: "select_window d (rv_stream r) (rv_aggregate_id r) m n = ?w @ [r]"
    using select_window_split [of m n d "rv_stream r" "rv_aggregate_id r" n] select_window_single [OF keys r] m(2)
    by (simp add: n_def)
  have "row_decodes P encs d r = decode_window P n (?w @ [r])"
    using reach [of "window_start every n" n] window_start_reach [OF every(2), of n] n(1) m(2) w
    by (simp add: row_decodes_def decode_log_revision_def every(1) n_def m_def)
  moreover have "decode_window P n (?w @ [r]) = column_loads P (rv_payload r)" if "rv_encoding r = snapshot_id"
  proof -
    have "\<forall>x \<in> set (?w @ [r]). rv_revision x \<le> n" by (auto simp: set_select_window n_def)
    from window_loop_skip [OF this, of P "[]"] that show ?thesis
      by (auto simp: decode_window_def n_def rbind_def split: sum.split)
  qed
  moreover have "decode_window P n (?w @ [r]) =
      rbind (column_loads P (rv_payload r)) (\<lambda>payload. delta_step payload (n - 1) dq)"
    if "rv_encoding r \<noteq> snapshot_id"
    by (rule decode_window_snoc [OF last _ prev]) (use that in \<open>simp_all add: select_window_def n_def\<close>)
  ultimately show ?thesis by (simp add: n(3))
qed

section \<open>The log in order\<close>

definition same_aggregate :: "revision_row \<Rightarrow> revision_row \<Rightarrow> bool" where
  "same_aggregate q r \<longleftrightarrow> rv_stream r = rv_stream q \<and> rv_aggregate_id r = rv_aggregate_id q"

text \<open>
  Neighbours in key order: the next revision of the same aggregate, or the last row of one aggregate and
  the first of another.
\<close>

definition neighbours :: "db \<Rightarrow> revision_row \<Rightarrow> revision_row \<Rightarrow> bool" where
  "neighbours d q r \<longleftrightarrow>
     (if same_aggregate q r then rv_revision r = rv_revision q + 1 \<and> \<not> last_row d q
      else last_row d q \<and> rv_revision r = 0)"

lemma set_log_rows: "set (log_rows d stream) = {r \<in> set (db_revisions d). in_scope stream (rv_stream r)}"
  by (auto simp: log_rows_def)

lemma no_row_between:
  assumes "sorted (map rv_key (xs @ q # r # ys))" "p \<in> set (xs @ q # r # ys)"
  shows "rv_key p \<le> rv_key q \<or> rv_key r \<le> rv_key p"
  using assms by (auto simp: sorted_append)

definition agg_of :: "revision_row \<Rightarrow> agg" where
  "agg_of r = (rv_stream r, rv_aggregate_id r)"

lemma same_aggregate_agg: "same_aggregate q r \<longleftrightarrow> agg_of r = agg_of q"
  by (simp add: same_aggregate_def agg_of_def)

lemma rv_key_le:
  "rv_key p \<le> rv_key q \<longleftrightarrow> agg_of p < agg_of q \<or> agg_of p = agg_of q \<and> rv_revision p \<le> rv_revision q"
  by (auto simp: rv_key_def agg_of_def)

lemma rv_key_less:
  "rv_key p < rv_key q \<longleftrightarrow> agg_of p < agg_of q \<or> agg_of p = agg_of q \<and> rv_revision p < rv_revision q"
  by (auto simp: rv_key_def agg_of_def)

lemma log_neighbours:
  assumes ok: "store_ok P encs d" and rows: "log_rows d stream = xs @ q # r # ys"
  shows "neighbours d q r"
proof -
  have keys: "distinct (map rv_key (db_revisions d))" using ok by (simp add: store_ok_def)
  have sorted: "sorted (map rv_key (xs @ q # r # ys))"
    unfolding rows [symmetric] by (simp add: log_rows_def)
  have less: "rv_key q < rv_key r"
    using sorted distinct_log_rows [OF keys, of stream] rows by (auto simp: sorted_append)
  have members: "q \<in> set (db_revisions d)" "r \<in> set (db_revisions d)"
    "in_scope stream (rv_stream q)" "in_scope stream (rv_stream r)"
    using set_log_rows [of d stream] rows by auto
  have gap: "rv_key p \<le> rv_key q \<or> rv_key r \<le> rv_key p"
    if "p \<in> set (db_revisions d)" "in_scope stream (rv_stream p)" for p
    using no_row_between [OF sorted, of p] that set_log_rows [of d stream] rows by auto
  have pos: "0 \<le> rv_revision q" "0 \<le> rv_revision r"
    using ok members by (auto simp: store_ok_def log_row_ok_def)
  have pred: "\<exists>p \<in> set (db_revisions d). agg_of p = agg_of r \<and> rv_revision p = rv_revision r - 1"
    if "0 < rv_revision r"
  proof -
    have "(rv_stream r, rv_aggregate_id r, rv_revision r - 1) \<in> rv_key ` set (db_revisions d)"
      using ok members(2) that by (simp add: store_ok_def)
    then show ?thesis by (auto simp: rv_key_def agg_of_def)
  qed
  have scope: "in_scope stream (rv_stream p)" if "agg_of p = agg_of q \<or> agg_of p = agg_of r" for p
    using that members by (auto simp: agg_of_def)
  have of: "of_aggregate (rv_stream x) (rv_aggregate_id x) p \<longleftrightarrow> agg_of p = agg_of x" for x p
    by (auto simp: of_aggregate_def agg_of_def)
  show ?thesis
  proof (cases "agg_of r = agg_of q")
    case True
    with less have lt: "rv_revision q < rv_revision r" by (simp add: rv_key_less)
    then obtain p where p: "p \<in> set (db_revisions d)" "agg_of p = agg_of r" "rv_revision p = rv_revision r - 1"
      using pred pos by auto
    then have "rv_revision r = rv_revision q + 1"
      using gap [OF p(1) scope] True lt by (auto simp: rv_key_le)
    with True lt members(2) show ?thesis
      by (auto simp: neighbours_def last_row_def same_aggregate_agg of)
  next
    case False
    with less have lt: "agg_of q < agg_of r" by (simp add: rv_key_less)
    have "rv_revision p \<le> rv_revision q" if "p \<in> set (db_revisions d)" "agg_of p = agg_of q" for p
      using gap [OF that(1) scope] that(2) lt by (auto simp: rv_key_le)
    moreover have "rv_revision r = 0"
    proof (rule ccontr)
      assume "rv_revision r \<noteq> 0"
      with pos pred obtain p where p: "p \<in> set (db_revisions d)" "agg_of p = agg_of r"
        "rv_revision p = rv_revision r - 1" by force
      with gap [OF p(1) scope] lt show False by (auto simp: rv_key_le)
    qed
    ultimately show ?thesis
      using False members(1) by (auto simp: neighbours_def last_row_def same_aggregate_agg of)
  qed
qed

lemma successivelyI: "(\<And>xs q r ys. l = xs @ q # r # ys \<Longrightarrow> P q r) \<Longrightarrow> successively P l"
proof (induction l rule: induct_list012)
  case (3 x y zs)
  have "P x y" by (rule 3(3) [of "[]"]) simp
  moreover have "successively P (y # zs)"
    by (rule 3(2)) (use 3(3) in \<open>metis append_Cons\<close>)
  ultimately show ?case by simp
qed simp_all

lemma log_last:
  assumes ok: "store_ok P encs d" and ne: "log_rows d stream \<noteq> []"
  shows "last_row d (last (log_rows d stream))"
proof -
  let ?l = "last (log_rows d stream)"
  have l: "?l \<in> set (db_revisions d)" "in_scope stream (rv_stream ?l)"
    using last_in_set [OF ne] by (auto simp: set_log_rows)
  have sorted: "sorted (map rv_key (log_rows d stream))" by (simp add: log_rows_def)
  have max: "rv_key p \<le> rv_key ?l" if "p \<in> set (log_rows d stream)" for p
  proof -
    obtain ys where ys: "log_rows d stream = ys @ [?l]" using ne by (metis append_butlast_last_id)
    then have "sorted (map rv_key (ys @ [?l]))" "p \<in> set (ys @ [?l])" using sorted that by metis+
    then show ?thesis by (auto simp: sorted_append)
  qed
  have "rv_revision p \<le> rv_revision ?l"
    if "p \<in> set (db_revisions d)" "of_aggregate (rv_stream ?l) (rv_aggregate_id ?l) p" for p
    using max [of p] that l(2) by (auto simp: set_log_rows of_aggregate_def rv_key_def)
  with l show ?thesis by (simp add: last_row_def)
qed

section \<open>Folding the log\<close>

definition row_doc :: "platform \<Rightarrow> encodings \<Rightarrow> db \<Rightarrow> revision_row \<Rightarrow> doc" where
  "row_doc P encs d r = (case row_decodes P encs d r of Inr (JObj x) \<Rightarrow> x | _ \<Rightarrow> [])"

lemma row_doc:
  assumes "store_ok P encs d" "r \<in> set (db_revisions d)"
  shows "row_decodes P encs d r = Inr (JObj (row_doc P encs d r))"
proof -
  have "log_row_ok P encs d r" using assms by (simp add: store_ok_def)
  then show ?thesis by (rule log_row_okE) (simp add: row_doc_def)
qed

lemma accumulate_first:
  assumes "store_ok P encs d" "r \<in> set (db_revisions d)" "rv_revision r = 0"
  shows "accumulate_into P [] r = Inr (row_doc P encs d r)"
proof -
  have "is_checkpoint (encoding_for encs (rv_stream r)) (rv_revision r)"
    using assms(3) by (cases "encoding_for encs (rv_stream r)") simp_all
  moreover from this have "rv_encoding r = snapshot_id"
    using assms by (auto simp: store_ok_def log_row_ok_def)
  moreover from calculation have "column_loads P (rv_payload r) = Inr (JObj (row_doc P encs d r))"
    using decode_checkpoint [OF assms(1,2)] row_doc [OF assms(1,2)] by metis
  ultimately show ?thesis by (simp add: accumulate_into_def)
qed

lemma accumulate_next:
  assumes "store_ok P encs d" "q \<in> set (db_revisions d)" "r \<in> set (db_revisions d)"
    and "same_aggregate q r" "rv_revision r = rv_revision q + 1"
  shows "accumulate_into P (row_doc P encs d q) r = Inr (row_doc P encs d r)"
proof -
  have "row_decodes P encs d r =
      (if rv_encoding r = snapshot_id then column_loads P (rv_payload r)
       else rbind (column_loads P (rv_payload r))
         (\<lambda>payload. delta_step payload (rv_revision q) (JObj (row_doc P encs d q))))"
    by (rule decode_successor [OF assms(1-3)])
       (use assms(4,5) row_doc [OF assms(1,2)] in \<open>auto simp: same_aggregate_def\<close>)
  with row_doc [OF assms(1,3)] show ?thesis
    by (auto simp: accumulate_into_def delta_step_def rbind_def split: if_splits sum.splits json.splits)
qed

text \<open>The calls of \<open>emit\<close>, one per aggregate.\<close>

fun emit_all :: "('s \<Rightarrow> agg \<Rightarrow> doc \<Rightarrow> exn + 's) \<Rightarrow> 's \<Rightarrow> (agg \<times> doc) list \<Rightarrow> exn + 's" where
  "emit_all emit s [] = Inr s"
| "emit_all emit s ((key, doc) # ks) = rbind (emit s key doc) (\<lambda>s'. emit_all emit s' ks)"

definition emissions :: "platform \<Rightarrow> encodings \<Rightarrow> db \<Rightarrow> revision_row list \<Rightarrow> (agg \<times> doc) list" where
  "emissions P encs d rows = map (\<lambda>r. (agg_of r, row_doc P encs d r)) (filter (last_row d) rows)"

lemma fold_log_suffix:
  assumes ok: "store_ok P encs d"
  shows "set (q # rows) \<subseteq> set (db_revisions d) \<Longrightarrow> successively (neighbours d) (q # rows) \<Longrightarrow>
    last_row d (last (q # rows)) \<Longrightarrow>
    fold_log P emit s (Some (agg_of q, row_doc P encs d q)) rows = emit_all emit s (emissions P encs d (q # rows))"
proof (induction rows arbitrary: q s)
  case Nil
  then show ?case by (simp add: emissions_def rbind_def split: sum.split)
next
  case (Cons r rows)
  have nb: "neighbours d q r" and rest: "successively (neighbours d) (r # rows)"
    "set (r # rows) \<subseteq> set (db_revisions d)" "last_row d (last (r # rows))"
    using Cons.prems by simp_all
  note IH = Cons.IH [OF rest(2,1,3)]
  have mem: "q \<in> set (db_revisions d)" "r \<in> set (db_revisions d)" using Cons.prems by simp_all
  show ?case
  proof (cases "same_aggregate q r")
    case True
    with nb have "rv_revision r = rv_revision q + 1" "\<not> last_row d q" by (simp_all add: neighbours_def)
    with accumulate_next [OF ok mem True] IH True show ?thesis
      by (simp add: emissions_def agg_of_def same_aggregate_def)
  next
    case False
    with nb have "rv_revision r = 0" "last_row d q" by (simp_all add: neighbours_def)
    moreover have "(rv_stream r, rv_aggregate_id r) \<noteq> agg_of q"
      using False by (auto simp: same_aggregate_def agg_of_def)
    ultimately show ?thesis
      using accumulate_first [OF ok mem(2)] IH by (simp add: emissions_def agg_of_def Let_def)
  qed
qed

lemma stream_log_emits:
  assumes ok: "store_ok P encs d" and same: "db_revisions d' = db_revisions d" and "0 < chunk"
  shows "stream_log P emit s d' stream chunk = emit_all emit s (emissions P encs d (log_rows d stream))"
proof -
  have "distinct (map rv_key (db_revisions d'))" using ok same by (simp add: store_ok_def)
  from chunks_read_the_log [OF this \<open>0 < chunk\<close>, of stream]
  have rows: "concat (log_chunks d' stream chunk None) = log_rows d stream" by (simp add: log_rows_def same)
  show ?thesis
  proof (cases "log_rows d stream")
    case Nil
    then show ?thesis by (simp add: stream_log_def rows emissions_def)
  next
    case (Cons r rs)
    have members: "set (r # rs) \<subseteq> set (db_revisions d)"
      using set_log_rows [of d stream] Cons by auto
    have succ: "successively (neighbours d) (r # rs)"
      by (rule successivelyI) (use log_neighbours [OF ok] Cons in metis)
    have last: "last_row d (last (r # rs))" using log_last [OF ok, of stream] Cons by simp
    have "rv_revision r = 0"
    proof (rule ccontr)
      assume "rv_revision r \<noteq> 0"
      then have "(rv_stream r, rv_aggregate_id r, rv_revision r - 1) \<in> rv_key ` set (db_revisions d)"
        using ok members by (auto simp: store_ok_def log_row_ok_def)
      then obtain p where p: "p \<in> set (db_revisions d)" "rv_key p = (rv_stream r, rv_aggregate_id r, rv_revision r - 1)"
        by auto
      have "in_scope stream (rv_stream r)" using set_log_rows [of d stream] Cons by auto
      with p have "p \<in> set (r # rs)" using set_log_rows [of d stream] Cons by (auto simp: rv_key_def)
      moreover have "sorted (map rv_key (r # rs))" using Cons by (metis log_rows_def sorted_sort_key)
      ultimately have "rv_key r \<le> rv_key p" by auto
      with p show False by (simp add: rv_key_def)
    qed
    with accumulate_first [OF ok] members fold_log_suffix [OF ok members succ last] show ?thesis
      by (simp add: stream_log_def rows Cons agg_of_def Let_def)
  qed
qed

section \<open>Rebuilding\<close>

lemma select_latest_last_row:
  assumes keys: "distinct (map rv_key (db_revisions d))" and r: "last_row d r"
  shows "select_latest_revision d (rv_stream r) (rv_aggregate_id r) = Some r"
proof -
  let ?l = "sort_key rv_revision (filter (of_aggregate (rv_stream r) (rv_aggregate_id r)) (db_revisions d))"
  have mem: "r \<in> set ?l" using r by (simp add: last_row_def of_aggregate_def)
  then have ne: "?l \<noteq> []" by (metis empty_iff empty_set)
  then obtain ys q where l: "?l = ys @ [q]" by (metis append_butlast_last_id)
  have "sorted (map rv_revision (ys @ [q]))" unfolding l [symmetric] by simp
  moreover have "r \<in> set (ys @ [q])" using mem l by simp
  ultimately have "rv_revision r \<le> rv_revision q" by (auto simp: sorted_append)
  moreover have q: "q \<in> set (db_revisions d)" "of_aggregate (rv_stream r) (rv_aggregate_id r) q"
    using arg_cong [OF l, of set] by auto
  ultimately have "rv_key q = rv_key r"
    using r by (auto simp: last_row_def rv_key_def of_aggregate_def intro: antisym)
  with keys q r have "q = r" by (auto simp: last_row_def distinct_map dest: inj_onD)
  with l show ?thesis by (simp add: select_latest_revision_def)
qed

lemma select_latest_cong: "db_revisions d = db_revisions d' \<Longrightarrow> select_latest_revision d = select_latest_revision d'"
  by (simp add: fun_eq_iff select_latest_revision_def)

definition head_for :: "platform \<Rightarrow> encodings \<Rightarrow> db \<Rightarrow> revision_row \<Rightarrow> head_row" where
  "head_for P encs d r = head_of_row r (JObj (row_doc P encs d r))"

lemma upsert_head_rows_fresh: "hd_aggregate h \<notin> hd_aggregate ` set gs \<Longrightarrow> upsert_head_rows h gs = gs @ [h]"
  by (induction gs) (auto simp: hd_aggregate_def)

text \<open>Emitting the document of a last row writes its head.\<close>

lemma rebuild_emit_last:
  assumes ok: "store_ok P encs d" and same: "db_revisions (rs_db s) = db_revisions d" and r: "last_row d r"
  shows "rebuild_emit P s (agg_of r) (row_doc P encs d r) =
    Inr (s\<lparr>rs_emitted := insert (agg_of r) (rs_emitted s), rs_streams := insert (rv_stream r) (rs_streams s),
          rs_db := upsert_head (rs_db s) (head_for P encs d r), rs_rebuilt := rs_rebuilt s + 1\<rparr>)"
proof -
  have mem: "r \<in> set (db_revisions d)" using r by (simp add: last_row_def)
  have keys: "distinct (map rv_key (db_revisions d))" and row: "log_row_ok P encs d r"
    using ok mem by (simp_all add: store_ok_def)
  have latest: "select_latest_revision (rs_db s) (rv_stream r) (rv_aggregate_id r) = Some r"
    using select_latest_last_row [OF keys r] select_latest_cong [OF same] by simp
  obtain b where b: "canonical_bytes P (JObj (row_doc P encs d r)) = Some b" "rv_digest r = digest P b"
    using row by (rule log_row_okE) (auto simp: row_doc_def)
  obtain m where m: "rv_meta r = JObj m" using row by (auto simp: log_row_ok_def is_doc_iff)
  show ?thesis
    using latest b m
    by (simp add: rebuild_emit_def agg_of_def py_canonical_bytes_def column_loads_def head_for_def
        head_of_row_def Let_def)
qed

text \<open>The state after all aggregates of a list of last rows.\<close>

lemma emit_all_rebuild:
  assumes ok: "store_ok P encs d"
  shows "db_revisions (rs_db s) = db_revisions d \<Longrightarrow> \<forall>r \<in> set rows. last_row d r \<Longrightarrow>
    distinct (map agg_of rows) \<Longrightarrow> hd_aggregate ` set (db_heads (rs_db s)) \<inter> rv_aggregate ` set rows = {} \<Longrightarrow>
    \<exists>t. emit_all (rebuild_emit P) s (map (\<lambda>r. (agg_of r, row_doc P encs d r)) rows) = Inr t \<and>
      rs_mismatches t = rs_mismatches s \<and> rs_rebuilt t = rs_rebuilt s + length rows \<and>
      rs_emitted t = rs_emitted s \<union> agg_of ` set rows \<and> rs_streams t = rs_streams s \<union> rv_stream ` set rows \<and>
      rs_db t = (rs_db s)\<lparr>db_heads := db_heads (rs_db s) @ map (head_for P encs d) rows\<rparr>"
proof (induction rows arbitrary: s)
  case (Cons r rows)
  let ?s = "s\<lparr>rs_emitted := insert (agg_of r) (rs_emitted s), rs_streams := insert (rv_stream r) (rs_streams s),
      rs_db := upsert_head (rs_db s) (head_for P encs d r), rs_rebuilt := rs_rebuilt s + 1\<rparr>"
  have step: "rebuild_emit P s (agg_of r) (row_doc P encs d r) = Inr ?s"
    by (rule rebuild_emit_last [OF ok Cons.prems(1)]) (use Cons.prems(2) in simp)
  have new: "hd_aggregate (head_for P encs d r) = rv_aggregate r" by (simp add: head_for_def)
  have heads: "upsert_head_rows (head_for P encs d r) (db_heads (rs_db s)) =
      db_heads (rs_db s) @ [head_for P encs d r]"
    by (rule upsert_head_rows_fresh) (use Cons.prems(4) new in auto)
  have apart: "rv_aggregate r \<notin> rv_aggregate ` set rows"
    using Cons.prems(3) by (auto simp: rv_aggregate_def agg_of_def)
  have "\<exists>t. emit_all (rebuild_emit P) ?s (map (\<lambda>r. (agg_of r, row_doc P encs d r)) rows) = Inr t \<and>
      rs_mismatches t = rs_mismatches ?s \<and> rs_rebuilt t = rs_rebuilt ?s + length rows \<and>
      rs_emitted t = rs_emitted ?s \<union> agg_of ` set rows \<and> rs_streams t = rs_streams ?s \<union> rv_stream ` set rows \<and>
      rs_db t = (rs_db ?s)\<lparr>db_heads := db_heads (rs_db ?s) @ map (head_for P encs d) rows\<rparr>"
    by (rule Cons.IH) (use Cons.prems apart new in \<open>auto simp: heads\<close>)
  then show ?case by (auto simp: step heads upsert_head_def)
qed simp

definition last_rows :: "db \<Rightarrow> string option \<Rightarrow> revision_row list" where
  "last_rows d stream = filter (last_row d) (log_rows d stream)"

lemma set_last_rows: "set (last_rows d stream) = {r \<in> set (db_revisions d). in_scope stream (rv_stream r) \<and> last_row d r}"
  by (auto simp: last_rows_def set_log_rows)

lemma last_row_unique:
  assumes "distinct (map rv_key (db_revisions d))" "last_row d q" "last_row d r" "agg_of q = agg_of r"
  shows "q = r"
proof -
  have "rv_key q = rv_key r"
    using assms(2-4) by (auto simp: last_row_def agg_of_def rv_key_def of_aggregate_def intro: antisym)
  with assms show ?thesis by (auto simp: last_row_def distinct_map dest: inj_onD)
qed

lemma distinct_last_rows:
  assumes "distinct (map rv_key (db_revisions d))"
  shows "distinct (map agg_of (last_rows d stream))"
proof -
  have "distinct (last_rows d stream)"
    using distinct_log_rows [OF assms, of stream] by (simp add: last_rows_def distinct_map)
  moreover have "inj_on agg_of (set (last_rows d stream))"
    by (rule inj_onI) (auto simp: set_last_rows intro: last_row_unique [OF assms])
  ultimately show ?thesis by (simp add: distinct_map)
qed

text \<open>The heads of a consistent store are the heads for its last rows.\<close>

lemma heads_are_last_rows:
  assumes ok: "store_ok P encs d"
  shows "{h \<in> set (db_heads d). in_scope stream (hd_stream h)} = head_for P encs d ` set (last_rows d stream)"
proof (intro equalityI subsetI)
  fix h assume h: "h \<in> {h \<in> set (db_heads d). in_scope stream (hd_stream h)}"
  then have "head_row_ok P encs d h" using ok by (simp add: store_ok_def)
  then obtain r doc where r: "last_row d r" "row_decodes P encs d r = Inr doc" "h = head_of_row r doc"
    by (rule head_row_okE)
  then have mem: "r \<in> set (db_revisions d)" by (simp add: last_row_def)
  from r row_doc [OF ok mem] h mem show "h \<in> head_for P encs d ` set (last_rows d stream)"
    by (auto simp: set_last_rows head_for_def head_of_row_def)
next
  fix h assume "h \<in> head_for P encs d ` set (last_rows d stream)"
  then obtain r where r: "r \<in> set (db_revisions d)" "in_scope stream (rv_stream r)" "last_row d r"
    "h = head_for P encs d r" by (auto simp: set_last_rows)
  then have "rv_aggregate r \<in> hd_aggregate ` set (db_heads d)" using ok by (auto simp: store_ok_def)
  then obtain g where g: "g \<in> set (db_heads d)" "hd_aggregate g = rv_aggregate r" by auto
  then have "head_row_ok P encs d g" using ok by (simp add: store_ok_def)
  then obtain q doc where q: "last_row d q" "row_decodes P encs d q = Inr doc" "g = head_of_row q doc"
    by (rule head_row_okE)
  have "q = r"
    by (rule last_row_unique [OF _ q(1) r(3)])
       (use ok g(2) q(3) in \<open>auto simp: store_ok_def rv_aggregate_def agg_of_def\<close>)
  with q r row_doc [OF ok r(1)] g show "h \<in> {h \<in> set (db_heads d). in_scope stream (hd_stream h)}"
    by (auto simp: head_for_def head_of_row_def)
qed

text \<open>Whatever the head table held, a rebuild in any chunk size puts the heads of the log in scope back.\<close>

lemma rebuild_restores:
  assumes ok: "store_ok P encs d" and "0 < chunk"
  obtains report d' where "rebuild_heads P (d\<lparr>db_heads := hs\<rparr>) stream chunk = (Inr report, d')"
    "rb_mismatches report = 0" "rb_rebuilt report = length (last_rows d stream)"
    "d' = d\<lparr>db_heads := filter (\<lambda>h. \<not> in_scope stream (hd_stream h)) hs @ map (head_for P encs d) (last_rows d stream)\<rparr>"
proof -
  let ?d = "delete_heads (d\<lparr>db_heads := hs\<rparr>) stream"
  let ?s = "\<lparr>rs_db = ?d, rs_mismatches = 0, rs_rebuilt = 0, rs_streams = {}, rs_emitted = {}\<rparr>"
  have keys: "distinct (map rv_key (db_revisions d))" using ok by (simp add: store_ok_def)
  have "stream_log P (rebuild_emit P) ?s ?d stream chunk =
      emit_all (rebuild_emit P) ?s (map (\<lambda>r. (agg_of r, row_doc P encs d r)) (last_rows d stream))"
    using stream_log_emits [OF ok _ \<open>0 < chunk\<close>, of ?d] by (simp add: emissions_def last_rows_def)
  moreover have "hd_aggregate ` set (db_heads ?d) \<inter> rv_aggregate ` set (last_rows d stream) = {}"
    by (auto simp: delete_heads_def set_last_rows hd_aggregate_def rv_aggregate_def)
  ultimately obtain t where
    t: "stream_log P (rebuild_emit P) ?s ?d stream chunk = Inr t" "rs_mismatches t = 0"
      "rs_rebuilt t = length (last_rows d stream)"
      "rs_db t = ?d\<lparr>db_heads := db_heads ?d @ map (head_for P encs d) (last_rows d stream)\<rparr>"
    using emit_all_rebuild [OF ok, of ?s "last_rows d stream"] distinct_last_rows [OF keys, of stream]
    by (auto simp: set_last_rows)
  then have run: "rebuild_heads P (d\<lparr>db_heads := hs\<rparr>) stream chunk =
      (Inr \<lparr>rb_streams = sorted_list_of_set (rs_streams t), rb_rebuilt = rs_rebuilt t,
        rb_orphans = card (set (map (\<lambda>h. (hd_stream h, hd_aggregate_id h))
          (select_all_heads_for (d\<lparr>db_heads := hs\<rparr>) stream)) - rs_emitted t),
        rb_mismatches = rs_mismatches t\<rparr>, rs_db t)"
    by (simp add: rebuild_heads_def Let_def)
  show thesis by (rule that [OF run]) (simp_all add: t delete_heads_def)
qed

section \<open>Verifying\<close>

lemma admin_window_loop:
  "window_loop P c w doc prev = Inr v \<Longrightarrow> admin_window_loop P c w doc prev = Inr (Some v)"
proof (induction w arbitrary: doc prev)
  case (Cons r w)
  then show ?case by (auto simp: rbind_def split: if_splits sum.splits json.splits)
qed simp

lemma admin_decode_consistent:
  assumes ok: "store_ok P encs d" and r: "r \<in> set (db_revisions d)"
  shows "admin_decode_row P d r = Inr (Some (JObj (row_doc P encs d r)))"
proof (cases "rv_encoding r = snapshot_id")
  case True
  have "column_loads P (rv_payload r) = Inr (JObj (row_doc P encs d r))"
  proof (cases "is_checkpoint (encoding_for encs (rv_stream r)) (rv_revision r)")
    case True
    with decode_checkpoint [OF ok r] row_doc [OF ok r] show ?thesis by metis
  next
    case False
    then have "0 < rv_revision r"
      using ok r by (cases "encoding_for encs (rv_stream r)") (auto simp: store_ok_def log_row_ok_def order_less_le)
    then have "(rv_stream r, rv_aggregate_id r, rv_revision r - 1) \<in> rv_key ` set (db_revisions d)"
      using ok r by (auto simp: store_ok_def)
    then obtain q where q: "q \<in> set (db_revisions d)" "rv_stream r = rv_stream q"
      "rv_aggregate_id r = rv_aggregate_id q" "rv_revision r = rv_revision q + 1"
      by (auto simp: rv_key_def)
    from decode_successor [OF ok q(1) r q(2-4) row_doc [OF ok q(1)]] True row_doc [OF ok r] show ?thesis
      by simp
  qed
  with True show ?thesis by (simp add: admin_decode_row_def)
next
  case False
  then have not_ck: "\<not> is_checkpoint (encoding_for encs (rv_stream r)) (rv_revision r)"
    and enc: "encoded_by P (encoding_for encs (rv_stream r)) (rv_encoding r) (rv_payload r)"
    using ok r by (auto simp: store_ok_def log_row_ok_def)
  with False obtain every where every: "encoding_for encs (rv_stream r) = Delta every"
    "rbind (column_loads P (rv_payload r)) payload_every = Inr every"
    by (auto simp: encoded_by_def split: encoding.splits)
  then have encs: "encs (rv_stream r) = Some (Delta every)"
    by (auto simp: encoding_for_def split: option.splits)
  have start: "window_start every (rv_revision r) = max 0 (rv_revision r - every)"
    using not_ck every(1) by (simp add: window_start_def)
  from row_doc [OF ok r] obtain ck doc where
    ck: "List.find (\<lambda>r. rv_encoding r = snapshot_id)
      (rev (select_window d (rv_stream r) (rv_aggregate_id r) (max 0 (rv_revision r - every)) (rv_revision r))) = Some ck"
    and doc: "column_loads P (rv_payload ck) = Inr doc"
    and loop: "window_loop P (rv_revision ck)
      (select_window d (rv_stream r) (rv_aggregate_id r) (max 0 (rv_revision r - every)) (rv_revision r))
      doc (rv_revision ck) = Inr (JObj (row_doc P encs d r))"
    by (auto simp: row_decodes_def decode_log_revision_def encs start decode_window_def split: if_splits option.splits)
  from every(2) obtain delta where "column_loads P (rv_payload r) = Inr delta" "payload_every delta = Inr every"
    by auto
  with False ck doc admin_window_loop [OF loop] show ?thesis
    by (simp add: admin_decode_row_def Let_def)
qed

lemma row_mismatch_consistent:
  assumes ok: "store_ok P encs d" and r: "r \<in> set (db_revisions d)"
  shows "row_mismatch P d r = Inr False"
proof -
  have "log_row_ok P encs d r" using ok r by (simp add: store_ok_def)
  then obtain b where "canonical_bytes P (JObj (row_doc P encs d r)) = Some b" "rv_digest r = digest P b"
    by (rule log_row_okE) (auto simp: row_doc_def)
  then show ?thesis
    by (simp add: row_mismatch_def admin_decode_consistent [OF ok r] py_canonical_bytes_def)
qed

lemma verify_rows_none:
  "(\<And>r. r \<in> set rows \<Longrightarrow> row_mismatch P d r = Inr False) \<Longrightarrow> verify_rows P d rows = Inr 0"
  by (induction rows) auto

lemma emit_all_verify:
  assumes ok: "store_ok P encs d"
  shows "\<forall>r \<in> set rows. last_row d r \<Longrightarrow>
    emit_all (verify_emit P d) n (map (\<lambda>r. (agg_of r, row_doc P encs d r)) rows) = Inr n"
proof (induction rows)
  case (Cons r rows)
  have r: "r \<in> set (db_revisions d)" using Cons.prems by (simp add: last_row_def)
  then have "log_row_ok P encs d r" using ok by (simp add: store_ok_def)
  then obtain b where b: "canonical_bytes P (JObj (row_doc P encs d r)) = Some b" "rv_digest r = digest P b"
    by (rule log_row_okE) (auto simp: row_doc_def)
  have "head_for P encs d r \<in> set (db_heads d)"
    using heads_are_last_rows [OF ok, of None] Cons.prems r by (auto simp: in_scope_def set_last_rows)
  then have "select_head d (rv_stream r) (rv_aggregate_id r) = Some (head_for P encs d r)"
    using select_head_unique [of d "head_for P encs d r"] ok by (simp add: store_ok_def head_for_def head_of_row_def)
  with b have "verify_emit P d n (agg_of r) (row_doc P encs d r) = Inr n"
    by (simp add: verify_emit_def agg_of_def py_canonical_bytes_def head_for_def head_of_row_def)
  with Cons show ?case by simp
qed simp

lemma verify_consistent:
  assumes ok: "store_ok P encs d" and "0 < chunk"
  shows "\<exists>report. verify P d stream chunk = Inr report \<and> vr_mismatches report = 0 \<and>
    vr_checked report = length (log_rows d stream)"
proof -
  have keys: "distinct (map rv_key (db_revisions d))" using ok by (simp add: store_ok_def)
  have "verify_rows P d (log_rows d stream) = Inr 0"
    by (rule verify_rows_none) (use row_mismatch_consistent [OF ok] in \<open>auto simp: set_log_rows\<close>)
  moreover have "stream_log P (verify_emit P d) 0 d stream chunk = Inr 0"
    using stream_log_emits [OF ok refl \<open>0 < chunk\<close>, where s = 0 and emit = "verify_emit P d"] emit_all_verify [OF ok, of "last_rows d stream" 0]
    by (simp add: emissions_def last_rows_def)
  ultimately show ?thesis
    by (simp add: verify_def chunks_read_the_log [OF keys \<open>0 < chunk\<close>] Let_def)
qed

text \<open>Conversely, a verification that ends without a mismatch has checked every row's digest.\<close>

lemma verify_rows_zero:
  "verify_rows P d rows = Inr 0 \<Longrightarrow> r \<in> set rows \<Longrightarrow> row_mismatch P d r = Inr False"
  by (induction rows) (auto split: if_splits)

lemma emit_verify_mono: "verify_emit P d n key doc = Inr m \<Longrightarrow> n \<le> m"
  by (auto simp: verify_emit_def split: option.splits if_splits)

lemma fold_log_mono:
  assumes "\<And>s k doc s'. emit s k doc = Inr s' \<Longrightarrow> (s :: nat) \<le> s'"
  shows "fold_log P emit s cur rows = Inr t \<Longrightarrow> s \<le> t"
proof (induction rows arbitrary: s cur)
  case Nil
  then show ?case using assms by (auto split: option.splits)
next
  case (Cons r rows)
  then show ?case using assms by (fastforce simp: Let_def split: option.splits if_splits dest: order_trans)
qed

lemma verify_sound:
  assumes "verify P d stream chunk = Inr report" "vr_mismatches report = 0" "0 < chunk"
    and "distinct (map rv_key (db_revisions d))" "r \<in> set (db_revisions d)" "in_scope stream (rv_stream r)"
  shows "row_mismatch P d r = Inr False"
proof -
  from assms(1,2) obtain bad where bad: "verify_rows P d (concat (log_chunks d stream chunk None)) = Inr bad"
    and rest: "stream_log P (verify_emit P d) bad d stream chunk = Inr 0"
    by (auto simp: verify_def Let_def)
  have "bad \<le> 0"
    using rest unfolding stream_log_def by (rule fold_log_mono [rotated]) (rule emit_verify_mono)
  with bad have "verify_rows P d (log_rows d stream) = Inr 0"
    by (simp add: chunks_read_the_log [OF assms(4,3)])
  then show ?thesis by (rule verify_rows_zero) (use assms(5,6) in \<open>simp add: set_log_rows\<close>)
qed

section \<open>Listing intents page by page\<close>

definition intents_in_order :: "db \<Rightarrow> string option \<Rightarrow> intent_row list" where
  "intents_in_order d status = sort_key intent_key (filter (\<lambda>i. in_scope status (in_status i)) (db_intents d))"

lemma fetch_intents:
  "select_intents d status (Some (int n)) cursor = take n (filter (after_key intent_key cursor) (intents_in_order d status))"
  by (simp add: select_intents_def sql_limit_def intents_in_order_def filter_sort_key conj_commute)

interpretation intent_pager: keyset_pager "intents_in_order d status" intent_key
  "\<lambda>n cursor. select_intents d status (Some (int n)) cursor" for d :: db and status :: "string option"
  by unfold_locales (simp_all only: fetch_intents intents_in_order_def sorted_sort_key)

lemma distinct_intent_keys:
  assumes "distinct (map in_intent_id (db_intents d))"
  shows "distinct (map intent_key (intents_in_order d status))"
proof -
  have "inj_on intent_key (set (db_intents d))"
    using assms by (auto simp: distinct_map inj_on_def intent_key_def)
  moreover have "distinct (db_intents d)" using assms by (simp add: distinct_map)
  ultimately show ?thesis
    by (auto simp: intents_in_order_def distinct_map intro: inj_on_subset)
qed

lemma list_intents_page:
  assumes ids: "distinct (map in_intent_id (db_intents d))" and n: "0 < n"
    and page: "list_intents d status (Some n) cursor = Inr (out, next)"
  shows "filter (after_key intent_key cursor) (intents_in_order d status) =
    out @ (case next of None \<Rightarrow> [] | Some k \<Rightarrow> filter (after_key intent_key (Some k)) (intents_in_order d status))"
proof -
  obtain m where m: "n = int m" "0 < m" using n by (metis pos_int_cases)
  let ?out = "select_intents d status (Some (int m)) cursor"
  note keys = distinct_intent_keys [OF ids, of status]
  have out: "out = ?out" and next_def: "next = (if length ?out = m then Some (intent_key (last ?out)) else None)"
    using page m by (auto simp: list_intents_def Let_def split: if_splits)
  show ?thesis
  proof (cases "length ?out = m")
    case True
    then have "?out \<noteq> []" using m by auto
    from intent_pager.page_split [OF keys this] True show ?thesis by (simp add: out next_def)
  next
    case False
    then have "length ?out < m" by (auto simp: fetch_intents)
    from intent_pager.page_short [OF this] False show ?thesis by (simp add: out next_def)
  qed
qed

section \<open>Properties\<close>

text \<open>
  C15: Rebuilding recovers the heads from the log alone: whatever the head table held (nothing, stale rows,
  orphans), a rebuild with any positive chunk size leaves out-of-scope heads alone, removes the rest and
  writes exactly the heads the store had, without a mismatch.
\<close>

theorem rebuild_recovers_the_heads:
  assumes "store_ok P encs d" "0 < chunk"
  shows "\<exists>report d'. rebuild_heads P (d\<lparr>db_heads := hs\<rparr>) stream chunk = (Inr report, d') \<and>
    rb_mismatches report = 0 \<and> db_revisions d' = db_revisions d \<and> db_intents d' = db_intents d \<and>
    set (db_heads d') = {h \<in> set hs. \<not> in_scope stream (hd_stream h)} \<union> {h \<in> set (db_heads d). in_scope stream (hd_stream h)}"
proof -
  obtain report d' where "rebuild_heads P (d\<lparr>db_heads := hs\<rparr>) stream chunk = (Inr report, d')"
    "rb_mismatches report = 0"
    "d' = d\<lparr>db_heads := filter (\<lambda>h. \<not> in_scope stream (hd_stream h)) hs @ map (head_for P encs d) (last_rows d stream)\<rparr>"
    by (rule rebuild_restores [OF assms])
  then show ?thesis using heads_are_last_rows [OF assms(1), of stream] by auto
qed

lemma rebuild_recovers_the_heads_witness:
  "\<exists>report d'. rebuild_heads sample_platform (sample_db\<lparr>db_heads := []\<rparr>) None 1 = (Inr report, d') \<and>
     set (db_heads d') = set (db_heads sample_db)"
  using rebuild_recovers_the_heads [OF sample_db_ok, of 1 "[]" None] by (auto simp: in_scope_def)

text \<open>
  A verification of a consistent store finds nothing, in any positive chunk size, and checks every
  revision in its scope.
\<close>

theorem verify_accepts_a_consistent_store:
  assumes "store_ok P encs d" "0 < chunk"
  shows "\<exists>report. verify P d stream chunk = Inr report \<and> vr_mismatches report = 0 \<and>
    vr_checked report = length (filter (\<lambda>r. in_scope stream (rv_stream r)) (db_revisions d))"
  using verify_consistent [OF assms, of stream] by (simp add: log_rows_def)

lemma verify_accepts_a_consistent_store_witness:
  "\<exists>report. verify sample_platform sample_db None 1000 = Inr report \<and> vr_mismatches report = 0"
  using verify_accepts_a_consistent_store [OF sample_db_ok, of 1000 None] by auto



text \<open>
  A chunk size of zero is accepted and destructive: the rebuild deletes every head in its scope,
  rebuilds none, reports no mismatch, and a verification of any store with it checks nothing and reports
  no mismatch either.
\<close>

theorem chunk_zero_rebuild_deletes_heads:
  "snd (rebuild_heads P d stream 0) = delete_heads d stream \<and>
   (\<exists>report. fst (rebuild_heads P d stream 0) = Inr report \<and> rb_rebuilt report = 0 \<and> rb_mismatches report = 0) \<and>
   (\<exists>report. verify P d stream 0 = Inr report \<and> vr_checked report = 0 \<and> vr_mismatches report = 0)"
  by (simp add: rebuild_heads_def verify_def stream_log_def chunk_zero_reads_nothing Let_def)

text \<open>
  Listing intents page by page shows each exactly once, in order of creation: a page is what a reader
  at the cursor has not seen, up to the page size, and the returned cursor leaves exactly the rest; no
  cursor means nothing is left.
\<close>

theorem intent_pages_partition_the_table:
  assumes "distinct (map in_intent_id (db_intents d))" "0 < n"
    and "list_intents d status (Some n) cursor = Inr (out, next)"
  shows "filter (after_key intent_key cursor) (intents_in_order d status) =
    out @ (case next of None \<Rightarrow> [] | Some k \<Rightarrow> filter (after_key intent_key (Some k)) (intents_in_order d status))"
  by (rule list_intents_page [OF assms])

definition sample_two_intents :: db where
  "sample_two_intents = sample_db\<lparr>db_intents :=
     [\<lparr>in_intent_id = 9, in_subscription_id = ''mail'', in_revision_id = 1, in_queue = ''default'',
       in_status = ''pending'', in_attempts = 0, in_available_at = 100, in_leased_until = None,
       in_last_error = None, in_created_at = 100\<rparr>,
      \<lparr>in_intent_id = 4, in_subscription_id = ''log'', in_revision_id = 1, in_queue = ''default'',
       in_status = ''dead'', in_attempts = 3, in_available_at = 100, in_leased_until = None,
       in_last_error = Some ''x'', in_created_at = 100\<rparr>]\<rparr>"

lemma intent_pages_partition_the_table_witness:
  "map in_intent_id (filter (after_key intent_key None) (intents_in_order sample_two_intents None)) =
     4 # map in_intent_id (filter (after_key intent_key (Some (100, 4))) (intents_in_order sample_two_intents None))"
proof -
  have "distinct (map in_intent_id (db_intents sample_two_intents))" by (simp add: sample_two_intents_def)
  moreover have "list_intents sample_two_intents None (Some 1) None =
      Inr ([db_intents sample_two_intents ! 1], Some (100, 4))"
    by (simp add: list_intents_def select_intents_def sample_two_intents_def in_scope_def after_key_def
        sql_limit_def intent_key_def Let_def)
  ultimately have "filter (after_key intent_key None) (intents_in_order sample_two_intents None) =
      [db_intents sample_two_intents ! 1] @
        filter (after_key intent_key (Some (100, 4))) (intents_in_order sample_two_intents None)"
    using intent_pages_partition_the_table [of sample_two_intents 1 None None] by fastforce
  from arg_cong [OF this, of "map in_intent_id"] show ?thesis
    by (simp only: map_append) (simp add: sample_two_intents_def)
qed

end
