(* ===== verification/Cursor.thy ===== *)
theory Cursor
  imports Admin_Facts
begin

text \<open>
  The cursor of \<open>list_intents\<close> as callers hold it: a text (\<open>_encode_intent_cursor\<close>, \<open>_decode_intent_cursor\<close> and
  \<open>list_intents\<close> of \<open>src/eventic/sql/admin.py\<close>).

  The text is the URL-safe base64 of a JSON array with the time in ISO format and the id.  Base64 is written out as
  the interpreter has it, and lenient when it decodes.  \<open>datetime.isoformat\<close> and \<open>datetime.fromisoformat\<close> are the
  fields of \<open>iso_format\<close>; \<open>iso_codec\<close> says that the second inverts the first.
\<close>

section \<open>Base64\<close>

definition byte :: "char \<Rightarrow> nat" where
  "byte c = of_char c"

definition b64_char :: "nat \<Rightarrow> char" where
  "b64_char n =
     (if n < 26 then char_of (n + 65) else if n < 52 then char_of (n + 71) else if n < 62 then char_of (n - 4)
      else if n = 62 then CHR ''-'' else CHR ''_'')"

fun urlsafe_b64encode :: "string \<Rightarrow> string" where
  "urlsafe_b64encode [] = []"
| "urlsafe_b64encode [a] =
     [b64_char (byte a div 4), b64_char (byte a mod 4 * 16), CHR ''='', CHR ''='']"
| "urlsafe_b64encode [a, b] =
     [b64_char (byte a div 4), b64_char (byte a mod 4 * 16 + byte b div 16), b64_char (byte b mod 16 * 4), CHR ''='']"
| "urlsafe_b64encode (a # b # c # s) =
     b64_char (byte a div 4) # b64_char (byte a mod 4 * 16 + byte b div 16) #
     b64_char (byte b mod 16 * 4 + byte c div 64) # b64_char (byte c mod 64) # urlsafe_b64encode s"

text \<open>\<open>urlsafe_b64decode\<close> translates \<open>-_\<close> to \<open>+/\<close> first, so it takes both alphabets.\<close>

definition b64_val :: "char \<Rightarrow> nat option" where
  "b64_val c =
     (let n = byte c in
      if 65 \<le> n \<and> n \<le> 90 then Some (n - 65)
      else if 97 \<le> n \<and> n \<le> 122 then Some (n - 71)
      else if 48 \<le> n \<and> n \<le> 57 then Some (n + 4)
      else if c = CHR ''-'' \<or> c = CHR ''+'' then Some 62
      else if c = CHR ''_'' \<or> c = CHR ''/'' then Some 63
      else None)"

text \<open>
  \<open>a2b_base64\<close>, not strict: the position in the group of four, the bits left over and the pads seen.  Characters
  outside the alphabet are skipped, enough pads end the text, and a text that ends within a group raises
  \<open>binascii.Error\<close>, a \<open>ValueError\<close>.
\<close>

fun b64_scan :: "nat \<Rightarrow> nat \<Rightarrow> nat \<Rightarrow> string \<Rightarrow> string option" where
  "b64_scan quad left pads [] = (if quad = 0 then Some [] else None)"
| "b64_scan quad left pads (c # s) =
     (if c = CHR ''='' then
        (if 2 \<le> quad \<and> 4 \<le> quad + Suc pads then Some []
         else b64_scan quad left (if 2 \<le> quad then Suc pads else pads) s)
      else
        (case b64_val c of
           None \<Rightarrow> b64_scan quad left pads s
         | Some v \<Rightarrow>
             if quad = 0 then b64_scan 1 v 0 s
             else if quad = 1 then map_option ((#) (char_of (left * 4 + v div 16))) (b64_scan 2 (v mod 16) 0 s)
             else if quad = 2 then map_option ((#) (char_of (left * 16 + v div 4))) (b64_scan 3 (v mod 4) 0 s)
             else map_option ((#) (char_of (left * 64 + v))) (b64_scan 0 0 0 s)))"

definition urlsafe_b64decode :: "string \<Rightarrow> exn + string" where
  "urlsafe_b64decode s = (case b64_scan 0 0 0 s of None \<Rightarrow> Inl (Python ValueError) | Some t \<Rightarrow> Inr t)"

lemma byte_less: "byte c < 256"
  by (simp add: byte_def of_char_def)

lemma char_of_byte [simp]: "char_of (byte c) = c"
  by (simp add: byte_def)

lemma byte_char_of: "n < 256 \<Longrightarrow> byte (char_of n) = n"
  by (simp add: byte_def of_char_of take_bit_nat_def)

lemma b64_val_char:
  assumes "n < 64" shows "b64_val (b64_char n) = Some n" "b64_char n \<noteq> CHR ''=''"
proof -
  have byte: "byte (b64_char n) =
      (if n < 26 then n + 65 else if n < 52 then n + 71 else if n < 62 then n - 4 else if n = 62 then 45 else 95)"
    using assms by (simp add: b64_char_def byte_char_of) (simp add: byte_def)
  then have "byte (b64_char n) \<noteq> byte (CHR ''='')" using assms by (auto simp: byte_def split: if_splits)
  then show "b64_char n \<noteq> CHR ''=''" by metis
  show "b64_val (b64_char n) = Some n"
  proof (cases "n < 62")
    case True
    with byte show ?thesis by (auto simp: b64_val_def Let_def)
  next
    case False
    with assms have "n = 62 \<or> n = 63" by auto
    then show ?thesis by (auto simp: b64_val_def b64_char_def byte_def)
  qed
qed

text \<open>The four sixes of three bytes, and back.\<close>

lemma div_mod_parts: "r < k \<Longrightarrow> (q * k + r) div k = q" "r < k \<Longrightarrow> (q * k + r) mod k = r" for k :: nat
  by simp_all

lemma sixes:
  assumes "x < 256" "y < 256" "z < (256 :: nat)"
  shows "x div 4 < 64" "x mod 4 * 16 + y div 16 < 64" "y mod 16 * 4 + z div 64 < 64" "z mod 64 < 64"
    "x div 4 * 4 + (x mod 4 * 16 + y div 16) div 16 = x" "(x mod 4 * 16 + y div 16) mod 16 = y div 16"
    "y div 16 * 16 + (y mod 16 * 4 + z div 64) div 4 = y" "(y mod 16 * 4 + z div 64) mod 4 = z div 64"
    "z div 64 * 64 + z mod 64 = z"
proof -
  have less: "x div 4 < 64" "y div 16 < 16" "z div 64 < 4" using assms by (simp_all add: less_mult_imp_div_less)
  have mods: "x mod 4 < 4" "y mod 16 < 16" "z mod 64 < 64" by simp_all
  show "x div 4 < 64" "z mod 64 < 64" using less mods by simp_all
  show "x mod 4 * 16 + y div 16 < 64" "y mod 16 * 4 + z div 64 < 64" using less mods by linarith+
  show "x div 4 * 4 + (x mod 4 * 16 + y div 16) div 16 = x" "y div 16 * 16 + (y mod 16 * 4 + z div 64) div 4 = y"
    "(x mod 4 * 16 + y div 16) mod 16 = y div 16" "(y mod 16 * 4 + z div 64) mod 4 = z div 64"
    by (simp_all only: div_mod_parts less div_mult_mod_eq)
qed simp

lemma b64_scan_encode: "b64_scan 0 0 0 (urlsafe_b64encode s) = Some s"
proof (induction s rule: urlsafe_b64encode.induct)
  case (2 a)
  have "(0 :: nat) < 256" by simp
  with sixes [OF byte_less [of a] this this] show ?case by (simp add: b64_val_char)
next
  case (3 a b)
  have "(0 :: nat) < 256" by simp
  with sixes [OF byte_less [of a] byte_less [of b] this] show ?case by (simp add: b64_val_char)
next
  case (4 a b c s)
  with sixes [OF byte_less [of a] byte_less [of b] byte_less [of c]] show ?case by (simp add: b64_val_char)
qed simp

lemma b64_roundtrip: "urlsafe_b64decode (urlsafe_b64encode s) = Inr s"
  by (simp add: urlsafe_b64decode_def b64_scan_encode)

section \<open>The text of a cursor\<close>

record iso_format =
  iso_of :: "time \<Rightarrow> string"
  iso_parse :: "string \<Rightarrow> exn + time"

definition iso_codec :: "iso_format \<Rightarrow> bool" where
  "iso_codec I \<longleftrightarrow> (\<forall>t. iso_parse I (iso_of I t) = Inr t \<and> list_all (\<lambda>c. byte c < 128) (iso_of I t))"

text \<open>\<open>json.dumps\<close> of a list of two texts with its default separators; on ASCII its escapes are those of \<open>quote\<close>.\<close>

definition dumps_pair :: "string \<Rightarrow> string \<Rightarrow> string" where
  "dumps_pair a b = CHR ''['' # quote a @ '', '' @ quote b @ '']''"

definition encode_intent_cursor :: "iso_format \<Rightarrow> time \<times> uuid \<Rightarrow> string" where
  "encode_intent_cursor I key = urlsafe_b64encode (dumps_pair (iso_of I (fst key)) (uuid_str (snd key)))"

text \<open>\<open>bytes.decode\<close>: well-formed UTF-8, without overlong forms, surrogates or values above \<open>U+10FFFF\<close>.\<close>

definition utf8_tail :: "nat \<Rightarrow> nat \<Rightarrow> nat \<Rightarrow> string \<Rightarrow> bool" where
  "utf8_tail k lo hi s \<longleftrightarrow>
     k \<le> length s \<and> (case s of [] \<Rightarrow> False | d # _ \<Rightarrow> lo \<le> byte d \<and> byte d \<le> hi) \<and>
     list_all (\<lambda>d. 128 \<le> byte d \<and> byte d \<le> 191) (take k s)"

function (sequential) utf8_valid :: "string \<Rightarrow> bool" where
  "utf8_valid [] \<longleftrightarrow> True"
| "utf8_valid (c # s) \<longleftrightarrow>
     (let n = byte c in
      if n < 128 then utf8_valid s
      else if 194 \<le> n \<and> n \<le> 223 then utf8_tail 1 128 191 s \<and> utf8_valid (drop 1 s)
      else if 224 \<le> n \<and> n \<le> 239 then
        utf8_tail 2 (if n = 224 then 160 else 128) (if n = 237 then 159 else 191) s \<and> utf8_valid (drop 2 s)
      else if 240 \<le> n \<and> n \<le> 244 then
        utf8_tail 3 (if n = 240 then 144 else 128) (if n = 244 then 143 else 191) s \<and> utf8_valid (drop 3 s)
      else False)"
  by pat_completeness auto
termination by (relation "measure length") auto

text \<open>\<open>a, b = value\<close>.  A text of two characters would unpack, but no single character is an ISO date.\<close>

definition unpack_two :: "json \<Rightarrow> exn + (json \<times> json)" where
  "unpack_two v =
     (case v of
        JList xs \<Rightarrow> (case xs of [a, b] \<Rightarrow> Inr (a, b) | _ \<Rightarrow> Inl (Python ValueError))
      | JObj d \<Rightarrow> (case d of [(a, _), (b, _)] \<Rightarrow> Inr (JStr a, JStr b) | _ \<Rightarrow> Inl (Python ValueError))
      | JStr _ \<Rightarrow> Inl (Python ValueError)
      | _ \<Rightarrow> Inl (Python TypeError))"

definition datetime_fromisoformat :: "iso_format \<Rightarrow> json \<Rightarrow> exn + time" where
  "datetime_fromisoformat I v = (case v of JStr s \<Rightarrow> iso_parse I s | _ \<Rightarrow> Inl (Python TypeError))"

definition uuid_of_value :: "json \<Rightarrow> exn + uuid" where
  "uuid_of_value v =
     (case v of
        JStr s \<Rightarrow> (case uuid_of_str s of None \<Rightarrow> Inl (Python ValueError) | Some u \<Rightarrow> Inr u)
      | JNull \<Rightarrow> Inl (Python TypeError)
      | _ \<Rightarrow> Inl (Python AttributeError))"

definition decode_intent_cursor :: "platform \<Rightarrow> iso_format \<Rightarrow> string \<Rightarrow> exn + (time \<times> uuid)" where
  "decode_intent_cursor P I cursor =
     rbind (urlsafe_b64decode cursor) (\<lambda>raw.
       if \<not> utf8_valid raw then Inl (Python ValueError)
       else
         (case loads P raw of
            None \<Rightarrow> Inl (Python ValueError)
          | Some v \<Rightarrow>
              rbind (unpack_two v) (\<lambda>(created_at_iso, intent_id).
              rbind (datetime_fromisoformat I created_at_iso) (\<lambda>t.
              rbind (uuid_of_value intent_id) (\<lambda>u. Inr (t, u))))))"

definition list_intents_text ::
  "platform \<Rightarrow> iso_format \<Rightarrow> db \<Rightarrow> string option \<Rightarrow> int option \<Rightarrow> string option \<Rightarrow>
   exn + (intent_row list \<times> string option)" where
  "list_intents_text P I d status limit cursor =
     rbind (case cursor of None \<Rightarrow> Inr None | Some c \<Rightarrow> rbind (decode_intent_cursor P I c) (\<lambda>k. Inr (Some k))) (\<lambda>key.
     rbind (list_intents d status limit key) (\<lambda>(rows, next_key).
       Inr (rows, map_option (encode_intent_cursor I) next_key)))"

section \<open>The round trip\<close>

lemma utf8_valid_ascii: "list_all (\<lambda>c. byte c < 128) s \<Longrightarrow> utf8_valid s"
  by (induction s) simp_all

lemma escape_char_ascii: "byte c < 128 \<Longrightarrow> list_all (\<lambda>d. byte d < 128) (escape_char c)"
proof -
  have "byte (hex_digit m) < 128" if "m < 16" for m
    using that by (simp add: hex_digit_def byte_char_of)
  moreover have "byte CHR ''b'' < 128" "byte CHR ''t'' < 128" "byte CHR ''n'' < 128" "byte CHR ''f'' < 128"
    "byte CHR ''r'' < 128" "byte CHR ''u'' < 128" "byte CHR ''0'' < 128" "byte CHR 0x5C < 128" "byte CHR 0x22 < 128"
    by (simp_all add: byte_def)
  ultimately show "byte c < 128 \<Longrightarrow> list_all (\<lambda>d. byte d < 128) (escape_char c)"
    by (simp add: escape_char_def Let_def byte_def [symmetric] less_mult_imp_div_less)
qed

lemma quote_ascii:
  assumes "list_all (\<lambda>c. byte c < 128) s" shows "list_all (\<lambda>c. byte c < 128) (quote s)"
proof -
  have "list_all (\<lambda>c. byte c < 128) (concat (map escape_char s))"
    using assms by (induction s) (simp_all add: escape_char_ascii)
  moreover have "byte CHR 0x22 < 128" by (simp add: byte_def)
  ultimately show ?thesis by (simp add: quote_def)
qed

lemma scan_quoted: "scan_value P (Suc n) (quote t @ r) = Some (JStr t, r)"
  by (simp add: quote_def scan_quote)

lemma skip_ws_quote: "skip_ws (quote t @ r) = quote t @ r"
  by (simp add: quote_def skip_ws_def is_ws_def)

lemma loads_pair: "loads P (dumps_pair a b) = Some (JList [JStr a, JStr b])"
proof -
  obtain n where n: "length (dumps_pair a b) = Suc (Suc (Suc n))" by (simp add: dumps_pair_def quote_def)
  let ?tail = "quote b @ '']''"
  have "scan_elems P (Suc (Suc n)) ?tail = Some ([JStr b], [])"
    by (simp add: scan_quoted skip_ws_def is_ws_def)
  moreover have "skip_ws ('' '' @ ?tail) = ?tail" using skip_ws_quote [of b "'']''"] by (simp add: skip_ws_def is_ws_def)
  ultimately have "scan_elems P (Suc (Suc (Suc n))) (quote a @ '', '' @ ?tail) = Some ([JStr a, JStr b], [])"
    by (simp add: scan_quoted skip_ws_def is_ws_def)
  moreover obtain r where r: "quote a @ '', '' @ ?tail = CHR 0x22 # r" by (simp add: quote_def)
  ultimately have "scan_elems P (Suc (Suc (Suc n))) (CHR 0x22 # r) = Some ([JStr a, JStr b], [])" by (simp only:)
  moreover have "skip_ws (CHR 0x22 # r) = CHR 0x22 # r" by (simp add: skip_ws_def is_ws_def)
  ultimately have "scan_value P (Suc (Suc (Suc (Suc n)))) (CHR ''['' # CHR 0x22 # r) = Some (JList [JStr a, JStr b], [])"
    by (simp del: scan_elems.simps)
  moreover have "dumps_pair a b = CHR ''['' # CHR 0x22 # r" using r by (simp add: dumps_pair_def)
  moreover have "skip_ws (dumps_pair a b) = dumps_pair a b" by (simp add: dumps_pair_def skip_ws_def is_ws_def)
  ultimately have "scan_value P (Suc (length (dumps_pair a b))) (skip_ws (dumps_pair a b)) =
      Some (JList [JStr a, JStr b], [])" by (metis n)
  then show ?thesis unfolding loads_def by (simp only: option.case prod.case) (simp add: skip_ws_def)
qed

lemma uuid_str_ascii: "list_all (\<lambda>c. byte c < 128) (uuid_str u)"
proof -
  have "byte (hex_lower n) < 128" for n
  proof -
    have "n mod 16 < 16" by simp
    then have "n mod 16 < 41" by linarith
    then show ?thesis by (simp add: hex_lower_def byte_char_of)
  qed
  then have "list_all (\<lambda>c. byte c < 128) (hex_width w n)" for w n by (induction w arbitrary: n) simp_all
  then have hex: "byte c < 128" if "c \<in> set (uuid_hex u)" for c
    using that by (simp add: uuid_hex_def list_all_iff)
  have "byte CHR ''-'' < 128" by (simp add: byte_def)
  with hex show ?thesis
    by (auto simp: uuid_str_def Let_def list_all_iff dest!: in_set_takeD in_set_dropD)
qed

lemma decode_encode_cursor:
  assumes "iso_codec I"
  shows "decode_intent_cursor P I (encode_intent_cursor I key) = Inr key"
proof -
  obtain t u where key: "key = (t, u)" by fastforce
  have iso: "iso_parse I (iso_of I t) = Inr t" "list_all (\<lambda>c. byte c < 128) (iso_of I t)"
    using assms by (simp_all add: iso_codec_def)
  have "list_all (\<lambda>c. byte c < 128) (dumps_pair (iso_of I t) (uuid_str u))"
    using quote_ascii [OF iso(2)] quote_ascii [OF uuid_str_ascii [of u]] by (simp add: dumps_pair_def byte_def)
  then show ?thesis
    by (simp add: decode_intent_cursor_def encode_intent_cursor_def key b64_roundtrip utf8_valid_ascii loads_pair
        unpack_two_def datetime_fromisoformat_def iso(1) uuid_of_value_def)
qed

section \<open>Paging with texts\<close>

text \<open>What a caller has listed that follows the cursors to the end.\<close>

inductive intents_paged ::
  "platform \<Rightarrow> iso_format \<Rightarrow> db \<Rightarrow> string option \<Rightarrow> int \<Rightarrow> string option \<Rightarrow> intent_row list \<Rightarrow> bool"
  for P I d status n where
  last_page: "list_intents_text P I d status (Some n) cursor = Inr (rows, None) \<Longrightarrow>
     intents_paged P I d status n cursor rows"
| next_page: "list_intents_text P I d status (Some n) cursor = Inr (rows, Some c) \<Longrightarrow>
     intents_paged P I d status n (Some c) rest \<Longrightarrow> intents_paged P I d status n cursor (rows @ rest)"

definition cursor_after :: "platform \<Rightarrow> iso_format \<Rightarrow> string option \<Rightarrow> (time \<times> uuid) option \<Rightarrow> bool" where
  "cursor_after P I cursor after \<longleftrightarrow>
     (case cursor of None \<Rightarrow> after = None | Some c \<Rightarrow> \<exists>k. after = Some k \<and> decode_intent_cursor P I c = Inr k)"

lemma list_intents_text_after:
  assumes "cursor_after P I cursor after"
  shows "list_intents_text P I d status limit cursor =
    rbind (list_intents d status limit after) (\<lambda>(rows, next_key). Inr (rows, map_option (encode_intent_cursor I) next_key))"
  using assms by (auto simp: list_intents_text_def cursor_after_def split: option.splits)

lemma list_intents_returns: "0 < n \<Longrightarrow> \<exists>r. list_intents d status (Some n) after = Inr r"
  by (auto simp: list_intents_def Let_def)

lemma list_intents_full:
  "0 < n \<Longrightarrow> list_intents d status (Some n) after = Inr (rows, Some k) \<Longrightarrow> rows \<noteq> []"
  by (auto simp: list_intents_def Let_def split: if_splits)

lemma intents_paged_unique:
  assumes "intents_paged P I d status n cursor rows" "iso_codec I" "distinct (map in_intent_id (db_intents d))" "0 < n"
    and "cursor_after P I cursor after"
  shows "rows = filter (after_key intent_key after) (intents_in_order d status)"
  using assms(1,5)
proof (induction arbitrary: after)
  case (last_page cursor rows)
  then have "list_intents d status (Some n) after = Inr (rows, None)"
    by (auto simp: list_intents_text_after)
  from list_intents_page [OF assms(3,4) this] show ?case by simp
next
  case (next_page cursor rows c rest)
  then obtain k where page: "list_intents d status (Some n) after = Inr (rows, Some k)" "c = encode_intent_cursor I k"
    by (auto simp: list_intents_text_after)
  from next_page.IH [of "Some k"] page(2) decode_encode_cursor [OF assms(2)]
  have "rest = filter (after_key intent_key (Some k)) (intents_in_order d status)" by (simp add: cursor_after_def)
  with list_intents_page [OF assms(3,4) page(1)] show ?case by simp
qed

lemma intents_paged_exists:
  assumes "iso_codec I" "distinct (map in_intent_id (db_intents d))" "0 < n" "cursor_after P I cursor after"
  shows "\<exists>rows. intents_paged P I d status n cursor rows"
  using assms(4)
proof (induction "length (filter (after_key intent_key after) (intents_in_order d status))"
    arbitrary: cursor after rule: less_induct)
  case less
  obtain rows next_key where page: "list_intents d status (Some n) after = Inr (rows, next_key)"
    using list_intents_returns [OF assms(3)] by (metis surj_pair)
  note via_text = list_intents_text_after [OF less.prems, of d status "Some n", unfolded page]
  show ?case
  proof (cases next_key)
    case None
    with via_text show ?thesis by (auto intro: last_page)
  next
    case (Some k)
    have "length (filter (after_key intent_key (Some k)) (intents_in_order d status)) <
        length (filter (after_key intent_key after) (intents_in_order d status))"
      using list_intents_page [OF assms(2,3) page] list_intents_full [OF assms(3) page [unfolded Some]] Some by simp
    from less.hyps [OF this, of "Some (encode_intent_cursor I k)"] decode_encode_cursor [OF assms(1)]
    obtain rest where "intents_paged P I d status n (Some (encode_intent_cursor I k)) rest"
      by (auto simp: cursor_after_def)
    with via_text Some show ?thesis by (auto intro: next_page)
  qed
qed

section \<open>Properties\<close>


text \<open>A cursor text of one character per digit.\<close>

definition sample_iso :: iso_format where
  "sample_iso = \<lparr>iso_of = show_int, iso_parse = (\<lambda>s. Inr (read_int s))\<rparr>"

lemma sample_iso_codec: "iso_codec sample_iso"
proof -
  have digit: "byte c < 128" if "digit c" for c
  proof -
    have "byte c \<le> 57" using that by (simp add: digit_def byte_def)
    then show ?thesis by simp
  qed
  have "byte c < 128" if "c \<in> set (show_int t)" for c t
  proof (cases "t < 0")
    case True
    with that show ?thesis using digit show_nat_digits by (auto simp: show_int_def byte_def)
  next
    case False
    with that show ?thesis using digit show_nat_digits by (auto simp: show_int_def)
  qed
  then show ?thesis by (simp add: iso_codec_def sample_iso_def list_all_iff)
qed


end
