(* ===== verification/Cli.thy ===== *)
theory Cli
  imports Schema Cursor Worker Sql_Store
begin

text \<open>
  The command line (\<open>src/eventic/cli/\<close>): loading the application, making the store, the commands and the
  exit codes.

  The arguments are those \<open>argparse\<close> has parsed; \<open>env\<close> holds what the code takes from Python's import
  system, from SQLAlchemy when it opens a URL, from Alembic's presence and from \<open>datetime\<close>'s ISO format.
  The world is that of the SQL store with the catalogue of the database, the version Alembic has recorded in
  it and what was printed; a printed line is a value with the data it shows.
\<close>

section \<open>The world of a command\<close>

datatype out_line =
    Schema_upgraded
  | Stream_state string int string string string
  | No_baseline_warning
  | Rebuilt nat nat nat
  | Verified nat "string list" nat
  | Drained worker_report
  | Intent_line uuid string string string int
  | Next_cursor string
  | Redriven nat
  | Facts json

datatype err_line = Url_required | Config_failure exn | Eventic_failure exn | Other_failure exn

record cli_world = world +
  cw_catalogue :: catalogue
  cw_version :: "string option"
  cw_out :: "out_line list"
  cw_err :: "err_line list"

definition print_out :: "out_line \<Rightarrow> (cli_world, unit) py" where
  "print_out l = py_total (\<lambda>w. (Inr (), w\<lparr>cw_out := cw_out w @ [l]\<rparr>))"

fun print_all :: "out_line list \<Rightarrow> (cli_world, unit) py" where
  "print_all [] = py_return ()"
| "print_all (l # ls) = py_bind (print_out l) (\<lambda>_. print_all ls)"

datatype ('v, 'm) loaded = Loaded_app "('v, 'm, cli_world) app" | Loaded_other

datatype ('v, 'm) imported =
    Module "string \<Rightarrow> ('v, 'm) loaded option"
  | Import_error
  | Import_raises exn

record ('v, 'm) env =
  ce_import :: "string \<Rightarrow> ('v, 'm) imported"
  ce_open :: "string \<Rightarrow> exn + unit"
  ce_alembic :: bool
  ce_iso :: iso_format
  ce_interp :: interp
  ce_platform :: platform
  ce_json :: sql_json
  ce_stopped :: "cli_world \<Rightarrow> bool"
  ce_wait :: "cli_world \<Rightarrow> cli_world"

section \<open>Loading\<close>

definition load_app :: "('v, 'm) env \<Rightarrow> string \<Rightarrow> exn + ('v, 'm, cli_world) app" where
  "load_app E spec =
     (if CHR '':'' \<notin> set spec then Inl (Eventic ConfigError)
      else
        (let module_name = takeWhile (\<lambda>c. c \<noteq> CHR '':'') spec;
             attr = drop 1 (dropWhile (\<lambda>c. c \<noteq> CHR '':'') spec)
         in case ce_import E module_name of
              Import_error \<Rightarrow> Inl (Eventic ConfigError)
            | Import_raises e \<Rightarrow> Inl e
            | Module m \<Rightarrow>
                (case m attr of
                   None \<Rightarrow> Inl (Eventic ConfigError)
                 | Some Loaded_other \<Rightarrow> Inl (Eventic ConfigError)
                 | Some (Loaded_app A) \<Rightarrow> Inr A)))"

definition make_store :: "('v, 'm) env \<Rightarrow> string \<Rightarrow> bool \<Rightarrow> (cli_world, dialect_name) py" where
  "make_store E url create_tables =
     py_bind (py_pure (if prefix ''sqlite'' url then Inr Sqlite
                       else if prefix ''postgresql'' url then Inr Postgresql
                       else Inl (Eventic ConfigError))) (\<lambda>name.
     py_bind (py_pure (ce_open E url)) (\<lambda>_.
       if create_tables
       then py_total (\<lambda>w. (Inr name, w\<lparr>cw_catalogue := create_all (cw_catalogue w)\<rparr>))
       else py_return name))"

text \<open>The store of a command has no encodings configured.\<close>

definition cli_store :: "('v, 'm) env \<Rightarrow> dialect_name \<Rightarrow> cli_world store_api" where
  "cli_store E name = sql_store (ce_platform E) (ce_json E) name Map.empty"

section \<open>Commands\<close>

definition exit_ok :: nat where "exit_ok = 0"
definition exit_failure :: nat where "exit_failure = 1"
definition exit_usage :: nat where "exit_usage = 2"
definition exit_drift :: nat where "exit_drift = 3"

text \<open>\<open>admin.migrate()\<close>: Alembic runs the baseline unless the database is at it, and then records it.\<close>

definition migrate :: "('v, 'm) env \<Rightarrow> (cli_world, unit) py" where
  "migrate E =
     py_total (\<lambda>w.
       if \<not> ce_alembic E then (Inl (Eventic StoreError), w)
       else if cw_version w = Some ''0001'' then (Inr (), w)
       else
         (case operate_all upgrade (cw_catalogue w) of
            Inl e \<Rightarrow> (Inl e, w)
          | Inr c \<Rightarrow> (Inr (), w\<lparr>cw_catalogue := c, cw_version := Some ''0001''\<rparr>)))"

definition schema_upgrade :: "('v, 'm) env \<Rightarrow> string \<Rightarrow> (cli_world, nat) py" where
  "schema_upgrade E url =
     py_bind (make_store E url False) (\<lambda>_.
     py_bind (migrate E) (\<lambda>_.
     py_bind (print_out Schema_upgraded) (\<lambda>_. py_return exit_ok)))"

definition stream_line :: "string \<times> int \<times> string \<times> string option \<times> bool option \<Rightarrow> out_line" where
  "stream_line row =
     (case row of (stream, version, declared, stored, ok) \<Rightarrow>
        Stream_state stream version (take 12 declared)
          (take 12 (case stored of Some s \<Rightarrow> (if s = [] then ''-'' else s) | None \<Rightarrow> ''-''))
          (case stored of
             None \<Rightarrow> ''no baseline recorded''
           | Some _ \<Rightarrow> (if ok = Some True then ''ok'' else ''DRIFT'')))"

definition declared_streams :: "('v, 'm, 's) app \<Rightarrow> (string \<times> int \<times> string) list" where
  "declared_streams A = map (\<lambda>s. (sm_name s, sm_schema_version s, sm_fingerprint s)) (ap_streams A)"

definition schema_check :: "('v, 'm) env \<Rightarrow> ('v, 'm, cli_world) app \<Rightarrow> string \<Rightarrow> (cli_world, nat) py" where
  "schema_check E A url =
     py_bind (make_store E url True) (\<lambda>_.
     py_bind (py_reader (\<lambda>w. Inr (admin_check (wo_db w) (declared_streams A)))) (\<lambda>report.
     py_bind (print_all (map stream_line (sc_streams report))) (\<lambda>_.
       if sc_drift report then py_return exit_drift
       else
         py_bind (if sc_baseline_missing report then print_out No_baseline_warning else py_return ()) (\<lambda>_.
           py_return exit_ok))))"

definition heads_rebuild ::
  "('v, 'm) env \<Rightarrow> string \<Rightarrow> string option \<Rightarrow> int \<Rightarrow> (cli_world, nat) py" where
  "heads_rebuild E url stream chunk =
     py_bind (make_store E url True) (\<lambda>_.
     py_bind (py_total (\<lambda>w. case rebuild_heads (ce_platform E) (wo_db w) stream chunk of (r, d) \<Rightarrow> (r, w\<lparr>wo_db := d\<rparr>)))
       (\<lambda>report.
     py_bind (print_out (Rebuilt (rb_rebuilt report) (rb_orphans report) (rb_mismatches report))) (\<lambda>_.
       py_return (if rb_mismatches report \<noteq> 0 then exit_failure else exit_ok))))"

definition verify_command ::
  "('v, 'm) env \<Rightarrow> string \<Rightarrow> string option \<Rightarrow> int \<Rightarrow> (cli_world, nat) py" where
  "verify_command E url stream chunk =
     py_bind (make_store E url True) (\<lambda>_.
     py_bind (py_reader (\<lambda>w. verify (ce_platform E) (wo_db w) stream chunk)) (\<lambda>report.
     py_bind (print_out (Verified (vr_checked report) (vr_streams report) (vr_mismatches report))) (\<lambda>_.
       py_return (if vr_mismatches report \<noteq> 0 then exit_failure else exit_ok))))"

text \<open>The worker of the command leases for 30 seconds and claims up to 100 intents.\<close>

definition worker_command ::
  "('v, 'm) env \<Rightarrow> ('v, 'm, cli_world) app \<Rightarrow> string \<Rightarrow> string \<Rightarrow> bool \<Rightarrow> (cli_world, nat) py" where
  "worker_command E A url queue once =
     py_bind (make_store E url True) (\<lambda>name.
       let wk = \<lparr>wk_queue = queue, wk_lease = 30000000, wk_batch_size = 100\<rparr> in
       if once then
         py_bind (drain_once (ce_interp E) (ce_platform E) wo_now A (cli_store E name) wk) (\<lambda>report.
         py_bind (print_out (Drained report)) (\<lambda>_.
           py_return (if wr_dead_lettered report > 0 then exit_failure else exit_ok)))
       else
         py_bind (run_forever (ce_interp E) (ce_platform E) wo_now A (cli_store E name) wk (ce_stopped E) (ce_wait E))
           (\<lambda>_. py_return exit_ok))"

definition intent_line :: "intent_row \<Rightarrow> out_line" where
  "intent_line i = Intent_line (in_intent_id i) (in_subscription_id i) (in_queue i) (in_status i) (in_attempts i)"

definition intents_list ::
  "('v, 'm) env \<Rightarrow> string \<Rightarrow> string option \<Rightarrow> int option \<Rightarrow> string option \<Rightarrow> (cli_world, nat) py" where
  "intents_list E url status limit cursor =
     py_bind (make_store E url True) (\<lambda>_.
     py_bind (py_reader (\<lambda>w. list_intents_text (ce_platform E) (ce_iso E) (wo_db w) status limit cursor))
       (\<lambda>(rows, next_cursor).
     py_bind (print_all (map intent_line rows)) (\<lambda>_.
     py_bind (case next_cursor of
         None \<Rightarrow> py_return () | Some c \<Rightarrow> if c = [] then py_return () else print_out (Next_cursor c)) (\<lambda>_.
       py_return exit_ok))))"

definition intents_redrive :: "('v, 'm) env \<Rightarrow> string \<Rightarrow> string \<Rightarrow> (cli_world, nat) py" where
  "intents_redrive E url subscription =
     py_bind (make_store E url True) (\<lambda>_.
     py_bind (py_total (\<lambda>w. case admin_redrive (wo_db w) subscription (wo_now w) of (n, d) \<Rightarrow> (Inr n, w\<lparr>wo_db := d\<rparr>)))
       (\<lambda>redriven.
     py_bind (print_out (Redriven redriven)) (\<lambda>_. py_return exit_ok)))"

fun delivery_name :: "delivery \<Rightarrow> string" where
  "delivery_name Inline = ''inline''"
| "delivery_name (Outbox queue _ _) = ''outbox:'' @ queue"

definition inspect_facts :: "('v, 'm, 's) app \<Rightarrow> capabilities \<Rightarrow> json" where
  "inspect_facts A c =
     JObj
       [(''id'', JStr (ap_id A)),
        (''streams'', JList (map (\<lambda>s. JObj
          [(''name'', JStr (sm_name s)), (''schema_version'', JInt (sm_schema_version s)),
           (''fingerprint'', JStr (sm_fingerprint s))]) (ap_streams A))),
        (''meta_version'', JInt (mt_version (ap_meta A))),
        (''subscriptions'', JList (map (\<lambda>b. JObj
          [(''id'', JStr (sb_id b)), (''stream'', JStr (sm_name (sb_stream b))),
           (''kinds'', JList (map JStr (sort (remdups (sb_kinds b))))), (''delivery'', JStr (delivery_name (sb_delivery b)))])
          (ap_subscriptions A))),
        (''capabilities'', JObj
          [(''outbox'', JBool (cp_outbox c)), (''json_paths'', JBool (cp_json_paths c)),
           (''concurrent_drainers'', JBool (cp_concurrent_drainers c)), (''max_batch'', JInt (int (cp_max_batch c)))])]"

definition inspect_app :: "('v, 'm) env \<Rightarrow> ('v, 'm, cli_world) app \<Rightarrow> string \<Rightarrow> (cli_world, nat) py" where
  "inspect_app E A url =
     py_bind (make_store E url True) (\<lambda>name.
     py_bind (print_out (Facts (inspect_facts A (so_capabilities (cli_store E name))))) (\<lambda>_. py_return exit_ok))"

section \<open>Arguments, dispatch and exit codes\<close>

datatype command =
    Schema_upgrade
  | Schema_check
  | Heads_rebuild "string option" int
  | Verify "string option" int
  | Worker string bool
  | Intents_list "string option" "int option" "string option"
  | Intents_redrive string
  | Inspect

record arguments =
  ar_app :: string
  ar_url :: "string option"
  ar_command :: command

definition handle_error :: "exn \<Rightarrow> (cli_world, nat) py" where
  "handle_error e =
     py_total (\<lambda>w.
       case e of
         Eventic x \<Rightarrow>
           (if is_a x ConfigError then (Inr exit_usage, w\<lparr>cw_err := cw_err w @ [Config_failure e]\<rparr>)
            else (Inr exit_failure, w\<lparr>cw_err := cw_err w @ [Eventic_failure e]\<rparr>))
       | _ \<Rightarrow> (Inr exit_failure, w\<lparr>cw_err := cw_err w @ [Other_failure e]\<rparr>))"

definition dispatch :: "('v, 'm) env \<Rightarrow> ('v, 'm, cli_world) app \<Rightarrow> string \<Rightarrow> command \<Rightarrow> (cli_world, nat) py" where
  "dispatch E A url cmd =
     (case cmd of
        Schema_upgrade \<Rightarrow> schema_upgrade E url
      | Schema_check \<Rightarrow> schema_check E A url
      | Heads_rebuild stream chunk \<Rightarrow> heads_rebuild E url stream chunk
      | Verify stream chunk \<Rightarrow> verify_command E url stream chunk
      | Worker queue once \<Rightarrow> worker_command E A url queue once
      | Intents_list status limit cursor \<Rightarrow> intents_list E url status limit cursor
      | Intents_redrive subscription \<Rightarrow> intents_redrive E url subscription
      | Inspect \<Rightarrow> inspect_app E A url)"

definition cli_main :: "('v, 'm) env \<Rightarrow> arguments \<Rightarrow> (cli_world, nat) py" where
  "cli_main E args =
     (case ar_url args of
        None \<Rightarrow> py_bind (py_total (\<lambda>w. (Inr (), w\<lparr>cw_err := cw_err w @ [Url_required]\<rparr>))) (\<lambda>_. py_return exit_usage)
      | Some url \<Rightarrow>
          if url = [] then
            py_bind (py_total (\<lambda>w. (Inr (), w\<lparr>cw_err := cw_err w @ [Url_required]\<rparr>))) (\<lambda>_. py_return exit_usage)
          else
            (case load_app E (ar_app args) of
               Inl e \<Rightarrow> handle_error e
             | Inr A \<Rightarrow> py_try (dispatch E A url (ar_command args)) handle_error))"

end
