(* ===== verification/Cli_Facts.thy ===== *)
theory Cli_Facts
  imports Cli Runtime_Promises
begin

text \<open>What the exit codes and the effects of the commands tell an operator.\<close>

section \<open>Running commands\<close>

lemma print_out_run [py_simps]: "print_out l w = Some (Inr (), w\<lparr>cw_out := cw_out w @ [l]\<rparr>)"
  by (simp add: print_out_def py_total_def)

lemma print_all_run [py_simps]: "print_all ls w = Some (Inr (), w\<lparr>cw_out := cw_out w @ ls\<rparr>)"
  by (induction ls arbitrary: w) (simp_all add: py_return_def py_bind_def print_out_run)

lemma print_bind [py_simps]:
  "py_bind (print_out l) f w = f () (w\<lparr>cw_out := cw_out w @ [l]\<rparr>)"
  "py_bind (print_all ls) g w = g () (w\<lparr>cw_out := cw_out w @ ls\<rparr>)"
  "py_bind (py_return x) h w = h x w"
  "py_bind (if b then m else n) k w = (if b then py_bind m k w else py_bind n k w)"
  by (simp_all add: py_bind_def print_out_run print_all_run py_return_def)

definition opened :: "('v, 'm) env \<Rightarrow> string \<Rightarrow> exn + dialect_name" where
  "opened E url =
     rbind (if prefix ''sqlite'' url then Inr Sqlite
            else if prefix ''postgresql'' url then Inr Postgresql else Inl (Eventic ConfigError))
       (\<lambda>name. rbind (ce_open E url) (\<lambda>_. Inr name))"

definition with_tables :: "cli_world \<Rightarrow> cli_world" where
  "with_tables w = w\<lparr>cw_catalogue := create_all (cw_catalogue w)\<rparr>"

lemma with_tables_rows [simp]: "wo_db (with_tables w) = wo_db w" "cw_version (with_tables w) = cw_version w"
  by (simp_all add: with_tables_def)

lemma make_store_bind [py_simps]:
  "py_bind (make_store E url b) f w =
     (case opened E url of Inl e \<Rightarrow> Some (Inl e, w) | Inr name \<Rightarrow> f name (if b then with_tables w else w))"
  by (auto simp: make_store_def opened_def py_bind_def py_pure_def py_total_def py_return_def with_tables_def split: sum.splits)

lemma schema_check_run:
  "schema_check E A url w =
     Some (case opened E url of
       Inl e \<Rightarrow> (Inl e, w)
     | Inr _ \<Rightarrow>
         (let report = admin_check (wo_db w) (declared_streams A); ls = map stream_line (sc_streams report) in
          (Inr (if sc_drift report then exit_drift else exit_ok),
           (with_tables w)\<lparr>cw_out := cw_out (with_tables w) @ ls @
             (if \<not> sc_drift report \<and> sc_baseline_missing report then [No_baseline_warning] else [])\<rparr>)))"
  by (simp add: schema_check_def py_simps Let_def split: sum.split)

lemma verify_run:
  "verify_command E url stream chunk w =
     Some (case opened E url of
       Inl e \<Rightarrow> (Inl e, w)
     | Inr _ \<Rightarrow>
         (case verify (ce_platform E) (wo_db w) stream chunk of
            Inl e \<Rightarrow> (Inl e, with_tables w)
          | Inr rep \<Rightarrow>
              (Inr (if vr_mismatches rep \<noteq> 0 then exit_failure else exit_ok),
               (with_tables w)\<lparr>cw_out := cw_out (with_tables w) @
                 [Verified (vr_checked rep) (vr_streams rep) (vr_mismatches rep)]\<rparr>)))"
  by (simp add: verify_command_def py_simps split: sum.split)

lemma rebuild_run:
  "heads_rebuild E url stream chunk w =
     Some (case opened E url of
       Inl e \<Rightarrow> (Inl e, w)
     | Inr _ \<Rightarrow>
         (let (r, d) = rebuild_heads (ce_platform E) (wo_db w) stream chunk; w1 = (with_tables w)\<lparr>wo_db := d\<rparr> in
          case r of
            Inl e \<Rightarrow> (Inl e, w1)
          | Inr rep \<Rightarrow>
              (Inr (if rb_mismatches rep \<noteq> 0 then exit_failure else exit_ok),
               w1\<lparr>cw_out := cw_out w1 @ [Rebuilt (rb_rebuilt rep) (rb_orphans rep) (rb_mismatches rep)]\<rparr>)))"
  by (simp add: heads_rebuild_def py_simps Let_def split: sum.split prod.split)

lemma upgrade_run:
  "schema_upgrade E url w =
     Some (case opened E url of
       Inl e \<Rightarrow> (Inl e, w)
     | Inr _ \<Rightarrow>
         (if \<not> ce_alembic E then (Inl (Eventic StoreError), w)
          else if cw_version w = Some ''0001'' then (Inr exit_ok, w\<lparr>cw_out := cw_out w @ [Schema_upgraded]\<rparr>)
          else
            (case operate_all upgrade (cw_catalogue w) of
               Inl e \<Rightarrow> (Inl e, w)
             | Inr c \<Rightarrow> (Inr exit_ok,
                 w\<lparr>cw_catalogue := c, cw_version := Some ''0001'', cw_out := cw_out w @ [Schema_upgraded]\<rparr>))))"
  by (simp add: schema_upgrade_def migrate_def py_simps split: sum.split)

text \<open>Every command that returns a code returns one of the four, and drift only from the check.\<close>

lemma exit_values: "exit_ok = 0" "exit_failure = 1" "exit_usage = 2" "exit_drift = 3"
  by (simp_all add: exit_ok_def exit_failure_def exit_usage_def exit_drift_def)

lemma dispatch_codes:
  assumes "dispatch E A url cmd w = Some (Inr code, w')"
  shows "code = 0 \<or> code = 1 \<or> code = 3 \<and> cmd = Schema_check"
  using assms
  by (cases cmd)
     (auto simp: dispatch_def schema_check_run verify_run rebuild_run upgrade_run worker_command_def intents_list_def
        intents_redrive_def inspect_app_def exit_values py_bind_Inr py_return_Inr make_store_bind Let_def
        split: sum.splits if_splits prod.splits)

lemma handle_error_run:
  "handle_error e w = Some (Inr (case e of Eventic x \<Rightarrow> (if is_a x ConfigError then 2 else 1) | _ \<Rightarrow> 1),
     w\<lparr>cw_err := cw_err w @ [case e of
       Eventic x \<Rightarrow> (if is_a x ConfigError then Config_failure e else Eventic_failure e) | _ \<Rightarrow> Other_failure e]\<rparr>)"
  by (simp add: handle_error_def py_total_def exit_values split: exn.split)

lemma handle_error_codes:
  assumes "handle_error e w = Some (r, w')"
  shows "r = Inr 1 \<or> r = Inr 2" "cw_err w' \<noteq> cw_err w"
  using assms by (auto simp: handle_error_run split: exn.splits)

section \<open>Properties\<close>

text \<open>The check of the command line finds drift.\<close>

definition drift_found :: "('v, 'm) env \<Rightarrow> arguments \<Rightarrow> cli_world \<Rightarrow> bool" where
  "drift_found E args w \<longleftrightarrow>
     (case (ar_url args, load_app E (ar_app args)) of
        (Some url, Inr A) \<Rightarrow>
          url \<noteq> [] \<and> is_ok (opened E url) \<and> ar_command args = Schema_check \<and>
          sc_drift (admin_check (wo_db w) (declared_streams A))
      | _ \<Rightarrow> False)"

definition report_is_clean :: "('v, 'm) env \<Rightarrow> command \<Rightarrow> db \<Rightarrow> bool" where
  "report_is_clean E cmd d \<longleftrightarrow>
     (case cmd of
        Verify stream chunk \<Rightarrow>
          (case verify (ce_platform E) d stream chunk of Inl e \<Rightarrow> False | Inr rep \<Rightarrow> vr_mismatches rep = 0)
      | Heads_rebuild stream chunk \<Rightarrow>
          (case fst (rebuild_heads (ce_platform E) d stream chunk) of Inl e \<Rightarrow> False | Inr rep \<Rightarrow> rb_mismatches rep = 0)
      | _ \<Rightarrow> True)"

lemma dispatch_clean:
  assumes "dispatch E A url cmd w = Some (Inr 0, w')"
  shows "report_is_clean E cmd (wo_db w)"
  using assms
  by (cases cmd)
     (auto simp: dispatch_def verify_run rebuild_run exit_values report_is_clean_def Let_def
        split: sum.splits if_splits prod.splits)

lemma dispatch_drift:
  "dispatch E A url cmd w = Some (Inr 3, w') \<Longrightarrow>
     is_ok (opened E url) \<and> cmd = Schema_check \<and> sc_drift (admin_check (wo_db w) (declared_streams A))"
  "is_ok (opened E url) \<Longrightarrow> sc_drift (admin_check (wo_db w) (declared_streams A)) \<Longrightarrow>
     \<exists>w'. dispatch E A url Schema_check w = Some (Inr 3, w')"
proof -
  assume run: "dispatch E A url cmd w = Some (Inr 3, w')"
  from dispatch_codes [OF this] have "cmd = Schema_check" by simp
  with run show "is_ok (opened E url) \<and> cmd = Schema_check \<and> sc_drift (admin_check (wo_db w) (declared_streams A))"
    by (auto simp: dispatch_def schema_check_run exit_values Let_def split: sum.splits if_splits)
next
  assume "is_ok (opened E url)" "sc_drift (admin_check (wo_db w) (declared_streams A))"
  then show "\<exists>w'. dispatch E A url Schema_check w = Some (Inr 3, w')"
    by (auto simp: dispatch_def schema_check_run exit_values is_ok_iff Let_def)
qed

text \<open>
  C38: Exit codes are truthful: whenever the command line returns, it is with one of the four codes; it is 3
  exactly when the schema check ran and found drift; it is 0 only when nothing failed, and for a verification
  or a rebuild only when its report has no mismatch.
\<close>

theorem exit_codes_are_truthful:
  assumes "cli_main E args w = Some (r, w')"
  shows "r \<in> Inr ` {0, 1, 2, 3} \<and> (r = Inr 3 \<longleftrightarrow> drift_found E args w) \<and>
    (r = Inr 0 \<longrightarrow> report_is_clean E (ar_command args) (wo_db w))"
proof (cases "\<exists>url A. ar_url args = Some url \<and> url \<noteq> [] \<and> load_app E (ar_app args) = Inr A")
  case False
  then have "\<not> drift_found E args w" by (auto simp: drift_found_def split: option.splits sum.splits)
  moreover have "r = Inr 1 \<or> r = Inr 2"
  proof (cases "ar_url args")
    case None
    with assms show ?thesis by (simp add: cli_main_def py_simps exit_values)
  next
    case (Some url)
    with assms False handle_error_codes(1) show ?thesis
      by (auto simp: cli_main_def py_simps exit_values split: if_splits sum.splits)
  qed
  ultimately show ?thesis by auto
next
  case True
  then obtain url A where args: "ar_url args = Some url" "url \<noteq> []" "load_app E (ar_app args) = Inr A" by blast
  with assms have run: "py_try (dispatch E A url (ar_command args)) handle_error w = Some (r, w')"
    by (simp add: cli_main_def)
  have drift: "drift_found E args w \<longleftrightarrow> is_ok (opened E url) \<and> ar_command args = Schema_check \<and>
      sc_drift (admin_check (wo_db w) (declared_streams A))"
    using args by (simp add: drift_found_def)
  from run obtain q w1 where q: "dispatch E A url (ar_command args) w = Some (q, w1)"
    by (auto simp: py_try_def split: option.splits)
  show ?thesis
  proof (cases q)
    case (Inl e)
    with run q have "handle_error e w1 = Some (r, w')" by (simp add: py_try_def)
    from handle_error_codes(1) [OF this] have "r = Inr 1 \<or> r = Inr 2" .
    moreover have "\<not> drift_found E args w" using dispatch_drift(2) [of E url w A] q Inl drift by auto
    ultimately show ?thesis by auto
  next
    case (Inr code)
    with run q have r: "r = Inr code" "w' = w1" by (simp_all add: py_try_def)
    from Inr q have d: "dispatch E A url (ar_command args) w = Some (Inr code, w1)" by simp
    then have found: "code = 3 \<Longrightarrow> drift_found E args w" unfolding drift by (intro dispatch_drift(1)) simp
    have "code = 3" if "drift_found E args w"
      using dispatch_drift(2) [of E url w A] that d unfolding drift by auto
    moreover have "report_is_clean E (ar_command args) (wo_db w)" if "code = 0"
      using d that by (intro dispatch_clean [of E A url]) simp
    ultimately show ?thesis using dispatch_codes [OF d] found unfolding r by auto
  qed
qed

text \<open>An environment with one application, an SQLite file and Alembic.\<close>

definition sample_env :: "(json, json) env" where
  "sample_env =
     \<lparr>ce_import = (\<lambda>m. if m = ''shop'' then Module (\<lambda>a. if a = ''app'' then Some (Loaded_app sample_app) else None)
        else Import_error), ce_open = (\<lambda>_. Inr ()), ce_alembic = True, ce_iso = sample_iso,
      ce_interp = sample_interp, ce_platform = sample_platform, ce_json = sample_sql, ce_stopped = (\<lambda>_. True),
      ce_wait = (\<lambda>w. w)\<rparr>"

definition fresh_world :: cli_world where
  "fresh_world =
     \<lparr>wo_db = empty_db, wo_db_now = 100, wo_now = 100, cw_catalogue = no_tables, cw_version = None, cw_out = [], cw_err = []\<rparr>"

lemma sample_load: "load_app sample_env ''shop:app'' = Inr sample_app"
  by (simp add: load_app_def sample_env_def)

lemma sample_opened: "opened sample_env ''sqlite:///shop.db'' = Inr Sqlite"
  by (simp add: opened_def sample_env_def)

lemma exit_codes_are_truthful_witness:
  "drift_found sample_env \<lparr>ar_app = ''shop:app'', ar_url = Some ''sqlite:///shop.db'', ar_command = Schema_check\<rparr>
     (fresh_world\<lparr>wo_db := sample_db\<rparr>)"
proof -
  let ?w = "fresh_world\<lparr>wo_db := sample_db\<rparr>"
  have drift: "sc_drift (admin_check sample_db (declared_streams sample_app))"
    by (simp add: admin_check_def declared_streams_def sample_app_def check_stream_def sample_stream_def
        select_fingerprint_def sample_db_def)
  have "\<exists>w'. cli_main sample_env \<lparr>ar_app = ''shop:app'', ar_url = Some ''sqlite:///shop.db'', ar_command = Schema_check\<rparr>
      ?w = Some (Inr 3, w')"
    using drift by (simp add: cli_main_def sample_load py_try_def dispatch_def schema_check_run sample_opened exit_values Let_def)
  then show ?thesis using exit_codes_are_truthful by blast
qed

text \<open>
  Checking a database that does not exist yet spoils its migration: on an empty database \<open>schema upgrade\<close>
  succeeds, but \<open>schema check\<close>, which is said to be read-only, creates the tables, reports success, and leaves
  a database on which \<open>schema upgrade\<close> fails, because the tables are there and no version is recorded.
\<close>

theorem check_before_upgrade_spoils_it:
  assumes "load_app E spec = Inr A" "url \<noteq> []" "opened E url = Inr name" "ce_alembic E"
    and "wo_db w = empty_db" "cw_catalogue w = no_tables" "cw_version w = None"
  shows "\<exists>w1 w2 w3.
    cli_main E \<lparr>ar_app = spec, ar_url = Some url, ar_command = Schema_upgrade\<rparr> w = Some (Inr 0, w1) \<and>
    cli_main E \<lparr>ar_app = spec, ar_url = Some url, ar_command = Schema_check\<rparr> w = Some (Inr 0, w2) \<and>
    cli_main E \<lparr>ar_app = spec, ar_url = Some url, ar_command = Schema_upgrade\<rparr> w2 = Some (Inr 1, w3) \<and>
    cw_version w1 = Some ''0001'' \<and> cw_version w3 = None \<and> same_schema (cw_catalogue w3) (cw_catalogue w1)"
proof -
  obtain c where up: "operate_all upgrade no_tables = Inr c" "same_schema (create_all no_tables) c"
    using baseline_schema by (auto split: sum.splits)
  have again: "operate_all upgrade (create_all no_tables) = Inl (Python OtherException)"
    by code_simp
  have check: "sc_drift (admin_check empty_db ss) = False" for ss
    by (simp add: admin_check_def list_ex_iff check_stream_def select_fingerprint_def empty_db_def split_def)
  let ?w2 = "(with_tables w)\<lparr>cw_out := cw_out (with_tables w) @ map stream_line (sc_streams (admin_check empty_db (declared_streams A))) @
    (if sc_baseline_missing (admin_check empty_db (declared_streams A)) then [No_baseline_warning] else [])\<rparr>"
  have "cli_main E \<lparr>ar_app = spec, ar_url = Some url, ar_command = Schema_check\<rparr> w = Some (Inr 0, ?w2)"
    using assms by (simp add: cli_main_def py_try_def dispatch_def schema_check_run check exit_values Let_def)
  moreover have "cli_main E \<lparr>ar_app = spec, ar_url = Some url, ar_command = Schema_upgrade\<rparr> w =
      Some (Inr 0, w\<lparr>cw_catalogue := c, cw_version := Some ''0001'', cw_out := cw_out w @ [Schema_upgraded]\<rparr>)"
    using assms up by (simp add: cli_main_def py_try_def dispatch_def upgrade_run exit_values)
  moreover have "cli_main E \<lparr>ar_app = spec, ar_url = Some url, ar_command = Schema_upgrade\<rparr> ?w2 =
      Some (Inr 1, ?w2\<lparr>cw_err := cw_err ?w2 @ [Other_failure (Python OtherException)]\<rparr>)"
    using assms again
    by (simp add: cli_main_def py_try_def dispatch_def upgrade_run exit_values with_tables_def handle_error_run)
  ultimately show ?thesis
    using up(2) assms(6,7) by (intro exI conjI) (assumption | simp add: with_tables_def)+
qed

lemma check_before_upgrade_spoils_it_witness:
  "\<exists>w2 w3.
    cli_main sample_env \<lparr>ar_app = ''shop:app'', ar_url = Some ''sqlite:///shop.db'', ar_command = Schema_check\<rparr> fresh_world =
      Some (Inr 0, w2) \<and>
    cli_main sample_env \<lparr>ar_app = ''shop:app'', ar_url = Some ''sqlite:///shop.db'', ar_command = Schema_upgrade\<rparr> w2 =
      Some (Inr 1, w3)"
  using check_before_upgrade_spoils_it [OF sample_load _ sample_opened, of fresh_world]
  by (auto simp: fresh_world_def sample_env_def)

end
