(* ===== verification/Watermark.thy ===== *)
theory Watermark
  imports Eventic_Prelude
begin

text \<open>
  Scanning a log in a total order while writers commit: the three mechanisms of
  \<open>.scratch/projects/008-derived-projection/probes/p02_seq_gap.py\<close>.

  A projection reads the rows above its checkpoint and moves the checkpoint to the last row it read.  A row that
  becomes visible below the checkpoint is never read.  \<open>M0\<close> orders rows by a sequence; \<open>M1\<close> also holds back rows
  whose transaction id is not below the snapshot's \<open>xmin\<close>; \<open>M2\<close> orders by the transaction id itself and holds
  back what is not below \<open>xmin\<close>.

  PostgreSQL is not part of the repository.  Transaction ids and sequence values are counters; \<open>xmin\<close> is a
  parameter, a function of the ids in progress and the next id, of which \<open>sound_horizon\<close> states what the
  documentation promises: every id below it belongs to a transaction that has ended.  Transactions elsewhere in
  the cluster may lower it.
\<close>

section \<open>Writers and the scanner\<close>

datatype mechanism = M0 | M1 | M2

record tick =
  tk_seq :: nat
  tk_xid :: nat
  tk_tag :: string

text \<open>A thread of \<open>Writer.run\<close>: before its first gate, past \<open>cas_done\<close>, past \<open>inserted\<close>, past \<open>committed_ev\<close>.\<close>

datatype writer = Gated | Has_xid nat | Inserted tick | Ended tick

record trap =
  tr_next_xid :: nat
  tr_running :: "nat list"
  tr_nextval :: nat
  tr_ticks :: "tick list"
  tr_writer :: "string \<Rightarrow> writer"
  tr_seen :: "nat list"
  tr_checkpoint :: "nat option"

text \<open>The empty table, the new sequence, and a first transaction id.\<close>

definition fresh_trap :: "nat \<Rightarrow> trap" where
  "fresh_trap first =
     \<lparr>tr_next_xid = first, tr_running = [], tr_nextval = 1, tr_ticks = [], tr_writer = (\<lambda>_. Gated), tr_seen = [],
      tr_checkpoint = None\<rparr>"

abbreviation set_writer :: "string \<Rightarrow> writer \<Rightarrow> trap \<Rightarrow> trap" where
  "set_writer tag w s \<equiv> s\<lparr>tr_writer := (tr_writer s)(tag := w)\<rparr>"

text \<open>\<open>pg_current_xact_id()\<close> assigns the transaction's id.\<close>

definition writer_cas :: "string \<Rightarrow> trap \<Rightarrow> trap" where
  "writer_cas tag s =
     set_writer tag (Has_xid (tr_next_xid s))
       (s\<lparr>tr_next_xid := tr_next_xid s + 1, tr_running := tr_running s @ [tr_next_xid s]\<rparr>)"

text \<open>\<open>seq_sql\<close>: the transaction id under \<open>M2\<close>, the next value of the sequence otherwise.\<close>

definition writer_ins :: "mechanism \<Rightarrow> string \<Rightarrow> nat \<Rightarrow> trap \<Rightarrow> trap" where
  "writer_ins m tag xid s =
     (if m = M2 then set_writer tag (Inserted \<lparr>tk_seq = xid, tk_xid = xid, tk_tag = tag\<rparr>) s
      else set_writer tag (Inserted \<lparr>tk_seq = tr_nextval s, tk_xid = xid, tk_tag = tag\<rparr>)
        (s\<lparr>tr_nextval := tr_nextval s + 1\<rparr>))"

definition writer_com :: "string \<Rightarrow> tick \<Rightarrow> trap \<Rightarrow> trap" where
  "writer_com tag t s =
     set_writer tag (Ended t)
       (s\<lparr>tr_running := filter (\<lambda>x. x \<noteq> tk_xid t) (tr_running s), tr_ticks := tr_ticks s @ [t]\<rparr>)"

text \<open>The \<open>where\<close> clause of the scan.\<close>

definition scan_guard :: "mechanism \<Rightarrow> nat option \<Rightarrow> nat \<Rightarrow> tick \<Rightarrow> bool" where
  "scan_guard m checkpoint xmin t =
     ((case checkpoint of None \<Rightarrow> True | Some cp \<Rightarrow> cp < tk_seq t) \<and>
      (case m of M0 \<Rightarrow> True | M1 \<Rightarrow> tk_xid t < xmin | M2 \<Rightarrow> tk_seq t < xmin))"

definition scan_rows :: "mechanism \<Rightarrow> nat option \<Rightarrow> nat \<Rightarrow> tick list \<Rightarrow> tick list" where
  "scan_rows m checkpoint xmin ticks = sort_key tk_seq (filter (scan_guard m checkpoint xmin) ticks)"

definition see :: "tick \<Rightarrow> trap \<Rightarrow> trap" where
  "see t s = s\<lparr>tr_checkpoint := Some (tk_seq t), tr_seen := tr_seen s @ [tk_seq t]\<rparr>"

definition scanner :: "(nat list \<Rightarrow> nat \<Rightarrow> nat) \<Rightarrow> mechanism \<Rightarrow> trap \<Rightarrow> trap" where
  "scanner xmin m s =
     fold see (scan_rows m (tr_checkpoint s) (xmin (tr_running s) (tr_next_xid s)) (tr_ticks s)) s"

section \<open>Scenarios\<close>

datatype event = Cas string | Ins string | Com string | Scan

text \<open>
  Opening a gate that is open already does nothing.  A writer whose earlier gate is closed never signals, and the
  driver's assertion fails after its timeout: \<open>None\<close>.
\<close>

fun trap_event :: "(nat list \<Rightarrow> nat \<Rightarrow> nat) \<Rightarrow> mechanism \<Rightarrow> event \<Rightarrow> trap \<Rightarrow> trap option" where
  "trap_event xmin m (Cas tag) s =
     Some (case tr_writer s tag of Gated \<Rightarrow> writer_cas tag s | _ \<Rightarrow> s)"
| "trap_event xmin m (Ins tag) s =
     (case tr_writer s tag of
        Gated \<Rightarrow> None
      | Has_xid xid \<Rightarrow> Some (writer_ins m tag xid s)
      | _ \<Rightarrow> Some s)"
| "trap_event xmin m (Com tag) s =
     (case tr_writer s tag of
        Inserted t \<Rightarrow> Some (writer_com tag t s)
      | Ended t \<Rightarrow> Some s
      | _ \<Rightarrow> None)"
| "trap_event xmin m Scan s = Some (scanner xmin m s)"

fun trap_events :: "(nat list \<Rightarrow> nat \<Rightarrow> nat) \<Rightarrow> mechanism \<Rightarrow> event list \<Rightarrow> trap \<Rightarrow> trap option" where
  "trap_events xmin m [] s = Some s"
| "trap_events xmin m (e # es) s =
     (case trap_event xmin m e s of None \<Rightarrow> None | Some s' \<Rightarrow> trap_events xmin m es s')"

fun event_tags :: "event list \<Rightarrow> string list" where
  "event_tags [] = []"
| "event_tags (Cas t # es) = t # event_tags es"
| "event_tags (Ins t # es) = t # event_tags es"
| "event_tags (Com t # es) = t # event_tags es"
| "event_tags (Scan # es) = event_tags es"

record mechanism_result =
  mr_committed :: "(string \<times> nat) list"
  mr_seen :: "nat list"
  mr_checkpoint :: "nat option"
  mr_dropped :: "(string \<times> nat) list"

definition has_ended :: "writer \<Rightarrow> bool" where
  "has_ended w = (case w of Ended _ \<Rightarrow> True | _ \<Rightarrow> False)"

text \<open>A scenario that leaves a writer open ends in the writers' timeouts, and has no result.\<close>

definition run_mechanism ::
    "(nat list \<Rightarrow> nat \<Rightarrow> nat) \<Rightarrow> nat \<Rightarrow> mechanism \<Rightarrow> event list \<Rightarrow> mechanism_result option" where
  "run_mechanism xmin first m scenario =
     (case trap_events xmin m scenario (fresh_trap first) of
        None \<Rightarrow> None
      | Some s \<Rightarrow>
          (if list_all (\<lambda>tag. has_ended (tr_writer s tag)) (event_tags scenario) then
             Some \<lparr>mr_committed = map (\<lambda>t. (tk_tag t, tk_seq t)) (tr_ticks s), mr_seen = tr_seen s,
                   mr_checkpoint = tr_checkpoint s,
                   mr_dropped = filter (\<lambda>(tag, sq). sq \<notin> set (tr_seen s)) (map (\<lambda>t. (tk_tag t, tk_seq t)) (tr_ticks s))\<rparr>
           else None))"

definition scenario_a :: "event list" where
  "scenario_a =
     [Cas ''D'', Cas ''A'', Ins ''A'', Ins ''D'', Com ''D'', Scan, Com ''A'', Scan]"

definition scenario_b :: "event list" where
  "scenario_b =
     [Cas ''D'', Cas ''R'', Cas ''A'', Cas ''B'', Ins ''A'', Com ''A'', Scan, Ins ''D'', Com ''D'', Scan,
      Ins ''R'', Com ''R'', Ins ''B'', Com ''B'', Scan]"

section \<open>The horizon\<close>

definition sound_horizon :: "(nat list \<Rightarrow> nat \<Rightarrow> nat) \<Rightarrow> bool" where
  "sound_horizon xmin \<longleftrightarrow> (\<forall>running next. xmin running next \<le> next \<and> (\<forall>x\<in>set running. xmin running next \<le> x))"

text \<open>The horizon of a cluster without other transactions.\<close>

definition lowest_xid :: "nat list \<Rightarrow> nat \<Rightarrow> nat" where
  "lowest_xid running next = fold min running next"

lemma fold_min_le: "fold min xs (n::nat) \<le> n \<and> (\<forall>x\<in>set xs. fold min xs n \<le> x)"
proof (induction xs arbitrary: n)
  case (Cons x xs)
  from Cons.IH [of "min x n"] show ?case by simp
qed simp

lemma lowest_xid_sound: "sound_horizon lowest_xid"
  unfolding sound_horizon_def lowest_xid_def using fold_min_le by blast

text \<open>The first two mechanisms skip a row; the third one does not.  The ids of the transactions start at 700.\<close>

lemmas trap_simps = fresh_trap_def writer_cas_def writer_ins_def writer_com_def scan_guard_def scan_rows_def see_def
  scanner_def lowest_xid_def has_ended_def

definition dropped_by :: "mechanism \<Rightarrow> event list \<Rightarrow> (string \<times> nat) list option" where
  "dropped_by m scenario = map_option mr_dropped (run_mechanism lowest_xid 700 m scenario)"

lemma gap_probe:
  "dropped_by M0 scenario_a = Some [(''A'', 1)]" "dropped_by M0 scenario_b = Some []"
  "dropped_by M1 scenario_a = Some [(''A'', 1)]" "dropped_by M1 scenario_b = Some [(''A'', 1)]"
  "dropped_by M2 scenario_a = Some []" "dropped_by M2 scenario_b = Some []"
  by (simp_all add: dropped_by_def run_mechanism_def scenario_a_def scenario_b_def trap_simps)

section \<open>Ordering by transaction id\<close>

definition open_xid :: "writer \<Rightarrow> nat option" where
  "open_xid w = (case w of Has_xid x \<Rightarrow> Some x | Inserted t \<Rightarrow> Some (tk_xid t) | _ \<Rightarrow> None)"

lemma open_xid_simps [simp]:
  "open_xid Gated = None" "open_xid (Has_xid x) = Some x" "open_xid (Inserted t) = Some (tk_xid t)"
  "open_xid (Ended t) = None"
  by (simp_all add: open_xid_def)

text \<open>
  Under \<open>M2\<close> every row's place is its transaction's id, the open transactions are those of the writers between
  their gates, everything open or still to come lies above the checkpoint, and what was seen is what lies at or
  below it.
\<close>

definition below :: "nat option \<Rightarrow> nat \<Rightarrow> bool" where
  "below checkpoint x = (case checkpoint of None \<Rightarrow> False | Some c \<Rightarrow> x \<le> c)"

definition xids_ok :: "trap \<Rightarrow> bool" where
  "xids_ok s \<longleftrightarrow>
     (\<forall>tag x. open_xid (tr_writer s tag) = Some x \<longrightarrow> x \<in> set (tr_running s)) \<and>
     (\<forall>tag tag' x. open_xid (tr_writer s tag) = Some x \<longrightarrow> open_xid (tr_writer s tag') = Some x \<longrightarrow> tag = tag') \<and>
     (\<forall>tag t. tr_writer s tag = Inserted t \<longrightarrow> tk_seq t = tk_xid t) \<and>
     (\<forall>x\<in>set (tr_running s). x < tr_next_xid s \<and> (\<exists>tag. open_xid (tr_writer s tag) = Some x))"

definition scan_ok :: "trap \<Rightarrow> bool" where
  "scan_ok s \<longleftrightarrow>
     (\<forall>x. below (tr_checkpoint s) x \<longrightarrow> x < tr_next_xid s \<and> x \<notin> set (tr_running s)) \<and>
     (\<forall>t\<in>set (tr_ticks s). tk_seq t < tr_next_xid s \<and> tk_seq t \<notin> set (tr_running s)) \<and>
     distinct (map tk_seq (tr_ticks s)) \<and>
     set (tr_seen s) = {x \<in> tk_seq ` set (tr_ticks s). below (tr_checkpoint s) x} \<and>
     sorted_wrt (<) (tr_seen s)"

lemma xids_okD:
  assumes "xids_ok s" "open_xid (tr_writer s tag) = Some x"
  shows "x \<in> set (tr_running s)" "x < tr_next_xid s" "open_xid (tr_writer s tag') = Some x \<Longrightarrow> tag' = tag"
  using assms unfolding xids_ok_def by blast+

lemma xids_okI:
  assumes "\<And>tag x. open_xid (tr_writer s tag) = Some x \<Longrightarrow> x \<in> set (tr_running s)"
    and "\<And>tag tag' x. open_xid (tr_writer s tag) = Some x \<Longrightarrow> open_xid (tr_writer s tag') = Some x \<Longrightarrow> tag = tag'"
    and "\<And>tag t. tr_writer s tag = Inserted t \<Longrightarrow> tk_seq t = tk_xid t"
    and "\<And>x. x \<in> set (tr_running s) \<Longrightarrow> x < tr_next_xid s"
    and "\<And>x. x \<in> set (tr_running s) \<Longrightarrow> \<exists>tag. open_xid (tr_writer s tag) = Some x"
  shows "xids_ok s"
  using assms unfolding xids_ok_def by blast

lemma xids_ok_Inserted: "xids_ok s \<Longrightarrow> tr_writer s tag = Inserted t \<Longrightarrow> tk_seq t = tk_xid t"
  by (simp add: xids_ok_def)

lemma xids_ok_running:
  assumes "xids_ok s" "x \<in> set (tr_running s)"
  shows "x < tr_next_xid s" "\<exists>tag. open_xid (tr_writer s tag) = Some x"
  using assms by (simp_all add: xids_ok_def)

lemma scan_okD:
  assumes "scan_ok s"
  shows "below (tr_checkpoint s) x \<Longrightarrow> x < tr_next_xid s \<and> x \<notin> set (tr_running s)"
    "t \<in> set (tr_ticks s) \<Longrightarrow> tk_seq t < tr_next_xid s \<and> tk_seq t \<notin> set (tr_running s)"
    "distinct (map tk_seq (tr_ticks s))"
    "set (tr_seen s) = {x \<in> tk_seq ` set (tr_ticks s). below (tr_checkpoint s) x}"
    "sorted_wrt (<) (tr_seen s)"
  using assms by (simp_all add: scan_ok_def)

lemma fresh_trap_ok: "xids_ok (fresh_trap n)" "scan_ok (fresh_trap n)"
  by (simp_all add: xids_ok_def scan_ok_def fresh_trap_def below_def)

lemma cas_ok:
  assumes "xids_ok s" "scan_ok s" "tr_writer s tag = Gated"
  shows "xids_ok (writer_cas tag s)" "scan_ok (writer_cas tag s)"
proof -
  note okD = xids_okD [OF assms(1)]
  show "xids_ok (writer_cas tag s)"
  proof (rule xids_okI)
    show "x \<in> set (tr_running (writer_cas tag s))"
      if "open_xid (tr_writer (writer_cas tag s) t) = Some x" for t x
      using that okD(1) by (auto simp: writer_cas_def split: if_split_asm)
    show "t = t'"
      if "open_xid (tr_writer (writer_cas tag s) t) = Some x" "open_xid (tr_writer (writer_cas tag s) t') = Some x"
      for t t' x
      using that okD(2) [of t x] okD(2) [of t' x] okD(3) [of t x t']
      by (auto simp: writer_cas_def split: if_split_asm)
    show "tk_seq u = tk_xid u" if "tr_writer (writer_cas tag s) t = Inserted u" for t u
      using that xids_ok_Inserted [OF assms(1)] by (auto simp: writer_cas_def split: if_split_asm)
    show "x < tr_next_xid (writer_cas tag s)" if "x \<in> set (tr_running (writer_cas tag s))" for x
      using that xids_ok_running(1) [OF assms(1)] by (auto simp: writer_cas_def intro: less_SucI)
    show "\<exists>t. open_xid (tr_writer (writer_cas tag s) t) = Some x" if x: "x \<in> set (tr_running (writer_cas tag s))" for x
    proof (cases "x = tr_next_xid s")
      case True
      then show ?thesis by (intro exI [of _ tag]) (simp add: writer_cas_def)
    next
      case False
      with x obtain t where "open_xid (tr_writer s t) = Some x"
        using xids_ok_running(2) [OF assms(1)] by (auto simp: writer_cas_def)
      with assms(3) show ?thesis by (intro exI [of _ t]) (auto simp: writer_cas_def)
    qed
  qed
  from assms(2) show "scan_ok (writer_cas tag s)"
    by (auto simp: scan_ok_def writer_cas_def intro: less_SucI)
qed

lemma ins_ok:
  assumes "xids_ok s" "scan_ok s" "tr_writer s tag = Has_xid x"
  shows "xids_ok (writer_ins M2 tag x s)" "scan_ok (writer_ins M2 tag x s)"
proof -
  have same: "open_xid (tr_writer (writer_ins M2 tag x s) t) = open_xid (tr_writer s t)" for t
    by (simp add: writer_ins_def assms(3))
  show "xids_ok (writer_ins M2 tag x s)"
  proof (rule xids_okI)
    show "t = t'"
      if "open_xid (tr_writer (writer_ins M2 tag x s) t) = Some y" "open_xid (tr_writer (writer_ins M2 tag x s) t') = Some y"
      for t t' y
      using that xids_okD(3) [OF assms(1), of t y t'] by (simp add: same)
    show "tk_seq u = tk_xid u" if "tr_writer (writer_ins M2 tag x s) t = Inserted u" for t u
      using that xids_ok_Inserted [OF assms(1)] by (auto simp: writer_ins_def split: if_split_asm)
  qed (use xids_okD(1) [OF assms(1)] xids_ok_running [OF assms(1)] same in \<open>auto simp: writer_ins_def\<close>)
  from assms(2) show "scan_ok (writer_ins M2 tag x s)"
    by (simp add: scan_ok_def writer_ins_def)
qed

lemma com_ok:
  assumes "xids_ok s" "scan_ok s" "tr_writer s tag = Inserted t"
  shows "xids_ok (writer_com tag t s)" "scan_ok (writer_com tag t s)"
proof -
  have "open_xid (tr_writer s tag) = Some (tk_xid t)" by (simp add: assms(3))
  note x = xids_okD [OF assms(1) this]
  have sq: "tk_seq t = tk_xid t" using xids_ok_Inserted [OF assms(1,3)] .
  show "xids_ok (writer_com tag t s)"
  proof (rule xids_okI)
    show "y \<in> set (tr_running (writer_com tag t s))"
      if "open_xid (tr_writer (writer_com tag t s) u) = Some y" for u y
      using that xids_okD(1) [OF assms(1), of u y] x(3) [of u] by (auto simp: writer_com_def split: if_split_asm)
    show "u = u'"
      if "open_xid (tr_writer (writer_com tag t s) u) = Some y" "open_xid (tr_writer (writer_com tag t s) u') = Some y"
      for u u' y
      using that xids_okD(3) [OF assms(1), of u y u'] by (auto simp: writer_com_def split: if_split_asm)
    show "tk_seq v = tk_xid v" if "tr_writer (writer_com tag t s) u = Inserted v" for u v
      using that xids_ok_Inserted [OF assms(1)] by (auto simp: writer_com_def split: if_split_asm)
    show "y < tr_next_xid (writer_com tag t s)" if "y \<in> set (tr_running (writer_com tag t s))" for y
      using that xids_ok_running(1) [OF assms(1)] by (simp add: writer_com_def)
    show "\<exists>u. open_xid (tr_writer (writer_com tag t s) u) = Some y"
      if y: "y \<in> set (tr_running (writer_com tag t s))" for y
    proof -
      from y obtain u where u: "open_xid (tr_writer s u) = Some y"
        using xids_ok_running(2) [OF assms(1)] by (auto simp: writer_com_def)
      from y have "y \<noteq> tk_xid t" by (simp add: writer_com_def)
      with u assms(3) have "u \<noteq> tag" by auto
      with u show ?thesis by (intro exI [of _ u]) (simp add: writer_com_def)
    qed
  qed
  have "\<not> below (tr_checkpoint s) (tk_xid t)" using scan_okD(1) [OF assms(2)] x(1) by blast
  moreover have "tk_xid t \<notin> tk_seq ` set (tr_ticks s)" using scan_okD(2) [OF assms(2)] x(1) by force
  ultimately show "scan_ok (writer_com tag t s)"
    using assms(2) x(2) sq unfolding scan_ok_def writer_com_def by auto
qed

text \<open>A scan appends the rows it returns and moves the checkpoint to the last of them.\<close>

lemma fold_see:
  "fold see rows s =
     s\<lparr>tr_checkpoint := if rows = [] then tr_checkpoint s else Some (tk_seq (last rows)),
       tr_seen := tr_seen s @ map tk_seq rows\<rparr>"
  by (induction rows arbitrary: s) (simp_all add: see_def)

lemma sorted_map_last: "sorted (map f xs) \<Longrightarrow> x \<in> set xs \<Longrightarrow> f x \<le> (f (last xs) :: nat)"
  by (induction xs) auto

lemma scanner_ok:
  assumes "xids_ok s" "scan_ok s" "sound_horizon xmin"
  shows "xids_ok (scanner xmin M2 s)" "scan_ok (scanner xmin M2 s)"
proof -
  define h where "h = xmin (tr_running s) (tr_next_xid s)"
  define rows where "rows = scan_rows M2 (tr_checkpoint s) h (tr_ticks s)"
  have eq: "scanner xmin M2 s =
    s\<lparr>tr_checkpoint := if rows = [] then tr_checkpoint s else Some (tk_seq (last rows)),
      tr_seen := tr_seen s @ map tk_seq rows\<rparr>"
    by (simp add: scanner_def fold_see rows_def h_def)
  from assms(1) show "xids_ok (scanner xmin M2 s)" by (simp add: eq xids_ok_def)
  have h: "h \<le> tr_next_xid s" "\<And>x. x \<in> set (tr_running s) \<Longrightarrow> h \<le> x"
    using assms(3) by (simp_all add: sound_horizon_def h_def)
  have rows: "set rows = {t \<in> set (tr_ticks s). \<not> below (tr_checkpoint s) (tk_seq t) \<and> tk_seq t < h}"
    by (auto simp: rows_def scan_rows_def scan_guard_def below_def split: option.splits)
  have sorted: "sorted (map tk_seq rows)" by (simp add: rows_def scan_rows_def)
  have "distinct (map tk_seq (tr_ticks s))" using assms(2) by (simp add: scan_ok_def)
  then have "distinct (map tk_seq (filter (scan_guard M2 (tr_checkpoint s) h) (tr_ticks s)))"
    by (rule distinct_map_filter)
  then have "distinct (map tk_seq rows)"
    by (simp add: rows_def scan_rows_def distinct_map)
  with sorted have strict: "sorted_wrt (<) (map tk_seq rows)" by (simp add: strict_sorted_iff)
  show "scan_ok (scanner xmin M2 s)"
  proof (cases "rows = []")
    case True
    with eq assms(2) show ?thesis by simp
  next
    case False
    define c where "c = tk_seq (last rows)"
    have last: "last rows \<in> set (tr_ticks s)" "c < h" "\<not> below (tr_checkpoint s) c"
      using last_in_set [OF False] rows by (auto simp: c_def)
    have max: "tk_seq t \<le> c" if "t \<in> set rows" for t
      using sorted_map_last [OF sorted that] by (simp add: c_def)
    have upto: "x \<le> c" if "below (tr_checkpoint s) x" for x
      using that last(3) by (auto simp: below_def split: option.split_asm)
    have new: "set (tr_seen s @ map tk_seq rows) = {x \<in> tk_seq ` set (tr_ticks s). x \<le> c}"
    proof (intro equalityI subsetI)
      fix x assume "x \<in> set (tr_seen s @ map tk_seq rows)"
      then show "x \<in> {x \<in> tk_seq ` set (tr_ticks s). x \<le> c}"
        using assms(2) upto max rows by (auto simp: scan_ok_def)
    next
      fix x assume x: "x \<in> {x \<in> tk_seq ` set (tr_ticks s). x \<le> c}"
      show "x \<in> set (tr_seen s @ map tk_seq rows)"
      proof (cases "below (tr_checkpoint s) x")
        case True
        with x assms(2) show ?thesis by (auto simp: scan_ok_def)
      next
        case False
        with x last(2) have "x \<in> tk_seq ` set rows" by (auto simp: rows)
        then show ?thesis by simp
      qed
    qed
    have "sorted_wrt (<) (tr_seen s @ map tk_seq rows)"
    proof -
      have "x < y" if "x \<in> set (tr_seen s)" "y \<in> tk_seq ` set rows" for x y
        using that assms(2) by (auto simp: scan_ok_def rows below_def split: option.split_asm)
      with strict assms(2) show ?thesis by (auto simp: sorted_wrt_append scan_ok_def)
    qed
    moreover have "x < tr_next_xid s \<and> x \<notin> set (tr_running s)" if "x \<le> c" for x
      using that last(2) h by fastforce
    ultimately show ?thesis
      using assms(2) new False unfolding scan_ok_def eq by (auto simp: below_def c_def)
  qed
qed

lemma trap_event_ok:
  assumes "trap_event xmin M2 e s = Some s'" "xids_ok s" "scan_ok s" "sound_horizon xmin"
  shows "xids_ok s' \<and> scan_ok s'"
  using assms cas_ok ins_ok com_ok scanner_ok by (cases e) (auto split: writer.splits)

lemma trap_events_ok:
  "trap_events xmin M2 es s = Some s' \<Longrightarrow> xids_ok s \<Longrightarrow> scan_ok s \<Longrightarrow> sound_horizon xmin \<Longrightarrow> xids_ok s' \<and> scan_ok s'"
proof (induction es arbitrary: s)
  case (Cons e es)
  then obtain s1 where "trap_event xmin M2 e s = Some s1" "trap_events xmin M2 es s1 = Some s'"
    by (auto split: option.split_asm)
  with Cons trap_event_ok show ?case by blast
qed simp

lemma trap_events_append:
  "trap_events xmin m (es @ es') s =
     (case trap_events xmin m es s of None \<Rightarrow> None | Some s' \<Rightarrow> trap_events xmin m es' s')"
  by (induction es arbitrary: s) (simp_all split: option.split)

lemma event_tags_append: "event_tags (es @ es') = event_tags es @ event_tags es'"
  by (induction es rule: event_tags.induct) simp_all

lemma scanner_writer [simp]: "tr_writer (scanner xmin m s) = tr_writer s" "tr_ticks (scanner xmin m s) = tr_ticks s"
  by (simp_all add: scanner_def fold_see)

lemma trap_event_others:
  "trap_event xmin m e s = Some s' \<Longrightarrow> tag \<notin> set (event_tags [e]) \<Longrightarrow> tr_writer s' tag = tr_writer s tag"
  by (cases e) (auto simp: writer_cas_def writer_ins_def writer_com_def split: writer.splits)

lemma trap_events_others:
  "trap_events xmin m es s = Some s' \<Longrightarrow> tag \<notin> set (event_tags es) \<Longrightarrow> tr_writer s' tag = tr_writer s tag"
proof (induction es arbitrary: s)
  case (Cons e es)
  then obtain s1 where s1: "trap_event xmin m e s = Some s1" "trap_events xmin m es s1 = Some s'"
    by (auto split: option.split_asm)
  have "set (event_tags (e # es)) = set (event_tags [e]) \<union> set (event_tags es)"
    using event_tags_append [of "[e]" es] by simp
  with Cons trap_event_others [OF s1(1)] s1(2) show ?case by auto
qed simp

text \<open>When the writers of a scenario have ended, no transaction of theirs is open.\<close>

lemma all_ended_running:
  assumes "trap_events xmin M2 es (fresh_trap n) = Some s" "xids_ok s"
    and "list_all (\<lambda>tag. has_ended (tr_writer s tag)) (event_tags es)"
  shows "tr_running s = []"
proof -
  have "open_xid (tr_writer s tag) = None" for tag
  proof (cases "tag \<in> set (event_tags es)")
    case True
    with assms(3) have "has_ended (tr_writer s tag)" by (simp add: list_all_iff)
    then show ?thesis by (cases "tr_writer s tag") (simp_all add: has_ended_def)
  next
    case False
    with trap_events_others [OF assms(1)] show ?thesis by (simp add: fresh_trap_def)
  qed
  with xids_ok_running(2) [OF assms(2)] show ?thesis by (cases "tr_running s") auto
qed

lemma quiet_scan_sees_all:
  assumes "xids_ok s" "scan_ok s" "sound_horizon xmin" "tr_running s = []" "xmin [] (tr_next_xid s) = tr_next_xid s"
  shows "set (tr_seen (scanner xmin M2 s)) = tk_seq ` set (tr_ticks s)"
proof -
  have "tk_seq t \<in> set (tr_seen (scanner xmin M2 s))" if t: "t \<in> set (tr_ticks s)" for t
  proof (cases "below (tr_checkpoint s) (tk_seq t)")
    case True
    with t have "tk_seq t \<in> set (tr_seen s)" by (simp add: scan_okD(4) [OF assms(2)])
    then show ?thesis by (simp add: scanner_def fold_see)
  next
    case False
    with t have "t \<in> set (scan_rows M2 (tr_checkpoint s) (tr_next_xid s) (tr_ticks s))"
      using scan_okD(2) [OF assms(2) t]
      by (simp add: scan_rows_def scan_guard_def below_def split: option.split_asm)
    then show ?thesis by (simp add: scanner_def fold_see assms(4,5))
  qed
  moreover have "set (tr_seen (scanner xmin M2 s)) \<subseteq> tk_seq ` set (tr_ticks s)"
    using scan_okD(4) [OF scanner_ok(2) [OF assms(1,2,3)]] by auto
  ultimately show ?thesis by auto
qed

text \<open>
  C32: Ordering a log by transaction id and holding back what is not below the horizon skips no row, however
  the writers' transactions interleave and whatever other transactions hold the horizon back: the scanner sees
  rows in strictly increasing order, and of the committed rows it has seen exactly those at or below its
  checkpoint, so that none can be left behind.  When nothing else runs in the cluster, a scan after the last
  commit leaves no row out.
\<close>

theorem xid_order_skips_nothing:
  assumes "sound_horizon xmin" "run_mechanism xmin first M2 (scenario @ [Scan]) = Some r"
  shows "sorted_wrt (<) (mr_seen r) \<and>
    set (mr_seen r) = {sq \<in> snd ` set (mr_committed r). below (mr_checkpoint r) sq} \<and>
    (xmin [] = id \<longrightarrow> mr_dropped r = [])"
proof -
  obtain s where s: "trap_events xmin M2 scenario (fresh_trap first) = Some s"
    using assms(2) by (auto simp: run_mechanism_def trap_events_append split: option.split_asm)
  define t where "t = scanner xmin M2 s"
  have t: "trap_events xmin M2 (scenario @ [Scan]) (fresh_trap first) = Some t"
    by (simp add: trap_events_append s t_def)
  have ok: "xids_ok s" "scan_ok s"
    using trap_events_ok [OF s fresh_trap_ok assms(1)] by simp_all
  note okt = scanner_ok(2) [OF ok assms(1), folded t_def]
  have ended: "list_all (\<lambda>tag. has_ended (tr_writer s tag)) (event_tags scenario)"
    and r: "mr_committed r = map (\<lambda>t. (tk_tag t, tk_seq t)) (tr_ticks t)" "mr_seen r = tr_seen t"
      "mr_checkpoint r = tr_checkpoint t" "mr_dropped r = filter (\<lambda>(tag, sq). sq \<notin> set (tr_seen t)) (mr_committed r)"
    using assms(2) by (auto simp: run_mechanism_def t t_def event_tags_append split: if_split_asm)
  have "mr_dropped r = []" if "xmin [] = id"
  proof -
    have "set (tr_seen t) = tk_seq ` set (tr_ticks t)"
      using quiet_scan_sees_all [OF ok assms(1) all_ended_running [OF s ok(1) ended]] that by (simp add: t_def)
    then show ?thesis by (auto simp: r(4,1) filter_empty_conv)
  qed
  moreover have "snd ` set (mr_committed r) = tk_seq ` set (tr_ticks t)" by (force simp: r(1))
  ultimately show ?thesis
    using scan_okD(4,5) [OF okt] by (simp add: r(2,3))
qed

lemma xid_order_skips_nothing_witness:
  "run_mechanism lowest_xid 700 M2 (butlast scenario_b @ [Scan]) =
     Some \<lparr>mr_committed = [(''A'', 702), (''D'', 700), (''R'', 701), (''B'', 703)], mr_seen = [700, 701, 702, 703],
           mr_checkpoint = Some 703, mr_dropped = []\<rparr> \<and>
   {sq \<in> {702, 700, 701, 703}. below (Some 703) sq} = {700, 701, 702, 703}"
proof -
  have run: "run_mechanism lowest_xid 700 M2 (butlast scenario_b @ [Scan]) =
     Some \<lparr>mr_committed = [(''A'', 702), (''D'', 700), (''R'', 701), (''B'', 703)], mr_seen = [700, 701, 702, 703],
           mr_checkpoint = Some 703, mr_dropped = []\<rparr>"
    by (simp add: run_mechanism_def scenario_b_def trap_simps)
  from xid_order_skips_nothing [OF lowest_xid_sound run] run show ?thesis by simp
qed

end
