(* ===== verification/Epochs.thy ===== *)
theory Epochs
  imports Eventic_Prelude
begin

text \<open>
  Transaction ids as the order of a log, across clusters
  (\<open>.scratch/projects/008-derived-projection/probes/p05_xid_reset_restore.py\<close>), and the counter of SQLite
  (\<open>sqlite_exactness\<close> of \<open>p02_seq_gap.py\<close>).

  A cluster is its transaction counter and the rows of the table.  A dump keeps the rows as literal data and not
  the counter, so in a restored cluster new rows may come below the cursor of a projection.  With an epoch in
  front of the transaction id, moved on when the counter is found behind the rows, they do not.  Each row has its
  own transaction, one after the other, as in the probe; a table without the column \<open>epoch\<close> is one in which it
  is 0 everywhere, its default.
\<close>

section \<open>Clusters\<close>

type_synonym seq_row = "nat \<times> nat \<times> string"

abbreviation row_epoch :: "seq_row \<Rightarrow> nat" where "row_epoch r \<equiv> fst r"
abbreviation row_seq :: "seq_row \<Rightarrow> nat" where "row_seq r \<equiv> fst (snd r)"
abbreviation row_key :: "seq_row \<Rightarrow> nat \<times> nat" where "row_key r \<equiv> (row_epoch r, row_seq r)"

record cluster =
  cl_counter :: nat
  cl_rows :: "seq_row list"

text \<open>
  \<open>INSERT ... VALUES (pg_current_xact_id(), :tag)\<close> in a transaction of its own.  A row that has the key already
  makes it fail; the transaction's id is spent in either case.
\<close>

definition write_row :: "nat \<Rightarrow> string \<Rightarrow> cluster \<Rightarrow> cluster" where
  "write_row epoch tag c =
     \<lparr>cl_counter = cl_counter c + 1,
      cl_rows = (if (epoch, cl_counter c) \<in> row_key ` set (cl_rows c) then cl_rows c
                 else cl_rows c @ [(epoch, cl_counter c, tag)])\<rparr>"

definition dump_restore :: "cluster \<Rightarrow> nat \<Rightarrow> cluster" where
  "dump_restore src counter = \<lparr>cl_counter = counter, cl_rows = cl_rows src\<rparr>"

text \<open>Between transactions \<open>xmin\<close> is the counter.\<close>

definition plain_scan :: "nat \<Rightarrow> cluster \<Rightarrow> seq_row list" where
  "plain_scan cursor c = sort_key row_seq (filter (\<lambda>r. cursor < row_seq r \<and> row_seq r < cl_counter c) (cl_rows c))"

text \<open>\<open>MAX(seq)\<close>, 0 for an empty table.\<close>

definition highest_seq :: "cluster \<Rightarrow> nat" where
  "highest_seq c = fold max (map row_seq (cl_rows c)) 0"

definition reset_detected :: "cluster \<Rightarrow> bool" where
  "reset_detected c = (cl_counter c < highest_seq c)"

definition epoch_scan :: "(nat \<times> nat) option \<Rightarrow> nat \<Rightarrow> cluster \<Rightarrow> seq_row list" where
  "epoch_scan cursor live c =
     sort_key row_key
       (filter (\<lambda>r. (case cursor of None \<Rightarrow> True | Some k \<Rightarrow> k < row_key r) \<and>
                  (row_epoch r < live \<or> row_seq r < cl_counter c)) (cl_rows c))"

section \<open>A projection over its cluster's life\<close>

record projected =
  pj_cluster :: cluster
  pj_live :: nat
  pj_cursor :: "(nat \<times> nat) option"
  pj_seen :: "seq_row list"

datatype life = Write string | Restore nat | Drain

text \<open>A restore into a cluster with another counter, with the detection and the new epoch of phase 5.\<close>

fun live_step :: "life \<Rightarrow> projected \<Rightarrow> projected" where
  "live_step (Write tag) p = p\<lparr>pj_cluster := write_row (pj_live p) tag (pj_cluster p)\<rparr>"
| "live_step (Restore counter) p =
     (let c = dump_restore (pj_cluster p) counter in
      p\<lparr>pj_cluster := c, pj_live := if reset_detected c then pj_live p + 1 else pj_live p\<rparr>)"
| "live_step Drain p =
     (let rows = epoch_scan (pj_cursor p) (pj_live p) (pj_cluster p) in
      p\<lparr>pj_cursor := if rows = [] then pj_cursor p else Some (row_key (last rows)), pj_seen := pj_seen p @ rows\<rparr>)"

definition new_projection :: "nat \<Rightarrow> projected" where
  "new_projection counter =
     \<lparr>pj_cluster = \<lparr>cl_counter = counter, cl_rows = []\<rparr>, pj_live = 0, pj_cursor = None, pj_seen = []\<rparr>"

abbreviation lived :: "life list \<Rightarrow> nat \<Rightarrow> projected" where
  "lived es counter \<equiv> fold live_step es (new_projection counter)"

section \<open>Without epochs\<close>

lemma write_row_grows:
  assumes "r \<in> set (cl_rows (fold (write_row e) tags c))"
  shows "r \<in> set (cl_rows c) \<or> (cl_counter c \<le> row_seq r \<and> row_seq r < cl_counter c + length tags)"
  using assms
proof (induction tags arbitrary: c)
  case (Cons t ts)
  from Cons.IH [of "write_row e t c"] Cons.prems show ?case
    by (auto simp: write_row_def split: if_split_asm)
qed simp

text \<open>
  As long as the counter of a restored cluster has not caught up with the cursor, whatever is written is never
  returned.
\<close>

lemma restored_log_stalls:
  assumes "\<forall>r\<in>set (cl_rows src). row_seq r \<le> cursor" "counter + length tags \<le> cursor + 1"
  shows "plain_scan cursor (fold (write_row 0) tags (dump_restore src counter)) = []"
proof -
  have "row_seq r \<le> cursor" if "r \<in> set (cl_rows (fold (write_row 0) tags (dump_restore src counter)))" for r
    using write_row_grows [OF that] assms by (auto simp: dump_restore_def)
  then have "filter (\<lambda>r. cursor < row_seq r \<and> row_seq r < n) (cl_rows (fold (write_row 0) tags (dump_restore src counter))) = []" for n
    by (force simp: filter_empty_conv)
  then show ?thesis by (simp add: plain_scan_def)
qed

section \<open>With epochs\<close>

lemma highest_seq_ge: "r \<in> set (cl_rows c) \<Longrightarrow> row_seq r \<le> highest_seq c"
proof -
  have "n \<le> fold max xs n \<and> (\<forall>x\<in>set xs. x \<le> fold max xs n)" for xs and n :: nat
  proof (induction xs arbitrary: n)
    case (Cons x xs)
    from Cons.IH [of "max x n"] show ?case by (simp add: max.commute)
  qed simp
  moreover assume "r \<in> set (cl_rows c)"
  ultimately show ?thesis unfolding highest_seq_def by (metis imageI set_map)
qed

text \<open>The rows are in the order of their commits, and the projection has seen the first of them.\<close>

definition projected_ok :: "projected \<Rightarrow> bool" where
  "projected_ok p \<longleftrightarrow>
     sorted_wrt (\<lambda>r r'. row_key r < row_key r') (cl_rows (pj_cluster p)) \<and>
     (\<forall>r\<in>set (cl_rows (pj_cluster p)). row_key r \<le> (pj_live p, cl_counter (pj_cluster p))) \<and>
     prefix (pj_seen p) (cl_rows (pj_cluster p)) \<and>
     pj_cursor p = (if pj_seen p = [] then None else Some (row_key (last (pj_seen p))))"

lemma projected_okI:
  assumes "sorted_wrt (\<lambda>r r'. row_key r < row_key r') (cl_rows (pj_cluster p))"
    and "\<And>r. r \<in> set (cl_rows (pj_cluster p)) \<Longrightarrow> row_key r \<le> (pj_live p, cl_counter (pj_cluster p))"
    and "prefix (pj_seen p) (cl_rows (pj_cluster p))"
    and "pj_cursor p = (if pj_seen p = [] then None else Some (row_key (last (pj_seen p))))"
  shows "projected_ok p"
  using assms unfolding projected_ok_def by blast

lemma projected_okD:
  assumes "projected_ok p"
  shows "sorted_wrt (\<lambda>r r'. row_key r < row_key r') (cl_rows (pj_cluster p))"
    "r \<in> set (cl_rows (pj_cluster p)) \<Longrightarrow> row_key r \<le> (pj_live p, cl_counter (pj_cluster p))"
    "prefix (pj_seen p) (cl_rows (pj_cluster p))"
    "pj_cursor p = (if pj_seen p = [] then None else Some (row_key (last (pj_seen p))))"
  using assms unfolding projected_ok_def by blast+

lemma filter_takeWhile_sorted:
  assumes "sorted_wrt R xs" "\<And>x y. R x y \<Longrightarrow> P y \<Longrightarrow> P x"
  shows "filter P xs = takeWhile P xs"
  using assms(1)
proof (induction xs)
  case (Cons x xs)
  show ?case
  proof (cases "P x")
    case False
    with Cons.prems assms(2) [of x] have "\<forall>y\<in>set xs. \<not> P y" by auto
    then have "filter P xs = []" by (simp add: filter_empty_conv)
    with False show ?thesis by simp
  qed (use Cons in simp)
qed simp

lemma sort_key_sorted_id:
  assumes "sorted_wrt (\<lambda>x y. f x < (f y :: 'b :: linorder)) xs"
  shows "sort_key f xs = xs"
  using assms by (intro sort_key_id_if_sorted) (auto simp: sorted_map intro: sorted_wrt_mono_rel [rotated])

text \<open>What a scan returns is the next part of the log: all that is not above the horizon.\<close>

lemma epoch_scan_next:
  assumes "projected_ok p" "cl_rows (pj_cluster p) = pj_seen p @ rest"
  shows "epoch_scan (pj_cursor p) (pj_live p) (pj_cluster p) =
    takeWhile (\<lambda>r. row_epoch r < pj_live p \<or> row_seq r < cl_counter (pj_cluster p)) rest"
proof -
  let ?c = "pj_cluster p"
  let ?after = "\<lambda>r. case pj_cursor p of None \<Rightarrow> True | Some k \<Rightarrow> k < row_key r"
  let ?held = "\<lambda>r. row_epoch r < pj_live p \<or> row_seq r < cl_counter ?c"
  have sorted: "sorted_wrt (\<lambda>r r'. row_key r < row_key r') (pj_seen p @ rest)"
    using projected_okD(1) [OF assms(1)] by (simp only: assms(2))
  note cursor = projected_okD(4) [OF assms(1)]
  have "\<not> ?after r" if "r \<in> set (pj_seen p)" for r
  proof -
    from that obtain ys l where l: "pj_seen p = ys @ [l]" by (cases "pj_seen p" rule: rev_cases) auto
    with sorted that have "row_key r \<le> row_key l"
      by (auto simp: sorted_wrt_append simp del: less_prod_simp less_eq_prod_simp)
    with cursor l show ?thesis by (simp add: not_less del: less_prod_simp less_eq_prod_simp)
  qed
  then have "filter (\<lambda>r. ?after r \<and> ?held r) (pj_seen p) = []" by (simp add: filter_empty_conv)
  moreover have "filter (\<lambda>r. ?after r \<and> ?held r) rest = filter ?held rest"
  proof (rule filter_cong [OF refl])
    fix r assume r: "r \<in> set rest"
    have "?after r"
    proof (cases "pj_seen p = []")
      case True
      with cursor show ?thesis by simp
    next
      case False
      then have "row_key (last (pj_seen p)) < row_key r"
        using sorted r by (simp add: sorted_wrt_append)
      with cursor False show ?thesis by simp
    qed
    then show "(?after r \<and> ?held r) = ?held r" by simp
  qed
  moreover have "filter ?held rest = takeWhile ?held rest"
  proof (rule filter_takeWhile_sorted [where R = "\<lambda>r r'. row_key r < row_key r' \<and> row_epoch r' \<le> pj_live p"])
    have "row_epoch r \<le> pj_live p" if "r \<in> set rest" for r
      using projected_okD(2) [OF assms(1), of r] that by (auto simp: assms(2))
    with sorted show "sorted_wrt (\<lambda>r r'. row_key r < row_key r' \<and> row_epoch r' \<le> pj_live p) rest"
      by (auto simp: sorted_wrt_append intro: sorted_wrt_mono_rel [rotated])
  qed auto
  moreover have "sort_key row_key (takeWhile ?held rest) = takeWhile ?held rest"
  proof (rule sort_key_sorted_id)
    from sorted have "sorted_wrt (\<lambda>r r'. row_key r < row_key r') (takeWhile ?held rest @ dropWhile ?held rest)"
      by (simp add: sorted_wrt_append)
    then show "sorted_wrt (\<lambda>r r'. row_key r < row_key r') (takeWhile ?held rest)"
      by (simp only: sorted_wrt_append)
  qed
  ultimately show ?thesis by (simp add: epoch_scan_def assms(2))
qed

lemma live_step_ok:
  assumes "projected_ok p"
  shows "projected_ok (live_step e p)"
proof (cases e)
  case (Write tag)
  let ?c = "pj_cluster p"
  have le: "row_key r \<le> (pj_live p, cl_counter ?c + 1)" if "r \<in> set (cl_rows ?c)" for r
    using projected_okD(2) [OF assms that] by auto
  show ?thesis
  proof (cases "(pj_live p, cl_counter ?c) \<in> row_key ` set (cl_rows ?c)")
    case True
    then show ?thesis
      using projected_okD(1,3,4) [OF assms] le by (intro projected_okI) (simp_all add: Write write_row_def)
  next
    case False
    have "row_key r < (pj_live p, cl_counter ?c)" if "r \<in> set (cl_rows ?c)" for r
    proof -
      have "row_key r \<in> row_key ` set (cl_rows ?c)" by (rule imageI) (rule that)
      with False have "row_key r \<noteq> (pj_live p, cl_counter ?c)" by (intro notI) (simp only:)
      with projected_okD(2) [OF assms that] show ?thesis by (rule order.not_eq_order_implies_strict [rotated])
    qed
    note lt = this
    have rows: "cl_rows (write_row (pj_live p) tag ?c) = cl_rows ?c @ [(pj_live p, cl_counter ?c, tag)]"
      using False by (simp add: write_row_def)
    show ?thesis
    proof (rule projected_okI)
      show "sorted_wrt (\<lambda>r r'. row_key r < row_key r') (cl_rows (pj_cluster (live_step e p)))"
        using projected_okD(1) [OF assms] lt by (simp add: Write rows sorted_wrt_append)
      show "row_key r \<le> (pj_live (live_step e p), cl_counter (pj_cluster (live_step e p)))"
        if r: "r \<in> set (cl_rows (pj_cluster (live_step e p)))" for r
      proof -
        have "cl_counter (write_row (pj_live p) tag ?c) = cl_counter ?c + 1" by (simp add: write_row_def)
        moreover from r have "r \<in> set (cl_rows ?c) \<or> r = (pj_live p, cl_counter ?c, tag)" by (auto simp: Write rows)
        ultimately show ?thesis using le [of r] by (auto simp: Write)
      qed
      show "prefix (pj_seen (live_step e p)) (cl_rows (pj_cluster (live_step e p)))"
        using projected_okD(3) [OF assms] by (simp add: Write rows)
      show "pj_cursor (live_step e p) =
          (if pj_seen (live_step e p) = [] then None else Some (row_key (last (pj_seen (live_step e p)))))"
        using projected_okD(4) [OF assms] by (simp add: Write)
    qed
  qed
next
  case (Restore n)
  let ?c = "dump_restore (pj_cluster p) n"
  have seqs: "row_seq r \<le> highest_seq ?c" "row_epoch r \<le> pj_live p" if "r \<in> set (cl_rows (pj_cluster p))" for r
    using highest_seq_ge [of r ?c] that projected_okD(2) [OF assms that] by (auto simp: dump_restore_def)
  have "row_key r \<le> (pj_live (live_step e p), n)" if "r \<in> set (cl_rows (pj_cluster p))" for r
    using seqs [OF that] by (auto simp: Restore Let_def reset_detected_def dump_restore_def)
  with projected_okD(1,3,4) [OF assms] show ?thesis
    by (intro projected_okI) (simp_all add: Restore Let_def dump_restore_def)
next
  case Drain
  from projected_okD(3) [OF assms] obtain rest where rest: "cl_rows (pj_cluster p) = pj_seen p @ rest"
    by (auto simp: prefix_def)
  define new where "new = epoch_scan (pj_cursor p) (pj_live p) (pj_cluster p)"
  have "prefix new rest" unfolding new_def epoch_scan_next [OF assms rest] by (rule takeWhile_is_prefix)
  then have "prefix (pj_seen p @ new) (cl_rows (pj_cluster p))" by (simp add: rest)
  moreover have "live_step e p =
      p\<lparr>pj_cursor := if new = [] then pj_cursor p else Some (row_key (last new)), pj_seen := pj_seen p @ new\<rparr>"
    by (simp add: Drain Let_def new_def)
  ultimately show ?thesis
    using projected_okD(1,2,4) [OF assms] by (intro projected_okI) simp_all
qed

lemma lived_ok: "projected_ok (lived es counter)"
proof -
  have "projected_ok p \<Longrightarrow> projected_ok (fold live_step es p)" for p
    by (induction es arbitrary: p) (simp_all add: live_step_ok)
  moreover have "projected_ok (new_projection counter)" by (rule projected_okI) (simp_all add: new_projection_def)
  ultimately show ?thesis .
qed


text \<open>
  The probe: five rows and the cursor of a projection that has read them, a restore into a cluster far behind, three
  rows written there; and the migration that gives those rows the next epoch.
\<close>

definition seed_source :: "cluster \<Rightarrow> cluster \<times> nat" where
  "seed_source c =
     (let c' = fold (write_row 0) [''src-0'', ''src-1'', ''src-2'', ''src-3'', ''src-4''] c in (c', highest_seq c'))"

definition resume_writing :: "cluster \<Rightarrow> cluster" where
  "resume_writing c = fold (write_row 0) [''post-restore-0'', ''post-restore-1'', ''post-restore-2''] c"

definition add_epoch :: "cluster \<Rightarrow> cluster" where
  "add_epoch c =
     c\<lparr>cl_rows := map (\<lambda>(e, s, t). (if take 13 t = ''post-restore-'' then 1 else e, s, t)) (cl_rows c)\<rparr>"

lemma restore_probe:
  "case seed_source \<lparr>cl_counter = 14540, cl_rows = []\<rparr> of (src, cursor) \<Rightarrow>
     (let dst = resume_writing (dump_restore src 740) in
        cursor = 14544 \<and> plain_scan cursor dst = [] \<and> reset_detected dst \<and>
        epoch_scan (Some (0, cursor)) 1 (add_epoch dst)
          = [(1, 740, ''post-restore-0''), (1, 741, ''post-restore-1''), (1, 742, ''post-restore-2'')])"
  by (simp add: Let_def write_row_def dump_restore_def plain_scan_def reset_detected_def highest_seq_def epoch_scan_def
      seed_source_def resume_writing_def add_epoch_def)

text \<open>
  A counter restored to exactly the highest id is not detected: the row with that id is held back, and the first
  row written takes the same key and fails.
\<close>

lemma equal_counter_is_not_detected:
  "let src = write_row 0 ''a'' \<lparr>cl_counter = 9, cl_rows = []\<rparr>; dst = dump_restore src 9 in
     \<not> reset_detected dst \<and> epoch_scan None 0 dst = [] \<and> cl_rows (write_row 0 ''b'' dst) = cl_rows dst"
  by (simp add: Let_def write_row_def dump_restore_def reset_detected_def highest_seq_def epoch_scan_def)

section \<open>The counter of SQLite\<close>

text \<open>\<open>insert\<close> under \<open>BEGIN IMMEDIATE\<close>, and the loop that reads the rows above the last one seen.\<close>

definition sqlite_insert :: "string \<Rightarrow> (nat \<times> string) list \<Rightarrow> (nat \<times> string) list" where
  "sqlite_insert tag rows = rows @ [(fold max (map fst rows) 0 + 1, tag)]"

definition sqlite_seen :: "(nat \<times> string) list \<Rightarrow> nat list" where
  "sqlite_seen rows =
     fold (\<lambda>(sq, tag) seen. if (if seen = [] then 0 else last seen) < sq then seen @ [sq] else seen)
       (sort_key fst rows) []"

lemma sqlite_rows: "map fst (fold sqlite_insert tags []) = [1..<length tags + 1]"
proof (induction tags rule: rev_induct)
  case (snoc t ts)
  have "fold max [1..<Suc n] 0 = n" for n :: nat by (induction n) auto
  with snoc show ?case by (simp add: sqlite_insert_def)
qed simp

text \<open>Whatever the order in which the writers get the lock, the rows are numbered one after the other and all are read.\<close>

lemma sqlite_counter_is_exact: "sqlite_seen (fold sqlite_insert tags []) = map fst (fold sqlite_insert tags [])"
proof -
  have "fold (\<lambda>(sq, tag) seen. if (if seen = [] then 0 else last seen) < sq then seen @ [sq] else seen) rows seen =
      seen @ map fst rows"
    if "sorted_wrt (<) ((if seen = [] then 0 else last seen) # map fst rows)"
    for rows :: "(nat \<times> string) list" and seen
    using that by (induction rows arbitrary: seen) auto
  note seen = this [of "[]"]
  have "sorted_wrt (<) (0 # map fst (fold sqlite_insert tags []))"
    unfolding sqlite_rows by (simp del: upt_Suc)
  moreover have "sorted (map fst (fold sqlite_insert tags []))" by (simp add: sqlite_rows del: upt_Suc)
  ultimately show ?thesis using seen unfolding sqlite_seen_def by (simp add: sort_key_id_if_sorted)
qed

end
