(* ===== verification/Fencing.thy ===== *)
theory Fencing
  imports Eventic_Prelude
begin

text \<open>
  The checkpoint of a projection under a lease, and the order of its writes around a crash
  (\<open>.scratch/projects/008-derived-projection/probes/p11_lease_and_crash_order.py\<close>).

  A lease ends by time, so a stalled matcher may still write after a successor has taken over.  With a fencing
  epoch, moved on by each acquisition and compared by each write, its write is refused.  Matchers take their
  steps in any order and at any time of the clock.
\<close>

section \<open>The row of \<open>eventic_projection\<close>\<close>

record checkpoint =
  ck_cursor :: int
  ck_leased_until :: "int option"
  ck_lease_epoch :: int

definition setup_checkpoint :: checkpoint where
  "setup_checkpoint = \<lparr>ck_cursor = 0, ck_leased_until = Some 0, ck_lease_epoch = 0\<rparr>"

text \<open>\<open>acquire\<close>: the new epoch, or -1 while the lease has not run out.\<close>

definition acquire :: "int \<Rightarrow> checkpoint \<Rightarrow> checkpoint \<times> int" where
  "acquire now ck =
     (if (case ck_leased_until ck of None \<Rightarrow> True | Some t \<Rightarrow> t < now) then
        (ck\<lparr>ck_leased_until := Some (now + 30), ck_lease_epoch := ck_lease_epoch ck + 1\<rparr>, ck_lease_epoch ck + 1)
      else (ck, - 1))"

definition advance :: "int \<Rightarrow> int \<Rightarrow> checkpoint \<Rightarrow> checkpoint \<times> bool" where
  "advance cursor epoch ck =
     (if ck_lease_epoch ck = epoch then (ck\<lparr>ck_cursor := cursor\<rparr>, True) else (ck, False))"

section \<open>Matchers\<close>

text \<open>
  A matcher has what its last \<open>acquire\<close> returned, and the cursor it works from: the one it read under its lease,
  and later the one it wrote.  It only writes cursors that are not behind that one.
\<close>

record 'm matchers =
  mt_row :: checkpoint
  mt_epoch :: "'m \<Rightarrow> int"
  mt_cursor :: "'m \<Rightarrow> int option"

definition idle_matchers :: "'m matchers" where
  "idle_matchers = \<lparr>mt_row = setup_checkpoint, mt_epoch = (\<lambda>_. - 1), mt_cursor = (\<lambda>_. None)\<rparr>"

datatype 'm fence_label =
    Acquired 'm int
  | Refused 'm int
  | Read_cursor 'm
  | Advanced 'm int
  | Fenced_off 'm int

inductive fence_step :: "'m matchers \<Rightarrow> 'm fence_label \<Rightarrow> 'm matchers \<Rightarrow> bool" where
  acquires: "acquire now (mt_row s) = (row, e) \<Longrightarrow> e \<noteq> - 1 \<Longrightarrow>
     fence_step s (Acquired m now)
       (s\<lparr>mt_row := row, mt_epoch := (mt_epoch s)(m := e), mt_cursor := (mt_cursor s)(m := None)\<rparr>)"
| refused: "acquire now (mt_row s) = (row, - 1) \<Longrightarrow>
     fence_step s (Refused m now)
       (s\<lparr>mt_row := row, mt_epoch := (mt_epoch s)(m := - 1), mt_cursor := (mt_cursor s)(m := None)\<rparr>)"
| reads: "fence_step s (Read_cursor m) (s\<lparr>mt_cursor := (mt_cursor s)(m := Some (ck_cursor (mt_row s)))\<rparr>)"
| advances: "mt_cursor s m = Some c \<Longrightarrow> c \<le> c' \<Longrightarrow> advance c' (mt_epoch s m) (mt_row s) = (row, True) \<Longrightarrow>
     fence_step s (Advanced m c') (s\<lparr>mt_row := row, mt_cursor := (mt_cursor s)(m := Some c')\<rparr>)"
| fenced_off: "mt_cursor s m = Some c \<Longrightarrow> c \<le> c' \<Longrightarrow> advance c' (mt_epoch s m) (mt_row s) = (row, False) \<Longrightarrow>
     fence_step s (Fenced_off m c') (s\<lparr>mt_row := row\<rparr>)"

inductive fence_run :: "'m matchers \<Rightarrow> 'm fence_label list \<Rightarrow> 'm matchers \<Rightarrow> bool" where
  start: "fence_run s [] s"
| step: "fence_run s ls s' \<Longrightarrow> fence_step s' l s'' \<Longrightarrow> fence_run s (ls @ [l]) s''"

text \<open>The cursors that were written, and the matcher that acquired the lease last.\<close>

fun written_cursors :: "'m fence_label list \<Rightarrow> int list" where
  "written_cursors [] = []"
| "written_cursors (Advanced m c # ls) = c # written_cursors ls"
| "written_cursors (_ # ls) = written_cursors ls"

fun holder_after :: "'m option \<Rightarrow> 'm fence_label list \<Rightarrow> 'm option" where
  "holder_after h [] = h"
| "holder_after h (Acquired m now # ls) = holder_after (Some m) ls"
| "holder_after h (Refused m now # ls) = holder_after (if h = Some m then None else h) ls"
| "holder_after h (_ # ls) = holder_after h ls"

lemma written_cursors_append: "written_cursors (ls @ ls') = written_cursors ls @ written_cursors ls'"
  by (induction ls rule: written_cursors.induct) simp_all

lemma holder_after_append: "holder_after h (ls @ ls') = holder_after (holder_after h ls) ls'"
  by (induction h ls rule: holder_after.induct) simp_all

text \<open>
  Only the last matcher to acquire has the current epoch, and the cursor it works from is the one in the row.
\<close>

definition fence_ok :: "'m option \<Rightarrow> 'm matchers \<Rightarrow> bool" where
  "fence_ok h s \<longleftrightarrow>
     0 \<le> ck_lease_epoch (mt_row s) \<and>
     (\<forall>m. mt_epoch s m \<le> ck_lease_epoch (mt_row s)) \<and>
     (\<forall>m. mt_epoch s m = ck_lease_epoch (mt_row s) \<longrightarrow>
        h = Some m \<and> (\<forall>c. mt_cursor s m = Some c \<longrightarrow> c = ck_cursor (mt_row s)))"

lemma fence_step_ok:
  assumes "fence_step s l s'" "fence_ok h s"
  shows "fence_ok (holder_after h [l]) s'"
  using assms
proof (induction rule: fence_step.induct)
  case (acquires now s row e m)
  then have "row = (mt_row s)\<lparr>ck_leased_until := Some (now + 30), ck_lease_epoch := ck_lease_epoch (mt_row s) + 1\<rparr>"
    "e = ck_lease_epoch (mt_row s) + 1"
    by (auto simp: acquire_def split: if_split_asm)
  moreover have "mt_epoch s m' \<le> ck_lease_epoch (mt_row s) + 1" "mt_epoch s m' \<noteq> ck_lease_epoch (mt_row s) + 1" for m'
    using acquires.prems unfolding fence_ok_def by (smt (verit))+
  ultimately show ?case using acquires.prems by (simp add: fence_ok_def)
next
  case (refused now s row m)
  then have "row = mt_row s" by (auto simp: acquire_def fence_ok_def split: if_split_asm)
  with refused.prems show ?case by (auto simp: fence_ok_def)
next
  case (reads s m)
  then show ?case by (auto simp: fence_ok_def)
next
  case (advances s m c c' row)
  then have row: "row = (mt_row s)\<lparr>ck_cursor := c'\<rparr>" "mt_epoch s m = ck_lease_epoch (mt_row s)"
    by (auto simp: advance_def split: if_split_asm)
  have m: "h = Some m'" if "mt_epoch s m' = ck_lease_epoch (mt_row s)" for m'
    using advances.prems that unfolding fence_ok_def by blast
  then have "\<forall>m'. mt_epoch s m' = ck_lease_epoch (mt_row s) \<longrightarrow> h = Some m' \<and> m' = m"
    using m [OF row(2)] by simp
  with advances.prems show ?case unfolding fence_ok_def row(1) by simp
next
  case (fenced_off s m c c' row)
  then have "row = mt_row s" by (simp add: advance_def split: if_split_asm)
  with fenced_off.prems show ?case by (simp add: fence_ok_def)
qed

lemma idle_matchers_ok: "fence_ok None idle_matchers"
  by (simp add: fence_ok_def idle_matchers_def setup_checkpoint_def)

text \<open>A step leaves the cursor or moves it forward, and then it is the holder's.\<close>

lemma fence_step_cursor:
  assumes "fence_step s l s'" "fence_ok h s"
  shows "(written_cursors [l] = [] \<and> ck_cursor (mt_row s') = ck_cursor (mt_row s)) \<or>
    (\<exists>m c. l = Advanced m c \<and> h = Some m \<and> ck_cursor (mt_row s) \<le> c \<and> ck_cursor (mt_row s') = c)"
  using assms
proof (induction rule: fence_step.induct)
  case (advances s m c c' row)
  then have "mt_epoch s m = ck_lease_epoch (mt_row s)" "ck_cursor row = c'"
    by (auto simp: advance_def split: if_split_asm)
  with advances show ?case by (auto simp: fence_ok_def)
qed (auto simp: acquire_def advance_def split: if_split_asm)

lemma fence_run_ok:
  assumes "fence_run s ls s'" "s = idle_matchers"
  shows "fence_ok (holder_after None ls) s' \<and> sorted (written_cursors ls) \<and>
    ck_cursor (mt_row s') = last (0 # written_cursors ls) \<and> (\<forall>c\<in>set (written_cursors ls). 0 \<le> c)"
  using assms
proof (induction rule: fence_run.induct)
  case (start s)
  then show ?case using idle_matchers_ok by (simp add: idle_matchers_def setup_checkpoint_def)
next
  case (step s ls s' l s'')
  then have IH: "fence_ok (holder_after None ls) s'" "sorted (written_cursors ls)"
    "ck_cursor (mt_row s') = last (0 # written_cursors ls)" "\<forall>c\<in>set (written_cursors ls). 0 \<le> c"
    by simp_all
  have top: "c \<le> ck_cursor (mt_row s')" if "c \<in> set (written_cursors ls)" for c
    using IH(2,3) that by (cases "written_cursors ls" rule: rev_cases) (auto simp: sorted_append)
  have "0 \<le> ck_cursor (mt_row s')" using IH(3,4) by (cases "written_cursors ls") auto
  note ok = fence_step_ok [OF step.hyps(2) IH(1)]
  from fence_step_cursor [OF step.hyps(2) IH(1)] show ?case
  proof (elim disjE exE conjE)
    assume "written_cursors [l] = []" "ck_cursor (mt_row s'') = ck_cursor (mt_row s')"
    with ok IH show ?case by (simp add: holder_after_append written_cursors_append)
  next
    fix m c
    assume c: "l = Advanced m c" "ck_cursor (mt_row s') \<le> c" "ck_cursor (mt_row s'') = c"
    have "\<forall>x\<in>set (written_cursors ls). x \<le> c" using top c(2) by (meson order_trans)
    with c ok IH \<open>0 \<le> ck_cursor (mt_row s')\<close> show ?case
      by (simp add: holder_after_append written_cursors_append sorted_append)
  qed
qed


text \<open>The probe: A stalls past its lease, B takes over and writes 500, A's write of 100 is refused.\<close>

definition takeover :: "checkpoint \<Rightarrow> (bool \<Rightarrow> int) \<Rightarrow> (bool \<Rightarrow> int option) \<Rightarrow> bool matchers" where
  "takeover row epochs cursors = \<lparr>mt_row = row, mt_epoch = epochs, mt_cursor = cursors\<rparr>"

definition takeover_labels :: "bool fence_label list" where
  "takeover_labels =
     [Acquired False 100, Read_cursor False, Acquired True 140, Read_cursor True, Advanced True 500, Fenced_off False 100]"

lemma takeover_run:
  "fence_run idle_matchers takeover_labels
     (takeover \<lparr>ck_cursor = 500, ck_leased_until = Some 170, ck_lease_epoch = 2\<rparr>
        ((\<lambda>_. - 1)(False := 1, True := 2)) ((\<lambda>_. None)(False := Some 0, True := Some 500)))"
proof -
  note defs = idle_matchers_def setup_checkpoint_def acquire_def advance_def takeover_def
  have a: "fence_step idle_matchers (Acquired False 100)
      (takeover \<lparr>ck_cursor = 0, ck_leased_until = Some 130, ck_lease_epoch = 1\<rparr> ((\<lambda>_. - 1)(False := 1)) (\<lambda>_. None))"
    using fence_step.acquires [of 100 idle_matchers "\<lparr>ck_cursor = 0, ck_leased_until = Some 130, ck_lease_epoch = 1\<rparr>" 1 False]
    by (simp add: defs)
  have b: "fence_step (takeover r es cs) (Read_cursor m) (takeover r es (cs(m := Some (ck_cursor r))))" for r es cs m
    using fence_step.reads [of "takeover r es cs" m] by (simp add: defs)
  have c: "fence_step (takeover \<lparr>ck_cursor = 0, ck_leased_until = Some 130, ck_lease_epoch = 1\<rparr> es cs) (Acquired True 140)
      (takeover \<lparr>ck_cursor = 0, ck_leased_until = Some 170, ck_lease_epoch = 2\<rparr> (es(True := 2)) (cs(True := None)))" for es cs
    using fence_step.acquires [of 140 "takeover \<lparr>ck_cursor = 0, ck_leased_until = Some 130, ck_lease_epoch = 1\<rparr> es cs"
      "\<lparr>ck_cursor = 0, ck_leased_until = Some 170, ck_lease_epoch = 2\<rparr>" 2 True] by (simp add: defs)
  have d: "fence_step (takeover \<lparr>ck_cursor = 0, ck_leased_until = Some 170, ck_lease_epoch = 2\<rparr> es cs) (Advanced True 500)
      (takeover \<lparr>ck_cursor = 500, ck_leased_until = Some 170, ck_lease_epoch = 2\<rparr> es (cs(True := Some 500)))"
    if "es True = 2" "cs True = Some 0" for es cs
    using fence_step.advances [of "takeover \<lparr>ck_cursor = 0, ck_leased_until = Some 170, ck_lease_epoch = 2\<rparr> es cs" True 0 500]
      that by (simp add: defs)
  have e: "fence_step (takeover \<lparr>ck_cursor = 500, ck_leased_until = Some 170, ck_lease_epoch = 2\<rparr> es cs) (Fenced_off False 100)
      (takeover \<lparr>ck_cursor = 500, ck_leased_until = Some 170, ck_lease_epoch = 2\<rparr> es cs)"
    if "es False = 1" "cs False = Some 0" for es cs
    using fence_step.fenced_off [of "takeover \<lparr>ck_cursor = 500, ck_leased_until = Some 170, ck_lease_epoch = 2\<rparr> es cs" False 0 100]
      that by (simp add: defs)
  have "fence_run idle_matchers (((((([] @ [Acquired False 100]) @ [Read_cursor False]) @ [Acquired True 140]) @ [Read_cursor True]) @
      [Advanced True 500]) @ [Fenced_off False 100])
     (takeover \<lparr>ck_cursor = 500, ck_leased_until = Some 170, ck_lease_epoch = 2\<rparr>
        ((\<lambda>_. - 1)(False := 1, True := 2))
        ((\<lambda>_. None)(False := Some 0, True := None, True := Some 0, True := Some 500)))"
    apply (rule fence_run.step)
     apply (rule fence_run.step)
      apply (rule fence_run.step)
       apply (rule fence_run.step)
        apply (rule fence_run.step)
         apply (rule fence_run.step [OF fence_run.start a])
        apply (rule b [of _ _ _ False, simplified])
       apply (rule c)
      apply (rule b [of _ _ _ True, simplified])
     apply (rule d)
      apply simp_all
    apply (rule e)
     apply simp_all
    done
  then show ?thesis by (simp add: takeover_labels_def)
qed


text \<open>Without the epoch, as in \<open>probe_naive_lease\<close>, the last write of the stalled matcher moves the cursor back.\<close>

definition naive_lease :: "int \<Rightarrow> checkpoint \<Rightarrow> checkpoint" where
  "naive_lease now ck = ck\<lparr>ck_leased_until := Some (now + 30)\<rparr>"

definition naive_takeover :: "int \<Rightarrow> checkpoint \<Rightarrow> checkpoint" where
  "naive_takeover now ck =
     (if (case ck_leased_until ck of None \<Rightarrow> False | Some t \<Rightarrow> t < now) then naive_lease now ck else ck)"

definition naive_write :: "int \<Rightarrow> checkpoint \<Rightarrow> checkpoint" where
  "naive_write cursor ck = ck\<lparr>ck_cursor := cursor\<rparr>"

lemma naive_cursor_moves_back:
  "ck_cursor (naive_write 100 (naive_write 500 (naive_takeover 140 (naive_lease 100 setup_checkpoint)))) = 100"
  by (simp add: naive_write_def naive_takeover_def naive_lease_def setup_checkpoint_def)

section \<open>The crash window\<close>

record sim =
  sm_emitted :: "string list"
  sm_state :: "(string \<times> nat) list"

definition emit_doc :: "string \<Rightarrow> string \<Rightarrow> string" where
  "emit_doc key terminal = ''match:'' @ key @ '':'' @ terminal"

definition sim_emit :: "string \<Rightarrow> string \<Rightarrow> sim \<Rightarrow> sim" where
  "sim_emit key terminal s =
     (if emit_doc key terminal \<in> set (sm_emitted s) then s
      else s\<lparr>sm_emitted := sm_emitted s @ [emit_doc key terminal]\<rparr>)"

abbreviation sim_pop :: "string \<Rightarrow> sim \<Rightarrow> sim" where
  "sim_pop key s \<equiv> s\<lparr>sm_state := AList.delete key (sm_state s)\<rparr>"

text \<open>\<open>cycle\<close>: with \<open>state_first\<close> the partial match is consumed before the match is emitted.\<close>

definition sim_cycle :: "bool \<Rightarrow> bool \<Rightarrow> string \<Rightarrow> string \<Rightarrow> sim \<Rightarrow> sim" where
  "sim_cycle state_first crash key terminal s =
     (if state_first then if crash then sim_pop key s else sim_emit key terminal (sim_pop key s)
      else if crash then sim_emit key terminal s else sim_pop key (sim_emit key terminal s))"

definition sim_recover :: "bool \<Rightarrow> string \<Rightarrow> string \<Rightarrow> sim \<Rightarrow> sim" where
  "sim_recover state_first key terminal s =
     (case map_of (sm_state s) key of
        None \<Rightarrow> s
      | Some n \<Rightarrow> if 3 \<le> n then sim_cycle state_first False key terminal s else s)"

lemmas sim_defs = sim_cycle_def sim_recover_def sim_emit_def

lemma sim_recover_done: "map_of (sm_state s) key = None \<Longrightarrow> sim_recover b key terminal s = s"
  by (simp add: sim_recover_def)

text \<open>
  When the match is emitted before its partial match is consumed, a crash between the two loses nothing: the
  restart emits it again, which changes nothing, and consumes the partial match, and however often the matcher is
  restarted the match is there once.  In the other order a crash loses the match, whatever happens afterwards.
\<close>

theorem emit_first_loses_no_match:
  assumes "map_of (sm_state s) key = Some n" "3 \<le> n" "emit_doc key terminal \<notin> set (sm_emitted s)"
  shows "(sim_recover False key terminal ^^ Suc k) (sim_cycle False crash key terminal s) =
      sim_pop key (s\<lparr>sm_emitted := sm_emitted s @ [emit_doc key terminal]\<rparr>) \<and>
    (sim_recover True key terminal ^^ k) (sim_cycle True True key terminal s) = sim_pop key s"
proof -
  let ?s = "sim_pop key (s\<lparr>sm_emitted := sm_emitted s @ [emit_doc key terminal]\<rparr>)"
  have stable: "(sim_recover b key terminal ^^ k) t = t" if "map_of (sm_state t) key = None" for b t k
    using that by (induction k) (simp_all add: sim_recover_done)
  have gone: "map_of (AList.delete key d) key = None" for d :: "(string \<times> nat) list"
    by (simp add: delete_conv)
  have "sim_recover False key terminal (sim_cycle False crash key terminal s) = ?s"
    using assms gone by (simp add: sim_defs)
  moreover have "(sim_recover False key terminal ^^ Suc k) t = (sim_recover False key terminal ^^ k) (sim_recover False key terminal t)" for t
    by (simp add: funpow_swap1)
  ultimately show ?thesis using stable gone by (simp add: sim_cycle_def)
qed

lemma emit_first_loses_no_match_witness:
  "(sim_recover False ''acct-1'' ''rev-7'' ^^ Suc 1) (sim_cycle False True ''acct-1'' ''rev-7'' \<lparr>sm_emitted = [], sm_state = [(''acct-1'', 3)]\<rparr>)
     = \<lparr>sm_emitted = [''match:acct-1:rev-7''], sm_state = []\<rparr> \<and>
   (sim_recover True ''acct-1'' ''rev-7'' ^^ 1) (sim_cycle True True ''acct-1'' ''rev-7'' \<lparr>sm_emitted = [], sm_state = [(''acct-1'', 3)]\<rparr>)
     = \<lparr>sm_emitted = [], sm_state = []\<rparr>"
  using emit_first_loses_no_match [of "\<lparr>sm_emitted = [], sm_state = [(''acct-1'', 3)]\<rparr>" "''acct-1''" 3 "''rev-7''" 1 True]
  by (simp add: emit_doc_def)

end
