(* ===== verification/Predicates.thy ===== *)
theory Predicates
  imports Runtime Store_Promises
begin

text \<open>
  Predicates on commits, for subscriptions and for the steps of a pattern
  (\<open>.scratch/projects/008-derived-projection/probes/p09_predicate_fingerprint.py\<close> and
  \<open>p03_predicates_plan.py\<close>): the view a predicate reads, built by the planner and by the matcher; the intents it
  filters; and the algebra of predicates that are values, with their fingerprint.
\<close>

section \<open>Views\<close>

record ('v, 'm) predicate_view =
  pv_stream :: string
  pv_kind :: string
  pv_changed :: "string set"
  pv_state :: 'v
  pv_meta :: 'm

definition plan_view ::
  "platform \<Rightarrow> 'v stream \<Rightarrow> 'v option \<Rightarrow> 'v \<Rightarrow> string \<Rightarrow> 'm \<Rightarrow> exn + ('v, 'm) predicate_view" where
  "plan_view P s base new_state kind meta =
     rbind (case base of None \<Rightarrow> Inr None | Some b \<Rightarrow> rbind (state_tree P s b) (\<lambda>t. Inr (Some t))) (\<lambda>before.
     rbind (state_tree P s new_state) (\<lambda>after.
     rbind (as_doc after) (\<lambda>after_doc.
     rbind (case before of None \<Rightarrow> Inr None | Some t \<Rightarrow> rbind (as_doc t) (\<lambda>d. Inr (Some d))) (\<lambda>before_doc.
       Inr \<lparr>pv_stream = sm_name s, pv_kind = kind, pv_changed = changed_keys before_doc after_doc,
            pv_state = new_state, pv_meta = meta\<rparr>))))"

definition matcher_view :: "('v, 'm) commit \<Rightarrow> ('v, 'm) predicate_view" where
  "matcher_view c =
     \<lparr>pv_stream = re_stream (co_revision c), pv_kind = co_kind c, pv_changed = co_changed c,
      pv_state = re_state (co_revision c), pv_meta = re_meta (co_revision c)\<rparr>"

text \<open>The intents of subscriptions without a \<open>when\<close>, and of those whose \<open>when\<close> holds.\<close>

definition filtered_intents ::
  "(string \<rightharpoonup> ('v, 'm) predicate_view \<Rightarrow> bool) \<Rightarrow> ('v, 'm) predicate_view \<Rightarrow> intent_request list \<Rightarrow>
   intent_request list" where
  "filtered_intents whens view request_intents =
     filter (\<lambda>i. case whens (ir_subscription_id i) of None \<Rightarrow> True | Some predicate \<Rightarrow> predicate view)
       request_intents"

text \<open>The keys the planner's view names are those the runtime computes from the request after the commit.\<close>

lemma plan_view_changed:
  assumes "state_bytes P s new_state = Inr (cq_payload req)"
    and "plan_view P s base new_state kind meta = Inr view" "changed_of P s req base = Inr changed"
  shows "pv_changed view = changed"
  using assms by (cases base) (auto simp: plan_view_def changed_of_def state_tree_def)

section \<open>A filtered commit\<close>

definition wanted :: "(string \<rightharpoonup> ('v, 'm) predicate_view \<Rightarrow> bool) \<Rightarrow> ('v, 'm) predicate_view \<Rightarrow> string \<Rightarrow> bool" where
  "wanted whens view subscription = (case whens subscription of None \<Rightarrow> True | Some predicate \<Rightarrow> predicate view)"

text \<open>The intents a commit adds to the table are those of its request; a replay adds none.\<close>

lemma commit_adds_intents:
  assumes "store_ok P encs d" "commit_one P encs now d req = Inr (d', res)"
  shows "db_intents d' = db_intents d @
    (if cr_replayed res then [] else map (new_intent_row P now) (cq_intents req))"
  using assms(2)
proof (cases rule: commit_one_cases)
  case (replay row)
  then show ?thesis
    by (auto simp: commit_result_of_def split: option.split_asm if_split_asm dest: upsert_head_from_row_revisions)
next
  case append
  from append(3) show ?thesis by (rule append_revision_Inr) (simp add: commit_result_of_def)
qed

text \<open>
  A commit filtered by the predicates of its subscriptions writes an intent for exactly the outbox
  subscriptions that it is owed and whose predicate, if they have one, holds of the planned change; a filtered
  subscription gets none, its siblings get theirs, and a replay writes nothing.
\<close>

theorem filtered_commits_wake_whom_they_should:
  assumes "store_ok P encs d" "plan_change P A s base updates meta = Inr req"
    and "commit_one P encs now d (req\<lparr>cq_intents := filtered_intents whens view (cq_intents req)\<rparr>) = Inr (d', res)"
  shows "\<exists>new. db_intents d' = db_intents d @ new \<and>
    map in_subscription_id new =
      (if cr_replayed res then []
       else map sb_id (filter (\<lambda>b. owed s ''change'' b \<and> wanted whens view (sb_id b)) (ap_subscriptions A)))"
proof -
  let ?req = "req\<lparr>cq_intents := filtered_intents whens view (cq_intents req)\<rparr>"
  from assms(2) have ints: "cq_intents req = intents_for A s ''change'' (request_rid P req)"
    by (auto elim!: plan_change_Inr plan_append_Inr)
  have "map ir_subscription_id (filtered_intents whens view (cq_intents req)) =
      map sb_id (filter (\<lambda>b. wanted whens view (sb_id b)) (filter (owed s ''change'') (ap_subscriptions A)))"
    by (simp add: ints intents_for_alt filtered_intents_def wanted_def filter_map comp_def)
  then have "map in_subscription_id (map (new_intent_row P now) (cq_intents ?req)) =
      map sb_id (filter (\<lambda>b. owed s ''change'' b \<and> wanted whens view (sb_id b)) (ap_subscriptions A))"
    by (simp add: new_intent_row_def comp_def conj_commute)
  with commit_adds_intents [OF assms(1,3)] show ?thesis by simp
qed

lemma request_wf_frame: "request_wf P (req\<lparr>cq_fingerprint := f, cq_intents := is\<rparr>) = request_wf P req"
  by (cases "loads P (cq_payload req)"; cases "loads P (cq_meta req)"; cases "cq_expected_revision req")
    (simp_all add: request_wf_def request_ok_def)

text \<open>Only \<open>a\<close> changes, and the one subscription is for changes of \<open>b\<close>: its intent is not written.\<close>

definition sample_view :: "(json, json) predicate_view" where
  "sample_view =
     \<lparr>pv_stream = ''todos'', pv_kind = ''change'', pv_changed = {''a''}, pv_state = JObj [(''a'', JInt 2)], pv_meta = JObj []\<rparr>"

lemma sample_plan_view:
  "plan_view sample_platform sample_stream (Some (JObj [(''a'', JInt 1)])) (JObj [(''a'', JInt 2)]) ''change'' (JObj [])
     = Inr sample_view"
proof -
  have "state_tree sample_platform sample_stream (JObj [(''a'', JInt 1)]) = Inr (JObj [(''a'', JInt 1)])"
    "state_tree sample_platform sample_stream (JObj [(''a'', JInt 2)]) = Inr (JObj [(''a'', JInt 2)])"
    by code_simp+
  moreover have "changed_keys (Some [(''a'', JInt 1)]) [(''a'', JInt 2)] = {''a''}"
    by (auto simp: changed_keys_def scalar_eq_def)
  ultimately show ?thesis by (simp add: plan_view_def as_doc_def sample_view_def sample_fields)
qed

lemma filtered_commits_wake_whom_they_should_witness:
  "\<exists>d' res. commit_one sample_platform Map.empty 200 sample_db (sample_change\<lparr>cq_fingerprint := ''{}'', cq_intents := []\<rparr>) =
      Inr (d', res) \<and> db_intents d' = []"
proof -
  define whens where "whens = [''mail'' \<mapsto> (\<lambda>view :: (json, json) predicate_view. ''b'' \<in> pv_changed view)]"
  define req where "req = sample_change\<lparr>cq_fingerprint := ''{}'', cq_intents :=
    [\<lparr>ir_subscription_id = ''mail'', ir_revision_id = revision_id sample_platform ''todos'' 5 1, ir_queue = ''q''\<rparr>]\<rparr>"
  define filtered where "filtered = req\<lparr>cq_intents := filtered_intents whens sample_view (cq_intents req)\<rparr>"
  have filtered: "filtered = sample_change\<lparr>cq_fingerprint := ''{}'', cq_intents := []\<rparr>"
    by (simp add: filtered_def req_def filtered_intents_def whens_def sample_view_def)
  have plan: "plan_change sample_platform (sample_app :: (json, json, unit) app) sample_stream sample_revision
      [(''a'', JInt 2)] None = Inr req"
    using sample_planned(2) by (simp add: req_def)
  have "request_wf sample_platform filtered"
    using sample_requests_wf(2) by (simp add: filtered request_wf_frame)
  moreover have "revision_id sample_platform ''todos'' 5 1 \<noteq> revision_id sample_platform ''todos'' 5 0"
  proof -
    have "show_int 0 = ''0''" "show_int 1 = ''1''" by code_simp+
    then show ?thesis by (simp add: revision_id_def revision_name_def sample_platform_def)
  qed
  then have "request_rid sample_platform filtered \<notin> rv_revision_id ` set (db_revisions sample_db)"
    by (simp add: filtered request_rid_def target_of_def sample_db_def sample_row_def sample_change_def sample_create_def)
  moreover have "cas_ok filtered (select_head sample_db (cq_stream filtered) (cq_aggregate_id filtered))"
    by (simp add: filtered cas_ok_def select_head_def sample_db_def sample_change_def sample_create_def head_of_row_def sample_row_def)
  moreover have "encodes_exactly sample_platform Map.empty sample_db filtered"
    by (simp add: encodes_exactly_def encoding_for_def split: option.split)
  moreover have "intents_fresh sample_platform sample_db (cq_intents filtered)" by (simp add: intents_fresh_def filtered)
  ultimately obtain d' where d': "commit_one sample_platform Map.empty 200 sample_db filtered =
      Inr (d', commit_result_of sample_platform 200 filtered False)"
    using commit_one_decides [OF sample_float_codec sample_db_ok, of filtered 200] by auto
  from filtered_commits_wake_whom_they_should [OF sample_db_ok plan d' [unfolded filtered_def]]
  have "db_intents d' = []"
    by (auto simp: commit_result_of_def sample_app_def wanted_def whens_def sample_view_def sample_db_def)
  with d' show ?thesis unfolding filtered by blast
qed

section \<open>Predicates as values\<close>

datatype predicate =
    Became string json
  | Equals string json
  | AtLeast string json
  | And "predicate list"
  | Or "predicate list"

type_synonym document_view = "(doc, json) predicate_view"

text \<open>\<open>view.state.get\<close>.\<close>

definition state_get :: "document_view \<Rightarrow> string \<Rightarrow> json" where
  "state_get view key = (case map_of (pv_state view) key of None \<Rightarrow> JNull | Some v \<Rightarrow> v)"

text \<open>
  Order of numbers: finite ones by value, the infinities outside, \<open>NaN\<close> in no relation.  The bound of \<open>AtLeast\<close>
  is a number, as its annotation says.
\<close>

fun num_rank :: "json \<Rightarrow> (int \<times> int) option" where
  "num_rank (JFloat f) =
     (if float_nan f then None
      else if float_finite f then Some (0, float_scaled f)
      else Some (if float_neg f then - 1 else 1, 0))"
| "num_rank v = map_option (Pair 0) (num_scaled v)"

definition num_at_least :: "json \<Rightarrow> json \<Rightarrow> bool" where
  "num_at_least raw bound =
     (case (num_rank raw, num_rank bound) of (Some a, Some b) \<Rightarrow> b \<le> a | _ \<Rightarrow> False)"

primrec evaluate :: "predicate \<Rightarrow> document_view \<Rightarrow> bool" where
  "evaluate (Became key v) = (\<lambda>view. key \<in> pv_changed view \<and> py_eq (state_get view key) v)"
| "evaluate (Equals key v) = (\<lambda>view. py_eq (state_get view key) v)"
| "evaluate (AtLeast key v) = (\<lambda>view. num_at_least (state_get view key) v)"
| "evaluate (And terms) = (\<lambda>view. list_all (\<lambda>f. f view) (map evaluate terms))"
| "evaluate (Or terms) = (\<lambda>view. list_ex (\<lambda>f. f view) (map evaluate terms))"

primrec to_json :: "predicate \<Rightarrow> json" where
  "to_json (Became key v) = JObj [(''op'', JStr ''became''), (''key'', JStr key), (''value'', v)]"
| "to_json (Equals key v) = JObj [(''op'', JStr ''equals''), (''key'', JStr key), (''value'', v)]"
| "to_json (AtLeast key v) = JObj [(''op'', JStr ''at_least''), (''key'', JStr key), (''value'', v)]"
| "to_json (And terms) = JObj [(''op'', JStr ''and''), (''terms'', JList (map to_json terms))]"
| "to_json (Or terms) = JObj [(''op'', JStr ''or''), (''terms'', JList (map to_json terms))]"

section \<open>The fingerprint\<close>

text \<open>
  \<open>json.dumps\<close> with \<open>ensure_ascii\<close>, its default: a character outside printable ASCII is written as \<open>\\uXXXX\<close>, one
  above \<open>U+FFFF\<close> as a surrogate pair.  The characters of a string are read off its UTF-8 bytes.
\<close>

definition tail_bits :: "string \<Rightarrow> nat \<Rightarrow> nat" where
  "tail_bits s i = (case drop i s of [] \<Rightarrow> 0 | d # _ \<Rightarrow> of_char d - 128)"

function (sequential) utf8_points :: "string \<Rightarrow> nat list" where
  "utf8_points [] = []"
| "utf8_points (c # s) =
     (let n = of_char c in
      if n < 128 then n # utf8_points s
      else if n < 224 then ((n - 192) * 64 + tail_bits s 0) # utf8_points (drop 1 s)
      else if n < 240 then ((n - 224) * 4096 + tail_bits s 0 * 64 + tail_bits s 1) # utf8_points (drop 2 s)
      else ((n - 240) * 262144 + tail_bits s 0 * 4096 + tail_bits s 1 * 64 + tail_bits s 2) # utf8_points (drop 3 s))"
  by pat_completeness auto
termination by (relation "measure length") auto

definition hex4_text :: "nat \<Rightarrow> string" where
  "hex4_text n =
     [CHR 0x5C, CHR ''u'', hex_digit (n div 4096), hex_digit (n div 256 mod 16), hex_digit (n div 16 mod 16),
      hex_digit (n mod 16)]"

definition escape_point :: "nat \<Rightarrow> string" where
  "escape_point n =
     (if n < 127 then escape_char (char_of n)
      else if n < 65536 then hex4_text n
      else hex4_text (55296 + (n - 65536) div 1024) @ hex4_text (56320 + (n - 65536) mod 1024))"

definition quote_ascii :: "string \<Rightarrow> string" where
  "quote_ascii s = CHR 0x22 # concat (map escape_point (utf8_points s)) @ [CHR 0x22]"

definition float_text :: "platform \<Rightarrow> 64 word \<Rightarrow> string" where
  "float_text P f =
     (if float_finite f then float_repr P f else if float_nan f then ''NaN''
      else if float_neg f then ''-Infinity'' else ''Infinity'')"

primrec dumps_ascii :: "platform \<Rightarrow> json \<Rightarrow> string" where
  "dumps_ascii P JNull = ''null''"
| "dumps_ascii P (JBool b) = (if b then ''true'' else ''false'')"
| "dumps_ascii P (JInt i) = show_int i"
| "dumps_ascii P (JFloat f) = float_text P f"
| "dumps_ascii P (JStr s) = quote_ascii s"
| "dumps_ascii P (JList xs) = CHR ''['' # join (map (dumps_ascii P) xs) @ [CHR '']'']"
| "dumps_ascii P (JObj d) =
     CHR ''{'' # join (map (\<lambda>(k, t). quote_ascii k @ CHR '':'' # t) (map (map_prod id (dumps_ascii P)) d)) @ [CHR ''}'']"

definition predicate_text :: "platform \<Rightarrow> predicate \<Rightarrow> string" where
  "predicate_text P p = dumps_ascii P (canon (to_json p))"

definition predicate_fingerprint :: "platform \<Rightarrow> predicate \<Rightarrow> string" where
  "predicate_fingerprint P p = take 16 (sha256_hex P (predicate_text P p))"

text \<open>Printable ASCII is written as \<open>canonical_bytes\<close> writes it, and so can be read back.\<close>

definition printable :: "string \<Rightarrow> bool" where
  "printable s \<longleftrightarrow> list_all (\<lambda>c. (of_char c :: nat) < 127) s"

primrec printable_json :: "json \<Rightarrow> bool" where
  "printable_json JNull = True"
| "printable_json (JBool b) = True"
| "printable_json (JInt i) = True"
| "printable_json (JFloat f) = True"
| "printable_json (JStr s) = printable s"
| "printable_json (JList xs) = list_all id (map printable_json xs)"
| "printable_json (JObj d) = list_all (\<lambda>(k, b). printable k \<and> b) (map (map_prod id printable_json) d)"

lemma utf8_points_printable: "printable s \<Longrightarrow> utf8_points s = map of_char s"
  by (induction s) (simp_all add: printable_def)

lemma quote_ascii_printable: "printable s \<Longrightarrow> quote_ascii s = quote s"
proof -
  assume s: "printable s"
  have "concat (map escape_point (map of_char s)) = concat (map escape_char s)"
    using s by (induction s) (simp_all add: printable_def escape_point_def)
  then show ?thesis by (simp add: quote_ascii_def quote_def utf8_points_printable [OF s])
qed

lemma dumps_ascii_printable:
  "printable_json v \<Longrightarrow> json_finite v \<Longrightarrow> dumps_ascii P v = dumps P v"
proof (induction v rule: json_induct)
  case (List xs)
  then have "map (dumps_ascii P) xs = map (dumps P) xs" by (auto simp: list_all_iff)
  then show ?case by (simp only: dumps_ascii.simps dumps.simps)
next
  case (Obj d)
  have "map (\<lambda>(k, t). quote_ascii k @ CHR '':'' # t) (map (map_prod id (dumps_ascii P)) d) =
      map member_text (map (map_prod id (dumps P)) d)"
    unfolding list.map_comp
  proof (rule map_cong [OF refl])
    fix m assume m: "m \<in> set d"
    obtain k v where kv: "m = (k, v)" by (cases m)
    have "printable k" "printable_json v" "json_finite v"
      using m Obj.prems kv by (auto simp: list_all_iff)
    then show "((\<lambda>(k, t). quote_ascii k @ CHR '':'' # t) \<circ> map_prod id (dumps_ascii P)) m =
        (member_text \<circ> map_prod id (dumps P)) m"
      using Obj.IH [of k v] m kv by (simp add: member_text_def quote_ascii_printable)
  qed
  then show ?case by (simp only: dumps_ascii.simps dumps.simps)
qed (simp_all add: quote_ascii_printable float_text_def)

lemma printable_canon: "printable_json v \<Longrightarrow> printable_json (canon v)"
proof (induction v rule: json_induct)
  case (Obj d)
  then show ?case by (force simp: list_all_iff)
qed (auto simp: list_all_iff)

text \<open>A predicate as it is declared: its keys and values are printable, its values JSON with finite numbers.\<close>

primrec predicate_ok :: "predicate \<Rightarrow> bool" where
  "predicate_ok (Became key v) = (printable key \<and> printable_json v \<and> json_ok v \<and> json_finite v)"
| "predicate_ok (Equals key v) = (printable key \<and> printable_json v \<and> json_ok v \<and> json_finite v)"
| "predicate_ok (AtLeast key v) = (printable key \<and> printable_json v \<and> json_ok v \<and> json_finite v)"
| "predicate_ok (And terms) = list_all id (map predicate_ok terms)"
| "predicate_ok (Or terms) = list_all id (map predicate_ok terms)"

lemma predicate_induct [case_names Became Equals AtLeast And Or]:
  assumes "\<And>k v. Q (Became k v)" "\<And>k v. Q (Equals k v)" "\<And>k v. Q (AtLeast k v)"
    and "\<And>ts. (\<And>t. t \<in> set ts \<Longrightarrow> Q t) \<Longrightarrow> Q (And ts)" "\<And>ts. (\<And>t. t \<in> set ts \<Longrightarrow> Q t) \<Longrightarrow> Q (Or ts)"
  shows "Q p"
  using assms by (rule predicate.induct)

lemma to_json_ok:
  "predicate_ok p \<Longrightarrow> json_ok (to_json p) \<and> json_finite (to_json p) \<and> printable_json (to_json p)"
  by (induction p rule: predicate_induct) (auto simp: list_all_iff printable_def)

lemma predicate_text_loads:
  assumes "float_codec P" "predicate_ok p"
  shows "loads P (predicate_text P p) = Some (canon (to_json p))"
proof -
  note ok = to_json_ok [OF assms(2)]
  have "predicate_text P p = dumps P (canon (to_json p))"
    using ok printable_canon unfolding predicate_text_def by (intro dumps_ascii_printable) auto
  with ok assms(1) show ?thesis by (simp add: loads_dumps)
qed

text \<open>Values with the same canonical form compare alike.\<close>

lemma scalar_eq_canon: "scalar_eq v (canon w) = scalar_eq v w"
  by (cases w) (auto simp: scalar_eq_def split: option.split json.split)

lemma py_eq_canon: "json_ok w \<Longrightarrow> py_eq v (canon w) = py_eq v w"
proof (induction v arbitrary: w rule: json_induct)
  case (List xs)
  show ?case
  proof (cases w)
    case (JList ys)
    have "py_eq (xs ! i) (canon (ys ! i)) = py_eq (xs ! i) (ys ! i)" if "i < length xs" "i < length ys" for i
      using that List.IH List.prems JList by (simp add: list_all_iff)
    then have "list_all2 py_eq xs (map canon ys) = list_all2 py_eq xs ys"
      by (auto simp: list_all2_conv_all_nth)
    then show ?thesis by (simp add: JList py_eq_list del: py_eq.simps)
  qed simp_all
next
  case (Obj d)
  show ?case
  proof (cases w)
    case (JObj e)
    have vals: "json_ok v" if "map_of e k = Some v" for k v
      using Obj.prems JObj map_of_SomeD [OF that] by (force simp: list_all_iff)
    have "dict_ok e" using Obj.prems JObj by simp
    then have "map_of (sort_key fst (map (map_prod id canon) e)) k = map_option canon (map_of e k)" for k
      by (simp add: map_of_sort_key comp_def map_of_map_prod)
    then show ?thesis
      using Obj.IH vals
      by (auto simp: JObj py_eq_obj list_all_iff split: option.splits simp del: py_eq.simps)
  qed simp_all
qed (simp_all add: scalar_eq_canon)

lemma num_at_least_canon: "num_at_least raw (canon v) = num_at_least raw v"
  by (cases v) (simp_all add: num_at_least_def)

text \<open>Objects that agree as canonical values agree on each entry.\<close>

lemma canon_entry:
  assumes "canon (JObj d) = canon (JObj e)" "dict_ok d" "dict_ok e" "map_of d k = Some v"
  obtains w where "map_of e k = Some w" "canon v = canon w"
  using canon_obj_eqD [OF assms(2,3,1), of k] assms(4) by (auto simp: map_option_case split: option.split_asm)

lemma op_entries:
  "map_of [(''op'', a), (''key'', b), (''value'', c)] ''op'' = Some a"
  "map_of [(''op'', a), (''key'', b), (''value'', c)] ''key'' = Some b"
  "map_of [(''op'', a), (''key'', b), (''value'', c)] ''value'' = Some c"
  "map_of [(''op'', a), (''terms'', b)] ''op'' = Some a" "map_of [(''op'', a), (''terms'', b)] ''terms'' = Some b"
  "dict_ok [(''op'', a), (''key'', b), (''value'', c)]" "dict_ok [(''op'', a), (''terms'', b)]"
  by simp_all

text \<open>The operator, the operands, and what they say can be read off the canonical value.\<close>

lemma canon_keyed:
  assumes "canon (JObj [(''op'', JStr o1), (''key'', JStr k1), (''value'', v1)]) =
    canon (JObj [(''op'', JStr o2), (''key'', JStr k2), (''value'', v2)])"
  shows "o1 = o2 \<and> k1 = k2 \<and> canon v1 = canon v2"
proof -
  note entry = canon_entry [OF assms op_entries(6) op_entries(6)]
  from entry [OF op_entries(1)] entry [OF op_entries(2)] entry [OF op_entries(3)] show ?thesis
    unfolding op_entries by fastforce
qed

lemma canon_terms:
  assumes "canon (JObj [(''op'', JStr o1), (''terms'', JList t1)]) = canon (JObj [(''op'', JStr o2), (''terms'', JList t2)])"
  shows "o1 = o2 \<and> map canon t1 = map canon t2"
proof -
  note entry = canon_entry [OF assms op_entries(7) op_entries(7)]
  from entry [OF op_entries(4)] entry [OF op_entries(5)] show ?thesis
    unfolding op_entries by fastforce
qed

lemma canon_keyed_terms:
  "canon (JObj [(''op'', a), (''key'', b), (''value'', c)]) \<noteq> canon (JObj [(''op'', a'), (''terms'', b')])"
  by (simp add: sort_key_def)

lemma evaluate_terms:
  "evaluate (And ts) view = list_all id (map (\<lambda>t. evaluate t view) ts)"
  "evaluate (Or ts) view = list_ex id (map (\<lambda>t. evaluate t view) ts)"
  by (simp_all add: list_all_iff list_ex_iff)

lemma evaluate_all:
  assumes "map (canon \<circ> to_json) ts = map (canon \<circ> to_json) us"
    and "\<And>t u. t \<in> set ts \<Longrightarrow> u \<in> set us \<Longrightarrow> canon (to_json t) = canon (to_json u) \<Longrightarrow> evaluate t view = evaluate u view"
  shows "map (\<lambda>t. evaluate t view) ts = map (\<lambda>t. evaluate t view) us"
  using assms
proof (induction ts arbitrary: us)
  case (Cons t ts)
  then obtain u us' where "us = u # us'" by (cases us) auto
  with Cons show ?case by simp
qed simp

lemmas canon_shapes = canon_keyed_terms canon_keyed_terms [symmetric]

lemma same_canon_same_meaning:
  "canon (to_json p) = canon (to_json q) \<Longrightarrow> predicate_ok p \<Longrightarrow> predicate_ok q \<Longrightarrow> evaluate p view = evaluate q view"
proof (induction p arbitrary: q rule: predicate_induct)
  case (Became k v)
  then show ?case
    by (cases q) (auto simp: canon_shapes py_eq_canon simp del: canon.simps(7) dest!: canon_keyed
        dest: arg_cong [where f = "py_eq (state_get view k)"])
next
  case (Equals k v)
  then show ?case
    by (cases q) (auto simp: canon_shapes py_eq_canon simp del: canon.simps(7) dest!: canon_keyed
        dest: arg_cong [where f = "py_eq (state_get view k)"])
next
  case (AtLeast k v)
  then show ?case
    by (cases q) (auto simp: canon_shapes num_at_least_canon simp del: canon.simps(7) dest!: canon_keyed
        dest: arg_cong [where f = "num_at_least (state_get view k)"])
next
  case (And ts)
  show ?case
  proof (cases q)
    case (And us)
    have "map (canon \<circ> to_json) ts = map (canon \<circ> to_json) us"
      using canon_terms [of "''and''" "map to_json ts" "''and''" "map to_json us"] And.prems(1) by (simp add: And comp_def)
    then have "map (\<lambda>t. evaluate t view) ts = map (\<lambda>t. evaluate t view) us"
      by (rule evaluate_all) (use And.IH And.prems And in \<open>auto simp: list_all_iff\<close>)
    then show ?thesis by (simp only: And evaluate_terms)
  qed (use And.prems canon_terms [of "''and''" "map to_json ts"] in \<open>auto simp: canon_shapes simp del: canon.simps(7)\<close>)
next
  case (Or ts)
  show ?case
  proof (cases q)
    case (Or us)
    have "map (canon \<circ> to_json) ts = map (canon \<circ> to_json) us"
      using canon_terms [of "''or''" "map to_json ts" "''or''" "map to_json us"] Or.prems(1) by (simp add: Or comp_def)
    then have "map (\<lambda>t. evaluate t view) ts = map (\<lambda>t. evaluate t view) us"
      by (rule evaluate_all) (use Or.IH Or.prems Or in \<open>auto simp: list_all_iff\<close>)
    then show ?thesis by (simp only: Or evaluate_terms)
  qed (use Or.prems canon_terms [of "''or''" "map to_json ts"] in \<open>auto simp: canon_shapes simp del: canon.simps(7)\<close>)
qed

text \<open>
  The gate on pattern versions has no false negatives: predicates with the same canonical text have the same
  meaning on every commit, whatever their nesting, so that a predicate whose meaning changed has another text and,
  unless SHA-256 collides on 16 digits, another fingerprint.
\<close>

theorem same_text_same_meaning:
  assumes "float_codec P" "predicate_ok p" "predicate_ok q" "predicate_text P p = predicate_text P q"
  shows "evaluate p view = evaluate q view \<and> predicate_fingerprint P p = predicate_fingerprint P q"
proof -
  have "canon (to_json p) = canon (to_json q)"
    using predicate_text_loads [OF assms(1,2)] predicate_text_loads [OF assms(1,3)] assms(4) by simp
  from same_canon_same_meaning [OF this assms(2,3)] show ?thesis
    by (simp add: predicate_fingerprint_def assms(4))
qed

definition big_failure :: predicate where
  "big_failure = And [Became ''status'' (JStr ''failed''), AtLeast ''amount'' (JInt 100)]"

text \<open>The value of the first term written in another order.\<close>

lemma same_text_same_meaning_witness:
  "(\<forall>view. evaluate (Equals ''k'' (JObj [(''a'', JInt 1), (''b'', JInt 2)])) view =
     evaluate (Equals ''k'' (JObj [(''b'', JInt 2), (''a'', JInt 1)])) view)"
proof -
  have "predicate_text sample_platform (Equals ''k'' (JObj [(''a'', JInt 1), (''b'', JInt 2)])) =
      predicate_text sample_platform (Equals ''k'' (JObj [(''b'', JInt 2), (''a'', JInt 1)]))"
    by code_simp
  from same_text_same_meaning [OF sample_float_codec _ _ this] show ?thesis
    by (simp add: printable_def del: evaluate.simps)
qed

text \<open>
  It has false positives, though the docstring calls it a pure function of the meaning: numbers that Python takes
  for equal, and a conjunction of one, have the meaning of the plain predicate and another text.
\<close>

lemma same_meaning_other_text:
  "evaluate (Equals key (JInt 1)) view = evaluate (Equals key (JBool True)) view"
  "evaluate (And [Equals key (JInt 1)]) view = evaluate (Equals key (JInt 1)) view"
  "predicate_text sample_platform (Equals ''k'' (JInt 1)) \<noteq> predicate_text sample_platform (Equals ''k'' (JBool True))"
  "predicate_text sample_platform (And [Equals ''k'' (JInt 1)]) \<noteq> predicate_text sample_platform (Equals ''k'' (JInt 1))"
proof -
  show "evaluate (Equals key (JInt 1)) view = evaluate (Equals key (JBool True)) view"
    by (cases "state_get view key") (auto simp: scalar_eq_def py_eq_list py_eq_obj split: option.split)
  show "evaluate (And [Equals key (JInt 1)]) view = evaluate (Equals key (JInt 1)) view" by simp
qed code_simp+

text \<open>The probe's views: a transition, and a state in which nothing changed.\<close>

lemma combinator_probe:
  "evaluate big_failure \<lparr>pv_stream = ''orders'', pv_kind = ''change'', pv_changed = {''status''},
     pv_state = [(''status'', JStr ''failed''), (''amount'', JInt 250)], pv_meta = JObj []\<rparr>"
  "\<not> evaluate big_failure \<lparr>pv_stream = ''orders'', pv_kind = ''change'', pv_changed = {''amount''},
     pv_state = [(''status'', JStr ''failed''), (''amount'', JInt 250)], pv_meta = JObj []\<rparr>"
  by (simp_all add: big_failure_def state_get_def num_at_least_def scalar_eq_def)

end
