(* ===== verification/Matches.thy ===== *)
theory Matches
  imports Sql_Store Runtime
begin

text \<open>
  Matches of a pattern as documents of a stream (probes \<open>p01_match_envelope.py\<close>, \<open>p04_reemit_idempotent.py\<close> and
  \<open>p07_batch_order_and_poison.py\<close> of \<open>.scratch/projects/008-derived-projection\<close>): references into the log and
  their resolution, the deterministic id of a match, what happens when a match is emitted again, and the
  selection of a path that makes that safe.
\<close>

section \<open>References and match documents\<close>

record revision_ref =
  rf_stream :: string
  rf_aggregate_id :: uuid
  rf_revision :: int

record match_doc =
  ma_pattern_id :: string
  ma_pattern_version :: int
  ma_correlation_key :: string
  ma_steps :: "revision_ref list"

text \<open>What Pydantic documents of the JSON of these models: an entry per field, a UUID as its text.\<close>

definition ref_json :: "revision_ref \<Rightarrow> json" where
  "ref_json r =
     JObj [(''stream'', JStr (rf_stream r)), (''aggregate_id'', JStr (uuid_str (rf_aggregate_id r))),
           (''revision'', JInt (rf_revision r))]"

definition match_json :: "match_doc \<Rightarrow> json" where
  "match_json m =
     JObj [(''pattern_id'', JStr (ma_pattern_id m)), (''pattern_version'', JInt (ma_pattern_version m)),
           (''correlation_key'', JStr (ma_correlation_key m)), (''steps'', JList (map ref_json (ma_steps m)))]"

definition match_name :: "string \<Rightarrow> int \<Rightarrow> string \<Rightarrow> uuid \<Rightarrow> string" where
  "match_name pattern version key terminal =
     pattern @ '':'' @ show_int version @ '':'' @ key @ '':'' @ uuid_str terminal"

definition match_id :: "platform \<Rightarrow> string \<Rightarrow> int \<Rightarrow> string \<Rightarrow> uuid \<Rightarrow> uuid" where
  "match_id P pattern version key terminal = uuid5 P NS (match_name pattern version key terminal)"

text \<open>Within a pattern and version the name determines the key and the terminal revision.\<close>

lemma split_at_last_colon:
  assumes "a @ CHR '':'' # u = b @ CHR '':'' # v" "CHR '':'' \<notin> set u" "CHR '':'' \<notin> set v"
  shows "a = b \<and> u = v"
proof -
  have "rev u @ CHR '':'' # rev a = rev v @ CHR '':'' # rev b"
    using arg_cong [OF assms(1), of rev] by simp
  from split_at_colon [OF _ _ this] assms(2,3) show ?thesis by simp
qed

lemma match_name_inject:
  "match_name pattern version key terminal = match_name pattern version key' terminal' \<longleftrightarrow>
     key = key' \<and> terminal = terminal'"
  using split_at_last_colon [of key "uuid_str terminal" key' "uuid_str terminal'"] uuid_str_no_colon
  by (auto simp: match_name_def)

text \<open>
  Across patterns it does not: colons in ids and keys are not escaped, so two different matches may get one id.
\<close>

lemma match_ids_collide:
  "match_id P ''fraud'' 1 ''2:acct'' terminal = match_id P ''fraud:1'' 2 ''acct'' terminal"
proof -
  have "show_int 1 = ''1''" "show_int 2 = ''2''" by code_simp+
  then show ?thesis by (simp add: match_id_def match_name_def)
qed

section \<open>Resolution\<close>

text \<open>\<open>_StoreResolver.resolve\<close>: one point read per reference; a dangling one fails the assertion.\<close>

fun resolve :: "platform \<Rightarrow> encodings \<Rightarrow> db \<Rightarrow> revision_ref list \<Rightarrow> exn + stored_revision list" where
  "resolve P encs d [] = Inr []"
| "resolve P encs d (ref # refs) =
     rbind (store_revision P encs d (AggregateKey (rf_stream ref) (rf_aggregate_id ref)) (rf_revision ref)) (\<lambda>row.
       case row of
         None \<Rightarrow> Inl (Python OtherException)
       | Some r \<Rightarrow> rbind (resolve P encs d refs) (\<lambda>out. Inr (r # out)))"

record match_envelope =
  en_match :: match_doc
  en_resolver :: "revision_ref list \<Rightarrow> exn + stored_revision list"

definition envelope_resolve :: "match_envelope \<Rightarrow> exn + stored_revision list" where
  "envelope_resolve e = en_resolver e (ma_steps (en_match e))"

lemma row_has_document:
  assumes "store_ok P encs d" "r \<in> set (db_revisions d)"
  obtains doc where "row_decodes P encs d r = Inr doc"
proof -
  from assms have "log_row_ok P encs d r" by (simp add: store_ok_def)
  then show ?thesis by (rule log_row_okE) (rule that)
qed

text \<open>A read that finds a revision has found its row, and finds it ever after.\<close>

lemma store_revision_Some:
  assumes ok: "store_ok P encs d" and read: "store_revision P encs d (AggregateKey s a) n = Inr (Some sr)"
  obtains r where "r \<in> set (db_revisions d)" "rv_stream r = s" "rv_aggregate_id r = a" "rv_revision r = n"
proof -
  consider (delta) every where "encs s = Some (Delta every)" | (other) "\<nexists>every. encs s = Some (Delta every)" by blast
  then show ?thesis
  proof cases
    case delta
    let ?w = "select_window d s a (window_start every n) n"
    from read delta have "?w \<noteq> []" "rv_revision (last ?w) = n"
      by (auto simp: store_revision_def Let_def split: if_split_asm)
    moreover have "last ?w \<in> set ?w" using \<open>?w \<noteq> []\<close> by simp
    ultimately show ?thesis by (intro that [of "last ?w"]) (auto simp: set_select_window of_aggregate_def)
  next
    case other
    with read obtain r where "select_revision_row d s a n = Some r"
      by (auto simp: store_revision_def Let_def split: if_split_asm option.split_asm encoding.split_asm)
    from select_revision_row_Some [OF this] that show ?thesis by blast
  qed
qed

lemma reads_stay:
  assumes "float_codec P" "store_ok P encs d" "\<forall>req\<in>set reqs. request_ok P req"
    and read: "store_revision P encs d (AggregateKey s a) n = Inr (Some sr)"
  shows "store_revision P encs (snd (store_commit P encs m now d reqs)) (AggregateKey s a) n = Inr (Some sr)"
proof (rule store_commit_invariant [where I = "\<lambda>x. store_revision P encs x (AggregateKey s a) n = Inr (Some sr)",
      OF assms(1,3) _ assms(2) read])
  fix x y req res
  assume x: "store_ok P encs x" "store_revision P encs x (AggregateKey s a) n = Inr (Some sr)"
    and req: "req \<in> set reqs" and one: "commit_one P encs now x req = Inr (y, res)"
  obtain r where r: "r \<in> set (db_revisions x)" "rv_stream r = s" "rv_aggregate_id r = a" "rv_revision r = n"
    by (rule store_revision_Some [OF x])
  have y: "store_ok P encs y" by (rule commit_one_preserves [OF assms(1) x(1) _ one]) (use assms(3) req in simp)
  obtain doc where doc: "row_decodes P encs x r = Inr doc"
    by (rule row_has_document [OF x(1) r(1)])
  note kept = commit_one_row_kept [OF x(1) one r(1)]
  show "store_revision P encs y (AggregateKey s a) n = Inr (Some sr)"
    using store_revision_row [OF x(1) r(1) doc] store_revision_row [OF y, of r doc] kept doc x(2) r by simp
qed

text \<open>
  References are good for ever: the revisions a match refers to, once they resolve, resolve to the very same
  revisions after any further commits, in delta streams too; and what resolves is what the references name, in
  their order.
\<close>

theorem references_stay_resolved:
  assumes "float_codec P" "store_ok P encs d" "\<forall>req\<in>set reqs. request_ok P req"
    and "resolve P encs d refs = Inr rows"
  shows "resolve P encs (snd (store_commit P encs m now d reqs)) refs = Inr rows \<and>
    map (\<lambda>r. (sr_stream r, sr_aggregate_id r, sr_revision r)) rows =
      map (\<lambda>f. (rf_stream f, rf_aggregate_id f, rf_revision f)) refs"
  using assms(4)
proof (induction refs arbitrary: rows)
  case (Cons f fs)
  from Cons.prems obtain r out where r: "store_revision P encs d (AggregateKey (rf_stream f) (rf_aggregate_id f)) (rf_revision f) = Inr (Some r)"
    and out: "resolve P encs d fs = Inr out" "rows = r # out"
    by (auto split: option.split_asm)
  obtain row where row: "row \<in> set (db_revisions d)" "rv_stream row = rf_stream f" "rv_aggregate_id row = rf_aggregate_id f"
    "rv_revision row = rf_revision f" by (rule store_revision_Some [OF assms(2) r])
  obtain doc where doc: "row_decodes P encs d row = Inr doc"
    by (rule row_has_document [OF assms(2) row(1)])
  from store_revision_row [OF assms(2) row(1) doc] r row
  have "sr_stream r = rf_stream f" "sr_aggregate_id r = rf_aggregate_id f" "sr_revision r = rf_revision f" by auto
  then show ?case using Cons.IH [OF out(1)] reads_stay [OF assms(1-3) r] out(2) by simp
qed simp

lemma references_stay_resolved_witness:
  "resolve sample_platform Map.empty (snd (store_commit sample_platform Map.empty 100 200 sample_db [sample_change]))
     [\<lparr>rf_stream = ''todos'', rf_aggregate_id = 5, rf_revision = 0\<rparr>] =
   resolve sample_platform Map.empty sample_db [\<lparr>rf_stream = ''todos'', rf_aggregate_id = 5, rf_revision = 0\<rparr>]"
proof -
  have row: "sample_row \<in> set (db_revisions sample_db)" by (simp add: sample_db_def)
  obtain doc where "row_decodes sample_platform Map.empty sample_db sample_row = Inr doc"
    by (rule row_has_document [OF sample_db_ok row])
  from store_revision_row [OF sample_db_ok row this] obtain rows where rows:
    "resolve sample_platform Map.empty sample_db [\<lparr>rf_stream = ''todos'', rf_aggregate_id = 5, rf_revision = 0\<rparr>] = Inr rows"
    by (simp add: sample_row_def)
  from references_stay_resolved [OF sample_float_codec sample_db_ok _ this, of "[sample_change]" 100 200] rows
  show ?thesis using sample_requests_wf by (simp add: request_wf_def)
qed

section \<open>Emitting a match\<close>

text \<open>\<open>plan_create\<close> with the match's id, and one call of the store.\<close>

definition emit_match ::
  "platform \<Rightarrow> encodings \<Rightarrow> nat \<Rightarrow> time \<Rightarrow> (match_doc, 'm, 's) app \<Rightarrow> match_doc stream \<Rightarrow> uuid \<Rightarrow> match_doc \<Rightarrow> db \<Rightarrow>
   (exn + commit_result) \<times> db" where
  "emit_match P encs max_batch now A s terminal m d =
     (case plan_create P A s m
             (match_id P (ma_pattern_id m) (ma_pattern_version m) (ma_correlation_key m) terminal) None of
        Inl e \<Rightarrow> (Inl e, d)
      | Inr req \<Rightarrow>
          (case store_commit P encs max_batch now d [req] of
             (out, d') \<Rightarrow>
               (rbind (lift_eventic out) (\<lambda>results. case results of [] \<Rightarrow> Inl (Python OtherException) | r # _ \<Rightarrow> Inr r), d')))"

lemma store_commit_single:
  assumes "1 \<le> max_batch"
  shows "store_commit P encs max_batch now d [req] =
    (case commit_one P encs now d req of Inl e \<Rightarrow> (Inl (commit_error e), d) | Inr (d', r) \<Rightarrow> (Inr [r], d'))"
  using assms by (simp add: store_commit_def rbind_def split: sum.split)

text \<open>A committed request has a row with its content at its target.\<close>

lemma committed_row:
  assumes "commit_one P encs now d req = Inr (d', res)" "request_ok P req" and ok: "store_ok P encs d"
    and meta: "loads P (cq_meta req) = Some meta" "json_finite meta"
  obtains row where "row \<in> set (db_revisions d')" "rv_key row = (cq_stream req, cq_aggregate_id req, target_of req)"
    "same_content P row req"
  using assms(1)
proof (cases rule: commit_one_cases)
  case (replay row)
  have "is_doc (rv_meta row)"
    using select_revision_row_Some [OF replay(1)] ok by (simp add: store_ok_def log_row_ok_def)
  then have "same_content P row req" using is_identical_decides [OF _ assms(2)] replay(2) by simp
  moreover have "row \<in> set (db_revisions d')"
    using select_revision_row_Some [OF replay(1)] commit_one_prefix [OF assms(1)] by (auto simp: prefix_def)
  ultimately show thesis using select_revision_row_Some [OF replay(1)] that by (simp add: rv_key_def)
next
  case append
  have "json_ok meta" using loads_json_ok [OF meta(1)] .
  with meta(2) have eq: "py_eq meta meta" by (simp add: py_eq_refl)
  from append(3) show thesis
  proof (rule append_revision_Inr)
    fix physical enc meta' d1
    assume m: "bytes_loads P (cq_meta req) = Inr meta'"
      and d1: "d1 = d\<lparr>db_revisions := db_revisions d @ [new_revision_row P now req physical enc meta']\<rparr>"
        "db_revisions d' = db_revisions d1"
    from m meta(1) have "meta' = meta" by (simp add: bytes_loads_Inr)
    with eq have "same_content P (new_revision_row P now req physical enc meta') req"
      by (simp add: same_content_def new_revision_row_def meta(1))
    with d1 show thesis by (intro that) (auto simp: new_revision_row_def rv_key_def)
  qed
qed

text \<open>Whatever comes between, a second request for the same revision replays if its content is the same, and conflicts otherwise.\<close>

lemma second_request:
  assumes P: "float_codec P" and ok: "store_ok P encs d" and reqs: "request_ok P first" "request_ok P second"
    and meta: "loads P (cq_meta first) = Some meta" "json_finite meta"
    and between: "\<forall>req\<in>set between. request_ok P req"
    and one: "commit_one P encs now d first = Inr (d1, res)" and more: "store_commit P encs m later d1 between = (out, d2)"
    and key: "cq_stream second = cq_stream first" "cq_aggregate_id second = cq_aggregate_id first"
      "target_of second = target_of first"
  obtains row where "same_content P row first"
    "commit_one P encs again d2 second =
      (if same_content P row second then Inr (d2, commit_result_of P again second True)
       else Inl (Eventic RevisionConflict))"
proof -
  obtain row where row: "row \<in> set (db_revisions d1)" "rv_key row = (cq_stream first, cq_aggregate_id first, target_of first)"
    "same_content P row first" by (rule committed_row [OF one reqs(1) ok meta])
  have ok1: "store_ok P encs d1" by (rule commit_one_preserves [OF P ok reqs(1) one])
  have ok2: "store_ok P encs d2" by (rule store_commit_preserves [OF P ok1 between more])
  have "row \<in> set (db_revisions d2)" using row(1) store_commit_prefix [OF more] by (auto simp: prefix_def)
  then have "select_revision_row d2 (cq_stream second) (cq_aggregate_id second) (target_of second) = Some row"
    using select_revision_row_unique [of d2 row] ok2 row(2) key by (simp add: store_ok_def rv_key_def)
  from that [OF row(3) commit_one_taken [OF ok2 reqs(2) this]] show thesis .
qed

text \<open>Two match documents with the same canonical form are the same.\<close>

lemma ref_json_canon: "canon (ref_json r) = canon (ref_json r') \<Longrightarrow> r = r'"
proof -
  assume eq: "canon (ref_json r) = canon (ref_json r')"
  have ok: "dict_ok [(''stream'', a), (''aggregate_id'', b), (''revision'', c)]" for a b c :: json by simp
  note entry = canon_obj_eqD [OF ok ok eq [unfolded ref_json_def]]
  from entry [of "''stream''"] entry [of "''aggregate_id''"] entry [of "''revision''"]
  show "r = r'" by simp
qed

lemma match_json_canon: "canon (match_json m) = canon (match_json m') \<Longrightarrow> m = m'"
proof -
  assume eq: "canon (match_json m) = canon (match_json m')"
  have ok: "dict_ok [(''pattern_id'', a), (''pattern_version'', b), (''correlation_key'', c), (''steps'', e)]" for a b c e :: json
    by simp
  note entry = canon_obj_eqD [OF ok ok eq [unfolded match_json_def]]
  have "map (\<lambda>r. canon (ref_json r)) rs = map (\<lambda>r. canon (ref_json r)) rs' \<Longrightarrow> rs = rs'" for rs rs'
  proof (induction rs arbitrary: rs')
    case (Cons r rs)
    then show ?case by (cases rs') (auto dest: ref_json_canon)
  qed simp
  with entry [of "''pattern_id''"] entry [of "''pattern_version''"] entry [of "''correlation_key''"] entry [of "''steps''"]
  show "m = m'" by (simp add: comp_def)
qed

lemma match_json_ok: "json_ok (match_json m) \<and> json_finite (match_json m)"
  by (simp add: match_json_def ref_json_def list_all_iff)

text \<open>The stream of matches dumps its model as Pydantic does; its documents have canonical bytes.\<close>

definition match_stream :: "match_doc stream \<Rightarrow> bool" where
  "match_stream s \<longleftrightarrow> (\<forall>ex m. ad_dump (md_adapter (sm_model s)) ex m = Inr (match_json m))"

definition match_text :: "platform \<Rightarrow> match_doc \<Rightarrow> string" where
  "match_text P m = dumps P (canon (match_json m))"

lemma match_state_bytes: "match_stream s \<Longrightarrow> state_bytes P s m = Inr (match_text P m)"
  using match_json_ok
  by (simp add: match_stream_def state_bytes_def canonicalize_def py_canonical_bytes_def canonical_bytes_alt match_text_def)

lemma match_text_inject: "float_codec P \<Longrightarrow> match_text P m = match_text P m' \<Longrightarrow> m = m'"
  unfolding match_text_def using match_json_ok match_json_canon loads_dumps
  by (metis json_finite_canon json_ok_canon option.inject)

definition emit_request :: "platform \<Rightarrow> (match_doc, 'm, 's) app \<Rightarrow> match_doc stream \<Rightarrow> uuid \<Rightarrow> match_doc \<Rightarrow> exn + commit_request" where
  "emit_request P A s terminal m =
     plan_create P A s m (match_id P (ma_pattern_id m) (ma_pattern_version m) (ma_correlation_key m) terminal) None"

lemma emit_match_planned:
  assumes "1 \<le> max_batch" "emit_request P A s terminal m = Inr req"
  shows "emit_match P encs max_batch now A s terminal m d =
    (case commit_one P encs now d req of Inl e \<Rightarrow> (Inl (Eventic (commit_error e)), d) | Inr (d', r) \<Rightarrow> (Inr r, d'))"
  using assms by (simp add: emit_match_def emit_request_def store_commit_single lift_eventic_def split: sum.split)

text \<open>
  C35: The emission of a match can be repeated, and only with the same path.  After a match has been emitted, and
  whatever has been committed since, emitting the same document again is a replay that changes nothing, so it
  writes no revision and wakes no subscriber; a document with other steps for the same pattern, version, key
  and terminal revision is refused with \<open>RevisionConflict\<close>, on every attempt, unless SHA-256 collides on the two
  texts.
\<close>

theorem matches_are_emitted_once:
  assumes "float_codec P" "store_ok P encs d" "declared_stream P A s" "match_stream s" "1 \<le> max_batch"
    and "emit_match P encs max_batch now A s terminal m d = (Inr res, d1)"
    and "\<forall>req\<in>set between. request_ok P req" "store_commit P encs k later d1 between = (out, d2)"
    and "ma_pattern_id m' = ma_pattern_id m" "ma_pattern_version m' = ma_pattern_version m"
      "ma_correlation_key m' = ma_correlation_key m"
    and "digest P (match_text P m') = digest P (match_text P m) \<Longrightarrow> match_text P m' = match_text P m"
  shows "emit_match P encs max_batch again A s terminal m' d2 =
    (if m' = m then (Inr (res\<lparr>cr_committed_at := again, cr_replayed := True\<rparr>), d2)
     else (Inl (Eventic RevisionConflict), d2))"
proof -
  define a where "a = match_id P (ma_pattern_id m) (ma_pattern_version m) (ma_correlation_key m) terminal"
  obtain req where req: "emit_request P A s terminal m = Inr req"
    using assms(6) by (cases "emit_request P A s terminal m") (auto simp: emit_match_def emit_request_def)
  from assms(6) have one: "commit_one P encs now d req = Inr (d1, res)"
    by (simp add: emit_match_planned [OF assms(5) req] split: sum.split_asm prod.split_asm)
  from req obtain mv where mv: "md_new (mt_model (ap_meta A)) = Inr mv" "meta_bytes P (ap_meta A) mv = Inr (cq_meta req)"
    and fields: "cq_payload req = match_text P m" "cq_digest req = digest P (match_text P m)" "cq_stream req = sm_name s"
      "cq_aggregate_id req = a" "cq_expected_revision req = None"
    by (auto simp: emit_request_def plan_create_def match_state_bytes [OF assms(4)] a_def)
  define req' where "req' = req\<lparr>cq_payload := match_text P m', cq_digest := digest P (match_text P m')\<rparr>"
  have req': "emit_request P A s terminal m' = Inr req'"
    using req by (auto simp: emit_request_def plan_create_def match_state_bytes [OF assms(4)] req'_def assms(9-11))
  have wf: "request_ok P req" "request_ok P req'"
    using plan_create_wf [OF assms(1,3)] req req' by (auto simp: emit_request_def request_wf_def)
  obtain x where x: "loads P (cq_meta req) = Some (JObj x)" "canonical_bytes P (JObj x) = Some (cq_meta req)"
    using canonicalize_doc [OF assms(1) declared_streamD(7) [OF assms(3)] mv(2) [unfolded meta_bytes_def]] by metis
  have finite: "json_finite (JObj x)" using x(2) by (simp add: canonical_bytes_alt split: if_split_asm)
  have target: "target_of req' = target_of req" "cq_stream req' = cq_stream req" "cq_aggregate_id req' = cq_aggregate_id req"
    by (simp_all add: req'_def target_of_def)
  obtain row where row: "same_content P row req"
    "commit_one P encs again d2 req' =
      (if same_content P row req' then Inr (d2, commit_result_of P again req' True) else Inl (Eventic RevisionConflict))"
    by (rule second_request [OF assms(1,2) wf x(1) finite assms(7) one assms(8) target(2,3,1)])
  have res: "commit_result_of P again req' True = res\<lparr>cr_committed_at := again, cr_replayed := True\<rparr>"
    using one by (cases rule: commit_one_cases)
      (auto simp: commit_result_of_def request_rid_def target elim!: append_revision_Inr)
  show ?thesis
  proof (cases "m' = m")
    case True
    then have "req' = req" using req req' by simp
    with row True res show ?thesis by (simp add: emit_match_planned [OF assms(5) req])
  next
    case False
    then have "match_text P m' \<noteq> match_text P m" using match_text_inject [OF assms(1)] by blast
    then have "\<not> same_content P row req'"
      using assms(12) row(1) fields(2) by (auto simp: same_content_def req'_def)
    with row False show ?thesis
      by (simp add: emit_match_planned [OF assms(5) req'] commit_error_def)
  qed
qed

text \<open>For the witness: the stream of matches of a small application.\<close>

definition sample_match_stream :: "match_doc stream" where
  "sample_match_stream =
     \<lparr>sm_model =
        \<lparr>md_is_model = True, md_is_root = False, md_class = ''Match'',
         md_graph = [(''Match'', \<lparr>mc_fields = [(''steps'', Plain ''tuple'')], mc_computed = [], mc_own_annotations = [Plain ''tuple'']\<rparr>)],
         md_schema = JObj [],
         md_adapter = \<lparr>ad_dump = (\<lambda>ex m. Inr (match_json m)), ad_validate_json = (\<lambda>_. Inl (Python ValueError))\<rparr>,
         md_new = Inl (Python TypeError), md_dump_python = (\<lambda>_. Inl (Python TypeError)),
         md_validate_fields = (\<lambda>_. Inl (Python TypeError)), md_validate_instance = Inr\<rparr>,
      sm_name = ''matches'', sm_schema_version = 1, sm_upcasters = Map.empty, sm_exclude = [], sm_fingerprint = ''{}''\<rparr>"

definition sample_match_app :: "(match_doc, json, unit) app" where
  "sample_match_app =
     \<lparr>ap_id = ''p07c'', ap_streams = [sample_match_stream], ap_meta = sample_meta, ap_subscriptions = [],
      ap_on_inline_error = RaiseErrors\<rparr>"

lemma sample_match_made: "make_stream sample_platform (sm_model sample_match_stream) ''matches'' 1 Map.empty = Inr sample_match_stream"
proof -
  have "validate_stream_name ''matches'' = Inr ''matches''" by code_simp
  moreover have "model_fingerprint sample_platform (sm_model sample_match_stream) = Inr ''{}''"
    using sample_fingerprint by (simp add: model_fingerprint_def sample_match_stream_def sample_model_def)
  moreover have "md_is_model (sm_model sample_match_stream)" "\<not> md_is_root (sm_model sample_match_stream)"
    "\<not> contains_secret (md_graph (sm_model sample_match_stream)) (md_class (sm_model sample_match_stream))"
    "build_exclude_map (md_graph (sm_model sample_match_stream)) (md_class (sm_model sample_match_stream)) = []"
    by (simp_all add: sample_match_stream_def contains_secret_def walk_secret_def build_exclude_map_def)
  ultimately show ?thesis
    by (simp add: make_stream_def sample_no_chain lift_py_def lift_eventic_def) (simp add: sample_match_stream_def)
qed

lemma sample_match_declared: "declared_stream sample_platform sample_match_app sample_match_stream"
proof -
  have "dumps_documents (md_adapter (sm_model sample_match_stream))"
    by (auto simp: dumps_documents_def sample_match_stream_def match_json_def ref_json_def is_doc_def list_all_iff)
  moreover have "dumps_documents (md_adapter (mt_model (ap_meta sample_match_app)))"
    using sample_declared by (simp add: declared_stream_def sample_match_app_def sample_app_def)
  moreover have "ap_meta sample_match_app = sample_meta" by (simp add: sample_match_app_def)
  ultimately show ?thesis unfolding declared_stream_def using sample_match_made sample_meta_made by metis
qed

definition sample_match :: "revision_ref list \<Rightarrow> match_doc" where
  "sample_match steps = \<lparr>ma_pattern_id = ''p'', ma_pattern_version = 1, ma_correlation_key = ''k'', ma_steps = steps\<rparr>"

lemma matches_are_emitted_once_witness:
  "\<exists>d res. emit_match sample_platform Map.empty 100 100 sample_match_app sample_match_stream 7 (sample_match []) empty_db =
       (Inr res, d) \<and>
     emit_match sample_platform Map.empty 100 200 sample_match_app sample_match_stream 7
       (sample_match [\<lparr>rf_stream = ''todos'', rf_aggregate_id = 5, rf_revision = 0\<rparr>]) d =
       (Inl (Eventic RevisionConflict), d)"
proof -
  have stream: "match_stream sample_match_stream" by (simp add: match_stream_def sample_match_stream_def)
  have meta: "ap_meta sample_match_app = sample_meta" by (simp add: sample_match_app_def)
  obtain req where req: "emit_request sample_platform sample_match_app sample_match_stream 7 (sample_match []) = Inr req"
    by (simp add: emit_request_def plan_create_def match_state_bytes [OF stream] meta sample_fields sample_plans)
  then have "cq_intents req = []" "cq_expected_revision req = None"
    by (auto simp: emit_request_def intents_for_def sample_match_app_def elim: plan_create_Inr)
  moreover have "request_wf sample_platform req"
    using plan_create_wf [OF sample_float_codec sample_match_declared] req by (simp add: emit_request_def)
  ultimately obtain d res where one: "commit_one sample_platform Map.empty 100 empty_db req = Inr (d, res)"
    using commit_one_decides [OF sample_float_codec sample_empty_ok, of req 100]
    by (auto simp: intents_fresh_def empty_db_def cas_ok_def select_head_def encodes_exactly_def encoding_for_def)
  have first: "emit_match sample_platform Map.empty 100 100 sample_match_app sample_match_stream 7 (sample_match []) empty_db =
      (Inr res, d)" by (simp add: emit_match_planned [OF _ req] one)
  have "store_commit sample_platform Map.empty 100 150 d [] = (Inr [], d)" by (simp add: store_commit_def)
  from matches_are_emitted_once [OF sample_float_codec sample_empty_ok sample_match_declared stream _ first _ this,
      of "sample_match [\<lparr>rf_stream = ''todos'', rf_aggregate_id = 5, rf_revision = 0\<rparr>]" 200] first
  show ?thesis by (auto simp: sample_match_def digest_def sample_platform_def)
qed

end
