(* ===== verification/Matcher.thy ===== *)
theory Matcher
  imports Floats Wire
begin

text \<open>
  The pattern matcher of a projection (probes \<open>p07_batch_order_and_poison.py\<close> and \<open>p10_match_state_growth.py\<close> of
  \<open>.scratch/projects/008-derived-projection\<close>): the path that strict contiguity selects, and the matcher that keeps
  one open partial match per correlation key and lets it expire by event time.
\<close>

section \<open>The path of strict contiguity\<close>

text \<open>\<open>strict_contiguity_path\<close>: the loop over the rows of the rows, from the path collected so far.\<close>

fun path_from :: "string \<Rightarrow> int \<Rightarrow> int list \<Rightarrow> (int \<times> string \<times> string) list \<Rightarrow> int list option" where
  "path_from key n path [] = None"
| "path_from key n path ((seq, k, status) # rows) =
     (if k \<noteq> key then path_from key n path rows
      else if status = ''failed'' then
        (if int (length (path @ [seq])) = n then Some (path @ [seq]) else path_from key n (path @ [seq]) rows)
      else path_from key n [] rows)"

definition strict_contiguity_path :: "(int \<times> string \<times> string) list \<Rightarrow> string \<Rightarrow> int \<Rightarrow> int list option" where
  "strict_contiguity_path rows key n = path_from key n [] rows"

text \<open>The log of \<open>probe_path_determinism\<close> and the resumes it tries.\<close>

definition probe_log :: "(int \<times> string \<times> string) list" where
  "probe_log =
     [(1, ''acct-1'', ''failed''), (2, ''acct-2'', ''pending''), (3, ''acct-1'', ''failed''), (4, ''acct-1'', ''pending''),
      (5, ''acct-1'', ''failed''), (6, ''acct-1'', ''failed''), (7, ''acct-1'', ''failed'')]"

definition resumed :: "int \<Rightarrow> (int \<times> string \<times> string) list \<Rightarrow> (int \<times> string \<times> string) list" where
  "resumed cp rows = filter (\<lambda>r. cp < fst r) rows"

lemma probe_path_determinism:
  "strict_contiguity_path probe_log ''acct-1'' 3 = Some [5, 6, 7]"
  "list_all (\<lambda>cp. strict_contiguity_path (resumed cp probe_log) ''acct-1'' 3 = Some [5, 6, 7]) [0, 1, 2, 3, 4]"
  by (simp_all add: strict_contiguity_path_def resumed_def probe_log_def)

text \<open>A resume inside the winning run finds a later match, or none.\<close>

lemma late_resume:
  "strict_contiguity_path (resumed 5 probe_log) ''acct-1'' 3 = None"
  "strict_contiguity_path (resumed 5 (probe_log @ [(8, ''acct-1'', ''failed'')])) ''acct-1'' 3 = Some [6, 7, 8]"
  by (simp_all add: strict_contiguity_path_def resumed_def probe_log_def)

abbreviation rows_of_key :: "string \<Rightarrow> (int \<times> string \<times> string) list \<Rightarrow> (int \<times> string \<times> string) list" where
  "rows_of_key key \<equiv> filter (\<lambda>(_, k, _). k = key)"

abbreviation all_failed :: "(int \<times> string \<times> string) list \<Rightarrow> bool" where
  "all_failed \<equiv> list_all (\<lambda>(_, _, status). status = ''failed'')"

text \<open>A path is a window of failed rows of the key, with no other row of the key between them.\<close>

lemma path_from_window:
  assumes "path_from key n b rows = Some p"
  shows "int (length p) = n \<and> (\<exists>u w v. rows_of_key key rows = u @ w @ v \<and> all_failed w \<and> w \<noteq> [] \<and>
    (p = map fst w \<or> u = [] \<and> p = b @ map fst w))"
  using assms
proof (induction rows arbitrary: b)
  case (Cons r rows)
  obtain s k status where r: "r = (s, k, status)" by (cases r)
  consider (foreign) "k \<noteq> key" | (hit) "k = key" "status = ''failed''" "int (length (b @ [s])) = n"
    | (more) "k = key" "status = ''failed''" "int (length (b @ [s])) \<noteq> n" | (broken) "k = key" "status \<noteq> ''failed''"
    by blast
  then show ?case
  proof cases
    case foreign
    with Cons r show ?thesis by auto
  next
    case hit
    with Cons.prems r have "p = b @ map fst [r]" by simp
    moreover have "rows_of_key key (r # rows) = [] @ [r] @ rows_of_key key rows" "all_failed [r]" using hit r by simp_all
    ultimately show ?thesis using hit(3) r by (metis (no_types, lifting) list.map(1,2) list.discI fst_conv)
  next
    case more
    with Cons.prems r have "path_from key n (b @ [s]) rows = Some p" by simp
    from Cons.IH [OF this] obtain u w v where w: "int (length p) = n" "rows_of_key key rows = u @ w @ v" "all_failed w" "w \<noteq> []"
      "p = map fst w \<or> u = [] \<and> p = b @ [s] @ map fst w" by auto
    from w(5) show ?thesis
    proof
      assume "p = map fst w"
      with w more r show ?thesis by (intro conjI exI [of _ "r # u"] exI [of _ w] exI [of _ v]) simp_all
    next
      assume "u = [] \<and> p = b @ [s] @ map fst w"
      with w more r show ?thesis by (intro conjI exI [of _ "[]"] exI [of _ "r # w"] exI [of _ v]) simp_all
    qed
  next
    case broken
    with Cons.prems r have "path_from key n [] rows = Some p" by simp
    from Cons.IH [OF this] obtain u w v where w: "int (length p) = n" "rows_of_key key rows = u @ w @ v" "all_failed w" "w \<noteq> []"
      "p = map fst w" by (metis append_Nil)
    with broken r show ?thesis by (intro conjI exI [of _ "r # u"] exI [of _ w] exI [of _ v]) simp_all
  qed
qed simp

lemma strict_path_window:
  assumes "strict_contiguity_path rows key n = Some p"
  obtains u w v where "int (length p) = n" "rows_of_key key rows = u @ w @ v" "all_failed w" "w \<noteq> []" "p = map fst w"
proof -
  from path_from_window [OF assms [unfolded strict_contiguity_path_def]] obtain u w v where
    "int (length p) = n" "rows_of_key key rows = u @ w @ v" "all_failed w" "w \<noteq> []" "p = map fst w" by (metis append_Nil)
  then show thesis by (rule that)
qed

text \<open>Rows before the path do not matter.\<close>

lemma path_from_shorter:
  assumes "path_from key n (c @ b) q = Some p" "hd p \<notin> set c" "int (length (c @ b)) < n"
  shows "path_from key n b q = Some p"
  using assms
proof (induction q arbitrary: b)
  case (Cons r q)
  obtain s k status where r: "r = (s, k, status)" by (cases r)
  show ?case
  proof (cases "k = key \<and> status = ''failed''")
    case True
    show ?thesis
    proof (cases "int (length (c @ b @ [s])) = n")
      case hit: True
      with Cons.prems(1) r True have p: "p = c @ b @ [s]" by simp
      with Cons.prems(2) have "c = []" by (cases c) auto
      with Cons.prems show ?thesis by simp
    next
      case False
      with Cons.prems r True have "path_from key n (c @ (b @ [s])) q = Some p" "int (length (c @ (b @ [s]))) < n" by simp_all
      from Cons.IH [OF this(1) Cons.prems(2) this(2)] this(2) r True show ?thesis by simp
    qed
  next
    case False
    with Cons r show ?thesis by (cases "k = key") (auto split: if_splits)
  qed
qed simp

lemma path_from_suffix:
  assumes "path_from key n b (r @ q) = Some p" "hd p \<notin> set b" "hd p \<notin> fst ` set r" "int (length b) < n"
  shows "path_from key n [] q = Some p"
  using assms
proof (induction r arbitrary: b)
  case Nil
  then show ?case using path_from_shorter [of key n b "[]" q p] by simp
next
  case (Cons x r)
  obtain s k status where x: "x = (s, k, status)" by (cases x)
  consider (foreign) "k \<noteq> key" | (hit) "k = key" "status = ''failed''" "int (length (b @ [s])) = n"
    | (more) "k = key" "status = ''failed''" "int (length (b @ [s])) \<noteq> n" | (broken) "k = key" "status \<noteq> ''failed''"
    by blast
  then show ?case
  proof cases
    case hit
    with Cons.prems x have "p = b @ [s]" by simp
    with Cons.prems x show ?thesis by (cases b) auto
  next
    case more
    with Cons.prems x show ?thesis by (intro Cons.IH [of "b @ [s]"]) simp_all
  qed (use Cons x in auto)
qed

lemma resume_split:
  assumes "sorted_wrt (<) (map fst rows)"
  shows "rows = takeWhile (\<lambda>r. fst r \<le> cp) rows @ filter (\<lambda>r. (cp :: int) < fst r) rows"
  using assms
proof (induction rows)
  case (Cons r rows)
  show ?case
  proof (cases "fst r \<le> cp")
    case False
    then have "filter (\<lambda>r. cp < fst r) rows = rows" using Cons.prems by (intro filter_True) auto
    with False show ?thesis by simp
  qed (use Cons in auto)
qed simp

lemma window_by_last:
  assumes "distinct (map fst k)" "k = u @ w @ v" "k = u' @ w' @ v'" "w \<noteq> []" "w' \<noteq> []"
    and "fst (last w) = fst (last w')" "length w = length w'"
  shows "w = w'"
proof -
  have pos: "k ! (length u + length w - 1) = last w" "length u + length w - 1 < length k"
    if "k = u @ w @ v" "w \<noteq> []" for u w v
    using that by (cases w; simp add: nth_append last_conv_nth)+
  have "length u + length w - 1 = length u' + length w' - 1"
    using assms(1,6) pos [OF assms(2,4)] pos [OF assms(3,5)] by (metis length_map nth_eq_iff_index_eq nth_map)
  then have "length u = length u'" using assms(4,5,7) by (cases w; cases w') auto
  with assms(2,3,7) show "w = w'" by auto
qed

text \<open>
  Under strict contiguity the path is a function of the log, so the id of a match can be made of its
  terminal revision: a scan that resumes anywhere before the first step of the match finds the very same
  path, and two scans of one log, from whatever checkpoints, that end in the same revision have taken the same
  steps.
\<close>

theorem terminal_determines_the_path:
  assumes "sorted_wrt (<) (map fst rows)"
  shows "(strict_contiguity_path rows key n = Some p \<and> cp < hd p \<longrightarrow>
       strict_contiguity_path (resumed cp rows) key n = Some p) \<and>
    (strict_contiguity_path (resumed c rows) key n = Some p \<and> strict_contiguity_path (resumed d rows) key n = Some q \<and>
       last p = last q \<longrightarrow> p = q)"
proof (intro conjI impI; elim conjE)
  assume p: "strict_contiguity_path rows key n = Some p" and cp: "cp < hd p"
  have "hd p \<notin> fst ` set (takeWhile (\<lambda>r. fst r \<le> cp) rows)" using cp by (auto dest: set_takeWhileD)
  moreover obtain u w v where "int (length p) = n" "rows_of_key key rows = u @ w @ v" "w \<noteq> []" "p = map fst w"
    by (rule strict_path_window [OF p])
  moreover from this have "0 < n" by (cases w) auto
  ultimately show "strict_contiguity_path (resumed cp rows) key n = Some p"
    using path_from_suffix [of key n "[]" "takeWhile (\<lambda>r. fst r \<le> cp) rows" "resumed cp rows" p] p
      resume_split [OF assms, of cp] by (simp add: strict_contiguity_path_def resumed_def)
next
  assume p: "strict_contiguity_path (resumed c rows) key n = Some p" and q: "strict_contiguity_path (resumed d rows) key n = Some q"
    and last: "last p = last q"
  obtain u w v where w: "int (length p) = n" "rows_of_key key (resumed c rows) = u @ w @ v" "w \<noteq> []" "p = map fst w"
    by (rule strict_path_window [OF p])
  obtain u' w' v' where w': "int (length q) = n" "rows_of_key key (resumed d rows) = u' @ w' @ v'" "w' \<noteq> []" "q = map fst w'"
    by (rule strict_path_window [OF q])
  have part: "rows_of_key key rows = (rows_of_key key (takeWhile (\<lambda>r. fst r \<le> e) rows)) @ rows_of_key key (resumed e rows)" for e
    using resume_split [OF assms, of e] unfolding resumed_def by (metis filter_append)
  have "distinct (map fst rows)" using assms by (simp add: strict_sorted_iff)
  then have "distinct (map fst (rows_of_key key rows))" by (rule distinct_map_filter)
  moreover have "rows_of_key key rows = (rows_of_key key (takeWhile (\<lambda>r. fst r \<le> c) rows) @ u) @ w @ v"
    "rows_of_key key rows = (rows_of_key key (takeWhile (\<lambda>r. fst r \<le> d) rows) @ u') @ w' @ v'"
    using part [of c] part [of d] w(2) w'(2) by simp_all
  moreover have "length w = length w'" "fst (last w) = fst (last w')"
    using w w' last by (auto simp: last_map)
  ultimately have "w = w'" using w(3) w'(3) window_by_last by metis
  with w w' show "p = q" by simp
qed

lemma terminal_determines_the_path_witness:
  "strict_contiguity_path (resumed 4 probe_log) ''acct-1'' 3 = Some [5, 6, 7]"
proof -
  have "sorted_wrt (<) (map fst probe_log)" by (simp add: probe_log_def)
  from terminal_determines_the_path [OF this, of "''acct-1''" 3 "[5, 6, 7]" 4] probe_path_determinism(1)
  show ?thesis by simp
qed

section \<open>The matcher and its open partial matches\<close>

text \<open>\<open>Row\<close>, \<open>Partial\<close> and \<open>WINDOW\<close>; times are in microseconds.  The dictionary of partial matches keeps the order of insertion.\<close>

record log_row =
  lr_seq :: int
  lr_committed_at :: time
  lr_account :: string
  lr_status :: string

record partial =
  pa_step_index :: int
  pa_matched :: "int list"
  pa_deadline :: time

type_synonym match_state = "(string \<times> partial) list"

definition WINDOW :: time where
  "WINDOW = 5 * 60 * 1000000"

definition expire :: "time \<Rightarrow> match_state \<Rightarrow> match_state" where
  "expire horizon st = filter (\<lambda>(_, p). \<not> pa_deadline p < horizon) st"

definition horizon_of :: "string \<Rightarrow> time option \<Rightarrow> log_row \<Rightarrow> time" where
  "horizon_of clock now row =
     (if clock = ''event'' then lr_committed_at row
      else (case now of Some t \<Rightarrow> t | None \<Rightarrow> lr_committed_at row))"

record matcher =
  mr_state :: match_state
  mr_peak :: nat
  mr_matched :: "int list"

text \<open>One turn of the loop of \<open>run_matcher\<close>.\<close>

definition matcher_step :: "(log_row \<Rightarrow> string) \<Rightarrow> int \<Rightarrow> string \<Rightarrow> time option \<Rightarrow> matcher \<Rightarrow> log_row \<Rightarrow> matcher" where
  "matcher_step key_of steps_wanted clock now m row =
     (let st = expire (horizon_of clock now row) (mr_state m);
          key = key_of row;
          (st', hits) =
            (if lr_status row = ''failed'' then
               (let p = (case map_of st key of
                           None \<Rightarrow> \<lparr>pa_step_index = 0, pa_matched = [], pa_deadline = lr_committed_at row + WINDOW\<rparr>
                         | Some p \<Rightarrow> p);
                    p' = p\<lparr>pa_step_index := pa_step_index p + 1, pa_matched := pa_matched p @ [lr_seq row]\<rparr>
                in if pa_step_index p' = steps_wanted then (AList.delete key st, [lr_seq row])
                   else (AList.update key p' st, []))
             else (AList.delete key st, []))
      in \<lparr>mr_state = st', mr_peak = max (mr_peak m) (length st'), mr_matched = mr_matched m @ hits\<rparr>)"

definition fresh_matcher :: matcher where
  "fresh_matcher = \<lparr>mr_state = [], mr_peak = 0, mr_matched = []\<rparr>"

definition run_matcher ::
  "log_row list \<Rightarrow> (log_row \<Rightarrow> string) \<Rightarrow> int \<Rightarrow> string \<Rightarrow> time option \<Rightarrow> nat \<times> nat \<times> int list" where
  "run_matcher rows key_of steps_wanted clock now =
     (let m = foldl (matcher_step key_of steps_wanted clock now) fresh_matcher rows
      in (mr_peak m, length (mr_state m), mr_matched m))"

text \<open>\<open>make_log\<close>: a list of rows per index; \<open>span / n\<close> rounds half to even.\<close>

definition make_row :: "time \<Rightarrow> time \<Rightarrow> nat \<Rightarrow> (string \<Rightarrow> int) \<Rightarrow> nat \<Rightarrow> log_row \<times> (string \<Rightarrow> int)" where
  "make_row t0 step accounts per_account i =
     (let account = ''acct-'' @ show_int (int (i mod accounts));
          k = per_account account
      in (\<lparr>lr_seq = int i, lr_committed_at = t0 + step * int i, lr_account = account,
           lr_status = (if k mod 4 < 3 then ''failed'' else ''pending'')\<rparr>,
          per_account(account := k + 1)))"

fun make_rows :: "time \<Rightarrow> time \<Rightarrow> nat \<Rightarrow> (string \<Rightarrow> int) \<Rightarrow> nat list \<Rightarrow> log_row list" where
  "make_rows t0 step accounts per_account [] = []"
| "make_rows t0 step accounts per_account (i # rest) =
     (case make_row t0 step accounts per_account i of
        (row, per_account') \<Rightarrow> row # make_rows t0 step accounts per_account' rest)"

definition make_log :: "time \<Rightarrow> nat \<Rightarrow> nat \<Rightarrow> nat \<Rightarrow> log_row list" where
  "make_log t0 rows accounts duration =
     make_rows t0 (int (half_even duration (max rows 1))) accounts (\<lambda>_. 0) [0..<rows]"

section \<open>Lookups\<close>

text \<open>What a row of a key does to the partial match of that key.\<close>

definition touch :: "int \<Rightarrow> log_row \<Rightarrow> partial option \<Rightarrow> partial option \<times> int list" where
  "touch n row old =
     (if lr_status row = ''failed'' then
        (let p = (case old of
                    None \<Rightarrow> \<lparr>pa_step_index = 0, pa_matched = [], pa_deadline = lr_committed_at row + WINDOW\<rparr>
                  | Some p \<Rightarrow> p)
         in if pa_step_index p + 1 = n then (None, [lr_seq row])
            else (Some (p\<lparr>pa_step_index := pa_step_index p + 1, pa_matched := pa_matched p @ [lr_seq row]\<rparr>), []))
      else (None, []))"

definition unexpired :: "time \<Rightarrow> partial option \<Rightarrow> partial option" where
  "unexpired h old = (case old of None \<Rightarrow> None | Some p \<Rightarrow> if pa_deadline p < h then None else Some p)"

lemma distinct_expire [simp]: "distinct (keys st) \<Longrightarrow> distinct (keys (expire h st))"
  unfolding expire_def by (rule distinct_map_filter)

lemma map_of_expire: "distinct (keys st) \<Longrightarrow> map_of (expire h st) k = unexpired h (map_of st k)"
proof (induction st)
  case (Cons e st)
  have new: "map_of st (fst e) = None" using Cons.prems by (simp add: map_of_eq_None_iff)
  have IH: "map_of (expire h st) k = unexpired h (map_of st k)" using Cons by simp
  show ?case
  proof (cases "fst e = k")
    case True
    with new IH show ?thesis by (cases e) (auto simp: expire_def unexpired_def)
  next
    case False
    with IH show ?thesis by (cases e) (simp add: expire_def)
  qed
qed (simp add: expire_def unexpired_def)

lemma step_distinct: "distinct (keys (mr_state m)) \<Longrightarrow> distinct (keys (mr_state (matcher_step key_of n clock now m row)))"
  by (auto simp: matcher_step_def Let_def distinct_update distinct_delete)

lemma step_lookup:
  assumes "distinct (keys (mr_state m))"
  shows "map_of (mr_state (matcher_step key_of n clock now m row)) k =
      (let old = unexpired (horizon_of clock now row) (map_of (mr_state m) k)
       in if key_of row = k then fst (touch n row old) else old)"
    and "mr_matched (matcher_step key_of n clock now m row) =
      mr_matched m @ snd (touch n row (unexpired (horizon_of clock now row) (map_of (mr_state m) (key_of row))))"
  using map_of_expire [OF assms, of "horizon_of clock now row"]
  by (auto simp: matcher_step_def touch_def Let_def update_conv' delete_conv' split: option.split)

lemma step_peak:
  "mr_peak (matcher_step key_of n clock now m row) =
     max (mr_peak m) (length (mr_state (matcher_step key_of n clock now m row)))"
  by (simp add: matcher_step_def Let_def split: prod.split)

lemma in_keys: "k \<in> set (keys st) \<longleftrightarrow> map_of st k \<noteq> None"
  by (simp add: map_of_eq_None_iff)

section \<open>The table of partial matches\<close>

abbreviation after :: "(log_row \<Rightarrow> string) \<Rightarrow> int \<Rightarrow> string \<Rightarrow> time option \<Rightarrow> log_row list \<Rightarrow> matcher" where
  "after key_of n clock now rows \<equiv> foldl (matcher_step key_of n clock now) fresh_matcher rows"

text \<open>An open partial match: at least one step, not all of them, and a deadline set by a failed row of the key.\<close>

definition partial_ok :: "(log_row \<Rightarrow> string) \<Rightarrow> int \<Rightarrow> log_row list \<Rightarrow> string \<Rightarrow> partial \<Rightarrow> bool" where
  "partial_ok key_of n rows k p \<longleftrightarrow>
     pa_step_index p = int (length (pa_matched p)) \<and> 1 \<le> pa_step_index p \<and> pa_step_index p < n \<and>
     (\<exists>r\<in>set rows. key_of r = k \<and> lr_status r = ''failed'' \<and> pa_deadline p = lr_committed_at r + WINDOW)"

definition matcher_inv :: "(log_row \<Rightarrow> string) \<Rightarrow> int \<Rightarrow> log_row list \<Rightarrow> matcher \<Rightarrow> bool" where
  "matcher_inv key_of n rows m \<longleftrightarrow>
     distinct (keys (mr_state m)) \<and> (\<forall>k p. map_of (mr_state m) k = Some p \<longrightarrow> partial_ok key_of n rows k p)"

lemma partial_ok_more: "partial_ok key_of n rows k p \<Longrightarrow> partial_ok key_of n (rows @ [r]) k p"
  by (auto simp: partial_ok_def)

lemma touch_ok:
  assumes "fst (touch n row old) = Some p" "\<And>q. old = Some q \<Longrightarrow> partial_ok key_of n rows (key_of row) q" "0 < n"
  shows "partial_ok key_of n (rows @ [row]) (key_of row) p"
proof (cases old)
  case None
  with assms(1,3) show ?thesis by (auto simp: touch_def partial_ok_def Let_def split: if_splits)
next
  case (Some q)
  with assms(2) have "partial_ok key_of n rows (key_of row) q" by simp
  with assms(1) Some show ?thesis by (auto simp: touch_def partial_ok_def Let_def split: if_splits)
qed

lemma matcher_inv_step:
  assumes "matcher_inv key_of n rows m" "0 < n"
  shows "matcher_inv key_of n (rows @ [r]) (matcher_step key_of n clock now m r)"
proof -
  have d: "distinct (keys (mr_state m))" using assms(1) by (simp add: matcher_inv_def)
  let ?old = "\<lambda>k. unexpired (horizon_of clock now r) (map_of (mr_state m) k)"
  have old: "partial_ok key_of n rows k q" if "?old k = Some q" for k q
    using assms(1) that by (auto simp: matcher_inv_def unexpired_def split: option.splits if_splits)
  have "partial_ok key_of n (rows @ [r]) k p" if "map_of (mr_state (matcher_step key_of n clock now m r)) k = Some p" for k p
  proof (cases "key_of r = k")
    case True
    with that have "fst (touch n r (?old k)) = Some p" by (simp add: step_lookup(1) [OF d] Let_def)
    with True old assms(2) show ?thesis using touch_ok [of n r "?old k" p key_of rows] by blast
  next
    case False
    with that old show ?thesis by (intro partial_ok_more) (simp add: step_lookup(1) [OF d] Let_def)
  qed
  then show ?thesis using step_distinct [OF d] by (simp add: matcher_inv_def)
qed

lemma matcher_inv_run: "0 < n \<Longrightarrow> matcher_inv key_of n rows (after key_of n clock now rows)"
proof (induction rows rule: rev_induct)
  case Nil
  show ?case by (simp add: matcher_inv_def fresh_matcher_def)
next
  case (snoc r rows)
  then show ?case by (simp add: matcher_inv_step)
qed

lemma state_count:
  assumes "matcher_inv key_of n rows m"
    and "\<And>k p. map_of (mr_state m) k = Some p \<Longrightarrow> k \<in> K" "finite K"
  shows "length (mr_state m) \<le> card K"
proof -
  have "set (keys (mr_state m)) \<subseteq> K" using assms(2) by (metis in_keys not_None_eq subsetI)
  from card_mono [OF assms(3) this] show ?thesis
    using assms(1) distinct_card [of "keys (mr_state m)"] by (simp add: matcher_inv_def)
qed

lemma state_count_keys: "matcher_inv key_of n rows m \<Longrightarrow> length (mr_state m) \<le> card (key_of ` set rows)"
  by (rule state_count [where K = "key_of ` set rows"], assumption) (fastforce simp: matcher_inv_def partial_ok_def)+

lemma peak_count: "0 < n \<Longrightarrow> mr_peak (after key_of n clock now rows) \<le> card (key_of ` set rows)"
proof (induction rows rule: rev_induct)
  case Nil
  show ?case by (simp add: fresh_matcher_def)
next
  case (snoc r rows)
  have "card (key_of ` set rows) \<le> card (key_of ` set (rows @ [r]))" by (intro card_mono) auto
  moreover have "length (mr_state (after key_of n clock now (rows @ [r]))) \<le> card (key_of ` set (rows @ [r]))"
    by (rule state_count_keys [OF matcher_inv_run [OF snoc.prems]])
  ultimately show ?case using snoc by (simp add: step_peak)
qed

text \<open>The first scenario of the probe: the peak never exceeds the number of accounts of the log.\<close>

lemma make_rows_accounts:
  "0 < accounts \<Longrightarrow>
     lr_account ` set (make_rows t0 step accounts per_account is) \<subseteq> (\<lambda>j. ''acct-'' @ show_int (int j)) ` {..<accounts}"
  by (induction "is" arbitrary: per_account) (auto simp: make_row_def Let_def)

lemma make_log_peak:
  assumes "0 < n" "0 < accounts"
  shows "mr_peak (after lr_account n clock now (make_log t0 rows accounts duration)) \<le> accounts"
proof -
  have "card (lr_account ` set (make_log t0 rows accounts duration)) \<le> card ((\<lambda>j. ''acct-'' @ show_int (int j)) ` {..<accounts})"
    unfolding make_log_def by (intro card_mono make_rows_accounts [OF assms(2)]) simp
  also have "\<dots> \<le> accounts" using card_image_le [of "{..<accounts}"] by fastforce
  finally show ?thesis using peak_count [OF assms(1)] by (meson order_trans)
qed

text \<open>By event time nothing older than the window is open.\<close>

lemma open_is_recent:
  assumes "0 < n" "map_of (mr_state (after key_of n ''event'' now (rows @ [r]))) k = Some p"
  shows "lr_committed_at r \<le> pa_deadline p"
proof -
  let ?m = "after key_of n ''event'' now rows"
  have inv: "matcher_inv key_of n rows ?m" by (rule matcher_inv_run [OF assms(1)])
  then have d: "distinct (keys (mr_state ?m))" by (simp add: matcher_inv_def)
  have "0 \<le> WINDOW" by (simp add: WINDOW_def)
  with assms(2) show ?thesis
    by (auto simp: step_lookup(1) [OF d] Let_def touch_def unexpired_def horizon_of_def split: option.splits if_splits)
qed

section \<open>Properties\<close>

text \<open>
  What bounds the table of partial matches: its peak is at most the number of correlation keys of the log
  on either clock, and by event time what is open after the last row are at most the keys with a failed row
  committed within the window before it.  Every open partial match has at least one step and fewer than are
  wanted.
\<close>

theorem open_matches_are_bounded:
  assumes "0 < steps_wanted" "run_matcher rows key_of steps_wanted clock now = (peak, final, matched)"
  shows "peak \<le> card (key_of ` set rows) \<and> final \<le> card (key_of ` set rows) \<and>
    matcher_inv key_of steps_wanted rows (foldl (matcher_step key_of steps_wanted clock now) fresh_matcher rows) \<and>
    (clock = ''event'' \<and> rows \<noteq> [] \<longrightarrow>
      final \<le> card (key_of ` {r \<in> set rows. lr_status r = ''failed'' \<and>
        lr_committed_at (last rows) \<le> lr_committed_at r + WINDOW}))"
proof (intro conjI impI)
  note inv = matcher_inv_run [OF assms(1), of key_of rows clock now]
  have run: "peak = mr_peak (after key_of steps_wanted clock now rows)"
    "final = length (mr_state (after key_of steps_wanted clock now rows))"
    using assms(2) by (simp_all add: run_matcher_def Let_def)
  show "peak \<le> card (key_of ` set rows)" unfolding run by (rule peak_count [OF assms(1)])
  show "final \<le> card (key_of ` set rows)" unfolding run by (rule state_count_keys [OF inv])
  show "matcher_inv key_of steps_wanted rows (after key_of steps_wanted clock now rows)" by (rule inv)
  assume c: "clock = ''event'' \<and> rows \<noteq> []"
  let ?K = "key_of ` {r \<in> set rows. lr_status r = ''failed'' \<and> lr_committed_at (last rows) \<le> lr_committed_at r + WINDOW}"
  have "k \<in> ?K" if k: "map_of (mr_state (after key_of steps_wanted clock now rows)) k = Some p" for k p
  proof -
    obtain r where "r \<in> set rows" "key_of r = k" "lr_status r = ''failed''" "pa_deadline p = lr_committed_at r + WINDOW"
      using inv k unfolding matcher_inv_def partial_ok_def by blast
    moreover have "lr_committed_at (last rows) \<le> pa_deadline p"
      using open_is_recent [OF assms(1), of key_of now "butlast rows" "last rows" k p] k c by simp
    ultimately show ?thesis by auto
  qed
  then show "final \<le> card ?K" unfolding run by (rule state_count [OF inv]) simp_all
qed

text \<open>
  A log of one account for the witnesses and counterexamples: three failures a second apart.
\<close>

definition three_strikes :: "log_row list" where
  "three_strikes =
     map (\<lambda>i. \<lparr>lr_seq = i, lr_committed_at = i * 1000000, lr_account = ''acct-1'', lr_status = ''failed''\<rparr>) [1, 2, 3]"

text \<open>By wall clock the matches of one log depend on when it is replayed.\<close>

lemma wall_clock_is_not_deterministic:
  "run_matcher three_strikes lr_account 3 ''wall'' None = (1, 0, [3])"
  "run_matcher three_strikes lr_account 3 ''wall'' (Some 400000000) = (1, 1, [])"
  by (simp_all add: run_matcher_def three_strikes_def matcher_step_def fresh_matcher_def horizon_of_def expire_def WINDOW_def Let_def)

lemma three_strikes_run: "run_matcher three_strikes lr_account 3 ''event'' None = (1, 0, [3])"
  by (simp add: run_matcher_def three_strikes_def matcher_step_def fresh_matcher_def horizon_of_def expire_def WINDOW_def Let_def)

lemma last_strike: "3 \<in> lr_seq ` {r \<in> set three_strikes. lr_account r = ''acct-1''}"
  by (rule image_eqI [where x = "last three_strikes"]) (simp_all add: three_strikes_def)

lemma open_matches_are_bounded_witness:
  "run_matcher three_strikes lr_account 4 ''event'' None = (1, 1, []) \<and>
   (1 :: nat) \<le> card (lr_account ` {r \<in> set three_strikes. lr_status r = ''failed'' \<and> 3000000 \<le> lr_committed_at r + WINDOW})"
proof -
  have run: "run_matcher three_strikes lr_account 4 ''event'' None = (1, 1, [])"
    by (simp add: run_matcher_def three_strikes_def matcher_step_def fresh_matcher_def horizon_of_def expire_def WINDOW_def Let_def)
  have "three_strikes \<noteq> []" "lr_committed_at (last three_strikes) = 3000000" by (simp_all add: three_strikes_def)
  with open_matches_are_bounded [OF _ run] run show ?thesis by simp
qed

section \<open>Keys do not interact\<close>

lemma unexpired_twice: "h0 \<le> h \<Longrightarrow> unexpired h (unexpired h0 old) = unexpired h old"
  by (auto simp: unexpired_def split: option.split)

text \<open>The matcher on a whole log and the matcher on the rows of one key, side by side.\<close>

definition agree_from :: "string \<Rightarrow> time \<Rightarrow> matcher \<Rightarrow> matcher \<Rightarrow> bool" where
  "agree_from k t m own \<longleftrightarrow> distinct (keys (mr_state m)) \<and> distinct (keys (mr_state own)) \<and>
     (\<forall>h\<ge>t. unexpired h (map_of (mr_state m) k) = unexpired h (map_of (mr_state own) k))"

lemma agree_foreign:
  assumes "agree_from k t m own" "t \<le> lr_committed_at r" "key_of r \<noteq> k"
  shows "agree_from k (lr_committed_at r) (matcher_step key_of n ''event'' now m r) own"
proof -
  from assms(1) have d: "distinct (keys (mr_state m))" by (simp add: agree_from_def)
  have "unexpired h (unexpired (lr_committed_at r) (map_of (mr_state m) k)) = unexpired h (map_of (mr_state own) k)"
    if "lr_committed_at r \<le> h" for h
    using assms(1,2) that by (simp add: unexpired_twice agree_from_def)
  with assms(1,3) step_distinct [OF d] show ?thesis
    by (simp add: agree_from_def step_lookup(1) [OF d] Let_def horizon_of_def)
qed

lemma agree_own:
  assumes "agree_from k t m own" "t \<le> lr_committed_at r" "key_of r = k"
  shows "agree_from k (lr_committed_at r) (matcher_step key_of n ''event'' now m r) (matcher_step key_of n ''event'' now own r)"
    and "\<exists>hits. set hits \<subseteq> {lr_seq r} \<and>
      mr_matched (matcher_step key_of n ''event'' now m r) = mr_matched m @ hits \<and>
      mr_matched (matcher_step key_of n ''event'' now own r) = mr_matched own @ hits"
proof -
  from assms(1) have d: "distinct (keys (mr_state m))" "distinct (keys (mr_state own))" by (simp_all add: agree_from_def)
  have same: "unexpired (lr_committed_at r) (map_of (mr_state m) k) = unexpired (lr_committed_at r) (map_of (mr_state own) k)"
    using assms(1,2) by (simp add: agree_from_def)
  show "agree_from k (lr_committed_at r) (matcher_step key_of n ''event'' now m r) (matcher_step key_of n ''event'' now own r)"
    using assms(3) same step_distinct [OF d(1)] step_distinct [OF d(2)]
    by (simp add: agree_from_def step_lookup(1) [OF d(1)] step_lookup(1) [OF d(2)] Let_def horizon_of_def)
  have "set (snd (touch n r old)) \<subseteq> {lr_seq r}" for old by (auto simp: touch_def Let_def)
  then show "\<exists>hits. set hits \<subseteq> {lr_seq r} \<and>
      mr_matched (matcher_step key_of n ''event'' now m r) = mr_matched m @ hits \<and>
      mr_matched (matcher_step key_of n ''event'' now own r) = mr_matched own @ hits"
    using assms(3) same by (simp add: step_lookup(2) [OF d(1)] step_lookup(2) [OF d(2)] horizon_of_def)
qed

lemma foreign_hits:
  assumes "distinct (keys (mr_state m))"
  obtains hits where "set hits \<subseteq> {lr_seq r}" "mr_matched (matcher_step key_of n clock now m r) = mr_matched m @ hits"
  by (rule that [of "snd (touch n r (unexpired (horizon_of clock now r) (map_of (mr_state m) (key_of r))))"])
     (auto simp: touch_def Let_def step_lookup(2) [OF assms])

lemma agree_run:
  assumes "sorted (map lr_committed_at rows)" "distinct (map lr_seq rows)"
  shows "(\<forall>t. (\<forall>r\<in>set rows. lr_committed_at r \<le> t) \<longrightarrow>
      agree_from k t (after key_of n ''event'' now rows) (after key_of n ''event'' now (filter (\<lambda>r. key_of r = k) rows))) \<and>
    set (mr_matched (after key_of n ''event'' now rows)) \<subseteq> lr_seq ` set rows \<and>
    mr_matched (after key_of n ''event'' now (filter (\<lambda>r. key_of r = k) rows)) =
      filter (\<lambda>s. s \<in> lr_seq ` {r \<in> set rows. key_of r = k}) (mr_matched (after key_of n ''event'' now rows))"
  using assms
proof (induction rows rule: rev_induct)
  case Nil
  show ?case by (simp add: agree_from_def fresh_matcher_def)
next
  case (snoc r rows)
  let ?own = "filter (\<lambda>r. key_of r = k) rows"
  let ?m = "after key_of n ''event'' now rows" and ?o = "after key_of n ''event'' now ?own"
  have IH: "agree_from k (lr_committed_at r) ?m ?o" "set (mr_matched ?m) \<subseteq> lr_seq ` set rows"
    "mr_matched ?o = filter (\<lambda>s. s \<in> lr_seq ` {r \<in> set rows. key_of r = k}) (mr_matched ?m)"
    using snoc by (auto simp: sorted_append)
  have new: "lr_seq r \<notin> lr_seq ` set rows" using snoc.prems(2) by simp
  have later: "agree_from k t m own" if "agree_from k (lr_committed_at r) m own" "lr_committed_at r \<le> t" for t m own
    using that by (simp add: agree_from_def)
  have old: "filter (\<lambda>s. s \<in> lr_seq ` {x \<in> set (rows @ [r]). key_of x = k}) (mr_matched ?m) = mr_matched ?o"
    unfolding IH(3) using IH(2) new by (intro filter_cong refl) auto
  show ?case
  proof (cases "key_of r = k")
    case True
    note own = agree_own [OF IH(1) order_refl, of key_of n now, OF True]
    from own(2) obtain hits where hits: "set hits \<subseteq> {lr_seq r}"
      "mr_matched (matcher_step key_of n ''event'' now ?m r) = mr_matched ?m @ hits"
      "mr_matched (matcher_step key_of n ''event'' now ?o r) = mr_matched ?o @ hits" by blast
    have "filter (\<lambda>s. s \<in> lr_seq ` {x \<in> set (rows @ [r]). key_of x = k}) hits = hits"
      using hits(1) True by (intro filter_True) auto
    with True own(1) hits old IH(2) later show ?thesis by auto
  next
    case False
    have d: "distinct (keys (mr_state ?m))" using IH(1) by (simp add: agree_from_def)
    obtain hits where hits: "set hits \<subseteq> {lr_seq r}"
      "mr_matched (matcher_step key_of n ''event'' now ?m r) = mr_matched ?m @ hits" by (rule foreign_hits [OF d])
    have "filter (\<lambda>s. s \<in> lr_seq ` {x \<in> set (rows @ [r]). key_of x = k}) hits = []"
    proof -
      from hits(1) have "\<forall>s\<in>set hits. s = lr_seq r" by blast
      with False new show ?thesis by (auto simp: filter_empty_conv image_iff)
    qed
    with False agree_foreign [OF IH(1) order_refl, of key_of n now, OF False] hits old IH(2) later show ?thesis by auto
  qed
qed

text \<open>
  By event time the correlation keys do not interact: on a log in commit order, the matches of a key are
  those of a matcher that is given the rows of that key alone, although every row of every key sweeps the
  partial matches that have expired.
\<close>

theorem keys_do_not_interact:
  assumes "sorted (map lr_committed_at rows)" "distinct (map lr_seq rows)"
    and "run_matcher rows key_of steps_wanted ''event'' now = (peak, final, matched)"
    and "run_matcher (filter (\<lambda>r. key_of r = k) rows) key_of steps_wanted ''event'' now = (own_peak, own_final, own)"
  shows "own = filter (\<lambda>s. s \<in> lr_seq ` {r \<in> set rows. key_of r = k}) matched"
  using agree_run [OF assms(1,2), of k key_of steps_wanted now] assms(3,4) by (simp add: run_matcher_def Let_def)

lemma keys_do_not_interact_witness:
  "snd (snd (run_matcher (filter (\<lambda>r. lr_account r = ''acct-1'') three_strikes) lr_account 3 ''event'' None)) = [3]"
proof -
  have "sorted (map lr_committed_at three_strikes)" "distinct (map lr_seq three_strikes)" by (simp_all add: three_strikes_def)
  moreover note three_strikes_run
  moreover obtain peak final own where own:
    "run_matcher (filter (\<lambda>r. lr_account r = ''acct-1'') three_strikes) lr_account 3 ''event'' None = (peak, final, own)"
    using prod_cases3 by blast
  ultimately have "own = filter (\<lambda>s. s \<in> lr_seq ` {r \<in> set three_strikes. lr_account r = ''acct-1''}) [3]"
    by (rule keys_do_not_interact)
  then show ?thesis using own last_strike by simp
qed

section \<open>The matcher selects the strict path\<close>

definition path_view :: "(log_row \<Rightarrow> string) \<Rightarrow> log_row \<Rightarrow> int \<times> string \<times> string" where
  "path_view key_of r = (lr_seq r, key_of r, lr_status r)"

text \<open>The open partial match of a key is the path the selection has collected, and no row of the log expires it.\<close>

definition holds_path :: "string \<Rightarrow> log_row list \<Rightarrow> matcher \<Rightarrow> int list \<Rightarrow> bool" where
  "holds_path k rest m path \<longleftrightarrow> distinct (keys (mr_state m)) \<and>
     (case map_of (mr_state m) k of
        None \<Rightarrow> path = []
      | Some p \<Rightarrow> path = pa_matched p \<and> pa_step_index p = int (length path) \<and>
          (\<forall>r\<in>set rest. lr_committed_at r \<le> pa_deadline p))"

lemma holds_path_old:
  assumes "holds_path k (r # rest) m path"
  shows "unexpired (horizon_of ''event'' now r) (map_of (mr_state m) k) = map_of (mr_state m) k"
  using assms by (auto simp: holds_path_def unexpired_def horizon_of_def simp del: map_of_eq_Some_iff split: option.splits)

lemma holds_path_foreign:
  assumes "holds_path k (r # rest) m path" "key_of r \<noteq> k"
  shows "holds_path k rest (matcher_step key_of n ''event'' now m r) path"
proof -
  have d: "distinct (keys (mr_state m))" using assms(1) by (simp add: holds_path_def)
  have "map_of (mr_state (matcher_step key_of n ''event'' now m r)) k = map_of (mr_state m) k"
    using assms(2) holds_path_old [OF assms(1), of now] by (simp add: step_lookup(1) [OF d] Let_def)
  with assms(1) step_distinct [OF d] show ?thesis
    by (cases "map_of (mr_state m) k") (simp_all add: holds_path_def del: map_of_eq_Some_iff)
qed

lemma holds_path_own:
  assumes "holds_path k (r # rest) m path" "key_of r = k"
    and near: "\<forall>x\<in>set rest. lr_committed_at x \<le> lr_committed_at r + WINDOW"
  shows "if lr_status r = ''failed'' \<and> int (length (path @ [lr_seq r])) = n
    then mr_matched (matcher_step key_of n ''event'' now m r) = mr_matched m @ [lr_seq r]
    else mr_matched (matcher_step key_of n ''event'' now m r) = mr_matched m \<and>
      holds_path k rest (matcher_step key_of n ''event'' now m r) (if lr_status r = ''failed'' then path @ [lr_seq r] else [])"
proof -
  have d: "distinct (keys (mr_state m))" using assms(1) by (simp add: holds_path_def)
  note old = holds_path_old [OF assms(1), of now]
  have look: "map_of (mr_state (matcher_step key_of n ''event'' now m r)) k = fst (touch n r (map_of (mr_state m) k))"
    "mr_matched (matcher_step key_of n ''event'' now m r) = mr_matched m @ snd (touch n r (map_of (mr_state m) k))"
    using assms(2) old by (simp_all add: step_lookup(1) [OF d] step_lookup(2) [OF d] Let_def)
  have d': "distinct (keys (mr_state (matcher_step key_of n ''event'' now m r)))" by (rule step_distinct [OF d])
  show ?thesis
    using assms(1) near look d'
    by (auto simp: holds_path_def touch_def Let_def simp del: map_of_eq_Some_iff split: option.splits if_splits)
qed

lemma matched_grows:
  "distinct (keys (mr_state m)) \<Longrightarrow>
     \<exists>hits. set hits \<subseteq> lr_seq ` set rows \<and>
       mr_matched (foldl (matcher_step key_of n clock now) m rows) = mr_matched m @ hits"
proof (induction rows arbitrary: m)
  case (Cons r rows)
  obtain a where a: "set a \<subseteq> {lr_seq r}" "mr_matched (matcher_step key_of n clock now m r) = mr_matched m @ a"
    by (rule foreign_hits [OF Cons.prems])
  from Cons.IH [OF step_distinct [OF Cons.prems], of key_of n clock now r] obtain b where
    "set b \<subseteq> lr_seq ` set rows" "mr_matched (foldl (matcher_step key_of n clock now) (matcher_step key_of n clock now m r) rows) =
      mr_matched (matcher_step key_of n clock now m r) @ b" by blast
  with a show ?case by (intro exI [of _ "a @ b"]) auto
qed simp

lemma find_skip: "\<forall>s\<in>set xs. \<not> mine s \<Longrightarrow> find mine (xs @ ys) = find mine ys"
  by (induction xs) simp_all

lemma first_hit:
  assumes "holds_path k rows m path"
    and "\<forall>r\<in>set rows. \<forall>x\<in>set rows. lr_committed_at x \<le> lr_committed_at r + WINDOW"
    and "distinct (map lr_seq rows)" "\<forall>s\<in>set (mr_matched m). \<not> mine s"
    and "\<forall>r\<in>set rows. mine (lr_seq r) \<longleftrightarrow> key_of r = k"
  shows "find mine (mr_matched (foldl (matcher_step key_of n ''event'' now) m rows)) =
    map_option last (path_from k n path (map (path_view key_of) rows))"
  using assms
proof (induction rows arbitrary: m path)
  case Nil
  then show ?case by (simp add: find_None_iff)
next
  case (Cons r rows)
  let ?m = "matcher_step key_of n ''event'' now m r"
  have d: "distinct (keys (mr_state m))" using Cons.prems(1) by (simp add: holds_path_def)
  have rest: "\<forall>r\<in>set rows. \<forall>x\<in>set rows. lr_committed_at x \<le> lr_committed_at r + WINDOW" "distinct (map lr_seq rows)"
    "\<forall>r\<in>set rows. mine (lr_seq r) \<longleftrightarrow> key_of r = k" "\<forall>x\<in>set rows. lr_committed_at x \<le> lr_committed_at r + WINDOW"
    using Cons.prems by simp_all
  consider (foreign) "key_of r \<noteq> k" | (hit) "key_of r = k" "lr_status r = ''failed''" "int (length (path @ [lr_seq r])) = n"
    | (continues) "key_of r = k" "\<not> (lr_status r = ''failed'' \<and> int (length (path @ [lr_seq r])) = n)" by blast
  then show ?case
  proof cases
    case foreign
    obtain hits where hits: "set hits \<subseteq> {lr_seq r}" "mr_matched ?m = mr_matched m @ hits" by (rule foreign_hits [OF d])
    have "\<forall>s\<in>set (mr_matched ?m). \<not> mine s" using hits foreign Cons.prems(4,5) by auto
    from Cons.IH [OF holds_path_foreign [OF Cons.prems(1), of key_of n now, OF foreign] rest(1,2) this rest(3)] foreign
    show ?thesis by (simp add: path_view_def)
  next
    case hit
    have one: "mr_matched ?m = mr_matched m @ [lr_seq r]"
      using holds_path_own [OF Cons.prems(1), of key_of n now, OF hit(1) rest(4)] hit(2,3) by simp
    obtain hits where "mr_matched (foldl (matcher_step key_of n ''event'' now) ?m rows) = mr_matched ?m @ hits"
      using matched_grows [OF step_distinct [OF d]] by blast
    moreover have "find mine (mr_matched m @ lr_seq r # hits) = Some (lr_seq r)"
      using Cons.prems(4,5) hit(1) by (simp add: find_skip)
    ultimately show ?thesis using hit one by (simp add: path_view_def)
  next
    case continues
    from holds_path_own [OF Cons.prems(1), of key_of n now, OF continues(1) rest(4)] continues(2)
    have same: "mr_matched ?m = mr_matched m"
      and path: "holds_path k rows ?m (if lr_status r = ''failed'' then path @ [lr_seq r] else [])" by (auto split: if_splits)
    from Cons.prems(4) same have "\<forall>s\<in>set (mr_matched ?m). \<not> mine s" by simp
    from Cons.IH [OF path rest(1,2) this rest(3)] continues show ?thesis by (auto simp: path_view_def)
  qed
qed

text \<open>
  C36: The matcher implements the selection: on any log that fits in one window, whatever the other keys do,
  the first match of a key that the matcher reports by event time ends in the last revision of the path that
  strict contiguity selects for that key, and the matcher reports none exactly when there is no such path.
\<close>

theorem matcher_finds_the_strict_path:
  assumes "\<forall>r\<in>set rows. \<forall>x\<in>set rows. lr_committed_at x \<le> lr_committed_at r + WINDOW"
    and "distinct (map lr_seq rows)"
    and "run_matcher rows key_of steps_wanted ''event'' now = (peak, final, matched)"
  shows "find (\<lambda>s. s \<in> lr_seq ` {r \<in> set rows. key_of r = k}) matched =
    map_option last (strict_contiguity_path (map (path_view key_of) rows) k steps_wanted)"
proof -
  let ?mine = "\<lambda>s. s \<in> lr_seq ` {r \<in> set rows. key_of r = k}"
  have start: "holds_path k rows fresh_matcher []" "\<forall>s\<in>set (mr_matched fresh_matcher). \<not> ?mine s"
    by (simp_all add: holds_path_def fresh_matcher_def)
  have mine: "\<forall>r\<in>set rows. ?mine (lr_seq r) \<longleftrightarrow> key_of r = k"
    using assms(2) by (auto simp: distinct_map dest: inj_onD)
  have "find ?mine (mr_matched (after key_of steps_wanted ''event'' now rows)) =
      map_option last (path_from k steps_wanted [] (map (path_view key_of) rows))"
    by (rule first_hit [OF start(1) assms(1,2) start(2) mine])
  with assms(3) show ?thesis by (simp add: run_matcher_def strict_contiguity_path_def Let_def)
qed

lemma matcher_finds_the_strict_path_witness:
  "map_option last (strict_contiguity_path (map (path_view lr_account) three_strikes) ''acct-1'' 3) = Some 3"
proof -
  have run: "run_matcher three_strikes lr_account 3 ''event'' None = (1, 0, [3])" by (rule three_strikes_run)
  have "\<forall>r\<in>set three_strikes. \<forall>x\<in>set three_strikes. lr_committed_at x \<le> lr_committed_at r + WINDOW"
    "distinct (map lr_seq three_strikes)" by (simp_all add: three_strikes_def WINDOW_def)
  note found = matcher_finds_the_strict_path [OF this run, of "''acct-1''"]
  have "3 \<in> lr_seq ` {r \<in> set three_strikes. lr_account r = ''acct-1''}" by (rule last_strike)
  with found show ?thesis by simp
qed

end
