(* ===== verification/Log_Scan.thy ===== *)
theory Log_Scan
  imports Admin_Facts Planning Reads
begin

text \<open>
  What a matcher reads of the log (\<open>.scratch/projects/008-derived-projection/probes/p06_delta_scan_cost.py\<close>): a scan
  of a stream in the order of commit time and revision id, page by page, with the document of each row and the
  keys it changed.  On a snapshot stream the documents are in the rows; on a \<open>delta/1\<close> stream each row's window is
  folded.
\<close>

section \<open>Rows of the log\<close>

text \<open>
  \<open>_as_dict\<close>.  A column is a text or a decoded object; a payload that is not an object raises here, where the
  Python code raises at its first use as a dictionary.
\<close>

definition as_dict :: "platform \<Rightarrow> json \<Rightarrow> exn + doc" where
  "as_dict P payload = rbind (column_loads P payload) as_doc"

text \<open>\<open>payload.get("del", [])\<close> and \<open>payload.get("set", {})\<close>, of the types the store writes.\<close>

definition deleted_keys :: "doc \<Rightarrow> exn + json list" where
  "deleted_keys payload =
     (case map_of payload ''del'' of None \<Rightarrow> Inr [] | Some (JList ks) \<Rightarrow> Inr ks | Some _ \<Rightarrow> Inl (Python TypeError))"

definition set_values :: "doc \<Rightarrow> exn + doc" where
  "set_values payload =
     (case map_of payload ''set'' of None \<Rightarrow> Inr [] | Some (JObj c) \<Rightarrow> Inr c | Some _ \<Rightarrow> Inl (Python TypeError))"

definition fold_row :: "platform \<Rightarrow> revision_row \<Rightarrow> doc \<Rightarrow> exn + doc" where
  "fold_row P r doc =
     rbind (as_dict P (rv_payload r)) (\<lambda>payload.
       if rv_encoding r = snapshot_id then Inr payload
       else
         rbind (deleted_keys payload) (\<lambda>tombstones.
         rbind (lift_py (pop_tombstones tombstones doc)) (\<lambda>kept.
         rbind (set_values payload) (\<lambda>changes. Inr (set_changes changes kept)))))"

text \<open>\<open>_fold\<close>: every logical document of a window, by revision.\<close>

fun fold_rows :: "platform \<Rightarrow> revision_row list \<Rightarrow> doc \<Rightarrow> (int \<times> doc) list \<Rightarrow> exn + doc \<times> (int \<times> doc) list" where
  "fold_rows P [] doc out = Inr (doc, out)"
| "fold_rows P (r # window) doc out =
     rbind (fold_row P r doc) (\<lambda>doc'. fold_rows P window doc' (AList.update (rv_revision r) doc' out))"

definition fold_window :: "platform \<Rightarrow> revision_row list \<Rightarrow> exn + (int \<times> doc) list" where
  "fold_window P window = rbind (fold_rows P window [] []) (\<lambda>(_, out). Inr out)"

section \<open>One row of a scan\<close>

text \<open>The first revision of the window of a delta row, with one more for the predecessor.\<close>

definition scan_start :: "int \<Rightarrow> int \<Rightarrow> int" where
  "scan_start every n =
     (let lo = if n = 0 \<or> n mod every = 0 then n else max 0 (n - every)
      in if 0 < n then max 0 (min lo (n - 1)) else 0)"

definition doc_at :: "(int \<times> doc) list \<Rightarrow> int \<Rightarrow> exn + doc" where
  "doc_at docs n = (case map_of docs n of None \<Rightarrow> Inl (Python KeyError) | Some doc \<Rightarrow> Inr doc)"

definition scan_delta_row :: "platform \<Rightarrow> db \<Rightarrow> int \<Rightarrow> revision_row \<Rightarrow> exn + doc \<times> string set" where
  "scan_delta_row P d every r =
     (let n = rv_revision r in
      rbind (fold_window P (select_window d (rv_stream r) (rv_aggregate_id r) (scan_start every n) n)) (\<lambda>docs.
      rbind (doc_at docs n) (\<lambda>doc.
        if n = 0 then Inr (doc, set (keys doc))
        else rbind (doc_at docs (n - 1)) (\<lambda>prev. Inr (doc, changed_keys (Some prev) doc)))))"

definition scan_snapshot_row :: "platform \<Rightarrow> db \<Rightarrow> revision_row \<Rightarrow> exn + doc \<times> string set" where
  "scan_snapshot_row P d r =
     rbind (as_dict P (rv_payload r)) (\<lambda>doc.
       if rv_revision r = 0 then Inr (doc, set (keys doc))
       else
         (case select_window d (rv_stream r) (rv_aggregate_id r) (rv_revision r - 1) (rv_revision r - 1) of
            [] \<Rightarrow> Inl (Python OtherException)
          | prev # _ \<Rightarrow> rbind (as_dict P (rv_payload prev)) (\<lambda>b. Inr (doc, changed_keys (Some b) doc))))"

text \<open>The predicate of the probe: the status changed and is now \<open>failed\<close>.\<close>

definition row_matches :: "doc \<times> string set \<Rightarrow> bool" where
  "row_matches = (\<lambda>(doc, changed). ''status'' \<in> changed \<and>
     (case map_of doc ''status'' of None \<Rightarrow> False | Some v \<Rightarrow> py_eq v (JStr ''failed'')))"

section \<open>What a row means\<close>

text \<open>The logical document of a row, as the store decodes it, and the keys that differ from its predecessor's.\<close>

definition row_before :: "db \<Rightarrow> revision_row \<Rightarrow> revision_row \<Rightarrow> bool" where
  "row_before d q r \<longleftrightarrow> q \<in> set (db_revisions d) \<and> rv_stream r = rv_stream q \<and> rv_aggregate_id r = rv_aggregate_id q \<and>
     rv_revision r = rv_revision q + 1"

definition logical_row :: "platform \<Rightarrow> encodings \<Rightarrow> db \<Rightarrow> revision_row \<Rightarrow> doc \<times> string set" where
  "logical_row P encs d r =
     (row_doc P encs d r,
      case List.find (\<lambda>q. row_before d q r) (db_revisions d) of
        None \<Rightarrow> set (keys (row_doc P encs d r))
      | Some q \<Rightarrow> changed_keys (Some (row_doc P encs d q)) (row_doc P encs d r))"

lemma same_key:
  assumes "store_ok P encs d" "q \<in> set (db_revisions d)" "r \<in> set (db_revisions d)" "rv_key q = rv_key r"
  shows "q = r"
  using assms by (auto simp: store_ok_def distinct_map inj_on_def)

lemma row_at:
  assumes ok: "store_ok P encs d" and r: "r \<in> set (db_revisions d)" and "0 \<le> m" "m \<le> rv_revision r"
  obtains q where "q \<in> set (db_revisions d)" "rv_stream q = rv_stream r" "rv_aggregate_id q = rv_aggregate_id r"
    "rv_revision q = m"
proof -
  have "(rv_stream r, rv_aggregate_id r, rv_revision r) \<in> rv_key ` set (db_revisions d)" using r by (force simp: rv_key_def)
  from all_revisions_below [OF ok this assms(3,4)] that show thesis by (auto simp: rv_key_def)
qed

lemma row_nonneg: "store_ok P encs d \<Longrightarrow> r \<in> set (db_revisions d) \<Longrightarrow> 0 \<le> rv_revision r"
  by (simp add: store_ok_def log_row_ok_def)

lemma logical_first:
  assumes "store_ok P encs d" "rv_revision r = 0"
  shows "logical_row P encs d r = (row_doc P encs d r, set (keys (row_doc P encs d r)))"
proof -
  have "List.find (\<lambda>q. row_before d q r) (db_revisions d) = None"
    using row_nonneg [OF assms(1)] assms(2) by (fastforce simp: find_None_iff row_before_def)
  then show ?thesis by (simp add: logical_row_def)
qed

lemma logical_next:
  assumes ok: "store_ok P encs d" and q: "row_before d q r"
  shows "logical_row P encs d r = (row_doc P encs d r, changed_keys (Some (row_doc P encs d q)) (row_doc P encs d r))"
proof -
  have "List.find (\<lambda>q. row_before d q r) (db_revisions d) = Some q"
  proof (cases "List.find (\<lambda>q. row_before d q r) (db_revisions d)")
    case None
    with q show ?thesis by (auto simp: find_None_iff row_before_def)
  next
    case (Some p)
    then have p: "row_before d p r" by (auto simp: find_Some_iff)
    have "p = q" by (rule same_key [OF ok]) (use p q in \<open>auto simp: row_before_def rv_key_def\<close>)
    with Some show ?thesis by simp
  qed
  then show ?thesis by (simp add: logical_row_def)
qed

section \<open>Folding\<close>

lemma first_is_snapshot:
  assumes "store_ok P encs d" "r \<in> set (db_revisions d)" "rv_revision r = 0"
  shows "rv_encoding r = snapshot_id"
proof -
  have "is_checkpoint (encoding_for encs (rv_stream r)) (rv_revision r)"
    using assms(3) by (cases "encoding_for encs (rv_stream r)") simp_all
  with assms(1,2) show ?thesis by (simp add: store_ok_def log_row_ok_def)
qed

lemma predecessor:
  assumes "store_ok P encs d" "r \<in> set (db_revisions d)" "rv_revision r \<noteq> 0"
  obtains q where "row_before d q r"
proof -
  have "0 \<le> rv_revision r - 1" using row_nonneg [OF assms(1,2)] assms(3) by simp
  then obtain q where "q \<in> set (db_revisions d)" "rv_stream q = rv_stream r" "rv_aggregate_id q = rv_aggregate_id r"
    "rv_revision q = rv_revision r - 1" by (rule row_at [OF assms(1,2)]) simp
  then show thesis by (intro that [of q]) (simp add: row_before_def)
qed

lemma snapshot_payload:
  assumes ok: "store_ok P encs d" and r: "r \<in> set (db_revisions d)" and snap: "rv_encoding r = snapshot_id"
  shows "as_dict P (rv_payload r) = Inr (row_doc P encs d r)"
proof -
  have "column_loads P (rv_payload r) = Inr (JObj (row_doc P encs d r))"
  proof (cases "rv_revision r = 0")
    case True
    then have "is_checkpoint (encoding_for encs (rv_stream r)) (rv_revision r)"
      by (cases "encoding_for encs (rv_stream r)") simp_all
    from decode_checkpoint [OF ok r this] row_doc [OF ok r] show ?thesis by simp
  next
    case False
    obtain q where q: "row_before d q r" by (rule predecessor [OF ok r False])
    then have "q \<in> set (db_revisions d)" by (simp add: row_before_def)
    from decode_successor [OF ok this r _ _ _ row_doc [OF ok this]] row_doc [OF ok r] q snap show ?thesis
      by (simp add: row_before_def)
  qed
  then show ?thesis by (simp add: as_dict_def as_doc_def)
qed

lemma pop_tombstones_any: "pop_tombstones ks d = Inr e \<Longrightarrow> \<exists>e'. pop_tombstones ks d' = Inr e'"
  by (induction ks arbitrary: d d') (auto split: json.splits)

text \<open>A delta row folds on any document, and on its predecessor's it gives its own.\<close>

lemma fold_delta_row:
  assumes ok: "store_ok P encs d" and r: "r \<in> set (db_revisions d)" and q: "row_before d q r"
    and delta: "rv_encoding r \<noteq> snapshot_id"
  shows "\<exists>e. fold_row P r doc = Inr e" "fold_row P r (row_doc P encs d q) = Inr (row_doc P encs d r)"
proof -
  have q': "q \<in> set (db_revisions d)" "rv_stream r = rv_stream q" "rv_aggregate_id r = rv_aggregate_id q"
    "rv_revision r = rv_revision q + 1" using q by (simp_all add: row_before_def)
  have "rbind (column_loads P (rv_payload r)) (\<lambda>payload. delta_step payload (rv_revision q) (JObj (row_doc P encs d q))) =
      Inr (JObj (row_doc P encs d r))"
    using decode_successor [OF ok q'(1) r q'(2-4) row_doc [OF ok q'(1)]] delta row_doc [OF ok r] by simp
  then obtain payload where "column_loads P (rv_payload r) = Inr payload"
    "delta_step payload (rv_revision q) (JObj (row_doc P encs d q)) = Inr (JObj (row_doc P encs d r))" by auto
  then obtain p ks changes e where p: "column_loads P (rv_payload r) = Inr (JObj p)" "map_of p ''set'' = Some (JObj changes)"
    "map_of p ''del'' = Some (JList ks)" "pop_tombstones ks (row_doc P encs d q) = Inr e"
    "row_doc P encs d r = set_changes changes e"
    by (auto simp: delta_step_def delta_decode_row_Inr delta_decode_def split: json.splits if_splits option.splits)
  note row = fold_row_def as_dict_def as_doc_def deleted_keys_def set_values_def lift_py_def
  obtain e' where "pop_tombstones ks doc = Inr e'" using pop_tombstones_any [OF p(4)] by blast
  with p delta show "\<exists>e. fold_row P r doc = Inr e" by (simp add: row)
  from p delta show "fold_row P r (row_doc P encs d q) = Inr (row_doc P encs d r)" by (simp add: row)
qed

lemma fold_snapshot_row:
  assumes "store_ok P encs d" "r \<in> set (db_revisions d)" "rv_encoding r = snapshot_id"
  shows "fold_row P r doc = Inr (row_doc P encs d r)"
  using snapshot_payload [OF assms] assms(3) by (simp add: fold_row_def)

lemma fold_any_row:
  assumes "store_ok P encs d" "r \<in> set (db_revisions d)"
  shows "\<exists>e. fold_row P r doc = Inr e"
proof (cases "rv_encoding r = snapshot_id")
  case False
  then have "rv_revision r \<noteq> 0" using first_is_snapshot [OF assms] by blast
  then obtain q where "row_before d q r" by (rule predecessor [OF assms])
  from fold_delta_row(1) [OF assms this False] show ?thesis .
qed (use fold_snapshot_row [OF assms] in blast)

lemma fold_rows_snoc:
  "fold_rows P (w @ [r]) doc out =
     rbind (fold_rows P w doc out) (\<lambda>(doc1, out1).
     rbind (fold_row P r doc1) (\<lambda>doc'. Inr (doc', AList.update (rv_revision r) doc' out1)))"
proof (induction w arbitrary: doc out)
  case (Cons q w)
  show ?case by (cases "fold_row P q doc") (simp_all add: Cons.IH)
qed simp

lemma fold_rows_any:
  assumes "store_ok P encs d"
  shows "\<forall>r\<in>set w. r \<in> set (db_revisions d) \<Longrightarrow> \<exists>res. fold_rows P w doc out = Inr res"
proof (induction w arbitrary: doc out)
  case (Cons r w)
  then obtain e where "fold_row P r doc = Inr e" using fold_any_row [OF assms, of r doc] by auto
  with Cons show ?case by simp
qed simp

text \<open>From its first snapshot on, a window folds to the logical documents.\<close>

lemma window_extends:
  assumes ok: "store_ok P encs d" and r: "r \<in> set (db_revisions d)" and "lo \<le> rv_revision r"
  shows "select_window d (rv_stream r) (rv_aggregate_id r) lo (rv_revision r) =
    select_window d (rv_stream r) (rv_aggregate_id r) lo (rv_revision r - 1) @ [r]"
  using select_window_split [OF assms(3), of d "rv_stream r" "rv_aggregate_id r" "rv_revision r"]
    select_window_single [of d r] ok r by (simp add: store_ok_def)

lemma fold_from_snapshot:
  assumes ok: "store_ok P encs d" and ck: "ck \<in> set (db_revisions d)" "rv_encoding ck = snapshot_id" "lo \<le> rv_revision ck"
    and r: "r \<in> set (db_revisions d)" "rv_stream r = rv_stream ck" "rv_aggregate_id r = rv_aggregate_id ck"
    and "rv_revision ck \<le> rv_revision r"
  shows "\<exists>out. fold_rows P (select_window d (rv_stream ck) (rv_aggregate_id ck) lo (rv_revision r)) [] [] =
      Inr (row_doc P encs d r, out) \<and>
    (\<forall>q\<in>set (db_revisions d). rv_stream q = rv_stream ck \<and> rv_aggregate_id q = rv_aggregate_id ck \<and>
       rv_revision ck \<le> rv_revision q \<and> rv_revision q \<le> rv_revision r \<longrightarrow>
       map_of out (rv_revision q) = Some (row_doc P encs d q))"
proof -
  let ?here = "\<lambda>q. q \<in> set (db_revisions d) \<and> rv_stream q = rv_stream ck \<and> rv_aggregate_id q = rv_aggregate_id ck"
  let ?w = "\<lambda>n. select_window d (rv_stream ck) (rv_aggregate_id ck) lo n"
  have unique: "p = q" if "?here p" "?here q" "rv_revision p = rv_revision q" for p q
    by (rule same_key [OF ok]) (use that in \<open>simp_all add: rv_key_def\<close>)
  have "\<forall>r. ?here r \<and> rv_revision r = n \<longrightarrow>
      (\<exists>out. fold_rows P (?w n) [] [] = Inr (row_doc P encs d r, out) \<and>
         (\<forall>q. ?here q \<and> rv_revision ck \<le> rv_revision q \<and> rv_revision q \<le> n \<longrightarrow>
            map_of out (rv_revision q) = Some (row_doc P encs d q)))" if "rv_revision ck \<le> n" for n
    using that
  proof (induction n rule: int_ge_induct)
    case base
    have "\<exists>out. fold_rows P (?w (rv_revision ck)) [] [] = Inr (row_doc P encs d ck, out) \<and>
        map_of out (rv_revision ck) = Some (row_doc P encs d ck)"
    proof -
      obtain doc1 out1 where "fold_rows P (?w (rv_revision ck - 1)) [] [] = Inr (doc1, out1)"
        using fold_rows_any [OF ok, of "?w (rv_revision ck - 1)" "[]" "[]"] by (auto simp: set_select_window)
      then show ?thesis
        by (simp add: window_extends [OF ok ck(1,3)] fold_rows_snoc fold_snapshot_row [OF ok ck(1,2)] update_conv')
    qed
    then show ?case using unique ck(1) by (metis order_antisym)
  next
    case (step n)
    show ?case
    proof (intro allI impI; elim conjE)
      fix r assume r: "r \<in> set (db_revisions d)" "rv_stream r = rv_stream ck" "rv_aggregate_id r = rv_aggregate_id ck"
        "rv_revision r = n + 1"
      have "rv_revision r \<noteq> 0" using row_nonneg [OF ok ck(1)] step.hyps r(4) by simp
      then obtain q where q: "row_before d q r" by (rule predecessor [OF ok r(1)])
      then have q': "?here q" "rv_revision q = n" using r by (auto simp: row_before_def)
      from step.IH q' obtain out where out: "fold_rows P (?w n) [] [] = Inr (row_doc P encs d q, out)"
        "\<forall>q. ?here q \<and> rv_revision ck \<le> rv_revision q \<and> rv_revision q \<le> n \<longrightarrow>
          map_of out (rv_revision q) = Some (row_doc P encs d q)" by blast
      have "fold_row P r (row_doc P encs d q) = Inr (row_doc P encs d r)"
        using fold_snapshot_row [OF ok r(1)] fold_delta_row(2) [OF ok r(1) q] by blast
      moreover have "?w (n + 1) = ?w n @ [r]"
        using window_extends [OF ok r(1), of lo] r ck(3) step.hyps by simp
      ultimately have "fold_rows P (?w (n + 1)) [] [] =
          Inr (row_doc P encs d r, AList.update (n + 1) (row_doc P encs d r) out)"
        using out(1) r(4) by (simp add: fold_rows_snoc)
      moreover have "map_of (AList.update (n + 1) (row_doc P encs d r) out) (rv_revision p) = Some (row_doc P encs d p)"
        if p: "?here p" "rv_revision ck \<le> rv_revision p" "rv_revision p \<le> n + 1" for p
      proof (cases "rv_revision p = n + 1")
        case True
        then have "p = r" using unique [OF p(1), of r] r by simp
        with True show ?thesis by (simp add: update_conv')
      next
        case False
        with p out(2) show ?thesis by (simp add: update_conv')
      qed
      ultimately show "\<exists>out. fold_rows P (?w (n + 1)) [] [] = Inr (row_doc P encs d r, out) \<and>
         (\<forall>q. ?here q \<and> rv_revision ck \<le> rv_revision q \<and> rv_revision q \<le> n + 1 \<longrightarrow>
            map_of out (rv_revision q) = Some (row_doc P encs d q))" by blast
    qed
  qed
  from this [OF assms(8)] r show ?thesis by blast
qed

text \<open>What a scan finds at a row of a delta stream that is not a later checkpoint.\<close>

lemma scan_delta_logical:
  assumes ok: "store_ok P encs d" and encs: "encs (rv_stream r) = Some (Delta every)" and r: "r \<in> set (db_revisions d)"
    and inner: "rv_revision r = 0 \<or> rv_revision r mod every \<noteq> 0"
  shows "scan_delta_row P d every r = Inr (logical_row P encs d r)"
proof (cases "rv_revision r = 0")
  case True
  have "scan_start every 0 = 0" by (simp add: scan_start_def)
  moreover obtain out where "fold_rows P (select_window d (rv_stream r) (rv_aggregate_id r) 0 (rv_revision r)) [] [] =
      Inr (row_doc P encs d r, out)" "map_of out (rv_revision r) = Some (row_doc P encs d r)"
    using fold_from_snapshot [OF ok r first_is_snapshot [OF ok r True], of 0 r] r True by auto
  ultimately show ?thesis
    using True logical_first [OF ok True] by (simp add: scan_delta_row_def fold_window_def doc_at_def)
next
  case False
  have every: "1 \<le> every" using ok encs by (auto simp: store_ok_def encodings_ok_def)
  have pos: "0 < rv_revision r" using row_nonneg [OF ok r] False by simp
  define c where "c = checkpoint_below every (rv_revision r)"
  have c: "0 \<le> c" "c \<le> rv_revision r" "rv_revision r - every < c" "c mod every = 0"
    using checkpoint_below_bounds [OF every row_nonneg [OF ok r]] by (simp_all add: c_def)
  then have below: "c \<le> rv_revision r - 1" using inner False by (cases "c = rv_revision r") auto
  have start: "scan_start every (rv_revision r) \<le> c"
    using c below inner False pos by (simp add: scan_start_def)
  obtain ck where ck: "ck \<in> set (db_revisions d)" "rv_stream ck = rv_stream r" "rv_aggregate_id ck = rv_aggregate_id r"
    "rv_revision ck = c" by (rule row_at [OF ok r c(1,2)])
  have snap: "rv_encoding ck = snapshot_id"
    using ok ck encs c(4) by (simp add: store_ok_def log_row_ok_def encoding_for_def)
  obtain q where q: "row_before d q r" by (rule predecessor [OF ok r False])
  obtain out where out: "fold_rows P (select_window d (rv_stream r) (rv_aggregate_id r)
      (scan_start every (rv_revision r)) (rv_revision r)) [] [] = Inr (row_doc P encs d r, out)"
    "\<forall>q\<in>set (db_revisions d). rv_stream q = rv_stream ck \<and> rv_aggregate_id q = rv_aggregate_id ck \<and>
       rv_revision ck \<le> rv_revision q \<and> rv_revision q \<le> rv_revision r \<longrightarrow>
       map_of out (rv_revision q) = Some (row_doc P encs d q)"
    using fold_from_snapshot [OF ok ck(1) snap, of "scan_start every (rv_revision r)" r] start r ck c(2) by auto
  have "map_of out (rv_revision r) = Some (row_doc P encs d r)" using out(2) r ck c(2) by simp
  moreover have "map_of out (rv_revision r - 1) = Some (row_doc P encs d q)"
    using out(2) [rule_format, of q] q ck below by (simp add: row_before_def)
  ultimately show ?thesis
    using False out(1) logical_next [OF ok q] by (simp add: scan_delta_row_def fold_window_def doc_at_def Let_def)
qed

lemma scan_snapshot_logical:
  assumes ok: "store_ok P encs d" and r: "r \<in> set (db_revisions d)" and plain: "encoding_for encs (rv_stream r) = Snapshot"
  shows "scan_snapshot_row P d r = Inr (logical_row P encs d r)"
proof -
  have snap: "rv_encoding q = snapshot_id" if "q \<in> set (db_revisions d)" "rv_stream q = rv_stream r" for q
    using ok that plain by (simp add: store_ok_def log_row_ok_def)
  show ?thesis
  proof (cases "rv_revision r = 0")
    case True
    then show ?thesis
      using snapshot_payload [OF ok r snap [OF r refl]] logical_first [OF ok True] by (simp add: scan_snapshot_row_def)
  next
    case False
    obtain q where q: "row_before d q r" by (rule predecessor [OF ok r False])
    then have q': "q \<in> set (db_revisions d)" "rv_stream q = rv_stream r" by (simp_all add: row_before_def)
    have "select_window d (rv_stream r) (rv_aggregate_id r) (rv_revision r - 1) (rv_revision r - 1) = [q]"
      using select_window_single [of d q] ok q by (simp add: store_ok_def row_before_def)
    with False snapshot_payload [OF ok r snap [OF r refl]] snapshot_payload [OF ok q'(1) snap [OF q']] logical_next [OF ok q]
    show ?thesis by (simp add: scan_snapshot_row_def)
  qed
qed

section \<open>The pages of a scan\<close>

definition scan_key :: "revision_row \<Rightarrow> time \<times> uuid" where
  "scan_key r = (rv_committed_at r, rv_revision_id r)"

definition PAGE :: nat where
  "PAGE = 100"

text \<open>\<open>SCAN_SQL\<close>; the first cursor is the epoch and the nil UUID.\<close>

definition scan_fetch :: "db \<Rightarrow> string \<Rightarrow> nat \<Rightarrow> (time \<times> uuid) option \<Rightarrow> revision_row list" where
  "scan_fetch d s n cursor =
     take n (sort_key scan_key
       (filter (\<lambda>r. rv_stream r = s \<and> after_key scan_key cursor r) (db_revisions d)))"

definition first_cursor :: "(time \<times> uuid) option" where
  "first_cursor = Some (0, 0)"

definition stream_rows :: "db \<Rightarrow> string \<Rightarrow> revision_row list" where
  "stream_rows d s = sort_key scan_key (filter (\<lambda>r. rv_stream r = s) (db_revisions d))"

interpretation scan_pager: keyset_pager "stream_rows d s" scan_key "scan_fetch d s" for d :: db and s :: string
  by unfold_locales (simp_all add: scan_fetch_def stream_rows_def filter_sort_key conj_ac)

record cost =
  co_queries :: nat
  co_rows_fetched :: nat
  co_scanned :: nat
  co_matched :: nat

definition no_cost :: cost where
  "no_cost = \<lparr>co_queries = 0, co_rows_fetched = 0, co_scanned = 0, co_matched = 0\<rparr>"

definition queried :: "nat \<Rightarrow> nat \<Rightarrow> cost \<Rightarrow> cost" where
  "queried q f c = c\<lparr>co_queries := co_queries c + q, co_rows_fetched := co_rows_fetched c + f\<rparr>"

definition scanned :: "bool \<Rightarrow> cost \<Rightarrow> cost" where
  "scanned hit c = c\<lparr>co_scanned := co_scanned c + 1, co_matched := co_matched c + (if hit then 1 else 0)\<rparr>"

text \<open>The loop over the pages that all scans share: \<open>page\<close> is what is done with the rows of one.\<close>

function scan_log ::
  "(revision_row list \<Rightarrow> cost \<Rightarrow> exn + cost) \<Rightarrow> db \<Rightarrow> string \<Rightarrow> (time \<times> uuid) option \<Rightarrow> cost \<Rightarrow> exn + cost" where
  "scan_log page d s cursor c =
     (let rows = scan_fetch d s PAGE cursor; c' = queried 1 (length rows) c in
      if rows = [] then Inr c'
      else rbind (page rows c') (\<lambda>c''. scan_log page d s (Some (scan_key (last rows))) c''))"
  by pat_completeness auto
termination
proof (relation "measure (\<lambda>(page, d, s, cursor, c). length (filter (after_key scan_key cursor) (stream_rows d s)))")
  fix page :: "revision_row list \<Rightarrow> cost \<Rightarrow> exn + cost" and d :: db and s cursor rows c c' c''
  assume rows: "rows = scan_fetch d s PAGE cursor" "rows \<noteq> []"
  have last: "last rows \<in> set (stream_rows d s)" "after_key scan_key cursor (last rows)"
    using scan_pager.page_members [of "last rows" d s PAGE cursor] last_in_set [OF rows(2)] rows(1) by simp_all
  have "after_key scan_key cursor r" if "after_key scan_key (Some (scan_key (last rows))) r" for r
    using last(2) that by (auto simp: after_key_def split: option.splits)
  then have "filter (after_key scan_key (Some (scan_key (last rows)))) (stream_rows d s) =
      filter (after_key scan_key (Some (scan_key (last rows)))) (filter (after_key scan_key cursor) (stream_rows d s))"
    by (auto intro!: filter_cong)
  moreover have "length (filter (after_key scan_key (Some (scan_key (last rows)))) (filter (after_key scan_key cursor) (stream_rows d s)))
      < length (filter (after_key scan_key cursor) (stream_rows d s))"
    by (rule length_filter_less [of "last rows"]) (use last in \<open>auto simp: after_key_def\<close>)
  ultimately show "((page, d, s, Some (scan_key (last rows)), c''), page, d, s, cursor, c)
      \<in> measure (\<lambda>(page, d, s, cursor, c). length (filter (after_key scan_key cursor) (stream_rows d s)))"
    by simp
qed simp

declare scan_log.simps [simp del]

text \<open>Row by row: the queries a row needs, the rows they fetch, and whether it matches.\<close>

fun each_row :: "(revision_row \<Rightarrow> exn + nat \<times> nat \<times> bool) \<Rightarrow> revision_row list \<Rightarrow> cost \<Rightarrow> exn + cost" where
  "each_row f [] c = Inr c"
| "each_row f (r # rows) c = rbind (f r) (\<lambda>(q, n, hit). each_row f rows (scanned hit (queried q n c)))"

definition scan_snapshot :: "platform \<Rightarrow> db \<Rightarrow> string \<Rightarrow> exn + cost" where
  "scan_snapshot P d s =
     scan_log (each_row (\<lambda>r. rbind (scan_snapshot_row P d r) (\<lambda>res.
         Inr (if rv_revision r = 0 then (0, 0, row_matches res)
              else (1, length (select_window d s (rv_aggregate_id r) (rv_revision r - 1) (rv_revision r - 1)), row_matches res)))))
       d s first_cursor no_cost"

definition scan_delta :: "platform \<Rightarrow> db \<Rightarrow> int \<Rightarrow> string \<Rightarrow> exn + cost" where
  "scan_delta P d every s =
     scan_log (each_row (\<lambda>r. rbind (scan_delta_row P d every r) (\<lambda>res.
         Inr (1, length (select_window d s (rv_aggregate_id r) (scan_start every (rv_revision r)) (rv_revision r)), row_matches res))))
       d s first_cursor no_cost"

definition scan_snapshot_nochanged :: "platform \<Rightarrow> db \<Rightarrow> string \<Rightarrow> exn + cost" where
  "scan_snapshot_nochanged P d s =
     scan_log (each_row (\<lambda>r. rbind (as_dict P (rv_payload r)) (\<lambda>doc.
         Inr (0, 0, case map_of doc ''status'' of None \<Rightarrow> False | Some v \<Rightarrow> py_eq v (JStr ''failed'')))))
       d s first_cursor no_cost"

text \<open>\<open>scan_snapshot_batched\<close>: the predecessors of a page in one query, as a dictionary.\<close>

definition batch_prev :: "db \<Rightarrow> string \<Rightarrow> (uuid \<times> int) list \<Rightarrow> revision_row list" where
  "batch_prev d s pairs =
     filter (\<lambda>q. rv_stream q = s \<and> (rv_aggregate_id q, rv_revision q) \<in> set pairs) (db_revisions d)"

definition batched_row :: "platform \<Rightarrow> ((uuid \<times> int) \<times> doc) list \<Rightarrow> revision_row \<Rightarrow> exn + doc \<times> string set" where
  "batched_row P prev_by_key r =
     rbind (as_dict P (rv_payload r)) (\<lambda>doc.
       if rv_revision r = 0 then Inr (doc, set (keys doc))
       else
         (case map_of prev_by_key (rv_aggregate_id r, rv_revision r - 1) of
            None \<Rightarrow> Inl (Python KeyError)
          | Some prev \<Rightarrow> Inr (doc, changed_keys (Some prev) doc)))"

definition batched_page :: "platform \<Rightarrow> db \<Rightarrow> string \<Rightarrow> revision_row list \<Rightarrow> cost \<Rightarrow> exn + cost" where
  "batched_page P d s rows c =
     (let pairs = map (\<lambda>r. (rv_aggregate_id r, rv_revision r - 1)) (filter (\<lambda>r. 0 < rv_revision r) rows);
          prev_rows = (if pairs = [] then [] else batch_prev d s pairs);
          c' = (if pairs = [] then c else queried 1 (length prev_rows) c)
      in rbind (rmap (\<lambda>q. rbind (as_dict P (rv_payload q)) (\<lambda>doc. Inr ((rv_aggregate_id q, rv_revision q), doc))) prev_rows)
           (\<lambda>prev_by_key. each_row (\<lambda>r. rbind (batched_row P prev_by_key r) (\<lambda>res. Inr (0, 0, row_matches res))) rows c'))"

definition scan_snapshot_batched :: "platform \<Rightarrow> db \<Rightarrow> string \<Rightarrow> exn + cost" where
  "scan_snapshot_batched P d s = scan_log (batched_page P d s) d s first_cursor no_cost"

section \<open>Counting\<close>

lemma each_row_counts:
  assumes "\<And>r. r \<in> set rows \<Longrightarrow> \<exists>q n. f r = Inr (q, n, M r)"
  shows "\<exists>c'. each_row f rows c = Inr c' \<and> co_scanned c' = co_scanned c + length rows \<and>
    co_matched c' = co_matched c + length (filter M rows)"
  using assms
proof (induction rows arbitrary: c)
  case (Cons r rows)
  obtain q n where "f r = Inr (q, n, M r)" using Cons.prems [of r] by auto
  moreover obtain c' where "each_row f rows (scanned (M r) (queried q n c)) = Inr c'"
    "co_scanned c' = co_scanned (scanned (M r) (queried q n c)) + length rows"
    "co_matched c' = co_matched (scanned (M r) (queried q n c)) + length (filter M rows)"
    using Cons.IH [of "scanned (M r) (queried q n c)"] Cons.prems by auto
  ultimately show ?case by (simp add: scanned_def queried_def)
qed simp

lemma set_stream_rows: "set (stream_rows d s) = {r \<in> set (db_revisions d). rv_stream r = s}"
  by (auto simp: stream_rows_def)

lemma distinct_scan_keys: "store_ok P encs d \<Longrightarrow> distinct (map scan_key (stream_rows d s))"
proof -
  assume "store_ok P encs d"
  then have "distinct (map rv_revision_id (db_revisions d))" by (simp add: store_ok_def)
  then have "distinct (db_revisions d)" "inj_on rv_revision_id (set (db_revisions d))" by (simp_all add: distinct_map)
  then show ?thesis by (auto simp: distinct_map stream_rows_def inj_on_def scan_key_def)
qed

lemma scan_log_counts:
  assumes "distinct (map scan_key (stream_rows d s))"
    and "\<And>rows c. set rows \<subseteq> set (stream_rows d s) \<Longrightarrow>
      \<exists>c'. page rows c = Inr c' \<and> co_scanned c' = co_scanned c + length rows \<and>
        co_matched c' = co_matched c + length (filter M rows)"
  shows "\<exists>c'. scan_log page d s cursor c = Inr c' \<and>
    co_scanned c' = co_scanned c + length (scan_pager.remaining d s cursor) \<and>
    co_matched c' = co_matched c + length (filter M (scan_pager.remaining d s cursor))"
  using assms
proof (induction page d s cursor c rule: scan_log.induct)
  case (1 page d s cursor c)
  let ?rows = "scan_fetch d s PAGE cursor" and ?c = "queried 1 (length (scan_fetch d s PAGE cursor)) c"
  show ?case
  proof (cases "?rows = []")
    case True
    moreover from True have "scan_pager.remaining d s cursor = []"
      using scan_pager.page_empty [of PAGE d s cursor] by (simp add: PAGE_def)
    ultimately show ?thesis by (simp add: scan_log.simps [of page d s cursor c] queried_def)
  next
    case False
    have "set ?rows \<subseteq> set (stream_rows d s)" using scan_pager.page_members by blast
    from "1.prems"(2) [OF this, of ?c] obtain c1 where c1: "page ?rows ?c = Inr c1" "co_scanned c1 = co_scanned c + length ?rows"
      "co_matched c1 = co_matched c + length (filter M ?rows)" by (auto simp: queried_def)
    from "1.IH" [OF refl refl False "1.prems"(1)] "1.prems"(2) obtain c' where
      "scan_log page d s (Some (scan_key (last ?rows))) c1 = Inr c'"
      "co_scanned c' = co_scanned c1 + length (scan_pager.remaining d s (Some (scan_key (last ?rows))))"
      "co_matched c' = co_matched c1 + length (filter M (scan_pager.remaining d s (Some (scan_key (last ?rows)))))" by metis
    with c1 False scan_pager.page_split [OF "1.prems"(1) False] show ?thesis
      by (simp add: scan_log.simps [of page d s cursor c] Let_def)
  qed
qed

lemma batched_page_counts:
  assumes ok: "store_ok P encs d" and plain: "encoding_for encs s = Snapshot" and rows: "set rows \<subseteq> set (stream_rows d s)"
  shows "\<exists>c'. batched_page P d s rows c = Inr c' \<and> co_scanned c' = co_scanned c + length rows \<and>
    co_matched c' = co_matched c + length (filter (\<lambda>r. row_matches (logical_row P encs d r)) rows)"
proof -
  define pairs where "pairs = map (\<lambda>r. (rv_aggregate_id r, rv_revision r - 1)) (filter (\<lambda>r. 0 < rv_revision r) rows)"
  define prev where "prev = (if pairs = [] then [] else batch_prev d s pairs)"
  define by_key where "by_key = map (\<lambda>q. ((rv_aggregate_id q, rv_revision q), row_doc P encs d q)) prev"
  have prev: "q \<in> set (db_revisions d)" "rv_stream q = s" if "q \<in> set prev" for q
    using that by (auto simp: prev_def batch_prev_def split: if_split_asm)
  have payload: "as_dict P (rv_payload q) = Inr (row_doc P encs d q)" if "q \<in> set (db_revisions d)" "rv_stream q = s" for q
    by (rule snapshot_payload [OF ok that(1)]) (use ok that plain in \<open>simp add: store_ok_def log_row_ok_def\<close>)
  have dict: "rmap (\<lambda>q. rbind (as_dict P (rv_payload q)) (\<lambda>doc. Inr ((rv_aggregate_id q, rv_revision q), doc))) prev = Inr by_key"
    unfolding by_key_def by (rule rmap_map) (simp add: payload prev)
  have "distinct (map rv_key (db_revisions d))" using ok by (simp add: store_ok_def)
  then have "distinct prev" by (simp add: prev_def batch_prev_def distinct_map)
  then have "distinct (map fst by_key)"
    by (auto simp: by_key_def distinct_map inj_on_def rv_key_def prev(2) intro!: same_key [OF ok] dest: prev(1))
  have found: "map_of by_key (rv_aggregate_id r, rv_revision r - 1) = Some (row_doc P encs d q)"
    if "r \<in> set rows" "row_before d q r" for q r
  proof -
    have r: "rv_stream r = s" using rows that(1) by (auto simp: set_stream_rows)
    have q: "q \<in> set (db_revisions d)" "rv_stream q = s" "rv_aggregate_id q = rv_aggregate_id r" "rv_revision q = rv_revision r - 1"
      using that(2) r by (simp_all add: row_before_def)
    have "0 < rv_revision r" using row_nonneg [OF ok q(1)] q(4) by simp
    then have "(rv_aggregate_id r, rv_revision r - 1) \<in> set pairs" using that(1) by (force simp: pairs_def)
    then have "q \<in> set prev" using q by (auto simp: prev_def batch_prev_def)
    then have "((rv_aggregate_id r, rv_revision r - 1), row_doc P encs d q) \<in> set by_key"
      unfolding by_key_def set_map using q(3,4) by (intro image_eqI [where x = q]) simp_all
    with \<open>distinct (map fst by_key)\<close> show ?thesis by simp
  qed
  have row: "batched_row P by_key r = Inr (logical_row P encs d r)" if r: "r \<in> set rows" for r
  proof -
    have r': "r \<in> set (db_revisions d)" "rv_stream r = s" using rows r by (auto simp: set_stream_rows)
    show ?thesis
    proof (cases "rv_revision r = 0")
      case True
      with logical_first [OF ok True] payload [OF r'] show ?thesis by (simp add: batched_row_def)
    next
      case False
      obtain q where q: "row_before d q r" by (rule predecessor [OF ok r'(1) False])
      with False logical_next [OF ok q] payload [OF r'] found [OF r q] show ?thesis by (simp add: batched_row_def)
    qed
  qed
  let ?c = "if pairs = [] then c else queried 1 (length prev) c"
  have "\<exists>c'. each_row (\<lambda>r. rbind (batched_row P by_key r) (\<lambda>res. Inr (0, 0, row_matches res))) rows ?c = Inr c' \<and>
      co_scanned c' = co_scanned ?c + length rows \<and>
      co_matched c' = co_matched ?c + length (filter (\<lambda>r. row_matches (logical_row P encs d r)) rows)"
    by (rule each_row_counts) (simp add: row)
  moreover have "co_scanned ?c = co_scanned c" "co_matched ?c = co_matched c" by (simp_all add: queried_def)
  ultimately show ?thesis
    unfolding batched_page_def Let_def pairs_def [symmetric] prev_def [symmetric] dict rbind_simps by (simp only:)
qed

text \<open>A scan has read each row of the stream once and counted those whose logical change matches.\<close>

definition counts_stream :: "platform \<Rightarrow> encodings \<Rightarrow> db \<Rightarrow> string \<Rightarrow> cost \<Rightarrow> bool" where
  "counts_stream P encs d s c \<longleftrightarrow>
     co_scanned c = length (stream_rows d s) \<and>
     co_matched c = length (filter (\<lambda>r. row_matches (logical_row P encs d r)) (stream_rows d s))"

lemma scan_counts_stream:
  assumes ok: "store_ok P encs d" and times: "\<forall>r\<in>set (db_revisions d). 0 < rv_committed_at r"
    and "\<And>rows c. set rows \<subseteq> set (stream_rows d s) \<Longrightarrow>
      \<exists>c'. page rows c = Inr c' \<and> co_scanned c' = co_scanned c + length rows \<and>
        co_matched c' = co_matched c + length (filter (\<lambda>r. row_matches (logical_row P encs d r)) rows)"
  shows "\<exists>c. scan_log page d s first_cursor no_cost = Inr c \<and> counts_stream P encs d s c"
proof -
  have "scan_pager.remaining d s first_cursor = stream_rows d s"
    using times by (intro filter_True) (auto simp: after_key_def first_cursor_def scan_key_def set_stream_rows)
  moreover have "\<exists>c'. scan_log page d s first_cursor no_cost = Inr c' \<and>
      co_scanned c' = co_scanned no_cost + length (scan_pager.remaining d s first_cursor) \<and>
      co_matched c' = co_matched no_cost +
        length (filter (\<lambda>r. row_matches (logical_row P encs d r)) (scan_pager.remaining d s first_cursor))"
    by (rule scan_log_counts [OF distinct_scan_keys [OF ok] assms(3)])
  ultimately show ?thesis by (simp add: counts_stream_def no_cost_def)
qed



text \<open>
  At a later checkpoint the window begins one row earlier, at a delta, and the predecessor is folded on an
  empty document: here the status was \<open>failed\<close> all along, and the row counts as one where it became so.
\<close>

definition checkpoint_log :: db where
  "checkpoint_log =
     empty_db\<lparr>db_revisions :=
       [sample_row\<lparr>rv_payload := JObj [(''status'', JStr ''failed''), (''amount'', JInt 0)]\<rparr>,
        sample_row\<lparr>rv_revision := 1, rv_encoding := delta_id,
          rv_payload := JObj (delta_payload 2 [(''status'', JStr ''failed''), (''amount'', JInt 1)]
            [(''status'', JStr ''failed''), (''amount'', JInt 0)] (Some 0))\<rparr>,
        sample_row\<lparr>rv_revision := 2, rv_payload := JObj [(''status'', JStr ''failed''), (''amount'', JInt 2)]\<rparr>]\<rparr>"

lemma checkpoint_predecessor_is_partial:
  "map_option row_matches (case scan_delta_row sample_platform checkpoint_log 2 (db_revisions checkpoint_log ! 2) of
     Inl _ \<Rightarrow> None | Inr res \<Rightarrow> Some res) = Some True"
  "map_option row_matches (case scan_delta_row sample_platform checkpoint_log 2 (db_revisions checkpoint_log ! 1) of
     Inl _ \<Rightarrow> None | Inr res \<Rightarrow> Some res) = Some False"
  by (simp_all add: checkpoint_log_def scan_delta_row_def scan_start_def select_window_def sample_row_def of_aggregate_def
      fold_window_def fold_row_def as_dict_def column_loads_def as_doc_def deleted_keys_def set_values_def lift_py_def
      delta_payload_def delta_changed_def delta_removed_def set_changes_def doc_at_def row_matches_def changed_keys_def
      snapshot_id_def delta_id_def json_of_int_option_def empty_db_def scalar_eq_def)

end
