(* ===== verification/Concurrency.thy ===== *)
theory Concurrency
  imports Store_Promises
begin

text \<open>
  Commit_done of one request that overlap on PostgreSQL (\<open>Postgres\<close> and \<open>_commit_one\<close> of \<open>src/eventic/sql/store.py\<close>,
  \<open>select_head\<close> of \<open>src/eventic/sql/statements.py\<close>).

  The store keeps PostgreSQL's default isolation, READ COMMITTED: each statement of a transaction sees what other
  transactions have committed when it starts.  So the two reads of \<open>_commit_one\<close> are steps of their own, and
  others may commit between them and before the writes.  The first read is \<open>FOR UPDATE\<close>: the row it finds stays
  locked until the transaction ends, and it waits for the lock of another; where it finds no row it locks nothing.
  Nobody sees the writes before \<open>COMMIT\<close>, and a transaction that inserts a key that another has inserted waits for
  the end of the other, so reading back, writing and committing are one step.  An upsert of a locked head waits for the lock,
  an insert that violates a constraint does not.

  Each writer commits one request; a writer that retries is another writer.  On SQLite \<open>BEGIN IMMEDIATE\<close> makes
  the whole of \<open>commit\<close> one step, which is \<open>store_commit\<close>.
\<close>

section \<open>Writers\<close>

text \<open>
  Where a writer is: before \<open>select_head\<close>, before \<open>select_revision_row\<close> with the head it found, before the
  writes with the row it found too, and at the end.
\<close>

datatype writer_phase =
    Opened
  | Head_read "head_row option"
  | Row_read "head_row option" "revision_row option"
  | Closed "exn + commit_result"

record 'w overlap =
  ov_db :: db
  ov_phase :: "'w \<Rightarrow> writer_phase"

definition overlap_start :: "db \<Rightarrow> 'w overlap" where
  "overlap_start d = \<lparr>ov_db = d, ov_phase = (\<lambda>_. Opened)\<rparr>"

abbreviation enters :: "'w \<Rightarrow> writer_phase \<Rightarrow> 'w overlap \<Rightarrow> 'w overlap" where
  "enters w ph v \<equiv> v\<lparr>ov_phase := (ov_phase v)(w := ph)\<rparr>"

definition cq_aggregate :: "commit_request \<Rightarrow> string \<times> uuid" where
  "cq_aggregate req = (cq_stream req, cq_aggregate_id req)"

fun row_lock :: "writer_phase \<Rightarrow> bool" where
  "row_lock (Head_read (Some _)) = True"
| "row_lock (Row_read (Some _) _) = True"
| "row_lock _ = False"

definition head_locked :: "('w \<Rightarrow> commit_request) \<Rightarrow> 'w overlap \<Rightarrow> 'w \<Rightarrow> bool" where
  "head_locked reqs v w \<longleftrightarrow>
     (\<exists>u. u \<noteq> w \<and> row_lock (ov_phase v u) \<and> cq_aggregate (reqs u) = cq_aggregate (reqs w))"

text \<open>
  How a step ends: the head read, the row read, a commit, a refusal, and a commit that replayed a row although no
  head was found, after which the head is written from the row.
\<close>

datatype 'w overlap_label =
    Select_head 'w
  | Select_row 'w
  | Commit_done 'w commit_result
  | Repair 'w commit_result
  | Refuse 'w exn

inductive overlap_step ::
  "platform \<Rightarrow> encodings \<Rightarrow> ('w \<Rightarrow> time) \<Rightarrow> ('w \<Rightarrow> commit_request) \<Rightarrow>
   'w overlap \<Rightarrow> 'w overlap_label \<Rightarrow> 'w overlap \<Rightarrow> bool"
  for P encs now reqs where
  find_head: "ov_phase v w = Opened \<Longrightarrow> \<not> head_locked reqs v w \<Longrightarrow>
     overlap_step P encs now reqs v (Select_head w)
       (enters w (Head_read (select_head (ov_db v) (cq_stream (reqs w)) (cq_aggregate_id (reqs w)))) v)"
| read_row: "ov_phase v w = Head_read head \<Longrightarrow>
     overlap_step P encs now reqs v (Select_row w)
       (enters w (Row_read head (select_revision_row (ov_db v) (cq_stream (reqs w)) (cq_aggregate_id (reqs w))
          (target_of (reqs w)))) v)"
| commits: "ov_phase v w = Row_read head existing \<Longrightarrow> \<not> head_locked reqs v w \<Longrightarrow> head \<noteq> None \<or> existing = None \<Longrightarrow>
     commit_one_from P encs (now w) (ov_db v) (reqs w) head existing = Inr (d, res) \<Longrightarrow>
     overlap_step P encs now reqs v (Commit_done w res) (v\<lparr>ov_db := d, ov_phase := (ov_phase v)(w := Closed (Inr res))\<rparr>)"
| repairs: "ov_phase v w = Row_read None (Some row) \<Longrightarrow> \<not> head_locked reqs v w \<Longrightarrow>
     commit_one_from P encs (now w) (ov_db v) (reqs w) None (Some row) = Inr (d, res) \<Longrightarrow>
     overlap_step P encs now reqs v (Repair w res) (v\<lparr>ov_db := d, ov_phase := (ov_phase v)(w := Closed (Inr res))\<rparr>)"
| refuses: "ov_phase v w = Row_read head existing \<Longrightarrow>
     commit_one_from P encs (now w) (ov_db v) (reqs w) head existing = Inl e \<Longrightarrow>
     overlap_step P encs now reqs v (Refuse w e) (enters w (Closed (Inl e)) v)"

inductive overlap_run ::
  "platform \<Rightarrow> encodings \<Rightarrow> ('w \<Rightarrow> time) \<Rightarrow> ('w \<Rightarrow> commit_request) \<Rightarrow>
   'w overlap \<Rightarrow> 'w overlap_label list \<Rightarrow> 'w overlap \<Rightarrow> bool"
  for P encs now reqs where
  stays: "overlap_run P encs now reqs v [] v"
| moves: "overlap_run P encs now reqs v ls v' \<Longrightarrow> overlap_step P encs now reqs v' l v'' \<Longrightarrow>
     overlap_run P encs now reqs v (ls @ [l]) v''"

inductive_cases overlap_stepE: "overlap_step P encs now reqs v l v'"
inductive_simps overlap_run_Nil: "overlap_run P encs now reqs v [] v'"

text \<open>The writers that committed and what each was told, in the order of the commits.\<close>

fun commits_of :: "'w overlap_label list \<Rightarrow> ('w \<times> commit_result) list" where
  "commits_of [] = []"
| "commits_of (Commit_done w res # ls) = (w, res) # commits_of ls"
| "commits_of (Repair w res # ls) = (w, res) # commits_of ls"
| "commits_of (_ # ls) = commits_of ls"

fun is_repair :: "'w overlap_label \<Rightarrow> bool" where
  "is_repair (Repair _ _) = True"
| "is_repair _ = False"

lemma commits_of_append: "commits_of (ls @ [l]) = commits_of ls @ commits_of [l]"
  by (induction ls rule: commits_of.induct) simp_all

section \<open>What a commit leaves to others\<close>

lemma commit_one_other_row:
  assumes "commit_one P encs now d req = Inr (d', res)" "(s, a) \<noteq> (cq_stream req, cq_aggregate_id req)"
  shows "select_revision_row d' s a n = select_revision_row d s a n"
  using commit_one_log [OF assms(1)]
proof (elim disjE conjE exE)
  fix r
  assume "db_revisions d' = db_revisions d @ [r]" "rv_key r = (cq_stream req, cq_aggregate_id req, target_of req)"
  with assms(2) show ?thesis by (intro revision_row_append_other) (auto simp: of_aggregate_def rv_key_def)
qed (simp add: select_revision_row_def)

text \<open>A row that was read is still there.\<close>

lemma commit_one_keeps_row:
  assumes "commit_one P encs now d req = Inr (d', res)" "select_revision_row d s a n = Some r"
  shows "select_revision_row d' s a n = Some r"
proof -
  obtain rs where "db_revisions d' = db_revisions d @ rs"
    using commit_one_prefix [OF assms(1)] by (auto simp: prefix_def)
  with assms(2) show ?thesis by (simp add: select_revision_row_def find_append)
qed

section \<open>The invariant\<close>

text \<open>What a writer has read is true of the database, but for the head it did not find.\<close>

fun phase_ok :: "db \<Rightarrow> commit_request \<Rightarrow> writer_phase \<Rightarrow> bool" where
  "phase_ok d req (Head_read (Some h)) \<longleftrightarrow> select_head d (cq_stream req) (cq_aggregate_id req) = Some h"
| "phase_ok d req (Row_read (Some h) existing) \<longleftrightarrow>
     select_head d (cq_stream req) (cq_aggregate_id req) = Some h \<and>
     select_revision_row d (cq_stream req) (cq_aggregate_id req) (target_of req) = existing"
| "phase_ok d req (Row_read None (Some row)) \<longleftrightarrow>
     select_revision_row d (cq_stream req) (cq_aggregate_id req) (target_of req) = Some row"
| "phase_ok d req _ \<longleftrightarrow> True"

definition overlap_ok :: "platform \<Rightarrow> encodings \<Rightarrow> ('w \<Rightarrow> commit_request) \<Rightarrow> 'w overlap \<Rightarrow> bool" where
  "overlap_ok P encs reqs v \<longleftrightarrow>
     store_ok P encs (ov_db v) \<and> (\<forall>w. phase_ok (ov_db v) (reqs w) (ov_phase v w)) \<and>
     (\<forall>w. row_lock (ov_phase v w) \<longrightarrow> \<not> head_locked reqs v w)"

lemma overlap_ok_start: "store_ok P encs d \<Longrightarrow> overlap_ok P encs reqs (overlap_start d)"
  by (simp add: overlap_ok_def overlap_start_def)

text \<open>On a consistent store the head of any row of the log can be written.\<close>

lemma upsert_head_from_row_of_log:
  assumes ok: "store_ok P encs d"
    and row: "select_revision_row d (cq_stream req) (cq_aggregate_id req) n = Some row"
  obtains doc where "row_decodes P encs d row = Inr doc"
    "upsert_head_from_row P encs d row req = Inr (upsert_head d (head_of_row row doc))"
proof -
  have r: "row \<in> set (db_revisions d)" "rv_stream row = cq_stream req" "rv_aggregate_id row = cq_aggregate_id req"
    using select_revision_row_Some [OF row] by simp_all
  with ok have log: "log_row_ok P encs d row" by (simp add: store_ok_def)
  then obtain m where m: "rv_meta row = JObj m" by (auto simp: log_row_ok_def is_doc_iff)
  from log obtain x where x: "row_decodes P encs d row = Inr (JObj x)" by (rule log_row_okE)
  show thesis
    by (rule that [OF x])
       (use x r m in \<open>simp add: upsert_head_from_row_def row_decodes_def column_loads_def head_of_row_def\<close>)
qed

text \<open>
  With the head it locked, a writer decides as a serial commit at this moment would.  With no head it does so too,
  or it is refused as a conflict.
\<close>

lemma decides_as_serial:
  assumes ok: "store_ok P encs d" and req: "request_wf P req" and ph: "phase_ok d req (Row_read head existing)"
    and norepair: "head \<noteq> None \<or> existing = None \<or> commit_one_from P encs now d req None existing = Inl e"
  shows "commit_one_from P encs now d req head existing = commit_one P encs now d req \<or>
    (head = None \<and> (\<exists>e. commit_one_from P encs now d req head existing = Inl e \<and> commit_error e = RevisionConflict))"
proof (cases head)
  case (Some h)
  with ph show ?thesis by (simp add: commit_one_def)
next
  case None
  show ?thesis
  proof (cases existing)
    case (Some row)
    then have row: "select_revision_row d (cq_stream req) (cq_aggregate_id req) (target_of req) = Some row"
      using ph None by simp
    then have r: "row \<in> set (db_revisions d)" using select_revision_row_Some by blast
    with ok have "is_doc (rv_meta row)" by (simp add: store_ok_def log_row_ok_def)
    with req have "is_identical P row req = Inr (same_content P row req)"
      by (simp add: is_identical_decides request_wf_def)
    moreover obtain doc where
      "upsert_head_from_row P encs d row req = Inr (upsert_head d (head_of_row row doc))"
      using upsert_head_from_row_of_log [OF ok row] by blast
    moreover have "commit_one P encs now d req =
        (if same_content P row req then Inr (d, commit_result_of P now req True) else Inl (Eventic RevisionConflict))"
      by (rule commit_one_taken [OF ok _ row]) (use req in \<open>simp add: request_wf_def\<close>)
    ultimately show ?thesis
      using norepair None Some
      by (cases "same_content P row req") (auto simp: commit_one_from_def commit_error_def)
  next
    case existing: None
    show ?thesis
    proof (cases "cq_expected_revision req")
      case (Some n)
      with None existing show ?thesis by (simp add: commit_one_from_def cas_ok_def commit_error_def)
    next
      case create: None
      show ?thesis
      proof (cases "(cq_stream req, cq_aggregate_id req, 0) \<in> rv_key ` set (db_revisions d)")
        case True
        from lost_create_race_lemma [OF ok req create this] None existing show ?thesis by simp
      next
        case False
        have "select_head d (cq_stream req) (cq_aggregate_id req) = None"
        proof (rule ccontr)
          assume "select_head d (cq_stream req) (cq_aggregate_id req) \<noteq> None"
          then obtain h where h: "select_head d (cq_stream req) (cq_aggregate_id req) = Some h" by auto
          moreover have "0 \<le> hd_revision h"
            by (rule store_ok_head [OF ok h]) (simp add: log_row_ok_def)
          ultimately show False using False revisions_up_to_head [OF ok h, of 0] by simp
        qed
        moreover from False have "select_revision_row d (cq_stream req) (cq_aggregate_id req) (target_of req) = None"
          using create by (simp add: select_revision_row_None target_of_def)
        ultimately show ?thesis using None existing by (simp add: commit_one_def)
      qed
    qed
  qed
qed

section \<open>Overlapping commits are serial commits\<close>

text \<open>A writer that goes on alone, the database as it was.\<close>

lemma overlap_ok_enters:
  assumes "overlap_ok P encs reqs v" "phase_ok (ov_db v) (reqs w) ph"
    and "row_lock ph \<Longrightarrow> row_lock (ov_phase v w) \<or> \<not> head_locked reqs v w"
  shows "overlap_ok P encs reqs (enters w ph v)"
  using assms unfolding overlap_ok_def head_locked_def
  by (simp split: if_splits) metis

lemma overlap_ok_commit:
  assumes P: "float_codec P" and ok: "overlap_ok P encs reqs v" and req: "request_ok P (reqs w)"
    and free: "\<not> head_locked reqs v w"
    and run: "commit_one P encs now (ov_db v) (reqs w) = Inr (d, res)"
  shows "overlap_ok P encs reqs (v\<lparr>ov_db := d, ov_phase := (ov_phase v)(w := Closed out)\<rparr>)"
proof -
  have "phase_ok d (reqs u) (ov_phase v u)" if "u \<noteq> w" for u
  proof -
    have old: "phase_ok (ov_db v) (reqs u) (ov_phase v u)" using ok by (simp add: overlap_ok_def)
    show ?thesis
    proof (cases "row_lock (ov_phase v u)")
      case True
      with free that have "(cq_stream (reqs u), cq_aggregate_id (reqs u)) \<noteq> (cq_stream (reqs w), cq_aggregate_id (reqs w))"
        by (auto simp: head_locked_def cq_aggregate_def)
      from commit_one_other(1) [OF run this] commit_one_other_row [OF run this] old show ?thesis
        by (cases "(d, reqs u, ov_phase v u)" rule: phase_ok.cases) simp_all
    next
      case False
      with old commit_one_keeps_row [OF run] show ?thesis
        by (cases "(d, reqs u, ov_phase v u)" rule: phase_ok.cases) simp_all
    qed
  qed
  moreover have "store_ok P encs d"
    by (rule commit_one_preserves [OF P _ req run]) (use ok in \<open>simp add: overlap_ok_def\<close>)
  ultimately show ?thesis
    using ok by (auto simp: overlap_ok_def head_locked_def)
qed

text \<open>One step: a commit is a serial commit, a refusal is one or a conflict of a writer that found no head.\<close>

lemma overlap_step_serial:
  assumes P: "float_codec P" and req: "\<And>w. request_wf P (reqs w)"
    and ok: "overlap_ok P encs reqs v" and step: "overlap_step P encs now reqs v l v'" and l: "\<not> is_repair l"
  shows "overlap_ok P encs reqs v'"
    and "l = Commit_done w res \<Longrightarrow> commit_one P encs (now w) (ov_db v) (reqs w) = Inr (ov_db v', res)"
    and "l = Refuse w e \<Longrightarrow> commit_one P encs (now w) (ov_db v) (reqs w) = Inl e \<or>
      (\<exists>existing. ov_phase v w = Row_read None existing) \<and> commit_error e = RevisionConflict"
    and "commits_of [l] = [] \<Longrightarrow> ov_db v' = ov_db v"
proof -
  have store: "store_ok P encs (ov_db v)" and ph: "phase_ok (ov_db v) (reqs u) (ov_phase v u)" for u
    using ok by (simp_all add: overlap_ok_def)
  note decides = decides_as_serial [OF store req]
  show "overlap_ok P encs reqs v'"
    using step
  proof (cases rule: overlap_step.cases)
    case (find_head w)
    let ?head = "select_head (ov_db v) (cq_stream (reqs w)) (cq_aggregate_id (reqs w))"
    have "phase_ok (ov_db v) (reqs w) (Head_read ?head)" by (cases ?head) simp_all
    with find_head(4) show ?thesis unfolding find_head(2) by (intro overlap_ok_enters [OF ok]) simp_all
  next
    case (read_row w head)
    let ?row = "select_revision_row (ov_db v) (cq_stream (reqs w)) (cq_aggregate_id (reqs w)) (target_of (reqs w))"
    have "phase_ok (ov_db v) (reqs w) (Row_read head ?row)" "row_lock (Row_read head ?row) = row_lock (ov_phase v w)"
      using read_row(3) ph [of w] by (cases head; cases ?row; simp)+
    then show ?thesis unfolding read_row(2) by (intro overlap_ok_enters [OF ok]) simp_all
  next
    case (commits w head existing d res)
    have "commit_one P encs (now w) (ov_db v) (reqs w) = Inr (d, res)"
      using decides [of w head existing "now w"] commits ph [of w] by auto
    from overlap_ok_commit [OF P ok _ commits(4) this] req show ?thesis
      unfolding commits(2) by (simp add: request_wf_def)
  next
    case (refuses w head existing e)
    show ?thesis unfolding refuses(2) by (rule overlap_ok_enters [OF ok]) simp_all
  qed (use l in simp)
  show "commit_one P encs (now w) (ov_db v) (reqs w) = Inr (ov_db v', res)" if "l = Commit_done w res"
    using step unfolding that
  proof (cases rule: overlap_step.cases)
    case (commits head existing d)
    with decides [of w head existing "now w"] ph [of w] show ?thesis by auto
  qed
  show "commit_one P encs (now w) (ov_db v) (reqs w) = Inl e \<or>
      (\<exists>existing. ov_phase v w = Row_read None existing) \<and> commit_error e = RevisionConflict" if "l = Refuse w e"
    using step unfolding that
  proof (cases rule: overlap_step.cases)
    case (refuses head existing)
    with decides [of w head existing "now w" e] ph [of w] show ?thesis by (cases head) auto
  qed
  show "ov_db v' = ov_db v" if "commits_of [l] = []"
    using step that by (cases rule: overlap_step.cases) simp_all
qed

lemma rfold_snoc:
  "rfold f s xs = Inr (t, ys) \<Longrightarrow> f t x = Inr (u, y) \<Longrightarrow> rfold f s (xs @ [x]) = Inr (u, ys @ [y])"
  by (induction xs arbitrary: s ys) (auto split: prod.splits)

lemma overlap_run_serial:
  assumes P: "float_codec P" and ok: "store_ok P encs d" and req: "\<And>w. request_wf P (reqs w)"
    and run: "overlap_run P encs now reqs (overlap_start d) ls v"
  shows "list_all (\<lambda>l. \<not> is_repair l) ls \<Longrightarrow> overlap_ok P encs reqs v \<and>
    rfold (\<lambda>d w. commit_one P encs (now w) d (reqs w)) d (map fst (commits_of ls)) =
      Inr (ov_db v, map snd (commits_of ls))"
  using run
proof (induction "overlap_start d :: 'a overlap" ls v rule: overlap_run.induct)
  case stays
  show ?case using overlap_ok_start [OF ok] by (simp add: overlap_start_def)
next
  case (moves ls v l v')
  then have prev: "overlap_ok P encs reqs v" "\<not> is_repair l"
    "rfold (\<lambda>d w. commit_one P encs (now w) d (reqs w)) d (map fst (commits_of ls)) =
      Inr (ov_db v, map snd (commits_of ls))" by simp_all
  note serial = overlap_step_serial [OF P req prev(1) moves(3) prev(2)]
  show ?case
  proof (cases "commits_of [l]")
    case Nil
    with serial(1,4) prev(3) show ?thesis by (simp add: commits_of_append)
  next
    case (Cons c cs)
    then obtain w res where l: "l = Commit_done w res"
      using prev(2) by (cases l) auto
    from rfold_snoc [OF prev(3) serial(2) [OF l]] serial(1) l show ?thesis
      by (simp add: commits_of_append)
  qed
qed

section \<open>One winner\<close>

lemma commit_one_from_log:
  assumes "commit_one_from P encs now d req head existing = Inr (d', res)"
  shows "(cr_replayed res \<and> db_revisions d' = db_revisions d) \<or>
    (\<not> cr_replayed res \<and> (\<exists>r. db_revisions d' = db_revisions d @ [r] \<and>
       rv_key r = (cq_stream req, cq_aggregate_id req, target_of req) \<and> rv_key r \<notin> rv_key ` set (db_revisions d)))"
proof (cases existing)
  case None
  with assms have "append_revision P encs now d req head = Inr (d', res)"
    by (simp add: commit_one_from_def split: if_splits)
  then show ?thesis
    by (rule append_revision_Inr)
      (auto simp: commit_result_of_def new_revision_row_def rv_key_def revision_violation_None)
next
  case (Some row)
  with assms show ?thesis
    by (auto simp: commit_one_from_def commit_result_of_def split: if_splits
        dest!: upsert_head_from_row_revisions)
qed

definition target_key :: "commit_request \<Rightarrow> string \<times> uuid \<times> int" where
  "target_key req = (cq_stream req, cq_aggregate_id req, target_of req)"

definition winners :: "'w overlap_label list \<Rightarrow> 'w list" where
  "winners ls = map fst (filter (\<lambda>c. \<not> cr_replayed (snd c)) (commits_of ls))"

lemma winners_append:
  "winners (ls @ [l]) =
     winners ls @ (case commits_of [l] of [] \<Rightarrow> [] | (w, res) # _ \<Rightarrow> if cr_replayed res then [] else [w])"
  by (cases l) (simp_all add: winners_def commits_of_append)

lemma overlap_run_winners:
  assumes "overlap_run P encs now reqs v0 ls v"
  shows "distinct (map (\<lambda>w. target_key (reqs w)) (winners ls)) \<and>
    (\<lambda>w. target_key (reqs w)) ` set (winners ls) \<subseteq> rv_key ` set (db_revisions (ov_db v))"
  using assms
proof (induction rule: overlap_run.induct)
  case (stays v)
  show ?case by (simp add: winners_def)
next
  case (moves v0 ls v l v')
  have commit: ?case if l: "commits_of [l] = [(w, res)]"
    and run: "commit_one_from P encs (now w) (ov_db v) (reqs w) head existing = Inr (ov_db v', res)"
    for w res head existing
    using commit_one_from_log [OF run]
  proof (elim disjE conjE exE)
    assume "cr_replayed res" "db_revisions (ov_db v') = db_revisions (ov_db v)"
    with moves.IH l show ?thesis by (simp add: winners_append)
  next
    fix r
    assume r: "\<not> cr_replayed res" "db_revisions (ov_db v') = db_revisions (ov_db v) @ [r]"
      "rv_key r = (cq_stream (reqs w), cq_aggregate_id (reqs w), target_of (reqs w))"
      "rv_key r \<notin> rv_key ` set (db_revisions (ov_db v))"
    then have "rv_key r = target_key (reqs w)" by (simp add: target_key_def)
    with moves.IH l r(1,2,4) show ?thesis by (auto simp: winners_append)
  qed
  from moves(2) show ?case
  proof (cases rule: overlap_step.cases)
    case (commits w head existing d res)
    then show ?thesis by (intro commit [of w res head existing]) simp_all
  next
    case (repairs w row d res)
    then show ?thesis by (intro commit [of w res None "Some row"]) simp_all
  qed (use moves.IH in \<open>simp_all add: winners_append\<close>)
qed

section \<open>Progress\<close>

fun writer_of :: "'w overlap_label \<Rightarrow> 'w" where
  "writer_of (Select_head w) = w"
| "writer_of (Select_row w) = w"
| "writer_of (Commit_done w _) = w"
| "writer_of (Repair w _) = w"
| "writer_of (Refuse w _) = w"

fun steps_taken :: "writer_phase \<Rightarrow> nat" where
  "steps_taken Opened = 0"
| "steps_taken (Head_read _) = 1"
| "steps_taken (Row_read _ _) = 2"
| "steps_taken (Closed _) = 3"

lemma overlap_run_steps:
  assumes "overlap_run P encs now reqs (overlap_start d) ls v"
  shows "count_list (map writer_of ls) w = steps_taken (ov_phase v w)"
  using assms
proof (induction "overlap_start d :: 'a overlap" ls v rule: overlap_run.induct)
  case (moves ls v l v')
  from moves(3) have "steps_taken (ov_phase v' w) = steps_taken (ov_phase v w) + (if writer_of l = w then 1 else 0)"
    by (cases rule: overlap_step.cases) auto
  with moves(2) show ?case by simp
qed (simp add: overlap_start_def)

text \<open>Two writers never hold the lock of one head.\<close>

lemma overlap_step_locks:
  assumes "overlap_step P encs now reqs v l v'" "\<forall>w. row_lock (ov_phase v w) \<longrightarrow> \<not> head_locked reqs v w"
  shows "\<forall>w. row_lock (ov_phase v' w) \<longrightarrow> \<not> head_locked reqs v' w"
proof -
  let ?w = "writer_of l"
  have w: "row_lock (ov_phase v' ?w) \<longrightarrow> row_lock (ov_phase v ?w) \<or> \<not> head_locked reqs v ?w"
    using assms(1)
  proof (cases rule: overlap_step.cases)
    case (read_row w head)
    then show ?thesis by (cases head) simp_all
  qed simp_all
  have others: "ov_phase v' u = ov_phase v u" if "u \<noteq> ?w" for u
    using assms(1) that by (cases rule: overlap_step.cases) simp_all
  have old: "row_lock (ov_phase v u) \<Longrightarrow> \<not> head_locked reqs v u" for u using assms(2) by simp
  show ?thesis
  proof (intro allI impI)
    fix u
    assume u: "row_lock (ov_phase v' u)"
    show "\<not> head_locked reqs v' u"
    proof
      assume "head_locked reqs v' u"
      then obtain t where t: "t \<noteq> u" "row_lock (ov_phase v' t)" "cq_aggregate (reqs t) = cq_aggregate (reqs u)"
        by (auto simp: head_locked_def)
      with u w others old show False unfolding head_locked_def by metis
    qed
  qed
qed

lemma overlap_run_locks:
  assumes "overlap_run P encs now reqs (overlap_start d) ls v"
  shows "\<forall>w. row_lock (ov_phase v w) \<longrightarrow> \<not> head_locked reqs v w"
  using assms
  by (induction "overlap_start d :: 'a overlap" ls v rule: overlap_run.induct)
     (simp add: overlap_start_def, rule overlap_step_locks)

text \<open>
  The next step of a writer, if it can take one: a writer waits for the lock of the head before the first read, and
  before a commit, which writes the head.
\<close>

definition writer_next ::
  "platform \<Rightarrow> encodings \<Rightarrow> ('w \<Rightarrow> time) \<Rightarrow> ('w \<Rightarrow> commit_request) \<Rightarrow>
   'w overlap \<Rightarrow> 'w \<Rightarrow> ('w overlap_label \<times> 'w overlap) option" where
  "writer_next P encs now reqs v w =
     (case ov_phase v w of
        Opened \<Rightarrow>
          if head_locked reqs v w then None
          else Some (Select_head w,
            enters w (Head_read (select_head (ov_db v) (cq_stream (reqs w)) (cq_aggregate_id (reqs w)))) v)
      | Head_read head \<Rightarrow>
          Some (Select_row w,
            enters w (Row_read head (select_revision_row (ov_db v) (cq_stream (reqs w)) (cq_aggregate_id (reqs w))
              (target_of (reqs w)))) v)
      | Row_read head existing \<Rightarrow>
          (case commit_one_from P encs (now w) (ov_db v) (reqs w) head existing of
             Inl e \<Rightarrow> Some (Refuse w e, enters w (Closed (Inl e)) v)
           | Inr (d, res) \<Rightarrow>
               if head_locked reqs v w then None
               else Some (if head = None \<and> existing \<noteq> None then Repair w res else Commit_done w res,
                 v\<lparr>ov_db := d, ov_phase := (ov_phase v)(w := Closed (Inr res))\<rparr>))
      | Closed _ \<Rightarrow> None)"

lemma writer_next_iff:
  "writer_next P encs now reqs v w = Some (l, v') \<longleftrightarrow> writer_of l = w \<and> overlap_step P encs now reqs v l v'"
proof
  assume "writer_next P encs now reqs v w = Some (l, v')"
  then show "writer_of l = w \<and> overlap_step P encs now reqs v l v'"
    by (auto simp: writer_next_def split: writer_phase.splits sum.splits prod.splits if_splits
        intro: overlap_step.intros)
next
  assume "writer_of l = w \<and> overlap_step P encs now reqs v l v'"
  then have "overlap_step P encs now reqs v l v'" "w = writer_of l" by simp_all
  then show "writer_next P encs now reqs v w = Some (l, v')"
    by (cases rule: overlap_step.cases) (auto simp: writer_next_def)
qed

text \<open>What the writers do in the order in which a scheduler lets them.\<close>

primrec scheduled ::
  "platform \<Rightarrow> encodings \<Rightarrow> ('w \<Rightarrow> time) \<Rightarrow> ('w \<Rightarrow> commit_request) \<Rightarrow>
   'w list \<Rightarrow> 'w overlap \<Rightarrow> ('w overlap_label list \<times> 'w overlap) option" where
  "scheduled P encs now reqs [] v = Some ([], v)"
| "scheduled P encs now reqs (w # ws) v =
     Option.bind (writer_next P encs now reqs v w) (\<lambda>(l, v').
     Option.bind (scheduled P encs now reqs ws v') (\<lambda>(ls, v''). Some (l # ls, v'')))"

lemma scheduled_run_from:
  "scheduled P encs now reqs ws v = Some (ls, v') \<Longrightarrow> overlap_run P encs now reqs v0 ks v \<Longrightarrow>
     overlap_run P encs now reqs v0 (ks @ ls) v'"
proof (induction ws arbitrary: v ls ks)
  case (Cons w ws)
  then obtain l v1 ls' where l: "writer_next P encs now reqs v w = Some (l, v1)" "ls = l # ls'"
    and rest: "scheduled P encs now reqs ws v1 = Some (ls', v')"
    by (auto simp: bind_eq_Some_conv)
  have "overlap_run P encs now reqs v0 (ks @ [l]) v1"
    by (rule moves [OF Cons.prems(2)]) (use l(1) writer_next_iff in metis)
  from Cons.IH [OF rest this] l(2) show ?case by simp
qed simp

lemma scheduled_run:
  "scheduled P encs now reqs ws v = Some (ls, v') \<Longrightarrow> overlap_run P encs now reqs v ls v'"
  using scheduled_run_from [OF _ stays] by fastforce

text \<open>A writer whose head nobody else holds can go on.\<close>

lemma free_writer_steps:
  assumes "\<not> head_locked reqs v w" "\<forall>out. ov_phase v w \<noteq> Closed out"
  shows "\<exists>l v'. writer_of l = w \<and> overlap_step P encs now reqs v l v'"
proof -
  have "writer_next P encs now reqs v w \<noteq> None"
    using assms by (simp add: writer_next_def split: writer_phase.split sum.split prod.split)
  then show ?thesis using writer_next_iff by (metis not_None_eq surj_pair)
qed

section \<open>A replay that missed the head\<close>

text \<open>
  A writer that found no head, and then finds its row because others have created the aggregate in between, writes
  the head from that row, whatever the head has become.
\<close>

lemma stale_replay_rewinds:
  assumes ok: "store_ok P encs d" and req: "request_ok P req"
    and row: "select_revision_row d (cq_stream req) (cq_aggregate_id req) (target_of req) = Some row"
    and same: "same_content P row req"
  obtains doc d' where
    "commit_one_from P encs now d req None (Some row) = Inr (d', commit_result_of P now req True)"
    "d' = upsert_head d (head_of_row row doc)" "hd_revision (head_of_row row doc) = target_of req"
proof -
  have r: "row \<in> set (db_revisions d)" "rv_revision row = target_of req"
    using select_revision_row_Some [OF row] by simp_all
  with ok have "is_doc (rv_meta row)" by (simp add: store_ok_def log_row_ok_def)
  with req same have "is_identical P row req = Inr True" by (simp add: is_identical_decides)
  moreover obtain doc where "upsert_head_from_row P encs d row req = Inr (upsert_head d (head_of_row row doc))"
    using upsert_head_from_row_of_log [OF ok row] by blast
  ultimately show thesis
    using r by (intro that [of "upsert_head d (head_of_row row doc)" doc])
      (simp_all add: commit_one_from_def head_of_row_def)
qed

section \<open>Samples\<close>

lemma sample_create_from:
  "commit_one_from sample_platform Map.empty 100 empty_db sample_create None None =
     Inr (sample_db, commit_result_of sample_platform 100 sample_create False)"
  using sample_commit
  by (auto simp: store_commit_def commit_one_def select_head_def select_revision_row_def empty_db_def
      split: sum.splits prod.splits)

lemma sample_reads:
  "select_head empty_db s a = None" "select_revision_row empty_db s a n = None"
  "select_revision_row sample_db ''todos'' 5 0 = Some sample_row"
  "select_head sample_db ''todos'' 5 = Some (head_of_row sample_row (JObj [(''a'', JInt 1)]))"
  by (simp_all add: select_head_def select_revision_row_def empty_db_def sample_db_def sample_row_def of_aggregate_def
      head_of_row_def)

lemma sample_keys [simp]:
  "cq_stream sample_create = ''todos''" "cq_aggregate_id sample_create = 5" "target_of sample_create = 0"
  "cq_stream sample_change = ''todos''" "cq_aggregate_id sample_change = 5" "target_of sample_change = 1"
  "cq_expected_revision sample_create = None" "cq_expected_revision sample_change = Some 0"
  by (simp_all add: sample_create_def sample_change_def target_of_def)

text \<open>Overlaps of three writers, of which the second and the third ask for the same aggregate as the first.\<close>

datatype three = A | B | C

definition overlap_of :: "db \<Rightarrow> writer_phase \<Rightarrow> writer_phase \<Rightarrow> writer_phase \<Rightarrow> three overlap" where
  "overlap_of d a b c = \<lparr>ov_db = d, ov_phase = (\<lambda>w. case w of A \<Rightarrow> a | B \<Rightarrow> b | C \<Rightarrow> c)\<rparr>"

lemma overlap_of_simps [simp]:
  "ov_db (overlap_of d a b c) = d" "ov_phase (overlap_of d a b c) A = a" "ov_phase (overlap_of d a b c) B = b"
  "ov_phase (overlap_of d a b c) C = c"
  "overlap_of d a b c\<lparr>ov_phase := (ov_phase (overlap_of d a b c))(w := x)\<rparr> =
     overlap_of d (if w = A then x else a) (if w = B then x else b) (if w = C then x else c)"
  "overlap_of d a b c\<lparr>ov_db := d', ov_phase := (ov_phase (overlap_of d a b c))(w := x)\<rparr> =
     overlap_of d' (if w = A then x else a) (if w = B then x else b) (if w = C then x else c)"
  by (auto simp: overlap_of_def fun_eq_iff split: three.split)

lemma overlap_start_of: "overlap_start d = overlap_of d Opened Opened Opened"
  by (auto simp: overlap_start_def overlap_of_def fun_eq_iff split: three.split)

lemma ex_three: "(\<exists>w. Q w) \<longleftrightarrow> Q A \<or> Q B \<or> Q C"
  by (metis three.exhaust)

definition sample_reqs :: "three \<Rightarrow> commit_request" where
  "sample_reqs w = (if w = C then sample_change else sample_create)"

lemma sample_reqs_simps [simp]:
  "sample_reqs A = sample_create" "sample_reqs B = sample_create" "sample_reqs C = sample_change"
  by (simp_all add: sample_reqs_def)

lemma sample_locked:
  "head_locked sample_reqs (overlap_of d a b c) w \<longleftrightarrow>
     w \<noteq> A \<and> row_lock a \<or> w \<noteq> B \<and> row_lock b \<or> w \<noteq> C \<and> row_lock c"
  by (cases w) (auto simp: head_locked_def ex_three cq_aggregate_def)

text \<open>A creates; B, which looked for the head before, loses the race.\<close>

abbreviation sample_scheduled :: "three list \<Rightarrow> three overlap \<Rightarrow> (three overlap_label list \<times> three overlap) option" where
  "sample_scheduled \<equiv> scheduled sample_platform Map.empty (\<lambda>_. 100) sample_reqs"

lemma sample_race:
  "sample_scheduled [A, B, A, B, A] (overlap_start empty_db) =
     Some ([Select_head A, Select_head B, Select_row A, Select_row B,
       Commit_done A (commit_result_of sample_platform 100 sample_create False)],
      overlap_of sample_db (Closed (Inr (commit_result_of sample_platform 100 sample_create False)))
         (Row_read None None) Opened)"
  by (simp add: overlap_start_of writer_next_def sample_locked sample_reads sample_create_from)

text \<open>B looks for the head, A creates the aggregate, C changes it, and B goes on.\<close>

lemma sample_changed:
  obtains d where "commit_one sample_platform Map.empty 100 sample_db sample_change =
      Inr (d, commit_result_of sample_platform 100 sample_change False)"
    "store_ok sample_platform Map.empty d" "head_revision d ''todos'' 5 = 1"
    "select_revision_row d ''todos'' 5 0 = Some sample_row"
proof -
  have wf: "request_ok sample_platform sample_change" using sample_requests_wf(2) by (simp add: request_wf_def)
  have cas: "cas_ok sample_change (select_head sample_db (cq_stream sample_change) (cq_aggregate_id sample_change))"
    by (simp add: sample_reads cas_ok_def head_of_row_def sample_row_def)
  have "intents_fresh sample_platform sample_db (cq_intents sample_change)"
    by (simp add: intents_fresh_def sample_change_def sample_create_def)
  moreover have "show_int 0 = ''0''" "show_int 1 = ''1''" by code_simp+
  then have "request_rid sample_platform sample_change \<notin> rv_revision_id ` set (db_revisions sample_db)"
    by (simp add: request_rid_def revision_id_def revision_name_def sample_platform_def sample_db_def sample_row_def)
  moreover have "encodes_exactly sample_platform Map.empty sample_db sample_change"
    by (simp add: encodes_exactly_def sample_reads encoding_for_def)
  ultimately obtain d where d: "commit_one sample_platform Map.empty 100 sample_db sample_change =
      Inr (d, commit_result_of sample_platform 100 sample_change False)"
    using commit_one_decides [OF sample_float_codec sample_db_ok sample_requests_wf(2) _ _ cas] by fastforce
  moreover have "store_ok sample_platform Map.empty d"
    by (rule commit_one_preserves [OF sample_float_codec sample_db_ok wf d])
  moreover have "head_revision d ''todos'' 5 = 1"
    using commit_one_head_revision [OF sample_db_ok d, of "''todos''" 5]
    by (simp add: commit_result_of_def head_revision_def sample_reads head_of_row_def sample_row_def)
  moreover have "select_revision_row d ''todos'' 5 0 = Some sample_row"
    by (rule commit_one_keeps_row [OF d]) (simp add: sample_reads)
  ultimately show thesis by (rule that)
qed

lemma sample_same: "same_content sample_platform sample_row sample_create"
proof -
  have "loads sample_platform (cq_meta sample_create) = Some (JObj [])" by code_simp
  then show ?thesis by (simp add: same_content_def sample_row_def) (simp add: sample_create_def)
qed

section \<open>Properties\<close>

text \<open>
  Commits that overlap are serial: in every interleaving of writers on PostgreSQL in which no writer replays a
  row without having found the head, the store stays consistent, and the database and the results of the writers
  that committed are those of committing one after the other in the order of their commits.
\<close>

theorem overlapping_commits_are_serial:
  assumes "float_codec P" "store_ok P encs d" "\<forall>w. request_wf P (reqs w)"
    and "overlap_run P encs now reqs (overlap_start d) ls v" "list_all (\<lambda>l. \<not> is_repair l) ls"
  shows "store_ok P encs (ov_db v) \<and>
    rfold (\<lambda>d w. commit_one P encs (now w) d (reqs w)) d (map fst (commits_of ls)) =
      Inr (ov_db v, map snd (commits_of ls))"
  using overlap_run_serial [OF assms(1,2) _ assms(4,5)] assms(3) by (simp add: overlap_ok_def)

lemma sample_reqs_wf: "\<forall>w. request_wf sample_platform (sample_reqs w)"
  using sample_requests_wf by (simp add: sample_reqs_def)

lemma overlapping_commits_are_serial_witness:
  "store_ok sample_platform Map.empty sample_db \<and>
   rfold (\<lambda>d w. commit_one sample_platform Map.empty 100 d (sample_reqs w)) empty_db [A] =
     Inr (sample_db, [commit_result_of sample_platform 100 sample_create False])"
  using overlapping_commits_are_serial [OF sample_float_codec sample_empty_ok sample_reqs_wf
      scheduled_run [OF sample_race]] by simp

text \<open>
  A writer that is refused is told what a serial commit at this moment would tell it, or \<open>RevisionConflict\<close> if it
  had found no head, which its retry loop expects; the database is as it was.
\<close>

theorem overlapping_refusals_are_conflicts:
  assumes "float_codec P" "store_ok P encs d" "\<forall>w. request_wf P (reqs w)"
    and "overlap_run P encs now reqs (overlap_start d) ls v" "list_all (\<lambda>l. \<not> is_repair l) ls"
    and "overlap_step P encs now reqs v (Refuse w e) v'"
  shows "ov_db v' = ov_db v \<and>
    (commit_one P encs (now w) (ov_db v) (reqs w) = Inl e \<or>
     (\<exists>existing. ov_phase v w = Row_read None existing) \<and> commit_error e = RevisionConflict)"
proof -
  have "overlap_ok P encs reqs v"
    using overlap_run_serial [OF assms(1,2) _ assms(4,5)] assms(3) by simp
  from overlap_step_serial [OF assms(1) _ this assms(6)] assms(3) show ?thesis by simp
qed

lemma overlapping_refusals_are_conflicts_witness:
  "\<exists>v e v'. overlap_step sample_platform Map.empty (\<lambda>_. 100) sample_reqs v (Refuse B e) v' \<and>
     ov_db v = sample_db \<and> ov_db v' = sample_db \<and> commit_error e = RevisionConflict"
proof -
  obtain e where e: "commit_one_from sample_platform Map.empty 100 sample_db sample_create None None = Inl e"
    using lost_create_race_lemma [OF sample_db_ok sample_requests_wf(1), of 100]
    by (auto simp: sample_db_def sample_row_def rv_key_def)
  let ?v = "overlap_of sample_db (Closed (Inr (commit_result_of sample_platform 100 sample_create False)))
      (Row_read None None) Opened"
  have step: "overlap_step sample_platform Map.empty (\<lambda>_. 100) sample_reqs ?v (Refuse B e) (enters B (Closed (Inl e)) ?v)"
    by (rule refuses) (use e in simp_all)
  have serial: "commit_one sample_platform Map.empty 100 sample_db sample_create =
      Inr (sample_db, commit_result_of sample_platform 100 sample_create True)"
    using commit_one_taken [OF sample_db_ok, of sample_create sample_row 100] sample_requests_wf(1) sample_same
    by (simp add: request_wf_def sample_reads)
  from overlapping_refusals_are_conflicts [OF sample_float_codec sample_empty_ok sample_reqs_wf
      scheduled_run [OF sample_race] _ step] serial step
  show ?thesis by (intro exI conjI) auto
qed

text \<open>
  One winner: in every interleaving, replays included, no two writers write the same revision, so of the writers
  that expect the same revision of an aggregate at most one is told that it wrote it.
\<close>

theorem one_winner_per_revision:
  assumes "overlap_run P encs now reqs v ls v'"
  shows "distinct (map (\<lambda>w. (cq_stream (reqs w), cq_aggregate_id (reqs w), target_of (reqs w))) (winners ls))"
  using overlap_run_winners [OF assms] by (simp add: target_key_def)

lemma one_winner_per_revision_witness: "distinct (map (\<lambda>_. (''todos'', 5 :: uuid, 0 :: int)) [A])"
  using one_winner_per_revision [OF scheduled_run [OF sample_race]]
  by (simp add: winners_def commit_result_of_def)

text \<open>
  No deadlock: a writer takes at most three steps, and as long as one has not ended some writer can take one.
\<close>

theorem overlapping_writers_end:
  assumes "overlap_run P encs now reqs (overlap_start d) ls v"
  shows "count_list (map writer_of ls) w \<le> 3 \<and>
    ((\<exists>out. ov_phase v w = Closed out) \<or> (\<exists>l v'. overlap_step P encs now reqs v l v'))"
proof -
  have "steps_taken (ov_phase v w) \<le> 3" by (cases "ov_phase v w") simp_all
  then have "count_list (map writer_of ls) w \<le> 3" by (simp add: overlap_run_steps [OF assms])
  moreover have "\<exists>l v'. overlap_step P encs now reqs v l v'" if "\<forall>out. ov_phase v w \<noteq> Closed out"
  proof (cases "head_locked reqs v w")
    case True
    then obtain u where u: "row_lock (ov_phase v u)" by (auto simp: head_locked_def)
    then have "\<forall>out. ov_phase v u \<noteq> Closed out" by auto
    with u overlap_run_locks [OF assms] free_writer_steps show ?thesis by metis
  next
    case False
    with that free_writer_steps show ?thesis by metis
  qed
  ultimately show ?thesis by blast
qed

lemma overlapping_writers_end_witness:
  "count_list (map writer_of [Select_head A, Select_head B, Select_row A, Select_row B,
       Commit_done A (commit_result_of sample_platform 100 sample_create False)]) B \<le> 3 \<and>
   (\<exists>l v'. overlap_step sample_platform Map.empty (\<lambda>_. 100) sample_reqs
      (overlap_of sample_db (Closed (Inr (commit_result_of sample_platform 100 sample_create False)))
         (Row_read None None) Opened) l v')"
  using overlapping_writers_end [OF scheduled_run [OF sample_race], of B] by simp

text \<open>
  C10: A replay that missed the head moves it back: a writer that found no head, and then finds its own row because the
  aggregate was created and changed in between, is told that it replayed, and the head is again at the replayed
  revision; from then on every request that expects the last revision of the log is refused.
\<close>

theorem stale_replay_moves_the_head_back:
  assumes "store_ok P encs d" "request_ok P req"
    and "select_revision_row d (cq_stream req) (cq_aggregate_id req) (target_of req) = Some row"
    and "same_content P row req"
    and "target_of req < head_revision d (cq_stream req) (cq_aggregate_id req)"
    and "cq_stream after = cq_stream req" "cq_aggregate_id after = cq_aggregate_id req"
    and "cq_expected_revision after = Some (head_revision d (cq_stream req) (cq_aggregate_id req))"
  shows "\<exists>d'. commit_one_from P encs now d req None (Some row) = Inr (d', commit_result_of P now req True) \<and>
    head_revision d' (cq_stream req) (cq_aggregate_id req) = target_of req \<and>
    db_revisions d' = db_revisions d \<and>
    commit_one P encs later d' after = Inl (Eventic RevisionConflict)"
proof -
  let ?s = "cq_stream req" and ?a = "cq_aggregate_id req"
  have r: "row \<in> set (db_revisions d)" "rv_stream row = ?s" "rv_aggregate_id row = ?a" "rv_revision row = target_of req"
    using select_revision_row_Some [OF assms(3)] by simp_all
  obtain doc d' where run: "commit_one_from P encs now d req None (Some row) = Inr (d', commit_result_of P now req True)"
    and d': "d' = upsert_head d (head_of_row row doc)"
    by (rule stale_replay_rewinds [OF assms(1-4)])
  have head: "select_head d' ?s ?a = Some (head_of_row row doc)"
    using r by (simp add: d' select_head_upsert head_of_row_def)
  have "(?s, ?a, target_of req) \<in> rv_key ` set (db_revisions d)" using r by (force simp: rv_key_def)
  then obtain h where h: "select_head d ?s ?a = Some h"
    using store_ok_no_head [OF assms(1) _ r(1)] r by (fastforce simp: of_aggregate_def)
  have "(?s, ?a, hd_revision h + 1) \<notin> rv_key ` set (db_revisions d)"
    using revisions_up_to_head [OF assms(1) h] by simp
  then have "select_revision_row d' (cq_stream after) (cq_aggregate_id after) (target_of after) = None"
    using assms(6-8) h by (simp add: select_revision_row_None target_of_def head_revision_def d' upsert_head_def)
  moreover have "\<not> cas_ok after (select_head d' (cq_stream after) (cq_aggregate_id after))"
    using assms(5-8) head r by (simp add: cas_ok_def head_of_row_def)
  ultimately have "commit_one P encs later d' after = Inl (Eventic RevisionConflict)" by (rule commit_one_stale)
  with run head r show ?thesis by (simp add: d' upsert_head_def head_revision_def head_of_row_def)
qed

lemma stale_replay_moves_the_head_back_witness:
  "\<exists>d d' after. overlap_run sample_platform Map.empty (\<lambda>_. 100) sample_reqs (overlap_start empty_db)
      [Select_head B, Select_head A, Select_row A,
       Commit_done A (commit_result_of sample_platform 100 sample_create False), Select_head C, Select_row C,
       Commit_done C (commit_result_of sample_platform 100 sample_change False), Select_row B,
       Repair B (commit_result_of sample_platform 100 sample_create True)]
      (overlap_of d' (Closed (Inr (commit_result_of sample_platform 100 sample_create False)))
        (Closed (Inr (commit_result_of sample_platform 100 sample_create True)))
        (Closed (Inr (commit_result_of sample_platform 100 sample_change False)))) \<and>
    db_revisions d' = db_revisions d \<and> head_revision d ''todos'' 5 = 1 \<and> head_revision d' ''todos'' 5 = 0 \<and>
    cq_expected_revision after = Some 1 \<and>
    commit_one sample_platform Map.empty 200 d' after = Inl (Eventic RevisionConflict)"
proof -
  obtain d where d: "commit_one sample_platform Map.empty 100 sample_db sample_change =
      Inr (d, commit_result_of sample_platform 100 sample_change False)"
    "store_ok sample_platform Map.empty d" "head_revision d ''todos'' 5 = 1"
    "select_revision_row d ''todos'' 5 0 = Some sample_row" by (rule sample_changed)
  define after where "after = sample_change\<lparr>cq_expected_revision := Some 1\<rparr>"
  have after: "cq_stream after = ''todos''" "cq_aggregate_id after = 5" "cq_expected_revision after = Some 1"
    by (simp_all add: after_def)
  have "request_ok sample_platform sample_create" using sample_requests_wf(1) by (simp add: request_wf_def)
  from stale_replay_moves_the_head_back [OF d(2) this _ sample_same, of after 100 200] d(3,4) after
  obtain d' where d': "commit_one_from sample_platform Map.empty 100 d sample_create None (Some sample_row) =
      Inr (d', commit_result_of sample_platform 100 sample_create True)"
    "head_revision d' ''todos'' 5 = 0" "db_revisions d' = db_revisions d"
    "commit_one sample_platform Map.empty 200 d' after = Inl (Eventic RevisionConflict)" by auto
  have row: "select_revision_row sample_db ''todos'' 5 1 = None"
    by (simp add: select_revision_row_def sample_db_def sample_row_def)
  have change: "commit_one_from sample_platform Map.empty 100 sample_db sample_change
      (Some (head_of_row sample_row (JObj [(''a'', JInt 1)]))) None = Inr (d, commit_result_of sample_platform 100 sample_change False)"
    using d(1) by (simp add: commit_one_def sample_reads row)
  have "sample_scheduled [B, A, A, A, C, C, C, B, B] (overlap_start empty_db) =
      Some ([Select_head B, Select_head A, Select_row A,
       Commit_done A (commit_result_of sample_platform 100 sample_create False), Select_head C, Select_row C,
       Commit_done C (commit_result_of sample_platform 100 sample_change False), Select_row B,
       Repair B (commit_result_of sample_platform 100 sample_create True)],
      overlap_of d' (Closed (Inr (commit_result_of sample_platform 100 sample_create False)))
        (Closed (Inr (commit_result_of sample_platform 100 sample_create True)))
        (Closed (Inr (commit_result_of sample_platform 100 sample_change False))))"
    by (simp add: overlap_start_of writer_next_def sample_locked sample_reads sample_create_from row change d(4) d'(1))
  from scheduled_run [OF this] d(3) d' after(3) show ?thesis by blast
qed

end
