(* ===== verification/Frames.thy ===== *)
theory Frames
  imports Concurrency
begin

text \<open>
  What a commit needs of the tables, and so what others may do to them without its noticing: the log and the head
  of its own aggregate, and that the keys it inserts are free.
\<close>

section \<open>Keys\<close>

text \<open>
  The values under the primary keys and unique constraints of the tables: of the log, the heads, the intents and
  the ledger.
\<close>

datatype db_key =
    Row_key "string \<times> uuid \<times> int"
  | Revision_key uuid
  | Head_key "string \<times> uuid"
  | Intent_key uuid
  | Owed_key "string \<times> uuid"
  | Ledger_key "string \<times> int"

text \<open>The keys of the log and of the intents that are in the tables, and those that an append adds.\<close>

definition taken_keys :: "db \<Rightarrow> db_key set" where
  "taken_keys d =
     (\<Union>r \<in> set (db_revisions d). {Row_key (rv_key r), Revision_key (rv_revision_id r)}) \<union>
     (\<Union>i \<in> set (db_intents d). {Intent_key (in_intent_id i), Owed_key (in_subscription_id i, in_revision_id i)})"

definition intent_keys :: "platform \<Rightarrow> intent_request list \<Rightarrow> db_key list" where
  "intent_keys P is = concat (map (\<lambda>i. [Intent_key (intent_id P i), Owed_key (ir_subscription_id i, ir_revision_id i)]) is)"

definition request_keys :: "platform \<Rightarrow> commit_request \<Rightarrow> db_key list" where
  "request_keys P req = [Row_key (target_key req), Revision_key (request_rid P req)] @ intent_keys P (cq_intents req)"

lemma taken_keys_append:
  assumes "db_revisions d' = db_revisions d @ rs" "db_intents d' = db_intents d @ is"
  shows "taken_keys d' = taken_keys d \<union>
     (\<Union>r \<in> set rs. {Row_key (rv_key r), Revision_key (rv_revision_id r)}) \<union>
     (\<Union>i \<in> set is. {Intent_key (in_intent_id i), Owed_key (in_subscription_id i, in_revision_id i)})"
  by (auto simp: taken_keys_def assms)

lemma taken_keys_cong: "db_revisions d' = db_revisions d \<Longrightarrow> db_intents d' = db_intents d \<Longrightarrow> taken_keys d' = taken_keys d"
  by (simp add: taken_keys_def)

section \<open>Tables that agree on some aggregates\<close>

definition log_of :: "db \<Rightarrow> string \<times> uuid \<Rightarrow> revision_row list" where
  "log_of d g = filter (of_aggregate (fst g) (snd g)) (db_revisions d)"

definition head_of :: "db \<Rightarrow> string \<times> uuid \<Rightarrow> head_row option" where
  "head_of d g = select_head d (fst g) (snd g)"

text \<open>\<open>d'\<close> is \<open>d\<close> after others have written: the aggregates \<open>gs\<close> are as in \<open>d\<close>, only keys of \<open>ks\<close> are new.\<close>

definition beside :: "(string \<times> uuid) set \<Rightarrow> db_key set \<Rightarrow> db \<Rightarrow> db \<Rightarrow> bool" where
  "beside gs ks d d' \<longleftrightarrow>
     (\<forall>g \<in> gs. log_of d' g = log_of d g \<and> head_of d' g = head_of d g) \<and> taken_keys d' \<subseteq> taken_keys d \<union> ks"

lemma beside_refl: "beside gs ks d d"
  by (simp add: beside_def)

lemma find_filter_conj: "List.find (\<lambda>x. P x \<and> Q x) xs = List.find Q (filter P xs)"
  by (induction xs) auto

lemma log_of_reads:
  assumes "log_of d' (s, a) = log_of d (s, a)"
  shows "select_revision_row d' s a n = select_revision_row d s a n"
    and "select_window d' s a i n = select_window d s a i n"
    and "decode_log_revision P encs d' s a n = decode_log_revision P encs d s a n"
proof -
  have window: "select_window x s a i n = sort_key rv_revision (filter (\<lambda>r. i \<le> rv_revision r \<and> rv_revision r \<le> n) (log_of x (s, a)))"
    for x i n
    by (simp add: select_window_def log_of_def filter_filter conj_ac)
  then have windows: "select_window d' s a i n = select_window d s a i n" for i n using assms by simp
  have rows: "select_revision_row d' s a n = select_revision_row d s a n" for n
    using assms by (simp add: select_revision_row_def log_of_def find_filter_conj)
  show "select_revision_row d' s a n = select_revision_row d s a n" by (rule rows)
  show "select_window d' s a i n = select_window d s a i n" by (rule windows)
  show "decode_log_revision P encs d' s a n = decode_log_revision P encs d s a n"
    by (simp only: decode_log_revision_def rows windows)
qed

lemma log_of_append:
  "db_revisions d' = db_revisions d @ [r] \<Longrightarrow>
     log_of d' g = log_of d g @ (if (rv_stream r, rv_aggregate_id r) = g then [r] else [])"
  by (cases g) (simp add: log_of_def of_aggregate_def)

section \<open>A commit beside others\<close>

lemma insert_intents_beside:
  assumes "insert_intents P now is d = Inr d1" "taken_keys d' \<subseteq> taken_keys d \<union> ks"
    and "set (intent_keys P is) \<inter> ks = {}"
  shows "insert_intents P now is d' = Inr (d'\<lparr>db_intents := db_intents d' @ map (new_intent_row P now) is\<rparr>)"
  using assms
proof (induction "is" arbitrary: d d')
  case (Cons i "is")
  from Cons.prems(1) obtain d2 where d2: "intent_violation d (new_intent_row P now i) = None"
    "d2 = d\<lparr>db_intents := db_intents d @ [new_intent_row P now i]\<rparr>" "insert_intents P now is d2 = Inr d1"
    by (auto simp: insert_intent_Inr)
  let ?i = "new_intent_row P now i" and ?d' = "d'\<lparr>db_intents := db_intents d' @ [new_intent_row P now i]\<rparr>"
  have row: "in_intent_id ?i = intent_id P i" "in_subscription_id ?i = ir_subscription_id i" "in_revision_id ?i = ir_revision_id i"
    by (simp_all add: new_intent_row_def)
  have "Intent_key (intent_id P i) \<notin> taken_keys d'" "Owed_key (ir_subscription_id i, ir_revision_id i) \<notin> taken_keys d'"
    using d2(1) Cons.prems(2,3) by (auto simp: intent_violation_None row taken_keys_def intent_keys_def)
  then have free: "intent_violation d' ?i = None"
    using d2(1) by (auto simp: intent_violation_None row taken_keys_def)
  have "taken_keys ?d' \<subseteq> taken_keys d2 \<union> ks"
    using Cons.prems(2) taken_keys_append [of ?d' d' "[]" "[?i]"] taken_keys_append [of d2 d "[]" "[?i]"] d2(2) by auto
  from Cons.IH [OF d2(3) this] Cons.prems(3) free show ?case by (simp add: insert_intent_def intent_keys_def)
qed simp

lemma upsert_frame:
  "db_revisions (upsert_head d h) = db_revisions d" "db_intents (upsert_head d h) = db_intents d"
  "db_revisions (upsert_fingerprint d f) = db_revisions d" "db_intents (upsert_fingerprint d f) = db_intents d"
  "db_heads (upsert_fingerprint d f) = db_heads d"
  by (simp_all add: upsert_head_def upsert_fingerprint_def split: option.split)

lemma head_of_upsert: "head_of (upsert_head d h) g = (if (hd_stream h, hd_aggregate_id h) = g then Some h else head_of d g)"
  by (cases g) (simp add: head_of_def select_head_upsert)

lemma head_of_cong: "db_heads d' = db_heads d \<Longrightarrow> head_of d' g = head_of d g"
  by (simp add: head_of_def select_head_def)

lemma log_of_cong: "db_revisions d' = db_revisions d \<Longrightarrow> log_of d' g = log_of d g"
  by (simp add: log_of_def)

lemma beside_upsert_head: "beside gs ks d d' \<Longrightarrow> beside gs ks (upsert_head d h) (upsert_head d' h)"
  by (simp add: beside_def head_of_upsert log_of_cong [OF upsert_frame(1)] taken_keys_cong [OF upsert_frame(1,2)])

lemma beside_cong:
  assumes "beside gs ks d d'" "db_revisions e = db_revisions d" "db_intents e = db_intents d" "db_heads e = db_heads d"
    and "db_revisions e' = db_revisions d'" "db_intents e' = db_intents d'" "db_heads e' = db_heads d'"
  shows "beside gs ks e e'"
  using assms
  by (simp add: beside_def log_of_cong [of e d] log_of_cong [of e' d'] head_of_cong [of e d] head_of_cong [of e' d']
      taken_keys_cong [of e d] taken_keys_cong [of e' d'])

lemma beside_add:
  assumes "beside gs ks d d'"
  shows "beside gs ks (d\<lparr>db_revisions := db_revisions d @ rs, db_intents := db_intents d @ xs\<rparr>)
    (d'\<lparr>db_revisions := db_revisions d' @ rs, db_intents := db_intents d' @ xs\<rparr>)"
  using assms taken_keys_append [of "d\<lparr>db_revisions := db_revisions d @ rs, db_intents := db_intents d @ xs\<rparr>" d rs xs]
    taken_keys_append [of "d'\<lparr>db_revisions := db_revisions d' @ rs, db_intents := db_intents d' @ xs\<rparr>" d' rs xs]
  by (auto simp: beside_def log_of_def head_of_def select_head_def)

lemma append_beside:
  assumes run: "append_revision P encs now d req head = Inr (d1, res)" and b: "beside gs ks d d'"
    and g: "cq_aggregate req \<in> gs" and keys: "set (request_keys P req) \<inter> ks = {}"
  shows "\<exists>d1'. append_revision P encs now d' req head = Inr (d1', res) \<and> beside gs ks d1 d1'"
proof -
  from run obtain physical enc where phys: "physical_payload P encs req head = Inr (physical, enc)"
    unfolding append_revision_def by auto
  let ?row = "\<lambda>meta. new_revision_row P now req physical enc meta"
  from run phys obtain meta d2 doc d3 where a:
    "bytes_loads P (cq_meta req) = Inr meta" "insert_revision d (?row meta) = Inr d2"
    "decode_log_revision P encs d2 (cq_stream req) (cq_aggregate_id req) (target_of req) = Inr doc"
    "py_canonical_bytes P doc = Inr (cq_payload req)"
    "insert_intents P now (cq_intents req) (upsert_head d2 (new_head_row P now req doc meta)) = Inr d3"
    "d1 = upsert_fingerprint d3 (ledger_row now req)" "res = commit_result_of P now req False"
    unfolding append_revision_def by (auto split: if_splits)
  let ?r = "?row meta" and ?h = "new_head_row P now req doc meta"
  have r: "rv_key ?r = target_key req" "rv_revision_id ?r = request_rid P req"
    by (simp_all add: new_revision_row_def rv_key_def target_key_def)
  have d2: "revision_violation d ?r = None" "d2 = d\<lparr>db_revisions := db_revisions d @ [?r]\<rparr>"
    using a(2) by (simp_all add: insert_revision_Inr)
  have "Row_key (target_key req) \<notin> taken_keys d'" "Revision_key (request_rid P req) \<notin> taken_keys d'"
    using d2(1) b keys by (auto simp: beside_def request_keys_def revision_violation_None r taken_keys_def)
  then have free: "revision_violation d' ?r = None"
    using d2(1) by (auto simp: revision_violation_None r taken_keys_def)
  let ?d2' = "d'\<lparr>db_revisions := db_revisions d' @ [?r]\<rparr>"
  have b2: "beside gs ks d2 ?d2'"
    using beside_add [OF b, where rs = "[?r]" and xs = "[]"] by (simp add: d2(2))
  have decode: "decode_log_revision P encs ?d2' (cq_stream req) (cq_aggregate_id req) (target_of req) = Inr doc"
    using log_of_reads(3) [of ?d2' "cq_stream req" "cq_aggregate_id req" d2] b2 g a(3)
    by (simp add: beside_def cq_aggregate_def)
  have b3: "beside gs ks (upsert_head d2 ?h) (upsert_head ?d2' ?h)" by (rule beside_upsert_head [OF b2])
  let ?d3' = "(upsert_head ?d2' ?h)\<lparr>db_intents := db_intents (upsert_head ?d2' ?h) @ map (new_intent_row P now) (cq_intents req)\<rparr>"
  have ints: "insert_intents P now (cq_intents req) (upsert_head ?d2' ?h) = Inr ?d3'"
    by (rule insert_intents_beside [where ks = ks, OF a(5)]) (use b3 keys in \<open>auto simp: beside_def request_keys_def\<close>)
  have "d3 = (upsert_head d2 ?h)\<lparr>db_intents := db_intents (upsert_head d2 ?h) @ map (new_intent_row P now) (cq_intents req)\<rparr>"
    by (rule insert_intents_Inr [OF a(5)])
  then have b4: "beside gs ks d3 ?d3'"
    by (intro beside_cong [OF beside_add [OF b3, where rs = "[]" and xs = "map (new_intent_row P now) (cq_intents req)"]]) simp_all
  have "beside gs ks d1 (upsert_fingerprint ?d3' (ledger_row now req))"
    unfolding a(6) by (rule beside_cong [OF b4]) (simp_all add: upsert_frame)
  moreover have "append_revision P encs now d' req head = Inr (upsert_fingerprint ?d3' (ledger_row now req), res)"
    using free decode ints a(1,4,7) phys by (simp add: append_revision_def insert_revision_def)
  ultimately show ?thesis by blast
qed

lemma commit_one_from_beside:
  assumes run: "commit_one_from P encs now d req head existing = Inr (d1, res)" and b: "beside gs ks d d'"
    and g: "cq_aggregate req \<in> gs" and keys: "existing = None \<Longrightarrow> set (request_keys P req) \<inter> ks = {}"
  shows "\<exists>d1'. commit_one_from P encs now d' req head existing = Inr (d1', res) \<and> beside gs ks d1 d1'"
proof (cases existing)
  case None
  with run have "append_revision P encs now d req head = Inr (d1, res)" "cas_ok req head"
    by (simp_all add: commit_one_from_def split: if_splits)
  with append_beside [OF _ b g keys [OF None]] None show ?thesis by (simp add: commit_one_from_def)
next
  case (Some row)
  have log: "log_of d' (cq_stream req, cq_aggregate_id req) = log_of d (cq_stream req, cq_aggregate_id req)"
    using b g by (simp add: beside_def cq_aggregate_def)
  show ?thesis
  proof (cases "case head of None \<Rightarrow> True | Some h \<Rightarrow> hd_revision h < rv_revision row")
    case True
    with run Some obtain e where e: "is_identical P row req = Inr True" "upsert_head_from_row P encs d row req = Inr e"
      "d1 = e" "res = commit_result_of P now req True"
      by (auto simp: commit_one_from_def split: if_splits)
    then obtain h where h: "e = upsert_head d h" "upsert_head_from_row P encs d' row req = Inr (upsert_head d' h)"
      by (auto simp: upsert_head_from_row_def log_of_reads(3) [OF log])
    with Some True e beside_upsert_head [OF b, of h] show ?thesis by (simp add: commit_one_from_def)
  next
    case False
    with run Some b show ?thesis by (auto simp: commit_one_from_def split: if_splits)
  qed
qed

lemma commit_one_beside:
  assumes run: "commit_one P encs now d req = Inr (d1, res)" and b: "beside gs ks d d'"
    and g: "cq_aggregate req \<in> gs" and keys: "\<not> cr_replayed res \<Longrightarrow> set (request_keys P req) \<inter> ks = {}"
  shows "\<exists>d1'. commit_one P encs now d' req = Inr (d1', res) \<and> beside gs ks d1 d1'"
proof -
  have log: "log_of d' (cq_stream req, cq_aggregate_id req) = log_of d (cq_stream req, cq_aggregate_id req)"
    and head: "select_head d' (cq_stream req) (cq_aggregate_id req) = select_head d (cq_stream req) (cq_aggregate_id req)"
    using b g by (auto simp: beside_def cq_aggregate_def head_of_def)
  have "\<not> cr_replayed res" if none: "select_revision_row d (cq_stream req) (cq_aggregate_id req) (target_of req) = None"
  proof -
    have "append_revision P encs now d req (select_head d (cq_stream req) (cq_aggregate_id req)) = Inr (d1, res)"
      using run none by (simp add: commit_one_def commit_one_from_def split: if_splits)
    then show ?thesis by (rule append_revision_Inr) (simp add: commit_result_of_def)
  qed
  with commit_one_from_beside [OF run [unfolded commit_one_def] b g] keys
  obtain d1' where "commit_one_from P encs now d' req (select_head d (cq_stream req) (cq_aggregate_id req))
      (select_revision_row d (cq_stream req) (cq_aggregate_id req) (target_of req)) = Inr (d1', res)" "beside gs ks d1 d1'"
    by blast
  then show ?thesis unfolding commit_one_def log_of_reads(1) [OF log] head by blast
qed

section \<open>What a commit is to others\<close>

lemma commit_one_is_beside:
  assumes run: "commit_one P encs now d req = Inr (d1, res)"
  shows "beside (- {cq_aggregate req}) (if cr_replayed res then {} else set (request_keys P req)) d d1"
proof -
  have head: "head_of d1 g = head_of d g" if "g \<noteq> cq_aggregate req" for g
    using commit_one_other(1) [OF run, of "fst g" "snd g"] that by (cases g) (simp add: head_of_def cq_aggregate_def)
  from run show ?thesis
  proof (cases rule: commit_one_cases)
    case (replay row)
    then have "db_revisions d1 = db_revisions d" "db_intents d1 = db_intents d"
      by (auto split: option.splits if_splits dest: upsert_head_from_row_revisions)
    from log_of_cong [OF this(1)] taken_keys_cong [OF this] have "log_of d1 g = log_of d g" "taken_keys d1 = taken_keys d" for g
      by simp_all
    with head show ?thesis by (simp add: beside_def)
  next
    case append
    from append(3) obtain physical enc meta doc d2 where a:
      "d2 = d\<lparr>db_revisions := db_revisions d @ [new_revision_row P now req physical enc meta]\<rparr>"
      "db_revisions d1 = db_revisions d2" "db_intents d1 = db_intents d @ map (new_intent_row P now) (cq_intents req)"
      "res = commit_result_of P now req False"
      by (rule append_revision_Inr)
    let ?r = "new_revision_row P now req physical enc meta"
    have revs: "db_revisions d1 = db_revisions d @ [?r]" using a(1,2) by simp
    have "log_of d1 g = log_of d g" if "g \<noteq> cq_aggregate req" for g
      using log_of_append [OF revs, of g] that by (auto simp: new_revision_row_def cq_aggregate_def)
    moreover have "taken_keys d1 \<subseteq> taken_keys d \<union> set (request_keys P req)"
      unfolding taken_keys_append [OF revs a(3)]
      by (auto simp: new_revision_row_def new_intent_row_def request_keys_def intent_keys_def rv_key_def target_key_def)
    moreover have "\<not> cr_replayed res" using a(4) by (simp add: commit_result_of_def)
    ultimately show ?thesis using head by (auto simp: beside_def)
  qed
qed

lemma beside_trans:
  "beside gs ks d d' \<Longrightarrow> beside hs ls d' d'' \<Longrightarrow> beside (gs \<inter> hs) (ks \<union> ls) d d''"
  by (fastforce simp: beside_def)

lemma beside_mono: "beside gs ks d d' \<Longrightarrow> hs \<subseteq> gs \<Longrightarrow> ks \<subseteq> ls \<Longrightarrow> beside hs ls d d'"
  by (fastforce simp: beside_def)

section \<open>Batches\<close>

text \<open>The keys a batch inserts: those of the requests that are not answered as replays.\<close>

definition inserted_keys :: "platform \<Rightarrow> (commit_request \<times> commit_result) list \<Rightarrow> db_key set" where
  "inserted_keys P rs = (\<Union>(req, res) \<in> set rs. if cr_replayed res then {} else set (request_keys P req))"

lemma rfold_is_beside:
  assumes "rfold (commit_one P encs now) d reqs = Inr (d1, rs)"
  shows "beside (- cq_aggregate ` set reqs) (inserted_keys P (zip reqs rs)) d d1"
  using assms
proof (induction reqs arbitrary: d rs)
  case (Cons req reqs)
  from Cons.prems obtain d2 res rs' where one: "commit_one P encs now d req = Inr (d2, res)" "rs = res # rs'"
    and rest: "rfold (commit_one P encs now) d2 reqs = Inr (d1, rs')" by (auto elim: rfold_Inr_Cons)
  from beside_trans [OF commit_one_is_beside [OF one(1)] Cons.IH [OF rest]] show ?case
    by (rule beside_mono) (auto simp: one(2) inserted_keys_def)
qed (simp add: beside_refl)

lemma rfold_beside:
  assumes "rfold (commit_one P encs now) d reqs = Inr (d1, rs)" "beside gs ks d d'"
    and "cq_aggregate ` set reqs \<subseteq> gs" "inserted_keys P (zip reqs rs) \<inter> ks = {}"
  shows "\<exists>d1'. rfold (commit_one P encs now) d' reqs = Inr (d1', rs) \<and> beside gs ks d1 d1'"
  using assms
proof (induction reqs arbitrary: d d' rs)
  case (Cons req reqs)
  from Cons.prems(1) obtain d2 res rs' where one: "commit_one P encs now d req = Inr (d2, res)" "rs = res # rs'"
    and rest: "rfold (commit_one P encs now) d2 reqs = Inr (d1, rs')" by (auto elim: rfold_Inr_Cons)
  have "\<not> cr_replayed res \<Longrightarrow> set (request_keys P req) \<inter> ks = {}" and rest_keys: "inserted_keys P (zip reqs rs') \<inter> ks = {}"
    using Cons.prems(4) by (auto simp: one(2) inserted_keys_def)
  with commit_one_beside [OF one(1) Cons.prems(2)] Cons.prems(3)
  obtain d2' where d2': "commit_one P encs now d' req = Inr (d2', res)" "beside gs ks d2 d2'" by auto
  from Cons.IH [OF rest d2'(2) _ rest_keys] Cons.prems(3) d2'(1) one(2) show ?case by auto
qed simp

end
