(* ===== verification/Batches.thy ===== *)
theory Batches
  imports Frames
begin

text \<open>
  Commits of several requests that overlap on PostgreSQL (\<open>Postgres.commit\<close> and \<open>_commit_one\<close> of
  \<open>src/eventic/sql/store.py\<close>, the statements of \<open>src/eventic/sql/statements.py\<close> and \<open>src/eventic/sql/dialect.py\<close>).

  As in \<open>Concurrency\<close> each statement sees what is committed when it starts, and what its own transaction has
  written.  A writer goes through its requests in their order; for each it reads the head with \<open>FOR UPDATE\<close>, reads
  the row, and takes the keys that the statements insert one after the other: those of the log row, of the head, of
  each intent, of the ledger.  What it has locked or inserted stays its own until it ends, and another that wants it
  waits.  Where writers wait in a circle PostgreSQL aborts one of them, for which the driver raises no
  \<open>IntegrityError\<close>, and \<open>commit\<close> raises \<open>StoreError\<close>.
\<close>

section \<open>Writers of batches\<close>

text \<open>What the two reads of \<open>_commit_one\<close> found, and where a writer is: the requests that it has done, then the next.\<close>

type_synonym commit_reads = "head_row option \<times> revision_row option"

datatype batch_phase =
    Next_request "commit_reads list"
  | Found_head "commit_reads list" "head_row option"
  | Found_row "commit_reads list" "head_row option" "revision_row option" nat
  | Batch_ended "eventic_error + commit_result list"

record 'w batches =
  bt_db :: db
  bt_phase :: "'w \<Rightarrow> batch_phase"

definition batches_start :: "db \<Rightarrow> 'w batches" where
  "batches_start d = \<lparr>bt_db = d, bt_phase = (\<lambda>_. Next_request [])\<rparr>"

abbreviation turns :: "'w \<Rightarrow> batch_phase \<Rightarrow> 'w batches \<Rightarrow> 'w batches" where
  "turns w ph v \<equiv> v\<lparr>bt_phase := (bt_phase v)(w := ph)\<rparr>"

text \<open>
  What a writer sees: its writes over what is committed.  They are the writes of what it decided, on rows that
  nobody else touches.
\<close>

definition batch_view ::
  "platform \<Rightarrow> encodings \<Rightarrow> time \<Rightarrow> db \<Rightarrow> commit_request list \<Rightarrow> commit_reads list \<Rightarrow> exn + (db \<times> commit_result list)" where
  "batch_view P encs now d reqs ds =
     rfold (\<lambda>d (req, head, existing). commit_one_from P encs now d req head existing) d (zip reqs ds)"

section \<open>Keys and locks\<close>

text \<open>
  The keys that the statements of an append insert, in their order, where the compare-and-swap lets it; a replay
  writes at most the head.
\<close>

definition write_keys :: "platform \<Rightarrow> commit_request \<Rightarrow> head_row option \<Rightarrow> revision_row option \<Rightarrow> db_key list" where
  "write_keys P req head existing =
     (case existing of
        None \<Rightarrow>
          if cas_ok req head then
            [Row_key (target_key req), Revision_key (request_rid P req), Head_key (cq_aggregate req)] @
            intent_keys P (cq_intents req) @ [Ledger_key (cq_stream req, cq_schema_version req)]
          else []
      | Some row \<Rightarrow>
          if (case head of None \<Rightarrow> True | Some h \<Rightarrow> hd_revision h < rv_revision row) then [Head_key (cq_aggregate req)]
          else [])"

definition locked_head :: "commit_request \<Rightarrow> head_row option \<Rightarrow> db_key set" where
  "locked_head req head = (if head = None then {} else {Head_key (cq_aggregate req)})"

definition done_keys :: "platform \<Rightarrow> commit_request list \<Rightarrow> commit_reads list \<Rightarrow> db_key set" where
  "done_keys P reqs ds =
     (\<Union>(req, head, existing) \<in> set (zip reqs ds). locked_head req head \<union> set (write_keys P req head existing))"

fun held_keys :: "platform \<Rightarrow> commit_request list \<Rightarrow> batch_phase \<Rightarrow> db_key set" where
  "held_keys P reqs (Next_request ds) = done_keys P reqs ds"
| "held_keys P reqs (Found_head ds head) = done_keys P reqs ds \<union> locked_head (reqs ! length ds) head"
| "held_keys P reqs (Found_row ds head existing n) =
     done_keys P reqs ds \<union> locked_head (reqs ! length ds) head \<union>
     set (take n (write_keys P (reqs ! length ds) head existing))"
| "held_keys P reqs (Batch_ended _) = {}"

text \<open>
  Who has to wait for whom at a key.  \<open>FOR UPDATE\<close> waits only where there is a committed head to lock, and
  \<open>ON CONFLICT DO NOTHING\<close> only for a ledger row that is not committed yet.
\<close>

definition reads_locked :: "db \<Rightarrow> db_key \<Rightarrow> bool" where
  "reads_locked d k = (case k of Head_key g \<Rightarrow> head_of d g \<noteq> None | _ \<Rightarrow> False)"

definition writes_locked :: "db \<Rightarrow> db_key \<Rightarrow> bool" where
  "writes_locked d k = (case k of Ledger_key (s, n) \<Rightarrow> select_fingerprint d s n = None | _ \<Rightarrow> True)"

fun wanted_key :: "platform \<Rightarrow> db \<Rightarrow> commit_request list \<Rightarrow> batch_phase \<Rightarrow> db_key option" where
  "wanted_key P d reqs (Next_request ds) =
     (if length ds < length reqs \<and> reads_locked d (Head_key (cq_aggregate (reqs ! length ds)))
      then Some (Head_key (cq_aggregate (reqs ! length ds))) else None)"
| "wanted_key P d reqs (Found_row ds head existing n) =
     (let ks = write_keys P (reqs ! length ds) head existing
      in if n < length ks \<and> writes_locked d (ks ! n) then Some (ks ! n) else None)"
| "wanted_key P d reqs _ = None"

definition waits_for :: "platform \<Rightarrow> ('w \<Rightarrow> commit_request list) \<Rightarrow> 'w batches \<Rightarrow> ('w \<times> 'w) set" where
  "waits_for P reqs v =
     {(w, u). u \<noteq> w \<and> (\<exists>k \<in> held_keys P (reqs u) (bt_phase v u). wanted_key P (bt_db v) (reqs w) (bt_phase v w) = Some k)}"

definition blocked :: "platform \<Rightarrow> ('w \<Rightarrow> commit_request list) \<Rightarrow> 'w batches \<Rightarrow> 'w \<Rightarrow> bool" where
  "blocked P reqs v w \<longleftrightarrow> (\<exists>u. (w, u) \<in> waits_for P reqs v)"

section \<open>Steps\<close>

text \<open>
  How a step ends: the head read, the row read, a key taken, a request done, a request done that replayed a row
  although no head was found, the commit of the batch, its failure, and its failure as the victim of a deadlock.
\<close>

datatype 'w batch_label =
    Head_of 'w
  | Row_of 'w
  | Key_of 'w
  | Request_done 'w
  | Request_repaired 'w
  | Batch_done 'w "commit_result list"
  | Batch_failed 'w eventic_error
  | Batch_victim 'w

inductive batches_step ::
  "platform \<Rightarrow> encodings \<Rightarrow> nat \<Rightarrow> ('w \<Rightarrow> time) \<Rightarrow> ('w \<Rightarrow> commit_request list) \<Rightarrow>
   'w batches \<Rightarrow> 'w batch_label \<Rightarrow> 'w batches \<Rightarrow> bool"
  for P encs max_batch now reqs where
  too_long: "bt_phase v w = Next_request ds \<Longrightarrow> max_batch < length (reqs w) \<Longrightarrow>
     batches_step P encs max_batch now reqs v (Batch_failed w UsageError) (turns w (Batch_ended (Inl UsageError)) v)"
| head_read: "bt_phase v w = Next_request ds \<Longrightarrow> length ds < length (reqs w) \<Longrightarrow> length (reqs w) \<le> max_batch \<Longrightarrow>
     \<not> blocked P reqs v w \<Longrightarrow> batch_view P encs (now w) (bt_db v) (reqs w) ds = Inr (d, rs) \<Longrightarrow>
     batches_step P encs max_batch now reqs v (Head_of w)
       (turns w (Found_head ds (head_of d (cq_aggregate (reqs w ! length ds)))) v)"
| row_read: "bt_phase v w = Found_head ds head \<Longrightarrow> req = reqs w ! length ds \<Longrightarrow>
     batch_view P encs (now w) (bt_db v) (reqs w) ds = Inr (d, rs) \<Longrightarrow>
     batches_step P encs max_batch now reqs v (Row_of w)
       (turns w (Found_row ds head (select_revision_row d (cq_stream req) (cq_aggregate_id req) (target_of req)) 0) v)"
| key_taken: "bt_phase v w = Found_row ds head existing n \<Longrightarrow>
     ks = write_keys P (reqs w ! length ds) head existing \<Longrightarrow> n < length ks \<Longrightarrow> \<not> blocked P reqs v w \<Longrightarrow>
     batch_view P encs (now w) (bt_db v) (reqs w) ds = Inr (d, rs) \<Longrightarrow> ks ! n \<notin> taken_keys d \<Longrightarrow>
     batches_step P encs max_batch now reqs v (Key_of w) (turns w (Found_row ds head existing (Suc n)) v)"
| request_done: "bt_phase v w = Found_row ds head existing n \<Longrightarrow>
     n = length (write_keys P (reqs w ! length ds) head existing) \<Longrightarrow>
     batch_view P encs (now w) (bt_db v) (reqs w) ds = Inr (d, rs) \<Longrightarrow>
     commit_one_from P encs (now w) d (reqs w ! length ds) head existing = Inr (d', res) \<Longrightarrow>
     batches_step P encs max_batch now reqs v
       (if head = None \<and> existing \<noteq> None then Request_repaired w else Request_done w)
       (turns w (Next_request (ds @ [(head, existing)])) v)"
| request_fails: "bt_phase v w = Found_row ds head existing n \<Longrightarrow>
     batch_view P encs (now w) (bt_db v) (reqs w) ds = Inr (d, rs) \<Longrightarrow>
     commit_one_from P encs (now w) d (reqs w ! length ds) head existing = Inl e \<Longrightarrow>
     batches_step P encs max_batch now reqs v (Batch_failed w (commit_error e)) (turns w (Batch_ended (Inl (commit_error e))) v)"
| batch_done: "bt_phase v w = Next_request ds \<Longrightarrow> length ds = length (reqs w) \<Longrightarrow> length (reqs w) \<le> max_batch \<Longrightarrow>
     batch_view P encs (now w) (bt_db v) (reqs w) ds = Inr (d, rs) \<Longrightarrow>
     batches_step P encs max_batch now reqs v (Batch_done w rs)
       (v\<lparr>bt_db := d, bt_phase := (bt_phase v)(w := Batch_ended (Inr rs))\<rparr>)"
| deadlock: "(w, w) \<in> (waits_for P reqs v)\<^sup>+ \<Longrightarrow>
     batches_step P encs max_batch now reqs v (Batch_victim w) (turns w (Batch_ended (Inl StoreError)) v)"

inductive batches_run ::
  "platform \<Rightarrow> encodings \<Rightarrow> nat \<Rightarrow> ('w \<Rightarrow> time) \<Rightarrow> ('w \<Rightarrow> commit_request list) \<Rightarrow>
   'w batches \<Rightarrow> 'w batch_label list \<Rightarrow> 'w batches \<Rightarrow> bool"
  for P encs max_batch now reqs where
  batch_stays: "batches_run P encs max_batch now reqs v [] v"
| batch_moves: "batches_run P encs max_batch now reqs v ls v' \<Longrightarrow> batches_step P encs max_batch now reqs v' l v'' \<Longrightarrow>
     batches_run P encs max_batch now reqs v (ls @ [l]) v''"

text \<open>The batches that committed and what each was told, in the order of the commits.\<close>

fun batches_of :: "'w batch_label list \<Rightarrow> ('w \<times> commit_result list) list" where
  "batches_of [] = []"
| "batches_of (Batch_done w rs # ls) = (w, rs) # batches_of ls"
| "batches_of (_ # ls) = batches_of ls"

fun repairs_one :: "'w batch_label \<Rightarrow> bool" where
  "repairs_one (Request_repaired _) = True"
| "repairs_one _ = False"

fun batch_writer :: "'w batch_label \<Rightarrow> 'w" where
  "batch_writer (Head_of w) = w"
| "batch_writer (Row_of w) = w"
| "batch_writer (Key_of w) = w"
| "batch_writer (Request_done w) = w"
| "batch_writer (Request_repaired w) = w"
| "batch_writer (Batch_done w _) = w"
| "batch_writer (Batch_failed w _) = w"
| "batch_writer (Batch_victim w) = w"

lemma batches_of_append: "batches_of (ls @ [l]) = batches_of ls @ batches_of [l]"
  by (induction ls rule: batches_of.induct) simp_all

section \<open>What a writer has decided\<close>

text \<open>
  The decisions of a writer are those of a serial run: the head that it locked is the head, and the row that it
  found then is the row.
\<close>

fun decided :: "platform \<Rightarrow> encodings \<Rightarrow> time \<Rightarrow> db \<Rightarrow> commit_request list \<Rightarrow> commit_reads list \<Rightarrow> bool" where
  "decided P encs now d reqs [] = True"
| "decided P encs now d (req # reqs) ((head, existing) # ds) =
     (phase_ok d req (Row_read head existing) \<and> (head = None \<longrightarrow> existing = None) \<and>
      (case commit_one_from P encs now d req head existing of
         Inl _ \<Rightarrow> False | Inr (d', _) \<Rightarrow> decided P encs now d' reqs ds))"
| "decided P encs now d [] (_ # _) = False"

lemma decided_length: "decided P encs now d reqs ds \<Longrightarrow> length ds \<le> length reqs"
  by (induction reqs ds arbitrary: d rule: list_induct2') (auto split: sum.splits prod.splits)

lemma batch_view_simps [simp]:
  "batch_view P encs now d reqs [] = Inr (d, [])"
  "batch_view P encs now d (req # reqs) ((head, existing) # ds) =
     rbind (commit_one_from P encs now d req head existing) (\<lambda>(d', res).
     rbind (batch_view P encs now d' reqs ds) (\<lambda>(d'', rs). Inr (d'', res # rs)))"
  by (simp_all add: batch_view_def)

text \<open>On a consistent store that is a serial run.\<close>

lemma decided_serial:
  assumes P: "float_codec P" and ok: "store_ok P encs d" and wf: "\<forall>req \<in> set reqs. request_wf P req"
    and ds: "decided P encs now d reqs ds"
  obtains d' rs where "batch_view P encs now d reqs ds = Inr (d', rs)" "store_ok P encs d'"
    "rfold (commit_one P encs now) d (take (length ds) reqs) = Inr (d', rs)"
    "inserted_keys P (zip reqs rs) \<subseteq> done_keys P reqs ds"
proof -
  have "\<exists>d' rs. batch_view P encs now d reqs ds = Inr (d', rs) \<and> store_ok P encs d' \<and>
    rfold (commit_one P encs now) d (take (length ds) reqs) = Inr (d', rs) \<and>
    inserted_keys P (zip reqs rs) \<subseteq> done_keys P reqs ds"
    using ok wf ds
  proof (induction reqs ds arbitrary: d rule: list_induct2')
    case (4 req reqs dec ds)
    obtain head existing where dec: "dec = (head, existing)" by (cases dec)
    from 4(4) obtain d1 res where one: "phase_ok d req (Row_read head existing)" "head = None \<longrightarrow> existing = None"
      "commit_one_from P encs now d req head existing = Inr (d1, res)" "decided P encs now d1 reqs ds"
      by (auto simp: dec split: sum.splits)
    have req: "request_wf P req" using 4(3) by simp
    have serial: "commit_one P encs now d req = Inr (d1, res)"
      using decides_as_serial [OF 4(2) req one(1), of now] one(2,3) by auto
    have "store_ok P encs d1"
      by (rule commit_one_preserves [OF P 4(2) _ serial]) (use req in \<open>simp add: request_wf_def\<close>)
    with 4(1) [of d1] 4(3) one(4) obtain d' rs where rest: "batch_view P encs now d1 reqs ds = Inr (d', rs)"
      "store_ok P encs d'" "rfold (commit_one P encs now) d1 (take (length ds) reqs) = Inr (d', rs)"
      "inserted_keys P (zip reqs rs) \<subseteq> done_keys P reqs ds" by auto
    have "existing = None \<and> cas_ok req head" if "\<not> cr_replayed res"
      using one(3) that by (cases existing) (auto simp: commit_one_from_def commit_result_of_def split: if_splits)
    then have "(if cr_replayed res then {} else set (request_keys P req)) \<subseteq> set (write_keys P req head existing)"
      by (auto simp: request_keys_def write_keys_def)
    with rest serial one(3) show ?case
      by (auto simp: dec inserted_keys_def done_keys_def)
  qed (simp_all add: inserted_keys_def)
  then show thesis using that by blast
qed

lemma zip_snoc: "length ys < length xs \<Longrightarrow> zip xs (ys @ [y]) = zip xs ys @ [(xs ! length ys, y)]"
proof (induction xs ys rule: list_induct2')
  case (2 x xs)
  then show ?case by simp
qed simp_all

lemma done_keys_snoc:
  "length ds < length reqs \<Longrightarrow> done_keys P reqs (ds @ [(head, existing)]) =
     done_keys P reqs ds \<union> locked_head (reqs ! length ds) head \<union> set (write_keys P (reqs ! length ds) head existing)"
  by (auto simp: done_keys_def zip_snoc)

lemma decided_snoc:
  assumes "decided P encs now d reqs ds" "length ds < length reqs" "batch_view P encs now d reqs ds = Inr (d1, rs)"
    and "phase_ok d1 (reqs ! length ds) (Row_read head existing)" "head = None \<longrightarrow> existing = None"
    and "commit_one_from P encs now d1 (reqs ! length ds) head existing = Inr x"
  shows "decided P encs now d reqs (ds @ [(head, existing)])"
  using assms
proof (induction reqs ds arbitrary: d rs rule: list_induct2')
  case (2 req reqs)
  then show ?case by (cases x) simp
next
  case (4 req reqs dec ds)
  obtain h row where dec: "dec = (h, row)" by (cases dec)
  from 4(2,4) obtain d2 res rs' where one: "commit_one_from P encs now d req h row = Inr (d2, res)"
    "decided P encs now d2 reqs ds" "batch_view P encs now d2 reqs ds = Inr (d1, rs')"
    by (auto simp: dec split: sum.splits prod.splits)
  have "decided P encs now d2 reqs (ds @ [(head, existing)])"
    by (rule 4(1) [OF one(2) _ one(3)]) (use 4(3,5-7) in simp_all)
  with 4(2) one(1) show ?case by (simp add: dec)
qed simp_all

text \<open>Nor does it notice what others commit meanwhile, who have neither its heads nor its keys.\<close>

lemma phase_ok_beside:
  assumes "phase_ok d req (Row_read head existing)" "beside gs ks d d'" "head = None \<longrightarrow> existing = None"
    and "head \<noteq> None \<Longrightarrow> cq_aggregate req \<in> gs"
  shows "phase_ok d' req (Row_read head existing)"
proof (cases head)
  case (Some h)
  with assms(2,4) have same: "log_of d' (cq_stream req, cq_aggregate_id req) = log_of d (cq_stream req, cq_aggregate_id req)"
    "head_of d' (cq_stream req, cq_aggregate_id req) = head_of d (cq_stream req, cq_aggregate_id req)"
    by (simp_all add: beside_def cq_aggregate_def)
  show ?thesis using assms(1) Some same(2) log_of_reads(1) [OF same(1)] by (simp add: head_of_def)
qed (use assms(3) in simp)

lemma decided_beside:
  assumes "decided P encs now d reqs ds" "beside gs ks d d'"
    and "\<And>g. Head_key g \<in> done_keys P reqs ds \<Longrightarrow> g \<in> gs" "done_keys P reqs ds \<inter> ks \<subseteq> range Ledger_key"
    and "batch_view P encs now d reqs ds = Inr (d1, rs)"
  shows "decided P encs now d' reqs ds \<and> (\<exists>d1'. batch_view P encs now d' reqs ds = Inr (d1', rs) \<and> beside gs ks d1 d1')"
  using assms
proof (induction reqs ds arbitrary: d d' rs rule: list_induct2')
  case (4 req reqs dec ds)
  obtain head existing where dec: "dec = (head, existing)" by (cases dec)
  from 4(2,6) obtain d2 res rs' where one: "phase_ok d req (Row_read head existing)" "head = None \<longrightarrow> existing = None"
    "commit_one_from P encs now d req head existing = Inr (d2, res)" "decided P encs now d2 reqs ds"
    "batch_view P encs now d2 reqs ds = Inr (d1, rs')" "rs = res # rs'"
    by (auto simp: dec split: sum.splits prod.splits)
  have keys: "done_keys P (req # reqs) (dec # ds) =
      locked_head req head \<union> set (write_keys P req head existing) \<union> done_keys P reqs ds"
    by (auto simp: done_keys_def dec)
  have appends: "existing = None \<Longrightarrow> cas_ok req head"
    using one(3) by (simp add: commit_one_from_def split: if_splits)
  have g: "cq_aggregate req \<in> gs"
    by (rule 4(4), unfold keys) (use one(2) appends in \<open>auto simp: locked_head_def write_keys_def\<close>)
  have free: "set (request_keys P req) \<inter> ks = {}" if "existing = None"
    using 4(5) appends [OF that] that unfolding keys
    by (auto simp: write_keys_def request_keys_def intent_keys_def)
  from commit_one_from_beside [OF one(3) 4(3) g free]
  obtain d2' where d2': "commit_one_from P encs now d' req head existing = Inr (d2', res)" "beside gs ks d2 d2'" by blast
  have "phase_ok d' req (Row_read head existing)" by (rule phase_ok_beside [OF one(1) 4(3) one(2) g])
  moreover have "decided P encs now d2' reqs ds \<and>
      (\<exists>d1'. batch_view P encs now d2' reqs ds = Inr (d1', rs') \<and> beside gs ks d1 d1')"
    by (rule 4(1) [OF one(4) d2'(2) _ _ one(5)]) (use 4(4,5) keys in auto)
  ultimately show ?case using one d2' by (auto simp: dec)
qed auto

lemma decided_heads:
  "decided P encs now d reqs ds \<Longrightarrow> req \<in> set (take (length ds) reqs) \<Longrightarrow> Head_key (cq_aggregate req) \<in> done_keys P reqs ds"
proof (induction reqs ds arbitrary: d rule: list_induct2')
  case (4 x reqs dec ds)
  obtain head existing where dec: "dec = (head, existing)" by (cases dec)
  from 4(2) obtain d2 res where one: "head = None \<longrightarrow> existing = None" "decided P encs now d2 reqs ds"
    "commit_one_from P encs now d x head existing = Inr (d2, res)"
    by (auto simp: dec split: sum.splits)
  then have cas: "existing = None \<Longrightarrow> cas_ok x head" by (simp add: commit_one_from_def split: if_splits)
  have keys: "done_keys P (x # reqs) (dec # ds) = locked_head x head \<union> set (write_keys P x head existing) \<union> done_keys P reqs ds"
    by (auto simp: done_keys_def dec)
  show ?case
  proof (cases "req \<in> set (take (length ds) reqs)")
    case True
    with 4(1) [OF one(2)] keys show ?thesis by simp
  next
    case False
    with 4(3) have "req = x" by simp
    with one(1) cas show ?thesis unfolding keys by (auto simp: locked_head_def write_keys_def)
  qed
qed simp_all

section \<open>The invariant\<close>

fun batch_ok :: "platform \<Rightarrow> encodings \<Rightarrow> time \<Rightarrow> db \<Rightarrow> commit_request list \<Rightarrow> batch_phase \<Rightarrow> bool" where
  "batch_ok P encs now d reqs (Next_request ds) \<longleftrightarrow> decided P encs now d reqs ds"
| "batch_ok P encs now d reqs (Found_head ds head) \<longleftrightarrow>
     decided P encs now d reqs ds \<and> length ds < length reqs \<and>
     (\<forall>d1 rs. batch_view P encs now d reqs ds = Inr (d1, rs) \<longrightarrow> head \<noteq> None \<longrightarrow>
        head_of d1 (cq_aggregate (reqs ! length ds)) = head)"
| "batch_ok P encs now d reqs (Found_row ds head existing n) \<longleftrightarrow>
     decided P encs now d reqs ds \<and> length ds < length reqs \<and>
     (\<forall>d1 rs. batch_view P encs now d reqs ds = Inr (d1, rs) \<longrightarrow> head \<noteq> None \<longrightarrow>
        phase_ok d1 (reqs ! length ds) (Row_read head existing)) \<and>
     n \<le> length (write_keys P (reqs ! length ds) head existing)"
| "batch_ok P encs now d reqs (Batch_ended _) \<longleftrightarrow> True"

definition batches_ok ::
  "platform \<Rightarrow> encodings \<Rightarrow> ('w \<Rightarrow> time) \<Rightarrow> ('w \<Rightarrow> commit_request list) \<Rightarrow> 'w batches \<Rightarrow> bool" where
  "batches_ok P encs now reqs v \<longleftrightarrow>
     store_ok P encs (bt_db v) \<and> (\<forall>w. batch_ok P encs (now w) (bt_db v) (reqs w) (bt_phase v w)) \<and>
     (\<forall>u w. u \<noteq> w \<longrightarrow>
        held_keys P (reqs u) (bt_phase v u) \<inter> held_keys P (reqs w) (bt_phase v w) \<subseteq> range Ledger_key)"

lemma batches_ok_start: "store_ok P encs d \<Longrightarrow> batches_ok P encs now reqs (batches_start d)"
  by (simp add: batches_ok_def batches_start_def done_keys_def)

lemma batches_ok_turns:
  assumes ok: "batches_ok P encs now reqs v" and ph: "batch_ok P encs (now w) (bt_db v) (reqs w) ph"
    and keys: "held_keys P (reqs w) ph \<subseteq> held_keys P (reqs w) (bt_phase v w) \<union> ks"
    and free: "\<And>u. u \<noteq> w \<Longrightarrow> ks \<inter> held_keys P (reqs u) (bt_phase v u) \<subseteq> range Ledger_key"
  shows "batches_ok P encs now reqs (turns w ph v)"
proof -
  have new: "held_keys P (reqs w) ph \<inter> held_keys P (reqs u) (bt_phase v u) \<subseteq> range Ledger_key" if "u \<noteq> w" for u
  proof -
    have "held_keys P (reqs w) (bt_phase v w) \<inter> held_keys P (reqs u) (bt_phase v u) \<subseteq> range Ledger_key"
      using ok that by (simp add: batches_ok_def)
    with free [OF that] keys show ?thesis by blast
  qed
  show ?thesis unfolding batches_ok_def
  proof (intro conjI allI impI)
    fix u t :: 'a
    assume "u \<noteq> t"
    then consider "u = w" "t \<noteq> w" | "t = w" "u \<noteq> w" | "u \<noteq> w" "t \<noteq> w" by blast
    then show "held_keys P (reqs u) (bt_phase (turns w ph v) u) \<inter> held_keys P (reqs t) (bt_phase (turns w ph v) t)
        \<subseteq> range Ledger_key"
    proof cases
      case 1
      with new [of t] show ?thesis by simp
    next
      case 2
      with new [of u] show ?thesis by (simp add: Int_commute)
    next
      case 3
      with ok \<open>u \<noteq> t\<close> show ?thesis by (simp add: batches_ok_def)
    qed
  qed (use ok ph in \<open>simp_all add: batches_ok_def\<close>)
qed

text \<open>A key that a writer does not wait for is free.\<close>

lemma wanted_free:
  assumes "\<not> blocked P reqs v w" "wanted_key P (bt_db v) (reqs w) (bt_phase v w) = Some k" "u \<noteq> w"
  shows "k \<notin> held_keys P (reqs u) (bt_phase v u)"
  using assms by (auto simp: blocked_def waits_for_def)

text \<open>The head that a writer sees is committed or its own.\<close>

lemma view_head:
  assumes P: "float_codec P" and ok: "store_ok P encs d" and wf: "\<forall>req \<in> set reqs. request_wf P req"
    and ds: "decided P encs now d reqs ds" and view: "batch_view P encs now d reqs ds = Inr (d1, rs)"
    and g: "Head_key g \<notin> done_keys P reqs ds"
  shows "head_of d1 g = head_of d g"
proof -
  obtain d1' rs' where "batch_view P encs now d reqs ds = Inr (d1', rs')"
    "rfold (commit_one P encs now) d (take (length ds) reqs) = Inr (d1', rs')"
    by (rule decided_serial [OF P ok wf ds])
  with view have "rfold (commit_one P encs now) d (take (length ds) reqs) = Inr (d1, rs)" by simp
  from rfold_is_beside [OF this] decided_heads [OF ds] g show ?thesis by (auto simp: beside_def)
qed

lemma batch_ok_beside:
  assumes P: "float_codec P" and ok: "store_ok P encs d" and wf: "\<forall>req \<in> set reqs. request_wf P req"
    and ph: "batch_ok P encs now d reqs ph" and b: "beside gs ks d d'"
    and heads: "\<And>g. Head_key g \<in> held_keys P reqs ph \<Longrightarrow> g \<in> gs" and keys: "held_keys P reqs ph \<inter> ks \<subseteq> range Ledger_key"
  shows "batch_ok P encs now d' reqs ph"
proof -
  have stays: "decided P encs now d' reqs ds \<and> (\<exists>d1 rs d1'. batch_view P encs now d reqs ds = Inr (d1, rs) \<and>
      batch_view P encs now d' reqs ds = Inr (d1', rs) \<and> beside gs ks d1 d1')"
    if ds: "decided P encs now d reqs ds" and sub: "done_keys P reqs ds \<subseteq> held_keys P reqs ph" for ds
  proof -
    obtain d1 rs where view: "batch_view P encs now d reqs ds = Inr (d1, rs)" by (rule decided_serial [OF P ok wf ds])
    have "decided P encs now d' reqs ds \<and> (\<exists>d1'. batch_view P encs now d' reqs ds = Inr (d1', rs) \<and> beside gs ks d1 d1')"
      by (rule decided_beside [OF ds b _ _ view]) (use sub heads keys in auto)
    with view show ?thesis by blast
  qed
  show ?thesis
  proof (cases ph)
    case (Next_request ds)
    with stays [of ds] ph show ?thesis by simp
  next
    case (Found_head ds head)
    with ph stays [of ds] obtain d1 rs d1' where w: "decided P encs now d' reqs ds" "length ds < length reqs"
      "batch_view P encs now d reqs ds = Inr (d1, rs)" "batch_view P encs now d' reqs ds = Inr (d1', rs)" "beside gs ks d1 d1'"
      by auto
    have "head_of d1' (cq_aggregate (reqs ! length ds)) = head" if "head \<noteq> None"
    proof -
      have "cq_aggregate (reqs ! length ds) \<in> gs" by (rule heads) (use that in \<open>auto simp: Found_head locked_head_def\<close>)
      with ph that w(3,5) show ?thesis by (simp add: Found_head beside_def)
    qed
    with w show ?thesis by (simp add: Found_head)
  next
    case (Found_row ds head existing n)
    with ph stays [of ds] obtain d1 rs d1' where w: "decided P encs now d' reqs ds" "length ds < length reqs"
      "batch_view P encs now d reqs ds = Inr (d1, rs)" "batch_view P encs now d' reqs ds = Inr (d1', rs)" "beside gs ks d1 d1'"
      by auto
    have "phase_ok d1' (reqs ! length ds) (Row_read head existing)" if "head \<noteq> None"
      by (rule phase_ok_beside [OF _ w(5)])
        (use ph that w(3) heads [of "cq_aggregate (reqs ! length ds)"] in \<open>auto simp: Found_row locked_head_def\<close>)
    with w ph show ?thesis by (simp add: Found_row)
  qed simp
qed

section \<open>Overlapping batches are serial batches\<close>

lemma batches_ok_commit:
  assumes P: "float_codec P" and wf: "\<And>w. \<forall>req \<in> set (reqs w). request_wf P req"
    and ok: "batches_ok P encs now reqs v" and ph: "bt_phase v w = Next_request ds" "length ds = length (reqs w)"
    and view: "batch_view P encs (now w) (bt_db v) (reqs w) ds = Inr (d, rs)"
  shows "batches_ok P encs now reqs (v\<lparr>bt_db := d, bt_phase := (bt_phase v)(w := Batch_ended out)\<rparr>) \<and>
    rfold (commit_one P encs (now w)) (bt_db v) (reqs w) = Inr (d, rs)"
proof -
  have store: "store_ok P encs (bt_db v)" and w: "batch_ok P encs (now u) (bt_db v) (reqs u) (bt_phase v u)" for u
    using ok by (simp_all add: batches_ok_def)
  have ds: "decided P encs (now w) (bt_db v) (reqs w) ds" using w [of w] ph(1) by simp
  obtain d' rs' where "batch_view P encs (now w) (bt_db v) (reqs w) ds = Inr (d', rs')" "store_ok P encs d'"
    "rfold (commit_one P encs (now w)) (bt_db v) (take (length ds) (reqs w)) = Inr (d', rs')"
    "inserted_keys P (zip (reqs w) rs') \<subseteq> done_keys P (reqs w) ds"
    by (rule decided_serial [OF P store wf ds])
  with view ph(2) have run: "rfold (commit_one P encs (now w)) (bt_db v) (reqs w) = Inr (d, rs)"
    and d: "store_ok P encs d" and new: "inserted_keys P (zip (reqs w) rs) \<subseteq> done_keys P (reqs w) ds" by simp_all
  have others: "batch_ok P encs (now u) d (reqs u) (bt_phase v u)" if "u \<noteq> w" for u
  proof (rule batch_ok_beside [OF P store wf w rfold_is_beside [OF run]])
    have apart: "held_keys P (reqs u) (bt_phase v u) \<inter> done_keys P (reqs w) ds \<subseteq> range Ledger_key"
      using ok that ph(1) by (force simp: batches_ok_def)
    show "held_keys P (reqs u) (bt_phase v u) \<inter> inserted_keys P (zip (reqs w) rs) \<subseteq> range Ledger_key"
      using apart new by blast
    show "g \<in> - cq_aggregate ` set (reqs w)" if "Head_key g \<in> held_keys P (reqs u) (bt_phase v u)" for g
      using apart that decided_heads [OF ds] ph(2) by auto
  qed
  have "\<forall>u t. u \<noteq> t \<longrightarrow> held_keys P (reqs u) (if u = w then Batch_ended out else bt_phase v u) \<inter>
      held_keys P (reqs t) (if t = w then Batch_ended out else bt_phase v t) \<subseteq> range Ledger_key"
    using ok by (simp add: batches_ok_def)
  with others d run show ?thesis by (simp add: batches_ok_def)
qed

lemma batch_step_ok:
  assumes P: "float_codec P" and wf: "\<And>w. \<forall>req \<in> set (reqs w). request_wf P req"
    and ok: "batches_ok P encs now reqs v" and step: "batches_step P encs m now reqs v l v'" and l: "\<not> repairs_one l"
  shows "batches_ok P encs now reqs v'"
proof -
  have store: "store_ok P encs (bt_db v)" and w: "batch_ok P encs (now u) (bt_db v) (reqs u) (bt_phase v u)" for u
    using ok by (simp_all add: batches_ok_def)
  from step show ?thesis
  proof (cases rule: batches_step.cases)
    case (too_long w ds)
    show ?thesis unfolding too_long(2) by (rule batches_ok_turns [OF ok, where ks = "{}"]) simp_all
  next
    case (head_read w ds d rs)
    let ?g = "cq_aggregate (reqs w ! length ds)"
    have ds: "decided P encs (now w) (bt_db v) (reqs w) ds" using w [of w] head_read(3) by simp
    show ?thesis unfolding head_read(2)
    proof (rule batches_ok_turns [OF ok, where ks = "locked_head (reqs w ! length ds) (head_of d ?g) - done_keys P (reqs w) ds"])
      fix u assume u: "u \<noteq> w"
      show "(locked_head (reqs w ! length ds) (head_of d ?g) - done_keys P (reqs w) ds) \<inter> held_keys P (reqs u) (bt_phase v u)
          \<subseteq> range Ledger_key"
      proof (cases "head_of d ?g = None \<or> Head_key ?g \<in> done_keys P (reqs w) ds")
        case False
        with view_head [OF P store wf ds head_read(7), of ?g] have "reads_locked (bt_db v) (Head_key ?g)"
          by (simp add: reads_locked_def)
        with wanted_free [OF head_read(6) _ u] head_read(3,4)
        have "Head_key ?g \<notin> held_keys P (reqs u) (bt_phase v u)" by simp
        then show ?thesis by (auto simp: locked_head_def split: if_splits)
      qed (auto simp: locked_head_def)
    qed (use ds head_read(3,4,7) in auto)
  next
    case (row_read w ds head req d rs)
    show ?thesis unfolding row_read(2)
      by (rule batches_ok_turns [OF ok, where ks = "{}"])
        (use w [of w] row_read(3-5) in \<open>auto simp: head_of_def cq_aggregate_def\<close>)
  next
    case (key_taken w ds head existing n ks d rs)
    have taken: "take (Suc n) ks = take n ks @ [ks ! n]" by (rule take_Suc_conv_app_nth [OF key_taken(5)])
    show ?thesis unfolding key_taken(2)
    proof (rule batches_ok_turns [OF ok, where ks = "{ks ! n}"])
      fix u assume u: "u \<noteq> w"
      show "{ks ! n} \<inter> held_keys P (reqs u) (bt_phase v u) \<subseteq> range Ledger_key"
      proof (cases "writes_locked (bt_db v) (ks ! n)")
        case True
        with wanted_free [OF key_taken(6) _ u] key_taken(3-5)
        have "ks ! n \<notin> held_keys P (reqs u) (bt_phase v u)" by (simp add: Let_def)
        then show ?thesis by simp
      next
        case False
        then show ?thesis by (auto simp: writes_locked_def split: db_key.splits)
      qed
    qed (use w [of w] key_taken(3-5) taken in auto)
  next
    case (request_done w ds head existing n d rs d' res)
    have serves: "head = None \<longrightarrow> existing = None" using l request_done(1) by (auto split: if_splits)
    have ph: "decided P encs (now w) (bt_db v) (reqs w) ds" "length ds < length (reqs w)"
      "head \<noteq> None \<Longrightarrow> phase_ok d (reqs w ! length ds) (Row_read head existing)"
      using w [of w] request_done(3,5) by auto
    have "phase_ok d (reqs w ! length ds) (Row_read head existing)"
      using ph(3) serves by (cases head) simp_all
    from decided_snoc [OF ph(1,2) request_done(5) this serves request_done(6)]
    show ?thesis unfolding request_done(2)
      by (intro batches_ok_turns [OF ok, where ks = "{}"]) (use request_done(3,4) ph(2) in \<open>simp_all add: done_keys_snoc\<close>)
  next
    case (request_fails w ds head existing n d rs e)
    show ?thesis unfolding request_fails(2) by (rule batches_ok_turns [OF ok, where ks = "{}"]) simp_all
  next
    case (batch_done w ds d rs)
    from batches_ok_commit [OF P wf ok batch_done(3,4,6)] show ?thesis unfolding batch_done(2) by blast
  next
    case (deadlock w)
    show ?thesis unfolding deadlock(2) by (rule batches_ok_turns [OF ok, where ks = "{}"]) simp_all
  qed
qed

text \<open>One whole call of \<open>commit\<close>, as \<open>rfold\<close> takes it.\<close>

definition serial_batch ::
  "platform \<Rightarrow> encodings \<Rightarrow> nat \<Rightarrow> ('w \<Rightarrow> time) \<Rightarrow> ('w \<Rightarrow> commit_request list) \<Rightarrow> db \<Rightarrow> 'w \<Rightarrow>
   eventic_error + (db \<times> commit_result list)" where
  "serial_batch P encs m now reqs d w =
     (case store_commit P encs m (now w) d (reqs w) of (Inl e, _) \<Rightarrow> Inl e | (Inr rs, d') \<Rightarrow> Inr (d', rs))"

lemma batch_step_effect:
  assumes P: "float_codec P" and wf: "\<And>w. \<forall>req \<in> set (reqs w). request_wf P req"
    and ok: "batches_ok P encs now reqs v" and step: "batches_step P encs m now reqs v l v'"
  shows "l = Batch_done w rs \<Longrightarrow> serial_batch P encs m now reqs (bt_db v) w = Inr (bt_db v', rs)"
    and "batches_of [l] = [] \<Longrightarrow> bt_db v' = bt_db v"
proof -
  show "serial_batch P encs m now reqs (bt_db v) w = Inr (bt_db v', rs)" if "l = Batch_done w rs"
    using step unfolding that
  proof (cases rule: batches_step.cases)
    case (batch_done ds d)
    from batches_ok_commit [OF P wf ok batch_done(2,3,5)] batch_done(1,4)
    show ?thesis by (simp add: serial_batch_def store_commit_def)
  qed (simp split: if_splits)
  show "bt_db v' = bt_db v" if "batches_of [l] = []"
    using step that by (cases rule: batches_step.cases) simp_all
qed

lemma batch_run_serial:
  assumes P: "float_codec P" and wf: "\<And>w. \<forall>req \<in> set (reqs w). request_wf P req" and ok: "store_ok P encs d"
    and run: "batches_run P encs m now reqs (batches_start d) ls v"
  shows "list_all (\<lambda>l. \<not> repairs_one l) ls \<Longrightarrow> batches_ok P encs now reqs v \<and>
    rfold (serial_batch P encs m now reqs) d (map fst (batches_of ls)) = Inr (bt_db v, map snd (batches_of ls))"
  using run
proof (induction "batches_start d :: 'a batches" ls v rule: batches_run.induct)
  case batch_stays
  show ?case using batches_ok_start [OF ok] by (simp add: batches_start_def)
next
  case (batch_moves ls v l v')
  then have prev: "batches_ok P encs now reqs v" "\<not> repairs_one l"
    "rfold (serial_batch P encs m now reqs) d (map fst (batches_of ls)) = Inr (bt_db v, map snd (batches_of ls))" by simp_all
  note ok' = batch_step_ok [OF P wf prev(1) batch_moves(3) prev(2)]
  note effect = batch_step_effect [OF P wf prev(1) batch_moves(3)]
  show ?case
  proof (cases "batches_of [l]")
    case Nil
    with ok' effect(2) prev(3) show ?thesis by (simp add: batches_of_append)
  next
    case (Cons c cs)
    then obtain w rs where l: "l = Batch_done w rs" by (cases l) auto
    from rfold_snoc [OF prev(3) effect(1) [OF l]] ok' l show ?thesis by (simp add: batches_of_append)
  qed
qed

section \<open>Progress\<close>

lemma insert_intents_free:
  "insert_intents P now is d = Inr d1 \<Longrightarrow> set (intent_keys P is) \<inter> taken_keys d = {}"
proof (induction "is" arbitrary: d)
  case (Cons i "is")
  from Cons.prems obtain d2 where d2: "intent_violation d (new_intent_row P now i) = None"
    "d2 = d\<lparr>db_intents := db_intents d @ [new_intent_row P now i]\<rparr>" "insert_intents P now is d2 = Inr d1"
    by (auto simp: insert_intent_Inr)
  have "taken_keys d \<subseteq> taken_keys d2" using d2(2) by (auto simp: taken_keys_def)
  with Cons.IH [OF d2(3)] have "set (intent_keys P is) \<inter> taken_keys d = {}" by blast
  moreover have "Intent_key (intent_id P i) \<notin> taken_keys d" "Owed_key (ir_subscription_id i, ir_revision_id i) \<notin> taken_keys d"
    using d2(1) by (auto simp: intent_violation_None new_intent_row_def taken_keys_def)
  ultimately show ?case by (simp add: intent_keys_def)
qed (simp add: intent_keys_def)

lemma commit_one_from_free:
  assumes "commit_one_from P encs now d req head existing = Inr x"
  shows "set (write_keys P req head existing) \<inter> taken_keys d = {}"
proof (cases existing)
  case (Some row)
  then show ?thesis by (auto simp: write_keys_def taken_keys_def)
next
  case None
  obtain d1 res where "x = (d1, res)" by (cases x)
  with assms None have "append_revision P encs now d req head = Inr (d1, res)"
    by (simp add: commit_one_from_def split: if_splits)
  then obtain physical enc meta doc d2 d3 where a:
    "revision_violation d (new_revision_row P now req physical enc meta) = None"
    "d2 = d\<lparr>db_revisions := db_revisions d @ [new_revision_row P now req physical enc meta]\<rparr>"
    "insert_intents P now (cq_intents req) (upsert_head d2 (new_head_row P now req doc meta)) = Inr d3"
    unfolding append_revision_def by (auto simp: insert_revision_Inr split: if_splits)
  have "taken_keys d \<subseteq> taken_keys (upsert_head d2 (new_head_row P now req doc meta))"
    using a(2) by (auto simp: taken_keys_def upsert_frame)
  with insert_intents_free [OF a(3)] have "set (intent_keys P (cq_intents req)) \<inter> taken_keys d = {}" by blast
  moreover have "Row_key (target_key req) \<notin> taken_keys d" "Revision_key (request_rid P req) \<notin> taken_keys d"
    using a(1) by (auto simp: revision_violation_None new_revision_row_def rv_key_def target_key_def taken_keys_def)
  moreover have "Head_key (cq_aggregate req) \<notin> taken_keys d" "Ledger_key (cq_stream req, cq_schema_version req) \<notin> taken_keys d"
    by (auto simp: taken_keys_def)
  ultimately show ?thesis using None by (auto simp: write_keys_def)
qed

lemma unblocked_steps:
  assumes P: "float_codec P" and wf: "\<And>w. \<forall>req \<in> set (reqs w). request_wf P req"
    and ok: "batches_ok P encs now reqs v" and free: "\<not> blocked P reqs v w" and runs: "\<forall>out. bt_phase v w \<noteq> Batch_ended out"
  shows "\<exists>l v'. batches_step P encs m now reqs v l v'"
proof -
  have store: "store_ok P encs (bt_db v)" and w: "batch_ok P encs (now w) (bt_db v) (reqs w) (bt_phase v w)"
    using ok by (simp_all add: batches_ok_def)
  have view: "\<exists>d rs. batch_view P encs (now w) (bt_db v) (reqs w) ds = Inr (d, rs)"
    if "decided P encs (now w) (bt_db v) (reqs w) ds" for ds
    using decided_serial [OF P store wf that] by metis
  show ?thesis
  proof (cases "bt_phase v w")
    case (Next_request ds)
    with w have ds: "decided P encs (now w) (bt_db v) (reqs w) ds" by simp
    with view obtain d rs where d: "batch_view P encs (now w) (bt_db v) (reqs w) ds = Inr (d, rs)" by blast
    consider "m < length (reqs w)" | "length (reqs w) \<le> m" "length ds < length (reqs w)"
      | "length (reqs w) \<le> m" "length ds = length (reqs w)"
      using decided_length [OF ds] by linarith
    then show ?thesis
    proof cases
      case 1
      from too_long [where v = v and w = w and reqs = reqs and now = now, OF Next_request this] show ?thesis by blast
    next
      case 2
      from head_read [where v = v and w = w and reqs = reqs and now = now, OF Next_request 2(2,1) free d] show ?thesis by blast
    next
      case 3
      from batch_done [where v = v and w = w and reqs = reqs and now = now, OF Next_request 3(2,1) d] show ?thesis by blast
    qed
  next
    case (Found_head ds head)
    with w view [of ds] obtain d rs where "batch_view P encs (now w) (bt_db v) (reqs w) ds = Inr (d, rs)" by auto
    from row_read [where v = v and w = w and reqs = reqs and now = now, OF Found_head refl this] show ?thesis by blast
  next
    case (Found_row ds head existing n)
    with w view [of ds] obtain d rs where d: "batch_view P encs (now w) (bt_db v) (reqs w) ds = Inr (d, rs)" by auto
    let ?req = "reqs w ! length ds"
    show ?thesis
    proof (cases "commit_one_from P encs (now w) d ?req head existing")
      case (Inl e)
      from request_fails [where v = v and w = w and reqs = reqs and now = now, OF Found_row d this] show ?thesis by blast
    next
      case (Inr x)
      then obtain d' res where x: "commit_one_from P encs (now w) d ?req head existing = Inr (d', res)" by (cases x) auto
      show ?thesis
      proof (cases "n < length (write_keys P ?req head existing)")
        case True
        with commit_one_from_free [OF x] have "write_keys P ?req head existing ! n \<notin> taken_keys d"
          using nth_mem by blast
        from key_taken [where v = v and w = w and reqs = reqs and now = now, OF Found_row refl True free d this] show ?thesis by blast
      next
        case False
        with w Found_row have "n = length (write_keys P ?req head existing)" by simp
        from request_done [where v = v and w = w and reqs = reqs and now = now, OF Found_row this d x] show ?thesis by blast
      qed
    qed
  qed (use runs in simp)
qed

text \<open>Writers who all wait do so in a circle, and one of them is aborted.\<close>

lemma waits_in_a_circle:
  assumes "finite W" "w \<in> W" "\<And>w. w \<in> W \<Longrightarrow> \<exists>u \<in> W. (w, u) \<in> r"
  shows "\<exists>u. (u, u) \<in> r\<^sup>+"
proof (rule ccontr)
  assume "\<nexists>u. (u, u) \<in> r\<^sup>+"
  then have "acyclic (r \<inter> W \<times> W)" by (auto simp: acyclic_def dest: trancl_mono)
  moreover have "finite (r \<inter> W \<times> W)" using assms(1) by simp
  ultimately have "wf ((r \<inter> W \<times> W)\<inverse>)" by (intro finite_acyclic_wf_converse)
  then obtain z where "z \<in> W" "\<And>y. (y, z) \<in> (r \<inter> W \<times> W)\<inverse> \<Longrightarrow> y \<notin> W"
    using assms(2) by (rule wfE_min) blast
  with assms(3) show False by blast
qed

lemma batches_progress:
  assumes fin: "finite (UNIV :: 'w set)" and P: "float_codec P" and wf: "\<And>w. \<forall>req \<in> set (reqs w). request_wf P req"
    and ok: "batches_ok P encs now reqs v" and runs: "\<forall>out. bt_phase v (w :: 'w) \<noteq> Batch_ended out"
  shows "\<exists>l v'. batches_step P encs m now reqs v l v'"
proof (rule ccontr)
  assume stuck: "\<nexists>l v'. batches_step P encs m now reqs v l v'"
  let ?W = "{w. \<forall>out. bt_phase v w \<noteq> Batch_ended out}"
  have "\<exists>u \<in> ?W. (w, u) \<in> waits_for P reqs v" if "w \<in> ?W" for w
  proof -
    from unblocked_steps [OF P wf ok] stuck that have "blocked P reqs v w" by blast
    then obtain u where u: "(w, u) \<in> waits_for P reqs v" by (auto simp: blocked_def)
    then have "held_keys P (reqs u) (bt_phase v u) \<noteq> {}" by (auto simp: waits_for_def)
    then have "u \<in> ?W" by auto
    with u show ?thesis by blast
  qed
  with waits_in_a_circle [of ?W w "waits_for P reqs v"] runs finite_subset [OF subset_UNIV fin, of ?W]
  obtain u where "(u, u) \<in> (waits_for P reqs v)\<^sup>+" by auto
  from deadlock [OF this] stuck show False by blast
qed

text \<open>The steps that a writer has left, at most.\<close>

definition request_work :: "commit_request \<Rightarrow> nat" where
  "request_work req = 7 + 2 * length (cq_intents req)"

fun work_left :: "commit_request list \<Rightarrow> batch_phase \<Rightarrow> nat" where
  "work_left reqs (Next_request ds) = 1 + (\<Sum>req \<leftarrow> drop (length ds) reqs. request_work req)"
| "work_left reqs (Found_head ds _) = (\<Sum>req \<leftarrow> drop (length ds) reqs. request_work req)"
| "work_left reqs (Found_row ds _ _ n) = (\<Sum>req \<leftarrow> drop (length ds) reqs. request_work req) - 1 - n"
| "work_left reqs (Batch_ended _) = 0"

lemma length_write_keys: "length (write_keys P req head existing) + 3 \<le> request_work req"
proof -
  have "length (intent_keys P is) = 2 * length is" for "is"
    by (simp add: intent_keys_def length_concat o_def sum_list_triv)
  then show ?thesis by (simp add: write_keys_def request_work_def split: option.split)
qed

lemma work_left_request:
  "length ds < length reqs \<Longrightarrow> (\<Sum>req \<leftarrow> drop (length ds) reqs. request_work req) =
     request_work (reqs ! length ds) + (\<Sum>req \<leftarrow> drop (Suc (length ds)) reqs. request_work req)"
  by (simp add: Cons_nth_drop_Suc [symmetric])

lemma work_left_pos:
  "batch_ok P encs now d reqs ph \<Longrightarrow> \<forall>out. ph \<noteq> Batch_ended out \<Longrightarrow> 0 < work_left reqs ph"
proof (cases ph)
  case (Found_head ds head)
  moreover assume "batch_ok P encs now d reqs ph"
  ultimately show ?thesis by (simp add: work_left_request request_work_def)
next
  case (Found_row ds head existing n)
  moreover assume "batch_ok P encs now d reqs ph"
  ultimately show ?thesis
    using length_write_keys [of P "reqs ! length ds" head existing] by (auto simp: work_left_request)
qed simp_all

lemma batch_step_work:
  assumes step: "batches_step P encs m now reqs v l v'"
    and w: "batch_ok P encs (now w) (bt_db v) (reqs w) (bt_phase v w)"
  shows "work_left (reqs w) (bt_phase v' w) + (if batch_writer l = w then 1 else 0) \<le> work_left (reqs w) (bt_phase v w)"
proof (cases "batch_writer l = w")
  case False
  with step show ?thesis by (cases rule: batches_step.cases) (auto split: if_splits)
next
  case True
  have ends: ?thesis if "bt_phase v' w = Batch_ended out" "\<forall>out. bt_phase v w \<noteq> Batch_ended out" for out
    using work_left_pos [OF w that(2)] that(1) by simp
  note len = length_write_keys [of P "reqs w ! n" head existing for n head existing]
  show ?thesis
    using step
  proof (cases rule: batches_step.cases)
    case (head_read u ds d rs)
    with True show ?thesis by simp
  next
    case (row_read u ds head req d rs)
    with True w show ?thesis by (simp add: work_left_request request_work_def)
  next
    case (key_taken u ds head existing n ks d rs)
    with True w len [of "length ds" head existing] show ?thesis by (auto simp: work_left_request)
  next
    case (request_done u ds head existing n d rs d' res)
    with True w len [of "length ds" head existing] show ?thesis by (auto simp: work_left_request split: if_splits)
  next
    case (request_fails u ds head existing n d rs e)
    with True show ?thesis by (intro ends) simp_all
  next
    case (deadlock u)
    then have "u = w" using True by simp
    with deadlock(3) have "\<forall>out. bt_phase v w \<noteq> Batch_ended out" by (auto simp: waits_for_def dest!: tranclD)
    with deadlock(2) \<open>u = w\<close> show ?thesis by (intro ends) simp_all
  qed (use True in \<open>simp_all add: ends\<close>)
qed

lemma batch_run_work:
  assumes P: "float_codec P" and wf: "\<And>w. \<forall>req \<in> set (reqs w). request_wf P req" and ok: "store_ok P encs d"
    and run: "batches_run P encs m now reqs (batches_start d) ls v"
  shows "list_all (\<lambda>l. \<not> repairs_one l) ls \<Longrightarrow>
    count_list (map batch_writer ls) w + work_left (reqs w) (bt_phase v w) \<le> work_left (reqs w) (Next_request [])"
  using run
proof (induction "batches_start d :: 'a batches" ls v rule: batches_run.induct)
  case (batch_moves ls v l v')
  have "batches_ok P encs now reqs v" using batch_run_serial [OF P wf ok batch_moves(1)] batch_moves(4) by simp
  then have "batch_ok P encs (now w) (bt_db v) (reqs w) (bt_phase v w)" by (simp add: batches_ok_def)
  from batch_step_work [OF batch_moves(3) this] batch_moves(2,4) show ?case by (simp split: if_splits)
qed (simp add: batches_start_def)

end
