(* ===== verification/Deadlocks.thy ===== *)
theory Deadlocks
  imports Batches Scenario_Facts
begin

text \<open>What overlapping batches promise, and what becomes of two that name the same aggregates in opposite orders.\<close>

section \<open>A writer whom nobody stops\<close>

lemma batch_run_trans:
  "batches_run P encs m now reqs v' ks v'' \<Longrightarrow> batches_run P encs m now reqs v ls v' \<Longrightarrow>
     batches_run P encs m now reqs v (ls @ ks) v''"
proof (induction rule: batches_run.induct)
  case (batch_moves v' ks v1 l v2)
  from batches_run.batch_moves [OF batch_moves.IH [OF batch_moves.prems] batch_moves.hyps(2)] show ?case by simp
qed simp

lemma batch_run_one: "batches_step P encs m now reqs v l v' \<Longrightarrow> batches_run P encs m now reqs v [l] v'"
  using batch_moves [OF batch_stays] by fastforce

text \<open>The run of a writer alone, in which nothing is committed and no head repaired.\<close>

definition quiet_run ::
  "platform \<Rightarrow> encodings \<Rightarrow> nat \<Rightarrow> ('w \<Rightarrow> time) \<Rightarrow> ('w \<Rightarrow> commit_request list) \<Rightarrow> 'w batches \<Rightarrow> 'w batches \<Rightarrow> bool" where
  "quiet_run P encs m now reqs v v' \<longleftrightarrow>
     (\<exists>ls. batches_run P encs m now reqs v ls v' \<and> batches_of ls = [] \<and> list_all (\<lambda>l. \<not> repairs_one l) ls)"

lemma quiet_refl: "quiet_run P encs m now reqs v v"
  unfolding quiet_run_def by (intro exI [of _ "[]"]) (simp add: batch_stays)

lemma batches_of_appends: "batches_of (ls @ ks) = batches_of ls @ batches_of ks"
  by (induction ls rule: batches_of.induct) simp_all

lemma quiet_trans:
  "quiet_run P encs m now reqs v v' \<Longrightarrow> quiet_run P encs m now reqs v' v'' \<Longrightarrow> quiet_run P encs m now reqs v v''"
  unfolding quiet_run_def by (elim exE conjE, rule exI, intro conjI, erule batch_run_trans, assumption)
    (simp_all add: batches_of_appends)

lemma quiet_step:
  "batches_step P encs m now reqs v l v' \<Longrightarrow> batches_of [l] = [] \<Longrightarrow> \<not> repairs_one l \<Longrightarrow> quiet_run P encs m now reqs v v'"
  unfolding quiet_run_def by (intro exI [of _ "[l]"]) (simp add: batch_run_one)

definition left_to :: "platform \<Rightarrow> ('w \<Rightarrow> commit_request list) \<Rightarrow> 'w batches \<Rightarrow> 'w \<Rightarrow> db_key \<Rightarrow> bool" where
  "left_to P reqs v w k \<longleftrightarrow> (\<forall>u. u \<noteq> w \<longrightarrow> k \<notin> held_keys P (reqs u) (bt_phase v u))"

lemma left_to_turns [simp]: "left_to P reqs (turns w ph v) w k = left_to P reqs v w k"
  by (simp add: left_to_def)

lemma left_to_free:
  "(\<And>k. wanted_key P (bt_db v) (reqs w) (bt_phase v w) = Some k \<Longrightarrow> left_to P reqs v w k) \<Longrightarrow> \<not> blocked P reqs v w"
  by (auto simp: blocked_def waits_for_def left_to_def)

lemma takes_its_keys:
  assumes "bt_phase v w = Found_row ds head existing n" "ks = write_keys P (reqs w ! length ds) head existing" "n \<le> length ks"
    and "batch_view P encs (now w) (bt_db v) (reqs w) ds = Inr (d, rs)"
    and "commit_one_from P encs (now w) d (reqs w ! length ds) head existing = Inr x"
    and "\<And>k. k \<in> set ks \<Longrightarrow> writes_locked (bt_db v) k \<Longrightarrow> left_to P reqs v w k"
  shows "quiet_run P encs m now reqs v (turns w (Found_row ds head existing (length ks)) v)"
  using assms
proof (induction "length ks - n" arbitrary: n v)
  case 0
  then have "turns w (Found_row ds head existing (length ks)) v = v"
    by (intro batches.equality) (auto simp: fun_eq_iff)
  then show ?case using quiet_refl [of P encs m now reqs v] by metis
next
  case (Suc i)
  then have n: "n < length ks" by simp
  have free: "\<not> blocked P reqs v w"
    by (rule left_to_free) (use Suc(3,4,8) n in \<open>auto simp: Let_def split: if_splits\<close>)
  have "ks ! n \<notin> taken_keys d" using commit_one_from_free [OF Suc(7)] n Suc(4) nth_mem by blast
  with key_taken [where v = v and w = w and reqs = reqs and now = now, OF Suc(3,4) n free Suc(6)]
  have "batches_step P encs m now reqs v (Key_of w) (turns w (Found_row ds head existing (Suc n)) v)" .
  then have "quiet_run P encs m now reqs v (turns w (Found_row ds head existing (Suc n)) v)" by (rule quiet_step) simp_all
  moreover have "quiet_run P encs m now reqs (turns w (Found_row ds head existing (Suc n)) v)
      (turns w (Found_row ds head existing (length ks)) (turns w (Found_row ds head existing (Suc n)) v))"
    by (rule Suc(1) [of "Suc n"]) (use Suc n in simp_all)
  ultimately show ?case using quiet_trans by fastforce
qed

text \<open>What \<open>_commit_one\<close> reads for a request.\<close>

abbreviation request_reads :: "db \<Rightarrow> commit_request \<Rightarrow> commit_reads" where
  "request_reads d req \<equiv> (head_of d (cq_aggregate req), select_revision_row d (cq_stream req) (cq_aggregate_id req) (target_of req))"

lemma does_a_request:
  assumes v: "bt_phase v w = Next_request ds" "length ds < length (reqs w)" "length (reqs w) \<le> m"
    and view: "batch_view P encs (now w) (bt_db v) (reqs w) ds = Inr (d, rs)"
    and one: "commit_one P encs (now w) d req = Inr x" and req: "req = reqs w ! length ds"
    and read: "request_reads d req = (head, existing)" "head \<noteq> None"
    and free: "left_to P reqs v w (Head_key (cq_aggregate req))"
    and keys: "\<And>k. k \<in> set (write_keys P req head existing) \<Longrightarrow> writes_locked (bt_db v) k \<Longrightarrow> left_to P reqs v w k"
  shows "quiet_run P encs m now reqs v (turns w (Next_request (ds @ [(head, existing)])) v)"
proof -
  let ?ks = "write_keys P req head existing"
  let ?v1 = "turns w (Found_head ds head) v" and ?v2 = "turns w (Found_row ds head existing 0) v"
  let ?v3 = "turns w (Found_row ds head existing (length ?ks)) v"
  have from_reads: "commit_one_from P encs (now w) d req head existing = Inr x"
    using one read(1) by (simp add: commit_one_def head_of_def cq_aggregate_def)
  have "\<not> blocked P reqs v w" by (rule left_to_free) (use v(1) free req in \<open>auto split: if_splits\<close>)
  from head_read [where v = v and w = w and reqs = reqs and now = now, OF v(1-3) this view] read(1) req
  have "batches_step P encs m now reqs v (Head_of w) ?v1" by simp
  then have 1: "quiet_run P encs m now reqs v ?v1" by (rule quiet_step) simp_all
  have "batches_step P encs m now reqs ?v1 (Row_of w)
      (turns w (Found_row ds head (select_revision_row d (cq_stream req) (cq_aggregate_id req) (target_of req)) 0) ?v1)"
    by (rule row_read [where w = w and rs = rs]) (use view req in simp_all)
  with read(1) have "batches_step P encs m now reqs ?v1 (Row_of w) (turns w (Found_row ds head existing 0) ?v1)" by simp
  then have "batches_step P encs m now reqs ?v1 (Row_of w) ?v2" by simp
  then have 2: "quiet_run P encs m now reqs ?v1 ?v2" by (rule quiet_step) simp_all
  have "quiet_run P encs m now reqs ?v2 (turns w (Found_row ds head existing (length ?ks)) ?v2)"
    by (rule takes_its_keys [where n = 0 and d = d and rs = rs and x = x]) (use view from_reads req keys in simp_all)
  then have 3: "quiet_run P encs m now reqs ?v2 ?v3" by simp
  obtain d' res where x: "x = (d', res)" by (cases x)
  have "batches_step P encs m now reqs ?v3 (if head = None \<and> existing \<noteq> None then Request_repaired w else Request_done w)
      (turns w (Next_request (ds @ [(head, existing)])) ?v3)"
    by (rule request_done [where d = d and rs = rs and d' = d' and res = res and n = "length ?ks"])
      (use view from_reads req x in simp_all)
  then have "batches_step P encs m now reqs ?v3 (Request_done w) (turns w (Next_request (ds @ [(head, existing)])) v)"
    using read(2) by simp
  then have "quiet_run P encs m now reqs ?v3 (turns w (Next_request (ds @ [(head, existing)])) v)" by (rule quiet_step) simp_all
  with 1 2 3 show ?thesis by (blast intro: quiet_trans)
qed

section \<open>Opposite orders\<close>

text \<open>Each has done its first request, and needs the head that the other holds for its second.\<close>

lemma circle_is_stuck:
  assumes ab: "a \<noteq> b" and a: "bt_phase v a = Next_request ds" "length ds < length (reqs a)" "length (reqs a) \<le> m"
    and head: "head_of (bt_db v) (cq_aggregate (reqs a ! length ds)) \<noteq> None"
    and held: "Head_key (cq_aggregate (reqs a ! length ds)) \<in> held_keys P (reqs b) (bt_phase v b)"
  shows "(a, b) \<in> waits_for P reqs v"
    and "batches_step P encs m now reqs v l v' \<Longrightarrow> batch_writer l = a \<Longrightarrow> l = Batch_victim a"
proof -
  show waits: "(a, b) \<in> waits_for P reqs v"
    using ab a(1,2) head held by (simp add: waits_for_def reads_locked_def)
  show "l = Batch_victim a" if "batches_step P encs m now reqs v l v'" "batch_writer l = a"
    using that
  proof (cases rule: batches_step.cases)
    case (head_read w ds' d rs)
    then show ?thesis using waits that(2) by (auto simp: blocked_def)
  qed (use a that(2) in \<open>auto split: if_splits\<close>)
qed

lemma request_keys_of: "set (write_keys P req head existing) \<subseteq>
    set (request_keys P req) \<union> {Head_key (cq_aggregate req), Ledger_key (cq_stream req, cq_schema_version req)}"
  by (auto simp: write_keys_def request_keys_def split: option.splits if_splits)

lemma not_request_key [simp]:
  "Head_key g \<notin> set (request_keys P req)" "Ledger_key s \<notin> set (request_keys P req)"
  by (auto simp: request_keys_def intent_keys_def)

lemma opposite_orders_meet:
  assumes ab: "a \<noteq> b" and reqs: "reqs a = [x, y]" "reqs b = [y', x']" and m: "2 \<le> m"
    and same: "cq_aggregate x' = cq_aggregate x" "cq_aggregate y' = cq_aggregate y" and apart: "cq_aggregate x \<noteq> cq_aggregate y"
    and heads: "head_of d (cq_aggregate x) \<noteq> None" "head_of d (cq_aggregate y) \<noteq> None"
    and runs: "commit_one P encs (now a) d x = Inr rx" "commit_one P encs (now b) d y' = Inr ry"
    and keys: "set (request_keys P x) \<inter> set (request_keys P y') = {}"
    and known: "select_fingerprint d (cq_stream y') (cq_schema_version y') \<noteq> None"
  shows "quiet_run P encs m now reqs (batches_start d)
    (turns b (Next_request [request_reads d y']) (turns a (Next_request [request_reads d x]) (batches_start d)))"
proof -
  let ?v = "batches_start d :: 'a batches"
  let ?hx = "head_of d (cq_aggregate x)" and ?rx = "select_revision_row d (cq_stream x) (cq_aggregate_id x) (target_of x)"
  let ?hy = "head_of d (cq_aggregate y')" and ?ry = "select_revision_row d (cq_stream y') (cq_aggregate_id y') (target_of y')"
  let ?va = "turns a (Next_request [(?hx, ?rx)]) ?v"
  have start: "held_keys P (reqs u) (bt_phase ?v u) = {}" for u by (simp add: batches_start_def done_keys_def)
  have "quiet_run P encs m now reqs ?v (turns a (Next_request ([] @ [(?hx, ?rx)])) ?v)"
    by (rule does_a_request [where d = d and rs = "[]" and req = x and x = rx])
      (use reqs(1) m runs(1) heads start in \<open>auto simp: batches_start_def left_to_def\<close>)
  then have 1: "quiet_run P encs m now reqs ?v ?va" by simp
  have held_a: "held_keys P (reqs a) (bt_phase ?va a) \<subseteq>
      set (request_keys P x) \<union> {Head_key (cq_aggregate x), Ledger_key (cq_stream x, cq_schema_version x)}"
    using request_keys_of [of P x ?hx ?rx] reqs(1) by (auto simp: done_keys_def locked_head_def split: if_splits)
  have left: "left_to P reqs ?va b k" if "k \<notin> held_keys P (reqs a) (bt_phase ?va a)" for k
    using start that by (auto simp: left_to_def)
  have "left_to P reqs ?va b k" if k: "k \<in> set (write_keys P y' ?hy ?ry)" "writes_locked (bt_db ?va) k" for k
  proof (rule left)
    have "k \<noteq> Ledger_key (cq_stream y', cq_schema_version y')"
      using k(2) known by (auto simp: writes_locked_def batches_start_def)
    with k(1) request_keys_of [of P y' ?hy ?ry] have "k \<in> set (request_keys P y') \<union> {Head_key (cq_aggregate y')}" by blast
    with held_a keys same(2) apart show "k \<notin> held_keys P (reqs a) (bt_phase ?va a)" by auto
  qed
  moreover have "left_to P reqs ?va b (Head_key (cq_aggregate y'))"
    by (rule left) (use held_a same(2) apart in auto)
  ultimately have "quiet_run P encs m now reqs ?va (turns b (Next_request ([] @ [(?hy, ?ry)])) ?va)"
    by (intro does_a_request [where d = d and rs = "[]" and req = y' and x = ry])
      (use reqs(2) m runs(2) heads same ab in \<open>auto simp: batches_start_def\<close>)
  with 1 show ?thesis by (auto intro: quiet_trans)
qed

section \<open>Samples\<close>

text \<open>Two todos, and two writers that change both, in opposite orders.\<close>

definition sample_other :: commit_request where
  "sample_other = sample_create\<lparr>cq_aggregate_id := 6\<rparr>"

definition sample_other_change :: commit_request where
  "sample_other_change = sample_change\<lparr>cq_aggregate_id := 6\<rparr>"

definition sample_pair_db :: db where
  "sample_pair_db = commit_db sample_platform 100 sample_db sample_other"

definition sample_batches :: "three \<Rightarrow> commit_request list" where
  "sample_batches w =
     (case w of A \<Rightarrow> [sample_change, sample_other_change] | B \<Rightarrow> [sample_other_change, sample_change] | C \<Rightarrow> [])"

lemma sample_batches_simps [simp]:
  "sample_batches A = [sample_change, sample_other_change]" "sample_batches B = [sample_other_change, sample_change]"
  "sample_batches C = []"
  by (simp_all add: sample_batches_def)

lemma sample_other_keys [simp]:
  "cq_stream sample_other = ''todos''" "cq_aggregate_id sample_other = 6" "target_of sample_other = 0"
  "cq_expected_revision sample_other = None" "cq_intents sample_other = []"
  "cq_stream sample_other_change = ''todos''" "cq_aggregate_id sample_other_change = 6" "target_of sample_other_change = 1"
  "cq_expected_revision sample_other_change = Some 0" "cq_intents sample_other_change = []"
  "cq_intents sample_change = []" "cq_schema_version sample_other_change = 1" "cq_schema_version sample_other = 1"
  "cq_schema_version sample_change = 1" "cq_kind sample_other = ''create''" "cq_kind sample_change = ''change''"
  "cq_kind sample_other_change = ''change''"
  by (simp_all add: sample_other_def sample_other_change_def sample_create_def sample_change_def target_of_def)

lemma sample_pair_wf: "request_wf sample_platform sample_other" "request_wf sample_platform sample_other_change"
  by code_simp+

lemma sample_batches_wf: "\<forall>w. \<forall>req \<in> set (sample_batches w). request_wf sample_platform req"
proof
  fix w
  show "\<forall>req \<in> set (sample_batches w). request_wf sample_platform req"
    using sample_requests_wf sample_pair_wf by (cases w) simp_all
qed

lemma sample_readable:
  "readable_request sample_platform sample_other" "readable_request sample_platform sample_change"
  "readable_request sample_platform sample_other_change"
  by code_simp+

lemma sample_docs: "is_object (request_doc sample_platform sample_other)"
  using sample_readable(1) by (simp add: readable_request_def)

lemma sample_ids:
  "uuid_str 5 = ''00000000-0000-0000-0000-000000000005''" "uuid_str 6 = ''00000000-0000-0000-0000-000000000006''"
  "show_int 0 = ''0''" "show_int 1 = ''1''"
  by code_simp+

lemma sample_rids:
  "distinct [revision_id sample_platform ''todos'' 5 0, revision_id sample_platform ''todos'' 6 0,
     revision_id sample_platform ''todos'' 5 1, revision_id sample_platform ''todos'' 6 1]"
  by (simp add: revision_id_def revision_name_def sample_platform_def sample_ids)

lemma sample_pair_tables:
  "db_revisions sample_pair_db = [sample_row, request_row sample_platform 100 sample_other]"
  "db_heads sample_pair_db = [head_of_row sample_row (JObj [(''a'', JInt 1)]),
     new_head_row sample_platform 100 sample_other (request_doc sample_platform sample_other) (request_meta sample_platform sample_other)]"
  "db_intents sample_pair_db = []" "db_schemas sample_pair_db = db_schemas sample_db"
proof -
  have "select_fingerprint d ''todos'' 1 \<noteq> None" if "db_schemas d = db_schemas sample_db" for d
    using that by (simp add: select_fingerprint_def sample_db_def)
  then show "db_schemas sample_pair_db = db_schemas sample_db"
    by (auto simp: sample_pair_db_def commit_db_def upsert_fingerprint_def ledger_row_def split: option.split)
qed (simp_all add: sample_pair_db_def commit_db_tables sample_db_def head_of_row_def sample_row_def new_head_fields)

lemma sample_pair_reads:
  "select_head sample_pair_db ''todos'' 5 = Some (head_of_row sample_row (JObj [(''a'', JInt 1)]))"
  "select_head sample_pair_db ''todos'' 6 = Some (new_head_row sample_platform 100 sample_other
     (request_doc sample_platform sample_other) (request_meta sample_platform sample_other))"
  "select_revision_row sample_pair_db ''todos'' 5 1 = None" "select_revision_row sample_pair_db ''todos'' 6 1 = None"
  "select_fingerprint sample_pair_db ''todos'' 1 \<noteq> None"
  by (simp_all add: select_head_def select_revision_row_def select_fingerprint_def sample_pair_tables sample_db_def
      head_of_row_def sample_row_def new_head_fields request_row_fields of_aggregate_def)

lemma sample_pair_free:
  "revision_violation sample_db (request_row sample_platform 100 sample_other) = None"
  "revision_violation sample_pair_db (request_row sample_platform 200 sample_change) = None"
  "revision_violation sample_pair_db (request_row sample_platform 200 sample_other_change) = None"
  using sample_rids
  by (auto simp: revision_violation_None sample_pair_tables sample_db_def sample_row_def rv_key_def request_row_fields
      request_rid_def)

lemma sample_pair_ok: "store_ok sample_platform Map.empty sample_pair_db"
proof -
  have "commit_one sample_platform Map.empty 100 sample_db sample_other =
      Inr (sample_pair_db, commit_result_of sample_platform 100 sample_other False)"
    unfolding sample_pair_db_def
    by (rule commit_succeeds [OF sample_readable(1) _ _ _ sample_pair_free(1)])
      (simp_all add: select_revision_row_def select_head_def sample_db_def sample_row_def of_aggregate_def
        head_of_row_def cas_ok_def intents_fresh_def)
  then show ?thesis
    by (rule commit_one_preserves [OF sample_float_codec sample_db_ok, rotated]) (use sample_pair_wf in \<open>simp add: request_wf_def\<close>)
qed

lemma sample_pair_changes:
  "\<exists>x. commit_one sample_platform Map.empty 200 sample_pair_db sample_change = Inr x"
  "\<exists>x. commit_one sample_platform Map.empty 200 sample_pair_db sample_other_change = Inr x"
  using commit_succeeds [OF sample_readable(2) _ _ _ sample_pair_free(2)] commit_succeeds [OF sample_readable(3) _ _ _ sample_pair_free(3)]
    sample_docs
  by (simp_all add: sample_pair_reads head_of_row_def sample_row_def cas_ok_def new_head_fields intents_fresh_def is_object_def)

text \<open>After the abort the other goes on and commits.\<close>

abbreviation "sample_now \<equiv> (\<lambda>_ :: three. 200 :: time)"

lemma sample_meet:
  "quiet_run sample_platform Map.empty 2 sample_now sample_batches (batches_start sample_pair_db)
     (turns B (Next_request [request_reads sample_pair_db sample_other_change])
       (turns A (Next_request [request_reads sample_pair_db sample_change]) (batches_start sample_pair_db)))"
proof -
  obtain x y where "commit_one sample_platform Map.empty 200 sample_pair_db sample_change = Inr x"
    "commit_one sample_platform Map.empty 200 sample_pair_db sample_other_change = Inr y"
    using sample_pair_changes by blast
  then show ?thesis
    by (intro opposite_orders_meet [where x = sample_change and y = sample_other_change and x' = sample_change and rx = x and ry = y])
      (use sample_rids in \<open>simp_all add: cq_aggregate_def head_of_def sample_pair_reads request_keys_def intent_keys_def
        target_key_def request_rid_def\<close>)
qed

lemma sample_finish:
  obtains ls d rs where
    "batches_run sample_platform Map.empty 2 sample_now sample_batches (batches_start sample_pair_db) (ls @ [Batch_done B rs])
       (turns B (Batch_ended (Inr rs)) (turns A (Batch_ended (Inl StoreError)) (batches_start d)))"
    "batches_of ls = []" "list_all (\<lambda>l. \<not> repairs_one l) ls"
proof -
  let ?run = "quiet_run sample_platform Map.empty 2 sample_now sample_batches"
  let ?step = "batches_step sample_platform Map.empty 2 sample_now sample_batches"
  let ?da = "request_reads sample_pair_db sample_change" and ?db = "request_reads sample_pair_db sample_other_change"
  let ?v1 = "turns B (Next_request [?db]) (turns A (Next_request [?da]) (batches_start sample_pair_db))"
  let ?v2 = "turns B (Next_request [?db]) (turns A (Batch_ended (Inl StoreError)) (batches_start sample_pair_db))"
  note keys = cq_aggregate_def head_of_def sample_pair_reads
  have "(A, B) \<in> waits_for sample_platform sample_batches ?v1"
    by (rule circle_is_stuck(1) [where m = 2 and ds = "[?da]"])
      (simp_all add: keys batches_start_def done_keys_def locked_head_def)
  moreover have "(B, A) \<in> waits_for sample_platform sample_batches ?v1"
    by (rule circle_is_stuck(1) [where m = 2 and ds = "[?db]"])
      (simp_all add: keys batches_start_def done_keys_def locked_head_def)
  ultimately have "(A, A) \<in> (waits_for sample_platform sample_batches ?v1)\<^sup>+" by (meson trancl.simps)
  from deadlock [OF this] have "?step ?v1 (Batch_victim A) (turns A (Batch_ended (Inl StoreError)) ?v1)" .
  moreover have "turns A (Batch_ended (Inl StoreError)) ?v1 = ?v2" by (auto simp: fun_eq_iff)
  ultimately have "?run ?v1 ?v2" using quiet_step by fastforce
  with sample_meet have meet: "?run (batches_start sample_pair_db) ?v2" by (rule quiet_trans)
  define d where "d = commit_db sample_platform 200 sample_pair_db sample_other_change"
  have one: "commit_one sample_platform Map.empty 200 sample_pair_db sample_other_change =
      Inr (d, commit_result_of sample_platform 200 sample_other_change False)"
    unfolding d_def by (rule commit_succeeds [OF sample_readable(3) _ _ _ sample_pair_free(3)])
      (use sample_docs in \<open>simp_all add: sample_pair_reads cas_ok_def new_head_fields intents_fresh_def\<close>)
  have head: "select_head d ''todos'' 5 = Some (head_of_row sample_row (JObj [(''a'', JInt 1)]))"
    using commit_one_other(1) [OF one, of "''todos''" 5] by (simp add: sample_pair_reads)
  have row: "select_revision_row d ''todos'' 5 1 = None"
    using commit_one_other_row [OF one, of "''todos''" 5 1] by (simp add: sample_pair_reads)
  have "revision_violation d (request_row sample_platform 200 sample_change) = None"
    using sample_rids by (auto simp: revision_violation_None d_def commit_db_tables sample_pair_tables sample_row_def rv_key_def
        request_row_fields request_rid_def)
  from commit_succeeds [OF sample_readable(2) _ _ _ this] obtain d2 where
    two: "commit_one sample_platform Map.empty 200 d sample_change = Inr (d2, commit_result_of sample_platform 200 sample_change False)"
    by (force simp: head row cas_ok_def head_of_row_def sample_row_def intents_fresh_def is_object_def)
  have view: "batch_view sample_platform Map.empty 200 sample_pair_db (sample_batches B) [?db] =
      Inr (d, [commit_result_of sample_platform 200 sample_other_change False])"
    using one by (simp add: commit_one_def keys)
  let ?v3 = "turns B (Next_request ([?db] @ [(Some (head_of_row sample_row (JObj [(''a'', JInt 1)])), None)])) ?v2"
  have left: "left_to sample_platform sample_batches ?v2 B k" for k
    by (simp add: left_to_def batches_start_def done_keys_def)
  have "?run ?v2 ?v3"
    by (rule does_a_request [where w = B and req = sample_change and d = d
          and x = "(d2, commit_result_of sample_platform 200 sample_change False)"])
      (use view two left head row in \<open>simp_all add: keys batches_start_def\<close>)
  with meet have run: "?run (batches_start sample_pair_db) ?v3" by (rule quiet_trans)
  let ?rs = "[commit_result_of sample_platform 200 sample_other_change False, commit_result_of sample_platform 200 sample_change False]"
  have "batch_view sample_platform Map.empty 200 sample_pair_db (sample_batches B)
      ([?db] @ [(Some (head_of_row sample_row (JObj [(''a'', JInt 1)])), None)]) = Inr (d2, ?rs)"
    using one two head row by (simp add: commit_one_def keys)
  then have "?step ?v3 (Batch_done B ?rs) (?v3\<lparr>bt_db := d2, bt_phase := (bt_phase ?v3)(B := Batch_ended (Inr ?rs))\<rparr>)"
    by (intro batch_done [where ds = "[?db] @ [(Some (head_of_row sample_row (JObj [(''a'', JInt 1)])), None)]"])
      (simp_all only: batches_start_def sample_batches_simps, simp_all)
  moreover have "?v3\<lparr>bt_db := d2, bt_phase := (bt_phase ?v3)(B := Batch_ended (Inr ?rs))\<rparr> =
      turns B (Batch_ended (Inr ?rs)) (turns A (Batch_ended (Inl StoreError)) (batches_start d2))"
    by (auto simp: batches_start_def fun_eq_iff)
  ultimately have last: "?step ?v3 (Batch_done B ?rs)
      (turns B (Batch_ended (Inr ?rs)) (turns A (Batch_ended (Inl StoreError)) (batches_start d2)))" by (simp only:)
  from run obtain ls where "batches_run sample_platform Map.empty 2 sample_now sample_batches (batches_start sample_pair_db) ls ?v3"
    "batches_of ls = []" "list_all (\<lambda>l. \<not> repairs_one l) ls" unfolding quiet_run_def by (elim exE conjE)
  from that [OF batches_run.batch_moves [OF this(1) last] this(2,3)] show thesis .
qed

lemma finite_three: "finite (UNIV :: three set)"
proof -
  have "(UNIV :: three set) = {A, B, C}" using three.exhaust by blast
  then show ?thesis by (metis finite.emptyI finite.insertI)
qed

section \<open>Properties\<close>

text \<open>
  C6: Batches that overlap are serial: in every interleaving of batches on PostgreSQL in which no writer replays a row
  without having found the head, the store stays consistent, and the database and the results of the batches that
  committed are those of the whole batches committed one after the other, in the order of their commits.
\<close>

theorem overlapping_batches_are_serial:
  assumes "float_codec P" "store_ok P encs d" "\<forall>w. \<forall>req \<in> set (reqs w). request_wf P req"
    and "batches_run P encs m now reqs (batches_start d) ls v" "list_all (\<lambda>l. \<not> repairs_one l) ls"
  shows "store_ok P encs (bt_db v) \<and>
    rfold (serial_batch P encs m now reqs) d (map fst (batches_of ls)) = Inr (bt_db v, map snd (batches_of ls))"
  using batch_run_serial [OF assms(1) _ assms(2,4,5)] assms(3) by (simp add: batches_ok_def)

lemma overlapping_batches_are_serial_witness:
  "\<exists>ls d rs. batches_run sample_platform Map.empty 2 sample_now sample_batches (batches_start sample_pair_db) (ls @ [Batch_done B rs])
      (turns B (Batch_ended (Inr rs)) (turns A (Batch_ended (Inl StoreError)) (batches_start d))) \<and>
    serial_batch sample_platform Map.empty 2 sample_now sample_batches sample_pair_db B = Inr (d, rs)"
proof -
  obtain ls d rs where run: "batches_run sample_platform Map.empty 2 sample_now sample_batches (batches_start sample_pair_db)
      (ls @ [Batch_done B rs]) (turns B (Batch_ended (Inr rs)) (turns A (Batch_ended (Inl StoreError)) (batches_start d)))"
    "batches_of ls = []" "list_all (\<lambda>l. \<not> repairs_one l) ls" by (rule sample_finish)
  from overlapping_batches_are_serial [OF sample_float_codec sample_pair_ok sample_batches_wf run(1)] run(2,3)
  have "rfold (serial_batch sample_platform Map.empty 2 sample_now sample_batches) sample_pair_db [B] = Inr (d, [rs])"
    by (simp add: batches_of_append batches_start_def)
  with run(1) show ?thesis by (auto elim!: rfold_Inr_Cons)
qed



text \<open>
  C8: Batches in opposite orders deadlock: two batches of which one changes an aggregate and then another, and the other
  batch the second and then the first, can both be stopped with nothing committed, although either alone would go on;
  all that is left is that one of them is aborted, with \<open>StoreError\<close>, for \<open>commit\<close> locks the heads in the
  order of the requests.
\<close>

theorem opposite_batches_deadlock:
  assumes "a \<noteq> b" "reqs a = [x, y]" "reqs b = [y', x']" "2 \<le> m"
    and "cq_aggregate x' = cq_aggregate x" "cq_aggregate y' = cq_aggregate y" "cq_aggregate x \<noteq> cq_aggregate y"
    and "head_of d (cq_aggregate x) \<noteq> None" "head_of d (cq_aggregate y) \<noteq> None"
    and "commit_one P encs (now a) d x = Inr rx" "commit_one P encs (now b) d y' = Inr ry"
    and "set (request_keys P x) \<inter> set (request_keys P y') = {}"
    and "select_fingerprint d (cq_stream y') (cq_schema_version y') \<noteq> None"
  shows "\<exists>ls v. batches_run P encs m now reqs (batches_start d) ls v \<and> bt_db v = d \<and>
    batches_step P encs m now reqs v (Batch_victim a) (turns a (Batch_ended (Inl StoreError)) v) \<and>
    (\<forall>l v'. batches_step P encs m now reqs v l v' \<longrightarrow> batch_writer l \<in> {a, b} \<longrightarrow> l = Batch_victim (batch_writer l))"
proof -
  let ?v = "turns b (Next_request [request_reads d y']) (turns a (Next_request [request_reads d x]) (batches_start d))"
  have run: "quiet_run P encs m now reqs (batches_start d) ?v" by (rule opposite_orders_meet [OF assms])
  have db: "bt_db ?v = d" by (simp add: batches_start_def)
  have ab: "Head_key (cq_aggregate (reqs a ! 1)) \<in> held_keys P (reqs b) (bt_phase ?v b)"
    "Head_key (cq_aggregate (reqs b ! 1)) \<in> held_keys P (reqs a) (bt_phase ?v a)"
    using assms(1-3,5-9) by (auto simp: done_keys_def locked_head_def)
  note a = circle_is_stuck [where v = ?v and a = a and b = b and ds = "[request_reads d x]" and reqs = reqs and m = m and P = P]
  note b = circle_is_stuck [where v = ?v and a = b and b = a and ds = "[request_reads d y']" and reqs = reqs and m = m and P = P]
  have "(a, b) \<in> waits_for P reqs ?v" by (rule a(1)) (use assms ab db in simp_all)
  moreover have "(b, a) \<in> waits_for P reqs ?v" by (rule b(1)) (use assms ab db in simp_all)
  ultimately have "(a, a) \<in> (waits_for P reqs ?v)\<^sup>+" by (meson trancl.simps)
  then have "batches_step P encs m now reqs ?v (Batch_victim a) (turns a (Batch_ended (Inl StoreError)) ?v)" by (rule deadlock)
  moreover have "l = Batch_victim (batch_writer l)"
    if "batches_step P encs m now reqs ?v l v'" "batch_writer l \<in> {a, b}" for l v'
  proof -
    have "batch_writer l = a \<Longrightarrow> l = Batch_victim a"
      by (rule a(2) [OF _ _ _ _ _ _ that(1)]) (use assms ab db in simp_all)
    moreover have "batch_writer l = b \<Longrightarrow> l = Batch_victim b"
      by (rule b(2) [OF _ _ _ _ _ _ that(1)]) (use assms ab db in simp_all)
    ultimately show ?thesis using that(2) by auto
  qed
  ultimately show ?thesis using run db unfolding quiet_run_def by blast
qed

lemma opposite_batches_deadlock_witness:
  "\<exists>ls v. batches_run sample_platform Map.empty 2 sample_now sample_batches (batches_start sample_pair_db) ls v \<and>
    bt_db v = sample_pair_db \<and>
    batches_step sample_platform Map.empty 2 sample_now sample_batches v (Batch_victim A)
      (turns A (Batch_ended (Inl StoreError)) v)"
proof -
  obtain x y where "commit_one sample_platform Map.empty 200 sample_pair_db sample_change = Inr x"
    "commit_one sample_platform Map.empty 200 sample_pair_db sample_other_change = Inr y"
    using sample_pair_changes by blast
  moreover have "set (request_keys sample_platform sample_change) \<inter> set (request_keys sample_platform sample_other_change) = {}"
    using sample_rids by (auto simp: request_keys_def intent_keys_def target_key_def request_rid_def)
  ultimately have "\<exists>ls v. batches_run sample_platform Map.empty 2 sample_now sample_batches (batches_start sample_pair_db) ls v \<and>
      bt_db v = sample_pair_db \<and>
      batches_step sample_platform Map.empty 2 sample_now sample_batches v (Batch_victim A) (turns A (Batch_ended (Inl StoreError)) v) \<and>
      (\<forall>l v'. batches_step sample_platform Map.empty 2 sample_now sample_batches v l v' \<longrightarrow>
        batch_writer l \<in> {A, B} \<longrightarrow> l = Batch_victim (batch_writer l))"
    by (intro opposite_batches_deadlock [where x = sample_change and y = sample_other_change and y' = sample_other_change and x' = sample_change])
      (simp_all add: cq_aggregate_def head_of_def sample_pair_reads)
  then show ?thesis by blast
qed

end
