(* ===== verification/Lock_Order.thy ===== *)
theory Lock_Order
  imports Deadlocks
begin

text \<open>
  Batches that name their aggregates in one common order do not deadlock.  Every wait then goes up: from the aggregate of
  the request that waits to one as high, whose writer holds the key, and among the writers at one aggregate from
  the one that creates it to the one that has locked its head.
\<close>

section \<open>The ledger only grows\<close>

lemma fingerprint_kept: "select_fingerprint d s n \<noteq> None \<Longrightarrow> select_fingerprint (upsert_fingerprint d f) s n \<noteq> None"
  by (auto simp: upsert_fingerprint_def select_fingerprint_def find_append split: option.splits)

lemma fingerprint_cong: "db_schemas d' = db_schemas d \<Longrightarrow> select_fingerprint d' s n = select_fingerprint d s n"
  by (simp add: select_fingerprint_def)

lemma commit_one_fingerprint:
  assumes "commit_one P encs now d req = Inr (d', res)" "select_fingerprint d s n \<noteq> None"
  shows "select_fingerprint d' s n \<noteq> None"
  using assms(1)
proof (cases rule: commit_one_cases)
  case (replay row)
  then have "db_schemas d' = db_schemas d"
    by (auto simp: upsert_head_from_row_def split: option.splits if_splits)
  from fingerprint_cong [OF this] assms(2) show ?thesis by simp
next
  case append
  from append(3) obtain physical enc meta d1 doc d2 where a:
    "insert_revision d (new_revision_row P now req physical enc meta) = Inr d1"
    "insert_intents P now (cq_intents req) (upsert_head d1 (new_head_row P now req doc meta)) = Inr d2"
    "d' = upsert_fingerprint d2 (ledger_row now req)"
    unfolding append_revision_def by (auto split: if_splits)
  have "db_schemas d2 = db_schemas d" using a(1) insert_intents_Inr [OF a(2)] by (simp add: insert_revision_Inr)
  from fingerprint_cong [OF this] assms(2) show ?thesis unfolding a(3) by (intro fingerprint_kept) simp
qed

lemma serial_batch_fingerprint:
  assumes "serial_batch P encs m now reqs d w = Inr (d', rs)" "select_fingerprint d s n \<noteq> None"
  shows "select_fingerprint d' s n \<noteq> None"
proof -
  have "rfold (commit_one P encs (now w)) d (reqs w) = Inr (d', rs)"
    using assms(1) by (auto simp: serial_batch_def store_commit_def split: sum.splits prod.splits if_splits)
  then show ?thesis
    by (rule rfold_invariant [where I = "\<lambda>d. select_fingerprint d s n \<noteq> None", rotated 2])
      (rule commit_one_fingerprint, assumption+, rule assms(2))
qed

section \<open>What is held and what is wanted\<close>

definition aggregate_keys :: "platform \<Rightarrow> commit_request \<Rightarrow> db_key set" where
  "aggregate_keys P req = insert (Head_key (cq_aggregate req)) (set (request_keys P req))"

fun at_request :: "batch_phase \<Rightarrow> nat" where
  "at_request (Next_request ds) = length ds"
| "at_request (Found_head ds _) = length ds"
| "at_request (Found_row ds _ _ _) = length ds"
| "at_request (Batch_ended _) = 0"

fun current_keys :: "platform \<Rightarrow> commit_request list \<Rightarrow> batch_phase \<Rightarrow> db_key set" where
  "current_keys P reqs (Found_head ds head) = locked_head (reqs ! length ds) head"
| "current_keys P reqs (Found_row ds head existing n) =
     locked_head (reqs ! length ds) head \<union> set (take n (write_keys P (reqs ! length ds) head existing))"
| "current_keys P reqs _ = {}"

lemma write_keys_aggregate:
  "k \<in> set (write_keys P req head existing) \<Longrightarrow> k \<notin> range Ledger_key \<Longrightarrow> k \<in> aggregate_keys P req"
  using request_keys_of [of P req head existing] by (auto simp: aggregate_keys_def)

lemma current_keys_aggregate:
  "k \<in> current_keys P reqs ph \<Longrightarrow> k \<notin> range Ledger_key \<Longrightarrow> k \<in> aggregate_keys P (reqs ! at_request ph)"
  by (cases ph) (auto simp: aggregate_keys_def locked_head_def
      dest!: in_set_takeD request_keys_of [THEN subsetD] split: if_splits)

lemma done_keys_at:
  assumes "k \<in> done_keys P reqs ds" "k \<notin> range Ledger_key"
  obtains i where "i < length ds" "i < length reqs" "k \<in> aggregate_keys P (reqs ! i)"
proof -
  from assms(1) obtain req head existing where k: "(req, head, existing) \<in> set (zip reqs ds)"
    "k \<in> locked_head req head \<union> set (write_keys P req head existing)" by (auto simp: done_keys_def)
  then obtain i where "i < length ds" "i < length reqs" "req = reqs ! i" by (auto simp: in_set_zip)
  moreover have "k \<in> aggregate_keys P req"
    using k(2) write_keys_aggregate [OF _ assms(2)] by (auto simp: locked_head_def aggregate_keys_def split: if_splits)
  ultimately show thesis using that by blast
qed

lemma held_keys_at:
  assumes "k \<in> held_keys P reqs ph" "k \<notin> range Ledger_key"
  obtains (before) i where "i < at_request ph" "i < length reqs" "k \<in> aggregate_keys P (reqs ! i)"
  | (now) "k \<in> current_keys P reqs ph"
proof (cases ph)
  case (Next_request ds)
  with assms done_keys_at [of k P reqs ds] before show thesis by auto
next
  case (Found_head ds head)
  with assms done_keys_at [of k P reqs ds] before now show thesis by auto
next
  case (Found_row ds head existing n)
  with assms done_keys_at [of k P reqs ds] before now show thesis by auto
qed (use assms in simp)

lemma wanted_key_at:
  assumes "wanted_key P d reqs ph = Some k" "batch_ok P encs now d0 reqs ph"
    and "\<And>req. req \<in> set reqs \<Longrightarrow> select_fingerprint d (cq_stream req) (cq_schema_version req) \<noteq> None"
  shows "at_request ph < length reqs" "k \<in> aggregate_keys P (reqs ! at_request ph)" "k \<notin> range Ledger_key"
proof -
  show "at_request ph < length reqs" using assms(1,2) by (cases ph) (auto split: if_splits)
  have "k \<in> aggregate_keys P (reqs ! at_request ph) \<and> k \<notin> range Ledger_key"
  proof (cases ph)
    case (Found_row ds head existing n)
    let ?req = "reqs ! length ds"
    have "?req \<in> set reqs" using assms(2) Found_row by simp
    then have "k \<noteq> Ledger_key (cq_stream ?req, cq_schema_version ?req)"
      using assms(1) assms(3) [of ?req] Found_row by (auto simp: Let_def writes_locked_def split: if_splits)
    moreover have "k \<in> set (write_keys P ?req head existing)"
      using assms(1) Found_row by (auto simp: Let_def split: if_splits)
    ultimately have "k \<in> set (request_keys P ?req) \<union> {Head_key (cq_aggregate ?req)}"
      using request_keys_of [of P ?req head existing] by auto
    then show ?thesis by (auto simp: Found_row aggregate_keys_def)
  qed (use assms(1) in \<open>auto simp: aggregate_keys_def split: if_splits\<close>)
  then show "k \<in> aggregate_keys P (reqs ! at_request ph)" "k \<notin> range Ledger_key" by auto
qed

section \<open>Every wait goes up\<close>

text \<open>A writer that has locked the head of its aggregate, one that has begun to insert its first revision, and others.\<close>

fun kind_of :: "batch_phase \<Rightarrow> nat" where
  "kind_of (Found_row _ (Some _) _ _) = 2"
| "kind_of (Found_row _ None None (Suc _)) = 1"
| "kind_of _ = 0"

definition lock_rank :: "(string \<times> uuid \<Rightarrow> nat) \<Rightarrow> commit_request list \<Rightarrow> batch_phase \<Rightarrow> nat" where
  "lock_rank pos reqs ph = 3 * pos (cq_aggregate (reqs ! at_request ph)) + kind_of ph"

text \<open>What is assumed of the batches: a common order of aggregates, ids that do not collide, and a known ledger.\<close>

definition in_order :: "(string \<times> uuid \<Rightarrow> nat) \<Rightarrow> ('w \<Rightarrow> commit_request list) \<Rightarrow> bool" where
  "in_order pos reqs \<longleftrightarrow> (\<forall>w. sorted_wrt (\<lambda>a b. pos (cq_aggregate a) < pos (cq_aggregate b)) (reqs w))"

definition ids_apart :: "platform \<Rightarrow> ('w \<Rightarrow> commit_request list) \<Rightarrow> bool" where
  "ids_apart P reqs \<longleftrightarrow>
     (\<forall>u w. \<forall>a \<in> set (reqs u). \<forall>b \<in> set (reqs w). target_key a \<noteq> target_key b \<longrightarrow>
        set (request_keys P a) \<inter> set (request_keys P b) = {})"

definition ledger_known :: "db \<Rightarrow> ('w \<Rightarrow> commit_request list) \<Rightarrow> bool" where
  "ledger_known d reqs \<longleftrightarrow>
     (\<forall>w. \<forall>req \<in> set (reqs w). select_fingerprint d (cq_stream req) (cq_schema_version req) \<noteq> None)"

lemma kind_le: "kind_of ph \<le> 2"
  by (cases ph rule: kind_of.cases) simp_all

lemma common_key:
  assumes "ids_apart P reqs" "a \<in> set (reqs u)" "b \<in> set (reqs w)" "k \<in> aggregate_keys P a" "k \<in> aggregate_keys P b"
  shows "cq_aggregate a = cq_aggregate b \<and> (k = Head_key (cq_aggregate a) \<or> target_key a = target_key b)"
proof (cases "target_key a = target_key b")
  case True
  then show ?thesis by (simp add: target_key_def cq_aggregate_def)
next
  case False
  then have "set (request_keys P a) \<inter> set (request_keys P b) = {}" using assms(1-3) by (auto simp: ids_apart_def)
  with assms(4,5) show ?thesis by (auto simp: aggregate_keys_def)
qed

lemma holder_kind:
  assumes "k \<in> current_keys P reqs ph" "wanted_key P d reqs ph = Some k'"
  shows "kind_of ph \<noteq> 0"
proof (cases ph)
  case (Found_row ds head existing n)
  show ?thesis
  proof (cases head)
    case (Some h)
    then show ?thesis by (simp add: Found_row)
  next
    case None
    then obtain i where n: "n = Suc i" using assms(1) by (cases n) (simp_all add: Found_row locked_head_def)
    have "existing = None"
      using assms(2) n None by (cases existing) (simp_all add: Found_row write_keys_def Let_def)
    then show ?thesis using None n by (simp add: Found_row)
  qed
qed (use assms in simp_all)

text \<open>What the two kinds of holders hold.\<close>

lemma locker_holds:
  "kind_of ph = 2 \<Longrightarrow> Head_key (cq_aggregate (reqs ! at_request ph)) \<in> held_keys P reqs ph"
  by (cases ph rule: kind_of.cases) (simp_all add: locked_head_def)

lemma creator_holds:
  assumes "kind_of ph = 1" "wanted_key P d reqs ph = Some k"
  shows "Row_key (target_key (reqs ! at_request ph)) \<in> held_keys P reqs ph" "target_of (reqs ! at_request ph) = 0"
proof -
  from assms(1) obtain ds n where ph: "ph = Found_row ds None None (Suc n)"
    by (cases ph rule: kind_of.cases) simp_all
  have cas: "cas_ok (reqs ! length ds) None"
    using assms(2) by (simp add: ph write_keys_def Let_def split: if_splits)
  then show "Row_key (target_key (reqs ! at_request ph)) \<in> held_keys P reqs ph" by (simp add: ph write_keys_def)
  show "target_of (reqs ! at_request ph) = 0" using cas by (simp add: ph cas_ok_def target_of_def)
qed

lemma locker_wants:
  assumes "kind_of ph = 2" "wanted_key P d reqs ph = Some k" "request_wf P (reqs ! at_request ph)"
  shows "k = Head_key (cq_aggregate (reqs ! at_request ph)) \<or> target_of (reqs ! at_request ph) > 0"
proof -
  from assms(1) obtain ds h existing n where ph: "ph = Found_row ds (Some h) existing n"
    by (cases ph rule: kind_of.cases) simp_all
  show ?thesis
  proof (cases existing)
    case None
    then have "cas_ok (reqs ! length ds) (Some h)" using assms(2) by (simp add: ph write_keys_def Let_def split: if_splits)
    with assms(3) show ?thesis by (auto simp: ph cas_ok_def target_of_def request_wf_def)
  next
    case (Some row)
    with assms(2) show ?thesis by (auto simp: ph write_keys_def Let_def split: if_splits)
  qed
qed

lemma wait_goes_up:
  assumes ok: "batches_ok P encs now reqs v" and wf: "\<And>w. \<forall>req \<in> set (reqs w). request_wf P req"
    and order: "in_order pos reqs" and ids: "ids_apart P reqs" and known: "ledger_known (bt_db v) reqs"
    and wu: "(w, u) \<in> waits_for P reqs v" and ut: "(u, t) \<in> waits_for P reqs v"
  shows "lock_rank pos (reqs w) (bt_phase v w) < lock_rank pos (reqs u) (bt_phase v u)"
proof -
  let ?pw = "bt_phase v w" and ?pu = "bt_phase v u"
  let ?rw = "reqs w ! at_request ?pw" and ?ru = "reqs u ! at_request ?pu"
  from wu obtain k where k: "u \<noteq> w" "k \<in> held_keys P (reqs u) ?pu" "wanted_key P (bt_db v) (reqs w) ?pw = Some k"
    by (auto simp: waits_for_def)
  from ut obtain k' where k': "wanted_key P (bt_db v) (reqs u) ?pu = Some k'" by (auto simp: waits_for_def)
  have phase: "batch_ok P encs (now x) (bt_db v) (reqs x) (bt_phase v x)" for x using ok by (simp add: batches_ok_def)
  have ledger: "select_fingerprint (bt_db v) (cq_stream req) (cq_schema_version req) \<noteq> None" if "req \<in> set (reqs x)" for req x
    using known that by (auto simp: ledger_known_def)
  note at_w = wanted_key_at [OF k(3) phase [of w] ledger [where x = w]]
    and at_u = wanted_key_at [OF k' phase [of u] ledger [where x = u]]
  have apart: "held_keys P (reqs u) ?pu \<inter> held_keys P (reqs w) ?pw \<subseteq> range Ledger_key"
    using ok k(1) by (simp add: batches_ok_def)
  have rw: "?rw \<in> set (reqs w)" and ru: "?ru \<in> set (reqs u)" using at_w(1) at_u(1) by simp_all
  consider (before) i where "i < at_request ?pu" "i < length (reqs u)" "k \<in> aggregate_keys P (reqs u ! i)"
    | (now) "k \<in> current_keys P (reqs u) ?pu"
    by (rule held_keys_at [OF k(2) at_w(3)])
  then show ?thesis
  proof cases
    case before
    then have "cq_aggregate (reqs u ! i) = cq_aggregate ?rw" using common_key [OF ids _ rw before(3) at_w(2), of u] by simp
    moreover have "pos (cq_aggregate (reqs u ! i)) < pos (cq_aggregate ?ru)"
      using order before(1) at_u(1) by (auto simp: in_order_def intro: sorted_wrt_nth_less)
    ultimately show ?thesis using kind_le [of ?pw] by (simp add: lock_rank_def)
  next
    case now
    have ku: "k \<in> aggregate_keys P ?ru" by (rule current_keys_aggregate [OF now at_w(3)])
    note same = common_key [OF ids ru rw ku at_w(2)]
    have "kind_of ?pu \<noteq> 0" by (rule holder_kind [OF now k'])
    have no_lockers: "kind_of ?pw \<noteq> 2 \<or> kind_of ?pu \<noteq> 2"
      using locker_holds [of ?pw "reqs w" P] locker_holds [of ?pu "reqs u" P] same apart by force
    have no_creators: "kind_of ?pw \<noteq> 1 \<or> kind_of ?pu \<noteq> 1"
    proof (rule ccontr)
      assume "\<not> (kind_of ?pw \<noteq> 1 \<or> kind_of ?pu \<noteq> 1)"
      then have w1: "kind_of ?pw = 1" and u1: "kind_of ?pu = 1" by simp_all
      have "target_key ?ru = target_key ?rw"
        using same creator_holds(2) [OF w1 k(3)] creator_holds(2) [OF u1 k'] by (simp add: target_key_def cq_aggregate_def)
      with creator_holds(1) [OF w1 k(3)] creator_holds(1) [OF u1 k'] apart show False by auto
    qed
    have no_mix: "kind_of ?pw \<noteq> 2 \<or> kind_of ?pu \<noteq> 1"
    proof (rule ccontr)
      assume "\<not> (kind_of ?pw \<noteq> 2 \<or> kind_of ?pu \<noteq> 1)"
      then have w2: "kind_of ?pw = 2" and u1: "kind_of ?pu = 1" by simp_all
      have "k \<noteq> Head_key (cq_aggregate ?rw)" using locker_holds [OF w2, of "reqs w" P] k(2) apart by auto
      with locker_wants [OF w2 k(3)] same wf rw have "target_of ?rw > 0" "target_key ?ru = target_key ?rw" by auto
      with creator_holds(2) [OF u1 k'] show False by (simp add: target_key_def)
    qed
    have "kind_of ?pw < kind_of ?pu"
      using \<open>kind_of ?pu \<noteq> 0\<close> no_lockers no_creators no_mix kind_le [of ?pw] kind_le [of ?pu] by linarith
    then show ?thesis using same by (simp add: lock_rank_def)
  qed
qed

lemma no_circle:
  assumes up: "\<And>w u t. (w, u) \<in> r \<Longrightarrow> (u, t) \<in> r \<Longrightarrow> f w < (f u :: nat)"
  shows "(w, w) \<notin> r\<^sup>+"
proof
  assume w: "(w, w) \<in> r\<^sup>+"
  have "(x, y) \<in> r\<^sup>+ \<Longrightarrow> (y, t) \<in> r \<Longrightarrow> f x < f y" for x y t
  proof (induction arbitrary: t rule: trancl_induct)
    case (step y z)
    show ?case using step.IH [OF step.hyps(2)] up [OF step.hyps(2) step.prems] by (rule less_trans)
  qed (rule up)
  from w this [OF w] show False by (auto dest!: tranclD)
qed

section \<open>Properties\<close>


text \<open>Two writers that change both todos in one order, the first of which has changed the first.\<close>

definition sample_ordered :: "three \<Rightarrow> commit_request list" where
  "sample_ordered w = (if w = C then [] else [sample_change, sample_other_change])"


end
