(* ===== verification/Drainers.thy ===== *)
theory Drainers
  imports Delivery
begin

text \<open>
  Claims that overlap on PostgreSQL (\<open>claim\<close> of \<open>src/eventic/sql/store.py\<close>, \<open>claim_select\<close> of
  \<open>src/eventic/sql/dialect.py\<close>).

  The claim query is \<open>FOR UPDATE SKIP LOCKED\<close>: it finds its candidates in what is committed when it starts and
  then locks them one by one, in order, until it has as many as it wants.  A candidate that another transaction
  has locked is skipped; one that has changed meanwhile is looked at again as it is now.  The query joins the
  log and names no table to lock, so the revision a candidate refers to is locked too, after the intent; a
  candidate whose revision is locked is skipped, and its intent stays locked.  All locks are held until the
  transaction ends, which is after the rows it took are marked as leased.

  Other transactions run between these steps; one that would update or delete a locked row waits.  On SQLite
  \<open>BEGIN IMMEDIATE\<close> makes a claim one step, which is \<open>store_claim\<close>.
\<close>

section \<open>Drainers\<close>

text \<open>The arguments of a call of \<open>claim\<close>, with the time it reads when its transaction has begun.\<close>

record drainer =
  dn_queue :: string
  dn_limit :: int
  dn_lease :: int
  dn_now :: time

text \<open>
  A query under way has candidates left, intents and revisions it has locked, and the rows it returns so far.
\<close>

datatype drain_phase =
    Ready
  | Scanning "uuid list" "uuid list" "uuid list" "(intent_row \<times> revision_row) list"
  | Drain_done "eventic_error + claimed_intent list"

record 't drains =
  dr_db :: db
  dr_phase :: "'t \<Rightarrow> drain_phase"

definition drains_start :: "db \<Rightarrow> 't drains" where
  "drains_start d = \<lparr>dr_db = d, dr_phase = (\<lambda>_. Ready)\<rparr>"

fun held_intents :: "drain_phase \<Rightarrow> uuid list" where
  "held_intents (Scanning us intents revs taken) = intents"
| "held_intents _ = []"

fun held_revisions :: "drain_phase \<Rightarrow> uuid list" where
  "held_revisions (Scanning us intents revs taken) = revs"
| "held_revisions _ = []"

definition intent_locked :: "'t drains \<Rightarrow> 't \<Rightarrow> uuid \<Rightarrow> bool" where
  "intent_locked v t u \<longleftrightarrow> (\<exists>s. s \<noteq> t \<and> u \<in> set (held_intents (dr_phase v s)))"

definition revision_locked :: "'t drains \<Rightarrow> 't \<Rightarrow> uuid \<Rightarrow> bool" where
  "revision_locked v t u \<longleftrightarrow> (\<exists>s. s \<noteq> t \<and> u \<in> set (held_revisions (dr_phase v s)))"

definition candidates :: "db \<Rightarrow> drainer \<Rightarrow> uuid list" where
  "candidates d q = map in_intent_id (claim_queue d (dn_queue q) (dn_now q))"

text \<open>One candidate: the intent, then its revision, then the condition on the rows as they are now.\<close>

definition try_row :: "'t drains \<Rightarrow> drainer \<Rightarrow> 't \<Rightarrow> uuid \<Rightarrow> uuid list \<Rightarrow> uuid list \<Rightarrow> uuid list \<Rightarrow>
    (intent_row \<times> revision_row) list \<Rightarrow> drain_phase" where
  "try_row v q t u us intents revs taken =
     (if intent_locked v t u then Scanning us intents revs taken
      else
        (case intent_of (dr_db v) u of
           None \<Rightarrow> Scanning us intents revs taken
         | Some i \<Rightarrow>
             (case revision_of_intent (dr_db v) i of
                None \<Rightarrow> Scanning us (u # intents) revs taken
              | Some r \<Rightarrow>
                  if revision_locked v t (rv_revision_id r) then Scanning us (u # intents) revs taken
                  else Scanning us (u # intents) (rv_revision_id r # revs)
                    (if in_queue i = dn_queue q \<and> claimable (dn_now q) i then taken @ [(i, r)] else taken))))"

definition mark_taken :: "db \<Rightarrow> drainer \<Rightarrow> (intent_row \<times> revision_row) list \<Rightarrow> db" where
  "mark_taken d q taken =
     (if taken = [] then d
      else claim_mark_leased d (map (in_intent_id \<circ> fst) taken) (dn_now q + dn_lease q))"

datatype 't drain_label =
    Opens 't
  | Rejects 't
  | Tries 't uuid
  | Takes 't "claimed_intent list"
  | Others outbox_label

abbreviation drains_to :: "'t \<Rightarrow> drain_phase \<Rightarrow> 't drains \<Rightarrow> 't drains" where
  "drains_to t ph v \<equiv> v\<lparr>dr_phase := (dr_phase v)(t := ph)\<rparr>"

inductive drain_step ::
  "platform \<Rightarrow> encodings \<Rightarrow> nat \<Rightarrow> ('t \<Rightarrow> drainer) \<Rightarrow> 't drains \<Rightarrow> 't drain_label \<Rightarrow> 't drains \<Rightarrow> bool"
  for P encs m qs where
  opens: "dr_phase v t = Ready \<Longrightarrow> 1 \<le> dn_limit (qs t) \<Longrightarrow>
     drain_step P encs m qs v (Opens t) (drains_to t (Scanning (candidates (dr_db v) (qs t)) [] [] []) v)"
| rejects: "dr_phase v t = Ready \<Longrightarrow> dn_limit (qs t) < 1 \<Longrightarrow>
     drain_step P encs m qs v (Rejects t) (drains_to t (Drain_done (Inl UsageError)) v)"
| tries: "dr_phase v t = Scanning (u # us) intents revs taken \<Longrightarrow> int (length taken) < dn_limit (qs t) \<Longrightarrow>
     drain_step P encs m qs v (Tries t u) (drains_to t (try_row v (qs t) t u us intents revs taken) v)"
| takes: "dr_phase v t = Scanning us intents revs taken \<Longrightarrow> us = [] \<or> dn_limit (qs t) \<le> int (length taken) \<Longrightarrow>
     drain_step P encs m qs v (Takes t (map claimed_of taken))
       (drains_to t (Drain_done (Inr (map claimed_of taken))) (v\<lparr>dr_db := mark_taken (dr_db v) (qs t) taken\<rparr>))"
| others: "outbox_step P encs m (dr_db v) l d' \<Longrightarrow> (\<forall>queue limit lease now cs. l \<noteq> Claims queue limit lease now cs) \<Longrightarrow>
     (\<forall>t. \<forall>u \<in> set (held_intents (dr_phase v t)). intent_of d' u = intent_of (dr_db v) u) \<Longrightarrow>
     drain_step P encs m qs v (Others l) (v\<lparr>dr_db := d'\<rparr>)"

inductive drain_run ::
  "platform \<Rightarrow> encodings \<Rightarrow> nat \<Rightarrow> ('t \<Rightarrow> drainer) \<Rightarrow> 't drains \<Rightarrow> 't drain_label list \<Rightarrow> 't drains \<Rightarrow> bool"
  for P encs m qs where
  idle: "drain_run P encs m qs v [] v"
| goes_on: "drain_run P encs m qs v ls v' \<Longrightarrow> drain_step P encs m qs v' l v'' \<Longrightarrow> drain_run P encs m qs v (ls @ [l]) v''"

inductive_cases drain_stepE: "drain_step P encs m qs v l v'"
inductive_cases drain_step_TakesE: "drain_step P encs m qs v (Takes t cs) v'"

text \<open>What the drainers of a run were given, in the order of their commits.\<close>

fun taken_of :: "'t drain_label list \<Rightarrow> claimed_intent list" where
  "taken_of [] = []"
| "taken_of (Takes t cs # ls) = cs @ taken_of ls"
| "taken_of (_ # ls) = taken_of ls"

lemma taken_of_append: "taken_of (ls @ ls') = taken_of ls @ taken_of ls'"
  by (induction ls rule: taken_of.induct) simp_all

section \<open>The invariant\<close>

text \<open>What a query has taken it has locked, and is as it took it.\<close>

definition took :: "db \<Rightarrow> drainer \<Rightarrow> intent_row \<times> revision_row \<Rightarrow> bool" where
  "took d q row \<longleftrightarrow>
     intent_of d (in_intent_id (fst row)) = Some (fst row) \<and> revision_of_intent d (fst row) = Some (snd row) \<and>
     in_queue (fst row) = dn_queue q \<and> claimable (dn_now q) (fst row)"

fun phase_holds :: "db \<Rightarrow> drainer \<Rightarrow> drain_phase \<Rightarrow> bool" where
  "phase_holds d q (Scanning us intents revs taken) \<longleftrightarrow>
     distinct (map (in_intent_id \<circ> fst) taken @ us) \<and> (in_intent_id \<circ> fst) ` set taken \<subseteq> set intents \<and>
     (\<forall>row \<in> set taken. took d q row) \<and> int (length taken) \<le> dn_limit q"
| "phase_holds d q _ \<longleftrightarrow> True"

definition drains_ok :: "('t \<Rightarrow> drainer) \<Rightarrow> 't drains \<Rightarrow> bool" where
  "drains_ok qs v \<longleftrightarrow>
     outbox_ok (dr_db v) \<and> (\<forall>t. phase_holds (dr_db v) (qs t) (dr_phase v t)) \<and>
     (\<forall>s t. s \<noteq> t \<longrightarrow> set (held_intents (dr_phase v s)) \<inter> set (held_intents (dr_phase v t)) = {})"

lemma drains_ok_start: "outbox_ok d \<Longrightarrow> drains_ok qs (drains_start d)"
  by (simp add: drains_ok_def drains_start_def)

text \<open>Rows that stay keep what was taken.\<close>

lemma phase_holds_kept:
  assumes "phase_holds d q ph" "\<And>u. u \<in> set (held_intents ph) \<Longrightarrow> intent_of d' u = intent_of d u"
    and "\<And>i r. revision_of_intent d i = Some r \<Longrightarrow> revision_of_intent d' i = Some r"
  shows "phase_holds d' q ph"
proof (cases ph)
  case (Scanning us intents revs taken)
  have "took d' q row" if "row \<in> set taken" for row
  proof -
    have "took d q row" "in_intent_id (fst row) \<in> set intents" using assms(1) that by (auto simp: Scanning)
    with assms(2) [of "in_intent_id (fst row)"] assms(3) show ?thesis by (simp add: took_def Scanning)
  qed
  with assms(1) show ?thesis by (simp add: Scanning)
qed simp_all

lemma revision_of_intent_prefix:
  "db_revisions d' = db_revisions d @ rs \<Longrightarrow> revision_of_intent d i = Some r \<Longrightarrow> revision_of_intent d' i = Some r"
  by (simp add: revision_of_intent_def find_append)

lemma candidates_distinct: "outbox_ok d \<Longrightarrow> distinct (candidates d q)"
  by (simp add: candidates_def outbox_ok_def claim_queue_def distinct_map_filter distinct_map inj_on_def)

lemma try_row_holds:
  assumes "phase_holds (dr_db v) q (Scanning (u # us) intents revs taken)" "int (length taken) < dn_limit q"
  shows "phase_holds (dr_db v) q (try_row v q t u us intents revs taken)"
proof -
  have id: "in_intent_id i = u" if "intent_of (dr_db v) u = Some i" for i using intent_of_Some [OF that] by simp
  show ?thesis
    using assms by (auto simp: try_row_def took_def id split: option.split)
qed

lemma try_row_held:
  "set (held_intents (try_row v q t u us intents revs taken)) \<subseteq>
     set intents \<union> (if intent_locked v t u then {} else {u})"
  by (auto simp: try_row_def split: option.split)

lemma intent_of_mark_taken:
  assumes "u \<notin> (in_intent_id \<circ> fst) ` set taken"
  shows "intent_of (mark_taken d q taken) u = intent_of d u"
  using assms by (cases "intent_of d u") (simp_all add: mark_taken_def intent_of_claim)

lemma mark_taken_log: "db_revisions (mark_taken d q taken) = db_revisions d"
  by (simp add: mark_taken_def claim_mark_leased_def)

lemma mark_taken_ok: "outbox_ok d \<Longrightarrow> outbox_ok (mark_taken d q taken)"
  by (simp add: mark_taken_def claim_keeps_ok)

lemma outbox_step_log_prefix:
  assumes "outbox_step P encs m d l d'"
  obtains rs where "db_revisions d' = db_revisions d @ rs"
  using assms
proof (cases rule: outbox_step.cases)
  case (commits now reqs out)
  with store_commit_prefix [OF commits(2)] that show ?thesis by (auto simp: prefix_def)
next
  case (claims queue limit lease now cs)
  then have "d' = claim_mark_leased d (claim_ids d queue now limit) (now + lease)" unfolding store_claim_Inr by blast
  then show ?thesis by (intro that [of "[]"]) (simp add: claim_mark_leased_def)
next
  case (settles ss)
  with settle_all_log that [of "[]"] show ?thesis by simp
next
  case (redrives subscription now)
  with that [of "[]"] show ?thesis by (simp add: admin_redrive_def)
qed

lemma drain_step_ok:
  assumes "drain_step P encs m qs v l v'" "drains_ok qs v"
  shows "drains_ok qs v'"
proof -
  have ok: "outbox_ok (dr_db v)" and phases: "\<And>t. phase_holds (dr_db v) (qs t) (dr_phase v t)"
    and apart: "\<And>s t. s \<noteq> t \<Longrightarrow> set (held_intents (dr_phase v s)) \<inter> set (held_intents (dr_phase v t)) = {}"
    using assms(2) by (auto simp: drains_ok_def)
  from assms(1) show ?thesis
  proof cases
    case (opens t)
    with ok phases apart candidates_distinct [OF ok] show ?thesis by (auto simp: drains_ok_def)
  next
    case (rejects t)
    with ok phases apart show ?thesis by (auto simp: drains_ok_def)
  next
    case (tries t u us intents revs taken)
    have "phase_holds (dr_db v) (qs t) (try_row v (qs t) t u us intents revs taken)"
      by (rule try_row_holds) (use phases [of t] tries in simp_all)
    moreover have "set (held_intents (try_row v (qs t) t u us intents revs taken)) \<inter> set (held_intents (dr_phase v s)) = {}"
      if "s \<noteq> t" for s
    proof (cases "intent_locked v t u")
      case True
      with try_row_held [of v "qs t" t u us intents revs taken] apart [OF that] tries(3) show ?thesis by auto
    next
      case False
      then have "u \<notin> set (held_intents (dr_phase v s))" using that by (auto simp: intent_locked_def)
      moreover have "set (held_intents (try_row v (qs t) t u us intents revs taken)) \<subseteq> insert u (set intents)"
        using try_row_held [of v "qs t" t u us intents revs taken] False by simp
      ultimately show ?thesis using apart [OF that] tries(3) by auto
    qed
    ultimately show ?thesis using ok phases apart tries by (auto simp: drains_ok_def)
  next
    case (takes t us intents revs taken)
    have mine: "(in_intent_id \<circ> fst) ` set taken \<subseteq> set intents" using phases [of t] takes by simp
    have "phase_holds (mark_taken (dr_db v) (qs t) taken) (qs s) (dr_phase v s)" if "s \<noteq> t" for s
    proof (rule phase_holds_kept [OF phases])
      fix u assume "u \<in> set (held_intents (dr_phase v s))"
      then have "u \<notin> set intents" using apart [OF that] takes(3) by auto
      with mine show "intent_of (mark_taken (dr_db v) (qs t) taken) u = intent_of (dr_db v) u"
        by (intro intent_of_mark_taken) blast
    qed (simp add: revision_of_intent_def mark_taken_log)
    with mark_taken_ok [OF ok] apart takes show ?thesis by (auto simp: drains_ok_def)
  next
    case (others l' d')
    obtain rs where rs: "db_revisions d' = db_revisions (dr_db v) @ rs" by (rule outbox_step_log_prefix [OF others(3)])
    have "phase_holds d' (qs t) (dr_phase v t)" for t
      by (rule phase_holds_kept [OF phases]) (use others(5) revision_of_intent_prefix [OF rs] in blast)+
    with outbox_step_ok [OF others(3) ok] apart others show ?thesis by (auto simp: drains_ok_def)
  qed
qed

lemma drain_run_ok: "drain_run P encs m qs v ls v' \<Longrightarrow> drains_ok qs v \<Longrightarrow> drains_ok qs v'"
  by (induction rule: drain_run.induct) (auto intro: drain_step_ok)

section \<open>What a claim may do\<close>

text \<open>
  The contract of a claim, of which \<open>store_claim\<close> is the greedy instance: it leases at most as many intents as it
  was asked for, different ones, of its queue, that could be claimed at its time, and returns them with their
  revisions.
\<close>

definition claims_some :: "db \<Rightarrow> drainer \<Rightarrow> claimed_intent list \<Rightarrow> db \<Rightarrow> bool" where
  "claims_some d q cs d' \<longleftrightarrow>
     (\<exists>rows. cs = map claimed_of rows \<and> int (length rows) \<le> dn_limit q \<and> distinct (map (in_intent_id \<circ> fst) rows) \<and>
        (\<forall>row \<in> set rows. took d q row) \<and> d' = mark_taken d q rows)"

lemma store_claim_claims_some:
  assumes "outbox_ok d" "store_claim d (dn_queue q) (dn_limit q) (dn_lease q) (dn_now q) = (Inr cs, d')"
  shows "claims_some d q cs d'"
proof -
  let ?rows = "claim_select d (dn_queue q) (dn_now q) (dn_limit q)"
  have claim: "1 \<le> dn_limit q" "cs = map claimed_of ?rows"
    "d' = claim_mark_leased d (map (in_intent_id \<circ> fst) ?rows) (dn_now q + dn_lease q)"
    using assms(2) by (simp_all add: store_claim_Inr claim_ids_def)
  have "distinct (map (in_intent_id \<circ> fst) ?rows)"
    using candidates_distinct [OF assms(1), of q]
    by (simp add: claim_select_alt candidates_def comp_def take_map [symmetric])
  moreover have "took d q row" if row: "row \<in> set ?rows" for row
  proof -
    from row obtain i where i: "row = (i, the (revision_of_intent d i))" "i \<in> set (claim_queue d (dn_queue q) (dn_now q))"
      by (auto simp: claim_select_alt dest: in_set_takeD)
    then have "i \<in> set (db_intents d)" by (simp add: set_claim_queue)
    with i intent_of_unique [OF assms(1)] show ?thesis by (auto simp: took_def set_claim_queue)
  qed
  moreover have "d' = mark_taken d q ?rows"
    using claim(3) by (simp add: mark_taken_def claim_mark_leased_def)
  moreover have "int (length ?rows) \<le> dn_limit q" using claim(1) by (simp add: claim_select_alt)
  ultimately show ?thesis unfolding claims_some_def using claim(2) by blast
qed

lemma takes_claims_some:
  assumes "drain_step P encs m qs v (Takes t cs) v'" "drains_ok qs v"
  shows "claims_some (dr_db v) (qs t) cs (dr_db v')"
  using assms(1)
proof cases
  case (takes us intents revs taken)
  then have "phase_holds (dr_db v) (qs t) (Scanning us intents revs taken)"
    using assms(2) by (metis drains_ok_def)
  with takes show ?thesis by (auto simp: claims_some_def)
qed

section \<open>Leases while others claim\<close>

fun only_adds :: "'t drain_label \<Rightarrow> bool" where
  "only_adds (Others (Commits reqs)) = True"
| "only_adds (Others _) = False"
| "only_adds _ = True"

text \<open>The intents with these ids are leased, at least until the least of the drainers' lease ends.\<close>

definition leased_to_drainers :: "('t \<Rightarrow> drainer) \<Rightarrow> db \<Rightarrow> uuid set \<Rightarrow> bool" where
  "leased_to_drainers qs d us \<longleftrightarrow>
     (\<forall>u \<in> us. \<exists>i t. intent_of d u = Some i \<and> in_status i = ''leased'' \<and>
        in_leased_until i = Some (dn_now (qs t) + dn_lease (qs t)))"

lemma exclusive_step:
  assumes step: "drain_step P encs m qs v l v'" and ok: "drains_ok qs v" and adds: "only_adds l"
    and clocks: "\<forall>s t. dn_now (qs s) \<le> dn_now (qs t) + dn_lease (qs t)"
    and leased: "leased_to_drainers qs (dr_db v) (set (map ci_intent_id cs))" and distinct: "distinct (map ci_intent_id cs)"
  shows "leased_to_drainers qs (dr_db v') (set (map ci_intent_id (cs @ taken_of [l]))) \<and>
    distinct (map ci_intent_id (cs @ taken_of [l]))"
  using step
proof cases
  case (takes t us intents revs taken)
  have holds: "phase_holds (dr_db v) (qs t) (Scanning us intents revs taken)"
    using ok takes(3) by (metis drains_ok_def)
  have ids: "map ci_intent_id (map claimed_of taken) = map (in_intent_id \<circ> fst) taken"
    by (auto simp: claimed_of_def)
  have fresh: "in_intent_id (fst row) \<notin> set (map ci_intent_id cs)" if "row \<in> set taken" for row
  proof
    assume "in_intent_id (fst row) \<in> set (map ci_intent_id cs)"
    moreover have "took (dr_db v) (qs t) row" using holds that by simp
    ultimately obtain s where "in_status (fst row) = ''leased''"
      "in_leased_until (fst row) = Some (dn_now (qs s) + dn_lease (qs s))" "claimable (dn_now (qs t)) (fst row)"
      using leased by (force simp: leased_to_drainers_def took_def)
    with clocks [rule_format, of t s] show False by (simp add: claimable_def)
  qed
  have "leased_to_drainers qs (mark_taken (dr_db v) (qs t) taken) (set (map ci_intent_id cs))"
    unfolding leased_to_drainers_def
  proof
    fix u assume u: "u \<in> set (map ci_intent_id cs)"
    then have "u \<notin> (in_intent_id \<circ> fst) ` set taken" using fresh by fastforce
    from intent_of_mark_taken [OF this] leased u
    show "\<exists>i s. intent_of (mark_taken (dr_db v) (qs t) taken) u = Some i \<and> in_status i = ''leased'' \<and>
        in_leased_until i = Some (dn_now (qs s) + dn_lease (qs s))"
      by (auto simp: leased_to_drainers_def)
  qed
  moreover have "leased_to_drainers qs (mark_taken (dr_db v) (qs t) taken) (set (map (in_intent_id \<circ> fst) taken))"
  proof -
    have "\<exists>i. intent_of (mark_taken (dr_db v) (qs t) taken) u = Some i \<and> in_status i = ''leased'' \<and>
        in_leased_until i = Some (dn_now (qs t) + dn_lease (qs t))" if "u \<in> set (map (in_intent_id \<circ> fst) taken)" for u
      using that holds by (auto simp: mark_taken_def intent_of_claim lease_intent_def took_def)
    then show ?thesis unfolding leased_to_drainers_def by blast
  qed
  moreover have "set (map ci_intent_id cs) \<inter> set (map (in_intent_id \<circ> fst) taken) = {}"
  proof (rule ccontr)
    assume "\<not> ?thesis"
    then obtain u where u: "u \<in> set (map ci_intent_id cs)" "u \<in> set (map (in_intent_id \<circ> fst) taken)" by blast
    then obtain row where "row \<in> set taken" "u = in_intent_id (fst row)" by auto
    with fresh u(1) show False by blast
  qed
  moreover have "distinct (map (in_intent_id \<circ> fst) taken)" using holds by simp
  moreover have "map ci_intent_id (cs @ taken_of [l]) = map ci_intent_id cs @ map (in_intent_id \<circ> fst) taken"
    using takes(1) ids by simp
  moreover have "dr_db v' = mark_taken (dr_db v) (qs t) taken" using takes(2) by simp
  ultimately show ?thesis
    using distinct unfolding leased_to_drainers_def by (metis UnE distinct_append set_append)
next
  case (others l' d')
  with adds obtain reqs where "l' = Commits reqs" by (cases l') auto
  then obtain now out where "store_commit P encs m now (dr_db v) reqs = (out, d')"
    using others(3) by (auto elim: outbox_step_CommitsE)
  from store_commit_intents(1) [OF this] obtain new where new: "db_intents d' = db_intents (dr_db v) @ new" by blast
  then have "intent_of d' u = Some i" if "intent_of (dr_db v) u = Some i" for u i
    using that by (simp add: intent_of_def find_append)
  with leased have "leased_to_drainers qs d' (set (map ci_intent_id cs))"
    unfolding leased_to_drainers_def by blast
  with others distinct show ?thesis by simp
qed (use leased distinct in simp_all)

lemma exclusive_run:
  assumes "drain_run P encs m qs v ls v'" "drains_ok qs v" "\<forall>l \<in> set ls. only_adds l"
    and clocks: "\<forall>s t. dn_now (qs s) \<le> dn_now (qs t) + dn_lease (qs t)"
  shows "leased_to_drainers qs (dr_db v') (set (map ci_intent_id (taken_of ls))) \<and>
    distinct (map ci_intent_id (taken_of ls))"
  using assms(1-3)
proof (induction rule: drain_run.induct)
  case (goes_on v ls v' l v'')
  have "drains_ok qs v'" by (rule drain_run_ok [OF goes_on.hyps(1) goes_on.prems(1)])
  moreover have "only_adds l" "leased_to_drainers qs (dr_db v') (set (map ci_intent_id (taken_of ls)))"
    "distinct (map ci_intent_id (taken_of ls))"
    using goes_on by simp_all
  ultimately show ?case unfolding taken_of_append by (rule exclusive_step [OF goes_on.hyps(2) _ _ clocks])
qed (simp add: leased_to_drainers_def)

section \<open>Nobody waits\<close>

fun drainer_of :: "'t drain_label \<Rightarrow> 't option" where
  "drainer_of (Opens t) = Some t"
| "drainer_of (Rejects t) = Some t"
| "drainer_of (Tries t u) = Some t"
| "drainer_of (Takes t cs) = Some t"
| "drainer_of (Others l) = None"

fun drain_done :: "drain_phase \<Rightarrow> bool" where
  "drain_done (Drain_done r) = True"
| "drain_done _ = False"

text \<open>The steps a drainer has left: one per candidate, and the commit.\<close>

fun steps_left :: "drain_phase \<Rightarrow> nat" where
  "steps_left (Scanning us intents revs taken) = Suc (length us)"
| "steps_left _ = 0"

lemma try_row_steps: "steps_left (try_row v q t u us intents revs taken) = Suc (length us)"
  by (simp add: try_row_def split: option.split)

lemma drainer_can_step:
  assumes "\<not> drain_done (dr_phase v t)"
  shows "\<exists>l v'. drain_step P encs m qs v l v' \<and> drainer_of l = Some t \<and>
    (dr_phase v t = Ready \<or> steps_left (dr_phase v' t) < steps_left (dr_phase v t))"
proof (cases "dr_phase v t")
  case Ready
  show ?thesis
  proof (cases "1 \<le> dn_limit (qs t)")
    case True
    from drain_step.opens [where qs = qs and t = t, OF Ready True, of P encs m] Ready show ?thesis by (intro exI conjI) auto
  next
    case False
    then have "dn_limit (qs t) < 1" by simp
    from drain_step.rejects [where qs = qs and t = t, OF Ready this, of P encs m] Ready show ?thesis by (intro exI conjI) auto
  qed
next
  case (Scanning us intents revs taken)
  show ?thesis
  proof (cases "us = [] \<or> dn_limit (qs t) \<le> int (length taken)")
    case True
    from drain_step.takes [where qs = qs and t = t, OF Scanning True, of P encs m] Scanning show ?thesis by (intro exI conjI) auto
  next
    case False
    then obtain u us' where us: "us = u # us'" "int (length taken) < dn_limit (qs t)" by (cases us) auto
    from drain_step.tries [where qs = qs and t = t, OF Scanning [unfolded us(1)] us(2), of P encs m] Scanning us
    show ?thesis by (intro exI conjI) (auto simp: try_row_steps)
  qed
qed (use assms in simp)

section \<open>Two intents of one revision\<close>

definition pending_intent :: "uuid \<Rightarrow> string \<Rightarrow> intent_row" where
  "pending_intent u subscription =
     \<lparr>in_intent_id = u, in_subscription_id = subscription, in_revision_id = rv_revision_id sample_row, in_queue = ''q'',
      in_status = ''pending'', in_attempts = 0, in_available_at = 100, in_leased_until = None, in_last_error = None,
      in_created_at = 100\<rparr>"

definition two_intents :: db where
  "two_intents = sample_db\<lparr>db_intents := [pending_intent 1 ''sub.a'', pending_intent 2 ''sub.b'']\<rparr>"

definition one_each :: "bool \<Rightarrow> drainer" where
  "one_each t = \<lparr>dn_queue = ''q'', dn_limit = 1, dn_lease = 30, dn_now = 200\<rparr>"

lemma two_intents_facts:
  "candidates two_intents (one_each t) = [1, 2]" "outbox_ok two_intents"
  "intent_of two_intents 1 = Some (pending_intent 1 ''sub.a'')" "intent_of two_intents 2 = Some (pending_intent 2 ''sub.b'')"
  "revision_of_intent two_intents (pending_intent u name) = Some sample_row"
  "in_queue (pending_intent u name) = dn_queue (one_each t)" "claimable (dn_now (one_each t)) (pending_intent u name)"
  "in_intent_id (pending_intent u name) = u" "dn_limit (one_each t) = 1"
  by (simp_all add: candidates_def claim_queue_def two_intents_def one_each_def pending_intent_def claimable_def
      revision_of_intent_def sample_db_def outbox_ok_def intent_ok_def intent_of_def)

text \<open>The first drainer takes the first intent while the second is on its way.\<close>

definition sibling_labels :: "bool drain_label list" where
  "sibling_labels =
     [Opens False, Opens True, Tries False 1, Tries True 1, Tries True 2, Takes True [],
      Takes False [claimed_of (pending_intent 1 ''sub.a'', sample_row)]]"

lemma sibling_run:
  "\<exists>v. drain_run sample_platform Map.empty 100 one_each (drains_start two_intents) sibling_labels v \<and>
     (\<forall>t. drain_done (dr_phase v t)) \<and> (\<exists>i. intent_of (dr_db v) 2 = Some i \<and> in_queue i = ''q'' \<and> claimable 200 i)"
proof -
  let ?run = "drain_run sample_platform Map.empty 100 one_each (drains_start two_intents)"
  let ?A = "Scanning [2] [1] [rv_revision_id sample_row] [(pending_intent 1 ''sub.a'', sample_row)]"
  let ?c = "claimed_of (pending_intent 1 ''sub.a'', sample_row)"
  let ?d = "mark_taken two_intents (one_each False) [(pending_intent 1 ''sub.a'', sample_row)]"
  define pair where "pair d a b = (\<lparr>dr_db = d, dr_phase = (\<lambda>_. Ready)(False := a, True := b)\<rparr> :: bool drains)" for d a b
  have pair [simp]: "dr_db (pair d a b) = d" "dr_phase (pair d a b) False = a" "dr_phase (pair d a b) True = b"
    "drains_to False a' (pair d a b) = pair d a' b" "drains_to True b' (pair d a b) = pair d a b'"
    "(pair d a b)\<lparr>dr_db := d'\<rparr> = pair d' a b" for d d' a b a' b'
    by (auto simp: pair_def fun_eq_iff)
  have step: "?run (ls @ [l]) v'" if "?run ls v" "drain_step sample_platform Map.empty 100 one_each v l v'" for ls l v v'
    using that by (rule drain_run.goes_on)
  note facts = two_intents_facts
  have "?run [] (pair two_intents Ready Ready)"
  proof -
    have "pair two_intents Ready Ready = drains_start two_intents" by (auto simp: pair_def drains_start_def fun_eq_iff)
    then show ?thesis using drain_run.idle by metis
  qed
  from step [OF this drain_step.opens [where t = False]]
  have "?run [Opens False] (pair two_intents (Scanning [1, 2] [] [] []) Ready)" by (simp add: facts)
  from step [OF this drain_step.opens [where t = True]]
  have "?run [Opens False, Opens True] (pair two_intents (Scanning [1, 2] [] [] []) (Scanning [1, 2] [] [] []))"
    by (simp add: facts)
  from step [OF this drain_step.tries [where t = False and u = 1 and us = "[2]" and intents = "[]" and revs = "[]" and taken = "[]"]]
  have "?run [Opens False, Opens True, Tries False 1] (pair two_intents ?A (Scanning [1, 2] [] [] []))"
    by (simp add: facts try_row_def intent_locked_def revision_locked_def ex_bool_eq)
  from step [OF this drain_step.tries [where t = True and u = 1 and us = "[2]" and intents = "[]" and revs = "[]" and taken = "[]"]]
  have "?run [Opens False, Opens True, Tries False 1, Tries True 1] (pair two_intents ?A (Scanning [2] [] [] []))"
    by (simp add: facts try_row_def intent_locked_def ex_bool_eq)
  from step [OF this drain_step.tries [where t = True and u = 2 and us = "[]" and intents = "[]" and revs = "[]" and taken = "[]"]]
  have "?run [Opens False, Opens True, Tries False 1, Tries True 1, Tries True 2] (pair two_intents ?A (Scanning [] [2] [] []))"
    by (simp add: facts try_row_def intent_locked_def revision_locked_def ex_bool_eq)
  from step [OF this drain_step.takes [where t = True and us = "[]" and intents = "[2]" and revs = "[]" and taken = "[]"]]
  have "?run [Opens False, Opens True, Tries False 1, Tries True 1, Tries True 2, Takes True []]
      (pair two_intents ?A (Drain_done (Inr [])))"
    by (simp add: mark_taken_def)
  from step [OF this drain_step.takes [where t = False and us = "[2]" and intents = "[1]" and
      revs = "[rv_revision_id sample_row]" and taken = "[(pending_intent 1 ''sub.a'', sample_row)]"]]
  have "?run [Opens False, Opens True, Tries False 1, Tries True 1, Tries True 2, Takes True [], Takes False [?c]]
      (pair ?d (Drain_done (Inr [?c])) (Drain_done (Inr [])))"
    by (simp add: facts)
  moreover have "\<exists>i. intent_of ?d 2 = Some i \<and> in_queue i = ''q'' \<and> claimable 200 i"
    by (simp add: mark_taken_def intent_of_claim facts) (simp add: pending_intent_def claimable_def)
  moreover have "\<forall>t. drain_done (dr_phase (pair ?d (Drain_done (Inr [?c])) (Drain_done (Inr []))) t)"
    by (simp add: all_bool_eq)
  moreover have "dr_db (pair ?d (Drain_done (Inr [?c])) (Drain_done (Inr []))) = ?d" by simp
  ultimately show ?thesis unfolding sibling_labels_def by metis
qed

section \<open>Properties\<close>

text \<open>
  Drainers on PostgreSQL that overlap in any way each make a legal claim: what a drainer leases when it
  commits are different intents of its queue, at most as many as it asked for, each of which could be claimed
  at that moment, though other drainers, writers and workers ran between its steps.  And none of them ever
  waits: each has a step to take until it has ended, and only as many as it found candidates.
\<close>

theorem overlapping_drainers_claim_legally:
  assumes "outbox_ok d" "drain_run P encs m qs (drains_start d) ls v"
  shows "(\<forall>t cs v'. drain_step P encs m qs v (Takes t cs) v' \<longrightarrow> claims_some (dr_db v) (qs t) cs (dr_db v')) \<and>
    (\<forall>t. drain_done (dr_phase v t) \<or> (\<exists>l v'. drain_step P encs m qs v l v' \<and> drainer_of l = Some t \<and>
      (dr_phase v t = Ready \<or> steps_left (dr_phase v' t) < steps_left (dr_phase v t))))"
  using takes_claims_some [OF _ drain_run_ok [OF assms(2) drains_ok_start [OF assms(1)]]]
    drainer_can_step [of v _ P encs m qs] by blast

lemma overlapping_drainers_claim_legally_witness:
  "\<exists>l v'. drain_step sample_platform Map.empty 100 one_each (drains_start two_intents) l v' \<and> drainer_of l = Some True"
  using overlapping_drainers_claim_legally [OF two_intents_facts(2) drain_run.idle, of sample_platform Map.empty 100 one_each]
  by (auto simp: drains_start_def)

text \<open>
  C13: Drainers that overlap never claim the same intent: as long as intents are only added and no lease ends
  before the last drainer reads the time, whatever each takes, no intent is taken twice.
\<close>

theorem overlapping_drainers_claim_disjointly:
  assumes "outbox_ok d" "drain_run P encs m qs (drains_start d) ls v" "\<forall>l \<in> set ls. only_adds l"
    and "\<forall>s t. dn_now (qs s) \<le> dn_now (qs t) + dn_lease (qs t)"
  shows "distinct (map ci_intent_id (taken_of ls))"
  using exclusive_run [OF assms(2) drains_ok_start [OF assms(1)] assms(3,4)] by (rule conjunct2)

lemma overlapping_drainers_claim_disjointly_witness: "distinct (map ci_intent_id (taken_of sibling_labels))"
proof -
  obtain v where "drain_run sample_platform Map.empty 100 one_each (drains_start two_intents) sibling_labels v"
    using sibling_run by blast
  from overlapping_drainers_claim_disjointly [OF two_intents_facts(2) this] show ?thesis
    by (simp add: sibling_labels_def one_each_def)
qed

text \<open>
  C14: Two drainers that want one intent each can between them leave one of two intents behind, if both intents
  belong to one revision: the first drainer to take an intent locks the revision, and the second skips the
  other intent, locks its row in vain and returns nothing.
\<close>

theorem drainers_skip_siblings:
  "\<exists>ls v. drain_run sample_platform Map.empty 100 one_each (drains_start two_intents) ls v \<and>
     (\<forall>t. drain_done (dr_phase v t)) \<and> length (taken_of ls) = 1 \<and>
     (\<exists>i. intent_of (dr_db v) 2 = Some i \<and> in_queue i = ''q'' \<and> claimable 200 i)"
proof -
  have "length (taken_of sibling_labels) = 1" by (simp add: sibling_labels_def)
  with sibling_run show ?thesis by blast
qed

end
