(* ===== verification/Live_Paging.thy ===== *)
theory Live_Paging
  imports Reads Store_Promises
begin

text \<open>
  Searching page by page while other transactions commit between the pages
  (\<open>.scratch/projects/006-implementation-review/probes/p08_paging_and_schema_check.py\<close>), and the rows a point read
  of a delta stream asks for.
\<close>

section \<open>A search over a store that moves\<close>

text \<open>
  The loop of the probe: \<open>where\<close> with the cursor of the page before, until there is none.  The list is the
  database each page is read from; the flag says whether the last page was reached.
\<close>

fun live_search ::
  "platform \<Rightarrow> sql_json \<Rightarrow> dialect_name \<Rightarrow> string \<Rightarrow> doc \<Rightarrow> int \<Rightarrow> string option \<Rightarrow> db list \<Rightarrow> exn + uuid list \<times> bool" where
  "live_search P Q name stream filters limit cursor [] = Inr ([], False)"
| "live_search P Q name stream filters limit cursor (d # ds) =
     rbind (store_search P Q name d stream filters cursor limit) (\<lambda>page.
       let seen = map sr_aggregate_id (pg_items page) in
       case pg_cursor page of
         None \<Rightarrow> Inr (seen, True)
       | Some c \<Rightarrow>
           rbind (live_search P Q name stream filters limit (Some c) ds) (\<lambda>(more, finished). Inr (seen @ more, finished)))"

text \<open>The ids that match in one database.\<close>

definition matching_ids :: "sql_json \<Rightarrow> dialect_name \<Rightarrow> string \<Rightarrow> doc \<Rightarrow> db \<Rightarrow> uuid set" where
  "matching_ids Q name stream filters d =
     hd_aggregate_id ` set (filter (\<lambda>h. hd_stream h = stream \<and> matches Q name filters h) (db_heads d))"

definition above :: "uuid option \<Rightarrow> uuid \<Rightarrow> bool" where
  "above after a = (case after of None \<Rightarrow> True | Some k \<Rightarrow> k < a)"

lemma after_key_above: "after_key f after r = above after (f r)"
  by (simp add: after_key_def above_def)

lemma matching_ids_after:
  "hd_aggregate_id ` set (filter (after_key hd_aggregate_id after) (matching_heads Q name d stream filters)) =
     {a \<in> matching_ids Q name stream filters d. above after a}"
  by (auto simp: matching_ids_def matching_heads_def after_key_above)

lemma matching_after_sorted:
  assumes "distinct (map hd_aggregate (db_heads d))"
  shows "sorted_wrt (<) (map hd_aggregate_id (filter (after_key hd_aggregate_id after) (matching_heads Q name d stream filters)))"
  using search_pager.keys_increase [OF distinct_matching_heads [OF assms]] by (simp add: sorted_wrt_map)

lemma page_last_cursor:
  assumes "store_search P Q name d stream filters cursor limit = Inr page" "pg_cursor page = Some c"
  shows "pg_items page \<noteq> [] \<and> uuid_of_str c = Some (sr_aggregate_id (last (pg_items page)))"
proof -
  from assms obtain after where rows: "rmap (head_row_to_stored P) (search_heads Q name d stream filters after limit) = Inr (pg_items page)"
    "int (length (search_heads Q name d stream filters after limit)) = limit" "1 \<le> limit"
    "c = uuid_str (hd_aggregate_id (last (search_heads Q name d stream filters after limit)))"
    by (auto simp: store_search_def Let_def split: if_splits option.splits)
  let ?rows = "search_heads Q name d stream filters after limit"
  have ids: "map sr_aggregate_id (pg_items page) = map hd_aggregate_id ?rows"
    by (rule rmap_Inr_map [OF rows(1)]) (rule head_item_id)
  have "?rows \<noteq> []" using rows(2,3) by auto
  moreover from this ids have "pg_items page \<noteq> []" by auto
  ultimately show ?thesis using ids rows(4) by (metis last_map uuid_of_str_inverse)
qed

lemma page_full:
  assumes "store_search P Q name d stream filters cursor limit = Inr page" "pg_cursor page = Some c"
  shows "int (length (pg_items page)) = limit"
proof -
  from assms obtain after where rows: "rmap (head_row_to_stored P) (search_heads Q name d stream filters after limit) = Inr (pg_items page)"
    "int (length (search_heads Q name d stream filters after limit)) = limit"
    by (auto simp: store_search_def Let_def split: if_splits option.splits)
  have "map sr_aggregate_id (pg_items page) = map hd_aggregate_id (search_heads Q name d stream filters after limit)"
    by (rule rmap_Inr_map [OF rows(1)]) (rule head_item_id)
  then show ?thesis using rows(2) by (metis length_map)
qed

lemma live_search_from:
  assumes "\<forall>d \<in> set ds. distinct (map hd_aggregate (db_heads d))"
    and "case cursor of None \<Rightarrow> after = None | Some c \<Rightarrow> uuid_of_str c = after \<and> after \<noteq> None"
    and "live_search P Q name stream filters limit cursor ds = Inr (ids, finished)"
  shows "sorted_wrt (<) ids \<and> (\<forall>a \<in> set ids. above after a \<and> (\<exists>d \<in> set ds. a \<in> matching_ids Q name stream filters d)) \<and>
    (finished \<longrightarrow> (\<forall>a. above after a \<and> (\<forall>d \<in> set ds. a \<in> matching_ids Q name stream filters d) \<longrightarrow> a \<in> set ids)) \<and>
    (\<not> finished \<longrightarrow> int (length ids) = limit * int (length ds))"
  using assms
proof (induction ds arbitrary: cursor after ids finished)
  case (Cons d ds)
  let ?M = "matching_ids Q name stream filters"
  from Cons.prems(3) obtain page where page: "store_search P Q name d stream filters cursor limit = Inr page"
    by (auto simp: rbind_Inr_iff)
  have heads: "distinct (map hd_aggregate (db_heads d))" using Cons.prems(1) by simp
  note split = search_page [OF heads Cons.prems(2) page]
  let ?seen = "map sr_aggregate_id (pg_items page)"
  have sorted: "sorted_wrt (<) ?seen"
    using matching_after_sorted [OF heads, of after Q name stream filters] unfolding split by (simp only: sorted_wrt_append)
  have all: "{a \<in> ?M d. above after a} = set ?seen \<union>
      (case pg_cursor page of None \<Rightarrow> {} | Some c \<Rightarrow> {a \<in> ?M d. above (uuid_of_str c) a})"
    using arg_cong [OF split, of set] matching_ids_after [of after] matching_ids_after [of "uuid_of_str c" for c]
    by (auto split: option.splits)
  show ?case
  proof (cases "pg_cursor page")
    case None
    then show ?thesis using Cons.prems(3) page sorted all by (auto simp: Let_def)
  next
    case (Some c)
    with Cons.prems(3) page obtain more where more: "live_search P Q name stream filters limit (Some c) ds = Inr (more, finished)"
      "ids = ?seen @ more"
      by (auto simp: Let_def rbind_Inr_iff)
    obtain k where k: "uuid_of_str c = Some k" "pg_items page \<noteq> []" "k = sr_aggregate_id (last (pg_items page))"
      using page_last_cursor [OF page Some] by blast
    have tail: "\<forall>d \<in> set ds. distinct (map hd_aggregate (db_heads d))" using Cons.prems(1) by simp
    have "case Some c of None \<Rightarrow> Some k = None | Some c \<Rightarrow> uuid_of_str c = Some k \<and> Some k \<noteq> None" using k by simp
    note IH = Cons.IH [OF tail this more(1)]
    have split_last: "?seen = butlast ?seen @ [k]"
      using k(2,3) append_butlast_last_id [of ?seen] last_map [of "pg_items page" sr_aggregate_id] by simp
    have last: "a \<le> k" if "a \<in> set ?seen" for a
    proof -
      from sorted have "\<forall>b \<in> set (butlast ?seen). b < k" by (subst (asm) split_last) (simp add: sorted_wrt_append)
      moreover have "a \<in> set (butlast ?seen) \<or> a = k" using that by (subst (asm) split_last) auto
      ultimately show ?thesis by auto
    qed
    have seen: "set ?seen \<subseteq> {a \<in> ?M d. above after a}" using all by blast
    have kseen: "k \<in> set ?seen" using k(2,3) by simp
    have above_k: "k < a" if "a \<in> set more" for a using IH that k(1) by (auto simp: above_def)
    have "sorted_wrt (<) ids"
      using sorted IH last above_k unfolding more(2) sorted_wrt_append by (meson le_less_trans)
    moreover have "above after a \<and> (\<exists>d' \<in> set (d # ds). a \<in> ?M d')" if "a \<in> set ids" for a
    proof (cases "a \<in> set ?seen")
      case True
      with seen show ?thesis by auto
    next
      case False
      with that more(2) have a: "a \<in> set more" by auto
      have "above after k" using kseen seen by blast
      with above_k [OF a] have "above after a" by (auto simp: above_def split: option.splits)
      with IH a show ?thesis by auto
    qed
    moreover have "a \<in> set ids" if "finished" "above after a" "\<forall>d' \<in> set (d # ds). a \<in> ?M d'" for a
    proof -
      have "a \<in> set ?seen \<or> k < a" using all that k(1) Some by (auto simp: above_def)
      moreover have "a \<in> set more" if "k < a"
        using IH that \<open>finished\<close> \<open>\<forall>d' \<in> set (d # ds). a \<in> ?M d'\<close> k(1) by (auto simp: above_def)
      ultimately show ?thesis using more(2) by auto
    qed
    moreover have "int (length ids) = limit * int (length (d # ds))" if "\<not> finished"
      using IH that page_full [OF page Some] unfolding more(2) by (simp add: algebra_simps)
    ultimately show ?thesis by blast
  qed
qed simp

section \<open>The window of a point read\<close>

text \<open>In a gap-free log a window holds one row per revision.\<close>

lemma window_revisions:
  assumes ok: "store_ok P encs d" and r: "(s, a, n) \<in> rv_key ` set (db_revisions d)" and "0 \<le> start" "start \<le> n"
  shows "map rv_revision (select_window d s a start n) = [start..n]"
proof -
  let ?w = "select_window d s a start n"
  let ?f = "filter (\<lambda>r. of_aggregate s a r \<and> start \<le> rv_revision r \<and> rv_revision r \<le> n) (db_revisions d)"
  have "i \<in> rv_revision ` set ?f \<longleftrightarrow> start \<le> i \<and> i \<le> n" for i
    using all_revisions_below [OF ok r, of i] assms(3) by (auto simp: rv_key_def of_aggregate_def image_iff)
  then have "set (map rv_revision ?w) = set [start..n]" by (auto simp: select_window_def)
  moreover have "distinct (map rv_revision ?w)"
  proof -
    have inj: "inj_on rv_key (set (db_revisions d))" "distinct (db_revisions d)"
      using ok by (simp_all add: store_ok_def distinct_map)
    then have "inj_on rv_revision (set ?f)" by (auto simp: inj_on_def rv_key_def of_aggregate_def)
    with inj show ?thesis by (simp add: select_window_def distinct_map)
  qed
  moreover have "sorted (map rv_revision ?w)" by (simp add: select_window_def)
  ultimately show ?thesis
    by (intro sorted_distinct_set_unique) simp_all
qed

section \<open>Properties\<close>

text \<open>
  C19: Following the cursors of a search is safe while others commit: whatever the store looks like at each
  page, no aggregate is returned twice, each one returned matched when its page was read, an aggregate that
  matches throughout is returned by the time the last page is reached, and every page before the last is
  full.
\<close>

theorem live_search_is_exact:
  assumes "\<forall>d \<in> set ds. store_ok P encs d"
    and "live_search P Q name stream filters limit None ds = Inr (ids, finished)"
  shows "distinct ids \<and> sorted ids \<and> (\<forall>a \<in> set ids. \<exists>d \<in> set ds. a \<in> matching_ids Q name stream filters d) \<and>
    (finished \<longrightarrow> (\<forall>a. (\<forall>d \<in> set ds. a \<in> matching_ids Q name stream filters d) \<longrightarrow> a \<in> set ids)) \<and>
    (\<not> finished \<longrightarrow> int (length ids) = limit * int (length ds))"
proof -
  have "\<forall>d \<in> set ds. distinct (map hd_aggregate (db_heads d))" using assms(1) by (simp add: store_ok_def)
  from live_search_from [OF this _ assms(2), of None]
  show ?thesis by (auto simp: strict_sorted_iff above_def)
qed

lemma live_search_is_exact_witness:
  "live_search sample_platform sample_sql Sqlite ''todos'' [] 2 None [sample_db, sample_db] = Inr ([5], True) \<and> sorted [5 :: uuid]"
proof -
  have run: "live_search sample_platform sample_sql Sqlite ''todos'' [] 2 None [sample_db, sample_db] = Inr ([5], True)"
    by (simp add: store_search_def search_heads_def matches_def sql_limit_def sample_db_def head_of_row_def
        sample_row_def after_key_def head_row_to_stored_def column_loads_def)
  have ok: "\<forall>d \<in> set [sample_db, sample_db]. store_ok sample_platform Map.empty d" using sample_db_ok by simp
  from live_search_is_exact [OF ok run] run show ?thesis by blast
qed

text \<open>
  C20: A point read of a delta stream asks for one window of at most one row more than the distance between
  checkpoints, whatever the length of the log: it holds the revisions from the start of the window to the one
  asked for, each once and in order, with a snapshot among them to start from.
\<close>

theorem point_reads_are_bounded:
  assumes "store_ok P encs d" "encs s = Some (Delta every)" "(s, a, n) \<in> rv_key ` set (db_revisions d)"
  shows "map rv_revision (select_window d s a (window_start every n) n) = [window_start every n..n] \<and>
    int (length (select_window d s a (window_start every n) n)) \<le> every + 1 \<and>
    (\<exists>c \<in> set (select_window d s a (window_start every n) n). rv_encoding c = snapshot_id)"
proof -
  let ?start = "window_start every n" and ?w = "select_window d s a (window_start every n) n"
  have every: "1 \<le> every" using assms(1,2) by (auto simp: store_ok_def encodings_ok_def)
  have n: "0 \<le> n" using assms(1,3) by (auto simp: store_ok_def log_row_ok_def rv_key_def)
  have mod_less: "n mod every \<le> every" using every by (simp add: less_imp_le)
  have start: "0 \<le> ?start" "?start \<le> n" "n - ?start \<le> every" "?start \<le> n - n mod every"
    using every n zmod_le_nonneg_dividend [of n every] mod_less by (auto simp: window_start_def)
  have revs: "map rv_revision ?w = [?start..n]" by (rule window_revisions [OF assms(1,3) start(1,2)])
  then have len: "int (length ?w) = n - ?start + 1"
    using start(2) arg_cong [OF revs, of length] unfolding length_map length_upto by simp
  let ?k = "n - n mod every"
  have k: "0 \<le> ?k" "?k \<le> n" "?k mod every = 0"
    using zmod_le_nonneg_dividend [OF n, of every] every by (simp_all add: mod_diff_right_eq)
  have "?k \<in> set (map rv_revision ?w)" unfolding revs using start(4) k(2) by simp
  then obtain c where c: "c \<in> set ?w" "rv_revision c = ?k" by auto
  then have "log_row_ok P encs d c" "rv_stream c = s"
    using assms(1) by (auto simp: store_ok_def set_select_window of_aggregate_def)
  then have "rv_encoding c = snapshot_id"
    using c(2) k(3) assms(2) by (simp add: log_row_ok_def encoding_for_def)
  with c(1) revs len start(3) show ?thesis by auto
qed

lemma point_reads_are_bounded_witness:
  "\<exists>d. commit_one sample_platform (Map.empty(''todos'' \<mapsto> Delta 20)) 100 empty_db sample_create =
      Inr (d, commit_result_of sample_platform 100 sample_create False) \<and>
    map rv_revision (select_window d ''todos'' 5 (window_start 20 0) 0) = [0]"
proof -
  let ?encs = "Map.empty(''todos'' \<mapsto> Delta 20)"
  have "encodings_ok ?encs" by (simp add: encodings_ok_def)
  then have ok: "store_ok sample_platform ?encs empty_db" by (rule store_ok_empty)
  obtain d where d: "commit_one sample_platform ?encs 100 empty_db sample_create =
      Inr (d, commit_result_of sample_platform 100 sample_create False)"
    using commit_one_decides [OF sample_float_codec ok sample_requests_wf(1), of 100]
    by (auto simp: intents_fresh_def sample_create_def empty_db_def cas_ok_def select_head_def encodes_exactly_def
        split: option.splits if_splits)
  have okd: "store_ok sample_platform ?encs d"
    by (rule commit_one_preserves [OF sample_float_codec ok _ d]) (use sample_requests_wf(1) in \<open>simp add: request_wf_def\<close>)
  have "head_revision d ''todos'' 5 = 0"
    using commit_one_head_revision [OF ok d, of "''todos''" 5]
    by (simp add: head_revision_def select_head_def empty_db_def commit_result_of_def sample_create_def)
  then obtain h where "select_head d ''todos'' 5 = Some h" "hd_revision h = 0"
    by (auto simp: head_revision_def split: option.splits)
  with revisions_up_to_head [OF okd, of "''todos''" 5 h 0]
  have "(''todos'', 5, 0) \<in> rv_key ` set (db_revisions d)" by simp
  from point_reads_are_bounded [OF okd _ this, of 20] d show ?thesis
    by (simp add: window_start_def)
qed

end
