(* ===== verification/Envelopes.thy ===== *)
theory Envelopes
  imports Worker_Promises Matches Predicates
begin

text \<open>
  The two ways a commit reaches a handler: inline, from the request that was just committed
  (\<open>_materialize\<close> of \<open>src/eventic/runtime.py\<close>), and durably, rebuilt from the log by a worker that has
  claimed the intent (\<open>_reconstruct\<close> of \<open>src/eventic/worker.py\<close>), at any later time and after any other
  transactions.
\<close>

section \<open>Changed keys of canonical documents\<close>

lemma scalar_eq_canon_left: "scalar_eq (canon v) w = scalar_eq v w"
  by (cases v) (auto simp: scalar_eq_def split: option.split json.split)

lemma py_eq_canon_left: "json_ok v \<Longrightarrow> py_eq (canon v) w = py_eq v w"
proof (induction v arbitrary: w rule: json_induct)
  case (List xs)
  show ?case
  proof (cases w)
    case (JList ys)
    have "py_eq (canon (xs ! i)) (ys ! i) = py_eq (xs ! i) (ys ! i)" if "i < length xs" for i
      using that List.IH List.prems by (simp add: list_all_iff)
    then have "list_all2 py_eq (map canon xs) ys = list_all2 py_eq xs ys"
      by (auto simp: list_all2_conv_all_nth)
    then show ?thesis by (simp add: JList py_eq_list del: py_eq.simps)
  qed (simp_all add: py_eq.simps(6))
next
  case (Obj d)
  show ?case
  proof (cases w)
    case (JObj e)
    have "py_eq (canon v) u = py_eq v u" if "(k, v) \<in> set d" for k v u
      using that Obj.IH Obj.prems by (force simp: list_all_iff)
    then show ?thesis
      unfolding JObj canon_obj py_eq_obj by (fastforce simp: split_beta)
  qed (simp_all add: py_eq.simps(7))
qed (simp_all add: scalar_eq_canon_left)

text \<open>What is changed depends on the canonical forms only.\<close>

lemma keys_canon: "set (keys (sort_key fst (map (map_prod id canon) d))) = set (keys d)"
  by force

lemma changed_keys_canon_None:
  assumes "canon (JObj d) = canon (JObj e)"
  shows "changed_keys None d = changed_keys None e"
proof -
  from assms have "sort_key fst (map (map_prod id canon) d) = sort_key fst (map (map_prod id canon) e)" by simp
  with keys_canon [of d] keys_canon [of e] show ?thesis by (simp add: changed_keys_def)
qed

lemma changed_keys_canon_Some:
  assumes "canon (JObj b) = canon (JObj b')" "canon (JObj d) = canon (JObj d')"
    and ok: "json_ok (JObj b)" "json_ok (JObj b')" "json_ok (JObj d)" "json_ok (JObj d')"
  shows "changed_keys (Some b) d = changed_keys (Some b') d'"
proof -
  have keys: "set (keys b) = set (keys b')" "set (keys d) = set (keys d')"
    using changed_keys_canon_None [OF assms(1)] changed_keys_canon_None [OF assms(2)]
    by (simp_all add: changed_keys_def)
  have vals: "json_ok v" if "map_of f k = Some v" "json_ok (JObj f)" for f :: doc and k v
    using that map_of_SomeD [OF that(1)] by (force simp: list_all_iff)
  have eq: "py_eq v w = py_eq v' w'"
    if m: "map_of b k = Some v" "map_of d k = Some w" "map_of b' k = Some v'" "map_of d' k = Some w'" for k v w v' w'
  proof -
    have "canon v = canon v'" "canon w = canon w'"
      using canon_obj_eqD [of b b' k] canon_obj_eqD [of d d' k] m assms by simp_all
    with vals m ok show ?thesis by (metis py_eq_canon py_eq_canon_left)
  qed
  have "(case (map_of b k, map_of d k) of (Some v, Some w) \<Rightarrow> \<not> py_eq v w | _ \<Rightarrow> False) =
      (case (map_of b' k, map_of d' k) of (Some v, Some w) \<Rightarrow> \<not> py_eq v w | _ \<Rightarrow> False)"
    if "k \<in> set (keys d) \<inter> set (keys b)" for k
  proof -
    from that keys have "k \<in> set (keys b)" "k \<in> set (keys d)" "k \<in> set (keys b')" "k \<in> set (keys d')" by auto
    then obtain v w v' w' where "map_of b k = Some v" "map_of d k = Some w" "map_of b' k = Some v'" "map_of d' k = Some w'"
      by (metis map_of_eq_None_iff not_Some_eq set_map)
    with eq show ?thesis by simp
  qed
  with keys show ?thesis by (auto simp: changed_keys_def)
qed

section \<open>What the worker reads\<close>

text \<open>The stored revision of a request, with its kind, which heads do not hold.\<close>

lemma committed_revision_shown:
  assumes run: "commit_one P encs now d req = Inr (d', res)" "\<not> cr_replayed res" and ok: "store_ok P encs d'"
  obtains sr x where "store_revision P encs d' (request_key req) (target_of req) = Inr (Some sr)"
    "shown_as P req res sr" "sr_kind sr = cq_kind req" "sr_payload sr = JObj x" "json_ok (JObj x)"
proof -
  from not_replayed_appends [OF run] obtain physical enc meta doc d1 where a:
    "bytes_loads P (cq_meta req) = Inr meta"
    "d1 = d\<lparr>db_revisions := db_revisions d @ [new_revision_row P now req physical enc meta]\<rparr>"
    "decode_log_revision P encs d1 (cq_stream req) (cq_aggregate_id req) (target_of req) = Inr doc"
    "db_revisions d' = db_revisions d1"
    by (rule append_revision_Inr)
  let ?r = "new_revision_row P now req physical enc meta"
  have r: "?r \<in> set (db_revisions d')" using a by simp
  have dec: "row_decodes P encs d' ?r = Inr doc"
    using a(3) log_reads_cong(3) [OF a(4)] by (simp add: row_decodes_def new_revision_row_def)
  obtain x where x: "doc = JObj x" "json_ok (JObj x)"
    using row_has_document [OF ok r] dec log_row_okE [of P encs d' ?r] ok r
    by (metis (no_types, lifting) store_ok_def sum.inject(2))
  obtain sr where sr: "store_revision P encs d' (request_key req) (target_of req) = Inr (Some sr)" "shown_as P req res sr"
    using head_shown(2) [OF run ok] by blast
  have "sr_kind sr = cq_kind req \<and> sr_payload sr = doc"
    using store_revision_row [OF ok r dec] sr(1) by (auto simp: request_key_def new_revision_row_def)
  with x sr that show ?thesis by blast
qed

text \<open>What is read at a revision is a document.\<close>

lemma read_document:
  assumes ok: "store_ok P encs d" and read: "store_revision P encs d (AggregateKey s a) n = Inr (Some sr)"
  obtains x where "sr_payload sr = JObj x" "json_ok (JObj x)"
proof -
  obtain r where r: "r \<in> set (db_revisions d)" "rv_stream r = s" "rv_aggregate_id r = a" "rv_revision r = n"
    by (rule store_revision_Some [OF ok read])
  from ok r have "log_row_ok P encs d r" by (simp add: store_ok_def)
  then obtain x where x: "row_decodes P encs d r = Inr (JObj x)" "json_ok (JObj x)" by (rule log_row_okE)
  with store_revision_row [OF ok r(1) x(1)] read r that show ?thesis by auto
qed

text \<open>Transactions of the outbox do not touch the log; commits keep what is read.\<close>

lemma store_ok_cong:
  assumes "db_revisions d' = db_revisions d" "db_heads d' = db_heads d"
  shows "store_ok P encs d' = store_ok P encs d"
  using log_reads_cong(3) [OF assms(1)]
  unfolding store_ok_def log_row_ok_def head_row_ok_def last_row_def row_decodes_def assms by simp

lemma store_revision_cong:
  assumes "db_revisions d' = db_revisions d"
  shows "store_revision P encs d' = store_revision P encs d"
  by (intro ext) (simp only: store_revision_def log_reads_cong [OF assms])

lemma outbox_step_reads:
  assumes "outbox_step P encs m d l d'" "float_codec P" "store_ok P encs d"
  shows "store_ok P encs d' \<and>
    (\<forall>s a n sr. store_revision P encs d (AggregateKey s a) n = Inr (Some sr) \<longrightarrow>
       store_revision P encs d' (AggregateKey s a) n = Inr (Some sr))"
  using assms
proof (cases rule: outbox_step.cases)
  case (commits now reqs out)
  then have "d' = snd (store_commit P encs m now d reqs)" by simp
  with commits assms(2,3) show ?thesis
    using reads_stay [OF assms(2,3)] store_commit_preserves [OF assms(2,3) commits(3) commits(2)] by blast
next
  case (claims queue limit lease now cs)
  from claims(2) have "d' = claim_mark_leased d (claim_ids d queue now limit) (now + lease)"
    unfolding store_claim_Inr by blast
  then have "db_revisions d' = db_revisions d" "db_heads d' = db_heads d"
    by (simp_all add: claim_mark_leased_def)
  with assms(3) show ?thesis using store_ok_cong [of d' d] store_revision_cong [of d' d] by simp
next
  case (settles ss)
  with settle_all_log have "db_revisions d' = db_revisions d" "db_heads d' = db_heads d" by blast+
  with assms(3) show ?thesis using store_ok_cong [of d' d] store_revision_cong [of d' d] by simp
next
  case (redrives subscription now)
  then have "db_revisions d' = db_revisions d" "db_heads d' = db_heads d"
    by (simp_all add: admin_redrive_def)
  with assms(3) show ?thesis using store_ok_cong [of d' d] store_revision_cong [of d' d] by simp
qed

text \<open>A run keeps what was read before it; each claim of it was made on a store between its ends.\<close>

lemma outbox_run_reads:
  assumes "outbox_run P encs m d ls d'" "float_codec P" "store_ok P encs d"
  shows "store_ok P encs d' \<and>
    (\<forall>s a n sr. store_revision P encs d (AggregateKey s a) n = Inr (Some sr) \<longrightarrow>
       store_revision P encs d' (AggregateKey s a) n = Inr (Some sr)) \<and>
    (\<forall>queue limit lease now cs. Claims queue limit lease now cs \<in> set ls \<longrightarrow>
       (\<exists>d1. store_ok P encs d1 \<and> fst (store_claim d1 queue limit lease now) = Inr cs \<and>
         (\<forall>s a n sr. store_revision P encs d (AggregateKey s a) n = Inr (Some sr) \<longrightarrow>
           store_revision P encs d1 (AggregateKey s a) n = Inr (Some sr))))"
  using assms
proof (induction rule: outbox_run.induct)
  case (step P encs m d ls d' l d'')
  then have IH: "store_ok P encs d'"
    "\<And>s a n sr. store_revision P encs d (AggregateKey s a) n = Inr (Some sr) \<Longrightarrow>
       store_revision P encs d' (AggregateKey s a) n = Inr (Some sr)"
    by blast+
  note now = outbox_step_reads [OF step.hyps(2) step.prems(1) IH(1)]
  have "\<exists>d1. store_ok P encs d1 \<and> fst (store_claim d1 queue limit lease now) = Inr cs \<and>
         (\<forall>s a n sr. store_revision P encs d (AggregateKey s a) n = Inr (Some sr) \<longrightarrow>
           store_revision P encs d1 (AggregateKey s a) n = Inr (Some sr))"
    if "l = Claims queue limit lease now cs" for queue limit lease now cs
    using step.hyps(2) IH unfolding that by (elim outbox_step_ClaimsE) (metis fst_conv)
  with step now IH show ?case by auto
qed simp

text \<open>A claimed intent names the revision its row refers to.\<close>

lemma claimed_names_revision:
  assumes ok: "store_ok P encs d" and claim: "fst (store_claim d queue limit lease now) = Inr cs" "intent \<in> set cs"
    and id: "ci_revision_id intent = revision_id P s a n"
    and read: "store_revision P encs d (AggregateKey s a) n = Inr (Some sr)"
  shows "ci_stream intent = s \<and> ci_aggregate_id intent = Some a \<and> ci_revision intent = n"
proof -
  obtain q where q: "q \<in> set (db_revisions d)" "rv_stream q = s" "rv_aggregate_id q = a" "rv_revision q = n"
    by (rule store_revision_Some [OF ok read])
  then have qid: "rv_revision_id q = revision_id P s a n" using ok by (auto simp: store_ok_def log_row_ok_def)
  from claim obtain i r where i: "intent = claimed_of (i, r)" "revision_of_intent d i = Some r"
    by (cases "store_claim d queue limit lease now")
       (auto simp: store_claim_Inr claim_select_def dest!: in_set_takeD)
  then have r: "r \<in> set (db_revisions d)" "rv_revision_id r = in_revision_id i"
    by (auto simp: revision_of_intent_def find_Some_iff)
  with id i(1) qid have "rv_revision_id r = rv_revision_id q" by (simp add: claimed_of_def)
  with ok q(1) r(1) have "r = q" by (auto simp: store_ok_def distinct_map inj_on_def)
  with i q show ?thesis by (simp add: claimed_of_def)
qed

section \<open>Two envelopes of one commit\<close>

text \<open>
  The base the caller planned on: nothing for a create; for an append the state the store holds at the
  revision before, at the version it is declared at now.
\<close>

definition based_on :: "platform \<Rightarrow> 's store_api \<Rightarrow> 'v stream \<Rightarrow> commit_request \<Rightarrow> 'v option \<Rightarrow> 's \<Rightarrow> bool" where
  "based_on P S s req before w \<longleftrightarrow>
     (case before of
        None \<Rightarrow> target_of req = 0
      | Some v \<Rightarrow> 0 < target_of req \<and>
          (case so_revision S (request_key req) (target_of req - 1) w of
             Inr (Some sr) \<Rightarrow> (\<exists>b. state_bytes P s v = Inr b \<and> canonical_bytes P (sr_payload sr) = Some b)
           | _ \<Rightarrow> False))"

lemma loads_of_bytes:
  assumes "float_codec P" "json_ok (JObj x)" "canonical_bytes P (JObj x) = Some b"
  obtains y where "bytes_loads P b = Inr (JObj y)" "canon (JObj y) = canon (JObj x)" "json_ok (JObj y)"
  using loads_canonical [OF assms] canon_idem [of "JObj x"] json_ok_canon [OF assms(2)]
  by (simp add: bytes_loads_def)

text \<open>The keys the worker finds changed are those the runtime found.\<close>

lemma changed_for_agrees:
  assumes P: "float_codec P" and ok: "store_ok P encs (wo_db w)"
    and sr: "sr_payload sr = JObj x" "json_ok (JObj x)" "canonical_bytes P (JObj x) = Some (cq_payload req)"
    and base: "based_on P (sql_store P Q name encs) s req before w"
    and changed: "changed_of P s req before = Inr changed"
    and kept: "\<And>n sr. so_revision (sql_store P Q name encs) (request_key req) n w = Inr (Some sr) \<Longrightarrow>
        so_revision (sql_store P Q name encs) (request_key req) n w2 = Inr (Some sr)"
    and stream: "make_aggregate_key (cq_stream req) (cq_aggregate_id req) = Inr (request_key req)"
    and intent: "ci_stream intent = cq_stream req" "ci_aggregate_id intent = Some (cq_aggregate_id req)"
      "ci_revision intent = target_of req"
  shows "changed_for (sql_store P Q name encs) intent (JObj x) w2 = Some (Inr changed, w2)"
proof -
  obtain y where y: "bytes_loads P (cq_payload req) = Inr (JObj y)" "canon (JObj y) = canon (JObj x)" "json_ok (JObj y)"
    by (rule loads_of_bytes [OF P sr(2,3)])
  show ?thesis
  proof (cases before)
    case None
    with changed y(1) have "changed = changed_keys None y" by (simp add: changed_of_def as_doc_def)
    also have "\<dots> = changed_keys None x" by (rule changed_keys_canon_None [OF y(2)])
    finally show ?thesis
      using base None intent by (simp add: changed_for_def based_on_def as_doc_def py_bind_pure py_run Let_def)
  next
    case (Some v)
    with base obtain sr0 b where sr0: "0 < target_of req"
        "so_revision (sql_store P Q name encs) (request_key req) (target_of req - 1) w = Inr (Some sr0)"
        "state_bytes P s v = Inr b" "canonical_bytes P (sr_payload sr0) = Some b"
      by (auto simp: based_on_def split: sum.splits option.splits)
    obtain x0 where x0: "sr_payload sr0 = JObj x0" "json_ok (JObj x0)"
      by (rule read_document [OF ok, of "cq_stream req" "cq_aggregate_id req" "target_of req - 1" sr0])
         (use sr0(2) in \<open>simp_all add: sql_store_def request_key_def\<close>)
    obtain y0 where y0: "bytes_loads P b = Inr (JObj y0)" "canon (JObj y0) = canon (JObj x0)" "json_ok (JObj y0)"
      by (rule loads_of_bytes [OF P x0(2)]) (use sr0(4) x0 in simp_all)
    have "changed = changed_keys (Some y0) y"
      using changed Some y(1) sr0(3) y0(1) by (simp add: changed_of_def as_doc_def state_tree_def)
    also have "\<dots> = changed_keys (Some x0) x"
      by (rule changed_keys_canon_Some [OF y0(2) y(2) y0(3) x0(2) y(3) sr(2)])
    finally show ?thesis
      using kept [OF sr0(2)] sr0(1) intent stream x0(1)
      by (simp add: changed_for_def as_doc_def lift_py_def py_bind_pure py_run Let_def)
  qed
qed

section \<open>Property\<close>


text \<open>A change of \<open>a\<close> that owes an intent to the queue, and the worker that claims it.\<close>

definition mailed_change :: commit_request where
  "mailed_change = sample_change\<lparr>cq_fingerprint := ''{}'', cq_intents :=
    [\<lparr>ir_subscription_id = ''mail'', ir_revision_id = revision_id sample_platform ''todos'' 5 1, ir_queue = ''q''\<rparr>]\<rparr>"

lemma mailed_change_fields:
  "cq_stream mailed_change = ''todos''" "cq_aggregate_id mailed_change = 5" "target_of mailed_change = 1"
  "cq_expected_revision mailed_change = Some 0" "cq_kind mailed_change = ''change''"
  "cq_schema_version mailed_change = 1" "cq_meta_version mailed_change = 1"
  "cq_payload mailed_change = cq_payload sample_change" "cq_meta mailed_change = ''{}''"
  "request_rid sample_platform mailed_change = revision_id sample_platform ''todos'' 5 1"
  by (simp_all add: mailed_change_def sample_change_def sample_create_def target_of_def request_rid_def)

lemma mailed_change_commits:
  obtains d where "commit_one sample_platform Map.empty 100 sample_db mailed_change =
      Inr (d, commit_result_of sample_platform 100 mailed_change False)"
    "db_intents d = [new_intent_row sample_platform 100 (hd (cq_intents mailed_change))]"
proof -
  have wf: "request_wf sample_platform mailed_change"
    using sample_requests_wf(2) by (simp add: mailed_change_def request_wf_frame)
  have cas: "cas_ok mailed_change (select_head sample_db (cq_stream mailed_change) (cq_aggregate_id mailed_change))"
    by (simp add: mailed_change_fields cas_ok_def select_head_def sample_db_def head_of_row_def sample_row_def)
  have fresh: "intents_fresh sample_platform sample_db (cq_intents mailed_change)"
    by (simp add: intents_fresh_def mailed_change_def sample_db_def)
  have "revision_id sample_platform ''todos'' 5 1 \<noteq> revision_id sample_platform ''todos'' 5 0"
  proof -
    have "show_int 0 = ''0''" "show_int 1 = ''1''" by code_simp+
    then show ?thesis by (simp add: revision_id_def revision_name_def sample_platform_def)
  qed
  then have rid: "request_rid sample_platform mailed_change \<notin> rv_revision_id ` set (db_revisions sample_db)"
    by (simp add: mailed_change_fields sample_db_def sample_row_def)
  have exact: "encodes_exactly sample_platform Map.empty sample_db mailed_change"
    by (simp add: encodes_exactly_def encoding_for_def split: option.split)
  obtain d where d: "commit_one sample_platform Map.empty 100 sample_db mailed_change =
      Inr (d, commit_result_of sample_platform 100 mailed_change False)"
    using commit_one_decides [OF sample_float_codec sample_db_ok wf fresh rid cas, of 100] exact by auto
  have "db_intents d = [new_intent_row sample_platform 100 (hd (cq_intents mailed_change))]"
    using commit_adds_intents [OF sample_db_ok d] by (simp add: commit_result_of_def sample_db_def mailed_change_def)
  with d that show ?thesis by blast
qed

lemma mailed_change_materialized:
  obtains r where "materialized sample_platform sample_app sample_stream mailed_change
     (commit_result_of sample_platform 100 mailed_change False) (Some (JObj [(''a'', JInt 1)])) =
   Some (Inr \<lparr>co_kind = ''change'', co_revision = r, co_changed = {''a''}\<rparr>)"
proof -
  have adapter: "ad_validate_json (md_adapter sample_model) = bytes_loads sample_platform"
    by (simp add: sample_model_def)
  have loads: "bytes_loads sample_platform (cq_payload sample_change) = Inr (JObj [(''a'', JInt 2)])"
    "bytes_loads sample_platform (cq_payload sample_create) = Inr (JObj [(''a'', JInt 1)])"
    "bytes_loads sample_platform ''{}'' = Inr (JObj [])"
    "py_canonical_bytes sample_platform (JObj [(''a'', JInt 2)]) = Inr (cq_payload sample_change)"
    "py_canonical_bytes sample_platform (JObj []) = Inr ''{}''"
    by code_simp+
  have base: "state_tree sample_platform sample_stream (JObj [(''a'', JInt 1)]) = Inr (JObj [(''a'', JInt 1)])"
    by (simp add: state_tree_def sample_plans loads)
  have "\<exists>r. hydrate sample_platform sample_stream sample_meta
      (result_document mailed_change (commit_result_of sample_platform 100 mailed_change False)
        (JObj [(''a'', JInt 2)]) (JObj [])) = Some (Inr r)"
    by (simp add: hydrate_def hydrate_document_def upcast_tree_def result_document_def sample_fields
        mailed_change_fields adapter loads)
  then obtain r where "hydrate sample_platform sample_stream sample_meta
      (result_document mailed_change (commit_result_of sample_platform 100 mailed_change False)
        (JObj [(''a'', JInt 2)]) (JObj [])) = Some (Inr r)" ..
  then have "materialized sample_platform sample_app sample_stream mailed_change
     (commit_result_of sample_platform 100 mailed_change False) (Some (JObj [(''a'', JInt 1)])) =
   Some (Inr \<lparr>co_kind = ''change'', co_revision = r, co_changed = {''a''}\<rparr>)"
    by (simp add: materialized_def mailed_change_fields loads sample_fields(1) changed_of_def base as_doc_def changed_keys_def
        py_eq_simps)
  then show ?thesis by (rule that)
qed

lemma sample_canonical: "canonical_bytes sample_platform (JObj [(''a'', JInt 1)]) = Some (cq_payload sample_create)"
  using sample_loads(3) by (simp add: py_canonical_bytes_def split: option.splits)


section \<open>A change of schema between the two revisions\<close>

text \<open>
  The base has to be what is stored.  After the declared version of a stream has moved, the base of an append
  is the stored document \<open>upcast\<close>, and the runtime compares with that; the worker compares with the document
  as it was stored.  Here version 2 adds \<open>b\<close>, and the append that changes only \<open>a\<close> is a change of \<open>a\<close> for
  an inline handler and of \<open>a\<close> and \<open>b\<close> for a worker.
\<close>

definition add_b :: "json \<Rightarrow> exn + json" where
  "add_b v = (case v of JObj d \<Rightarrow> Inr (JObj (d @ [(''b'', JInt 0)])) | _ \<Rightarrow> Inl (Python TypeError))"

definition bumped_stream :: "json stream" where
  "bumped_stream = sample_stream\<lparr>sm_schema_version := 2, sm_upcasters := [1 \<mapsto> make_upcaster 1 2 add_b]\<rparr>"

definition bumped_payload :: string where
  "bumped_payload = [CHR ''{'', CHR 0x22, CHR ''a'', CHR 0x22, CHR '':'', CHR ''2'', CHR '','',
     CHR 0x22, CHR ''b'', CHR 0x22, CHR '':'', CHR ''0'', CHR ''}'']"

definition bumped_change :: commit_request where
  "bumped_change = mailed_change\<lparr>cq_schema_version := 2, cq_payload := bumped_payload, cq_digest := bumped_payload\<rparr>"

definition stored_v1 :: stored_revision where
  "stored_v1 =
     \<lparr>sr_stream = ''todos'', sr_aggregate_id = 5, sr_revision = 0,
      sr_revision_id = revision_id sample_platform ''todos'' 5 0, sr_kind = ''create'', sr_schema_version = 1,
      sr_meta_version = 1, sr_encoding = snapshot_id, sr_payload = JObj [(''a'', JInt 1)],
      sr_digest = cq_digest sample_create, sr_meta = JObj [], sr_committed_at = 100\<rparr>"

lemma bumped_texts:
  "canonical_bytes sample_platform (JObj [(''a'', JInt 2), (''b'', JInt 0)]) = Some bumped_payload"
  "loads sample_platform bumped_payload = Some (JObj [(''a'', JInt 2), (''b'', JInt 0)])"
  "map_option (loads sample_platform) (canonical_bytes sample_platform (JObj [(''a'', JInt 1), (''b'', JInt 0)])) =
     Some (Some (JObj [(''a'', JInt 1), (''b'', JInt 0)]))"
  "loads sample_platform ''{}'' = Some (JObj [])"
  "canonical_bytes sample_platform (JObj []) = Some ''{}''"
  by code_simp+

lemma bumped_bytes:
  "bytes_loads sample_platform (cq_payload bumped_change) = Inr (JObj [(''a'', JInt 2), (''b'', JInt 0)])"
  "state_tree sample_platform bumped_stream (JObj [(''a'', JInt 1), (''b'', JInt 0)]) =
     Inr (JObj [(''a'', JInt 1), (''b'', JInt 0)])"
  "rbind (py_canonical_bytes sample_platform (JObj [(''a'', JInt 1), (''b'', JInt 0)])) (bytes_loads sample_platform) =
     Inr (JObj [(''a'', JInt 1), (''b'', JInt 0)])"
  "rbind (py_canonical_bytes sample_platform (JObj [])) (bytes_loads sample_platform) = Inr (JObj [])"
  "request_wf sample_platform bumped_change"
  using bumped_texts
  by (auto simp: bytes_loads_def bumped_change_def state_tree_def state_bytes_def canonicalize_def bumped_stream_def
      sample_stream_def sample_model_def py_canonical_bytes_def request_wf_def request_ok_def mailed_change_fields
      mailed_change_def sample_change_def sample_create_def sample_fields is_doc_iff)

lemma schema_change_splits_the_envelopes:
  "\<exists>base d. hydrate sample_platform bumped_stream sample_meta stored_v1 = Some (Inr base) \<and>
     so_revision sample_sql_store (AggregateKey ''todos'' 5) 0 (sample_world sample_db) = Inr (Some stored_v1) \<and>
     so_commit sample_sql_store [bumped_change] (sample_world sample_db) =
       (Inr [commit_result_of sample_platform 100 bumped_change False], sample_world d) \<and>
     changed_of sample_platform bumped_stream bumped_change (Some (re_state base)) = Inr {''a''} \<and>
     (\<forall>intent. ci_stream intent = ''todos'' \<and> ci_aggregate_id intent = Some 5 \<and> ci_revision intent = 1 \<longrightarrow>
        changed_for sample_sql_store intent (JObj [(''a'', JInt 2), (''b'', JInt 0)]) (sample_world d) =
          Some (Inr {''a'', ''b''}, sample_world d))"
proof -
  have adapter: "ad_validate_json (md_adapter sample_model) = bytes_loads sample_platform"
    by (simp add: sample_model_def)
  have fields: "md_adapter (sm_model bumped_stream) = md_adapter sample_model" "sm_schema_version bumped_stream = 2"
    "sm_upcasters bumped_stream = [1 \<mapsto> make_upcaster 1 2 add_b]" "md_adapter (mt_model sample_meta) = md_adapter sample_model"
    by (simp_all add: bumped_stream_def sample_stream_def sample_meta_def)
  have "upcast_tree (JObj [(''a'', JInt 1)]) 1 2 [1 \<mapsto> make_upcaster 1 2 add_b] =
      Some (Inr (JObj [(''a'', JInt 1), (''b'', JInt 0)]))"
    by (simp add: upcast_tree_def upcast.simps make_upcaster_def add_b_def)
  then obtain base where base: "hydrate sample_platform bumped_stream sample_meta stored_v1 = Some (Inr base)"
    "re_state base = JObj [(''a'', JInt 1), (''b'', JInt 0)]"
    using bumped_bytes
    by (auto simp: hydrate_def hydrate_document_def stored_v1_def fields adapter sample_fields upcast_tree_def
        mailed_change_fields)
  have read: "so_revision sample_sql_store (AggregateKey ''todos'' 5) 0 (sample_world sample_db) = Inr (Some stored_v1)"
    using sample_stored [of "sample_world sample_db"] by (simp add: sample_world_def sample_db_def stored_v1_def)
  have same: "cq_stream bumped_change = ''todos''" "cq_aggregate_id bumped_change = 5" "target_of bumped_change = 1"
    "cq_expected_revision bumped_change = Some 0" "cq_intents bumped_change = cq_intents mailed_change"
    by (simp_all add: bumped_change_def mailed_change_fields [unfolded target_of_def] target_of_def)
  have cas: "cas_ok bumped_change (select_head sample_db (cq_stream bumped_change) (cq_aggregate_id bumped_change))"
    by (simp add: same cas_ok_def select_head_def sample_db_def head_of_row_def sample_row_def)
  have fresh: "intents_fresh sample_platform sample_db (cq_intents bumped_change)"
    by (simp add: same intents_fresh_def mailed_change_def sample_db_def)
  have "revision_id sample_platform ''todos'' 5 1 \<noteq> revision_id sample_platform ''todos'' 5 0"
  proof -
    have "show_int 0 = ''0''" "show_int 1 = ''1''" by code_simp+
    then show ?thesis by (simp add: revision_id_def revision_name_def sample_platform_def)
  qed
  then have rid: "request_rid sample_platform bumped_change \<notin> rv_revision_id ` set (db_revisions sample_db)"
    by (simp add: same request_rid_def sample_db_def sample_row_def)
  have exact: "encodes_exactly sample_platform Map.empty sample_db bumped_change"
    by (simp add: encodes_exactly_def encoding_for_def split: option.split)
  obtain d where d: "commit_one sample_platform Map.empty 100 sample_db bumped_change =
      Inr (d, commit_result_of sample_platform 100 bumped_change False)"
    using commit_one_decides [OF sample_float_codec sample_db_ok bumped_bytes(5) fresh rid cas, of 100] exact by auto
  have so: "so_commit sample_sql_store [bumped_change] (sample_world sample_db) =
      (Inr [commit_result_of sample_platform 100 bumped_change False], sample_world d)"
    using d by (simp add: sql_commit_one sample_sql_store_def sample_world_def)
  have okd: "store_ok sample_platform Map.empty d"
    by (rule commit_one_preserves [OF sample_float_codec sample_db_ok _ d]) (use bumped_bytes(5) in \<open>simp add: request_wf_def\<close>)
  have "snd (store_commit sample_platform Map.empty 100 100 sample_db [bumped_change]) = d"
    using d by (simp add: store_commit_def)
  moreover have "\<forall>req \<in> set [bumped_change]. request_ok sample_platform req"
    using bumped_bytes(5) by (simp add: request_wf_def)
  ultimately have kept: "so_revision sample_sql_store (AggregateKey ''todos'' 5) 0 (sample_world d) = Inr (Some stored_v1)"
    using reads_stay [OF sample_float_codec sample_db_ok, of "[bumped_change]" "''todos''" 5 0 stored_v1 100 100] read
    by (simp add: sample_sql_store_def sql_store_def sample_world_def)
  have key: "make_aggregate_key ''todos'' 5 = Inr (AggregateKey ''todos'' 5)"
    using declared_stream_name [OF sample_declared, of 5] by (simp add: sample_fields)
  have "changed_of sample_platform bumped_stream bumped_change (Some (re_state base)) = Inr {''a''}"
    by (auto simp: changed_of_def bumped_bytes base as_doc_def changed_keys_def py_eq_simps)
  moreover have "changed_for sample_sql_store intent (JObj [(''a'', JInt 2), (''b'', JInt 0)]) (sample_world d) =
      Some (Inr {''a'', ''b''}, sample_world d)"
    if "ci_stream intent = ''todos''" "ci_aggregate_id intent = Some 5" "ci_revision intent = 1" for intent
    using that key kept
    by (auto simp: changed_for_def lift_py_def py_bind_pure py_run Let_def as_doc_def stored_v1_def changed_keys_def py_eq_simps)
  ultimately show ?thesis using base read so by blast
qed

end
