(* ===== verification/Zoo.thy ===== *)
theory Zoo
  imports Canonical Json_Facts
begin

text \<open>
  What the map of exclusions leaves out of a document (\<open>build_exclude_map\<close> of \<open>src/eventic/canonical.py\<close>), and the
  model classes of the canonicalization corpus (\<open>src/eventic/testing/factories.py\<close>) as data.
\<close>

section \<open>Paths into a document\<close>

datatype path_step = At string | Each

text \<open>The places that Pydantic leaves out when a value is dumped with an \<open>exclude\<close> argument.\<close>

fun leaves_out :: "exclude \<Rightarrow> path_step list \<Rightarrow> bool" where
  "leaves_out ExTrue p \<longleftrightarrow> p = []"
| "leaves_out (ExFields ex) (At n # p) \<longleftrightarrow> (case map_of ex n of None \<Rightarrow> False | Some e \<Rightarrow> leaves_out e p)"
| "leaves_out (ExAll e) (Each # p) \<longleftrightarrow> leaves_out e p"
| "leaves_out _ _ \<longleftrightarrow> False"

text \<open>
  The places of computed fields in the document of a value of an annotation, on ways that enter no class twice nor
  one of \<open>seen\<close>.
\<close>

inductive computed_at :: "classes \<Rightarrow> string list \<Rightarrow> annotation \<Rightarrow> path_step list \<Rightarrow> bool" for G where
  own: "map_of G m = Some c \<Longrightarrow> m \<notin> set seen \<Longrightarrow> n \<in> set (mc_computed c) \<Longrightarrow> computed_at G seen (ModelRef m) [At n]"
| of_field: "map_of G m = Some c \<Longrightarrow> m \<notin> set seen \<Longrightarrow> (n, a) \<in> set (mc_fields c) \<Longrightarrow> computed_at G (m # seen) a p \<Longrightarrow>
    computed_at G seen (ModelRef m) (At n # p)"
| of_arm: "a \<in> set args \<Longrightarrow> computed_at G seen a p \<Longrightarrow> computed_at G seen (Union args) p"
| of_annotated: "computed_at G seen a p \<Longrightarrow> computed_at G seen (Annotated a) p"
| of_element: "k \<noteq> CDict \<Longrightarrow> computed_at G seen a p \<Longrightarrow> computed_at G seen (Container k (a # as)) (Each # p)"
| of_value: "computed_at G seen v p \<Longrightarrow> computed_at G seen (Container CDict (k # v # as)) (Each # p)"

inductive_simps computed_at_simps:
  "computed_at G seen Secret p" "computed_at G seen (Plain t) p" "computed_at G seen (Union args) p"
  "computed_at G seen (Annotated a) p" "computed_at G seen (ModelRef m) p" "computed_at G seen (Container k args) p"
  "computed_at G seen (OtherGeneric t args) p"

text \<open>All of them, on ways that may come back to a class.\<close>

inductive computed_anywhere :: "classes \<Rightarrow> annotation \<Rightarrow> path_step list \<Rightarrow> bool" for G where
  any_own: "map_of G m = Some c \<Longrightarrow> n \<in> set (mc_computed c) \<Longrightarrow> computed_anywhere G (ModelRef m) [At n]"
| any_field: "map_of G m = Some c \<Longrightarrow> (n, a) \<in> set (mc_fields c) \<Longrightarrow> computed_anywhere G a p \<Longrightarrow>
    computed_anywhere G (ModelRef m) (At n # p)"
| any_arm: "a \<in> set args \<Longrightarrow> computed_anywhere G a p \<Longrightarrow> computed_anywhere G (Union args) p"
| any_annotated: "computed_anywhere G a p \<Longrightarrow> computed_anywhere G (Annotated a) p"
| any_element: "k \<noteq> CDict \<Longrightarrow> computed_anywhere G a p \<Longrightarrow> computed_anywhere G (Container k (a # as)) (Each # p)"
| any_value: "computed_anywhere G v p \<Longrightarrow> computed_anywhere G (Container CDict (k # v # as)) (Each # p)"

lemma computed_at_anywhere: "computed_at G seen a p \<Longrightarrow> computed_anywhere G a p"
  by (induction rule: computed_at.induct) (auto intro: computed_anywhere.intros)

section \<open>The walk finds them\<close>

text \<open>
  Graphs in which a union has at most one arm that could have computed fields, as \<open>Optional\<close> has, and in which a class
  names no field twice.
\<close>

definition plain :: "annotation \<Rightarrow> bool" where
  "plain a = (case a of Plain _ \<Rightarrow> True | Secret \<Rightarrow> True | _ \<Rightarrow> False)"

definition flat :: "classes \<Rightarrow> annotation \<Rightarrow> bool" where
  "flat G a =
     (plain a \<or>
      (case a of
         ModelRef m \<Rightarrow>
           (case map_of G m of None \<Rightarrow> True | Some c \<Rightarrow> mc_computed c = [] \<and> list_all (\<lambda>(n, a). plain a) (mc_fields c))
       | _ \<Rightarrow> False))"

fun one_armed :: "classes \<Rightarrow> annotation \<Rightarrow> bool" where
  "one_armed G (Union args) \<longleftrightarrow> length (filter (\<lambda>a. \<not> flat G a) args) \<le> 1 \<and> list_all (one_armed G) args"
| "one_armed G (Annotated a) \<longleftrightarrow> one_armed G a"
| "one_armed G (Container k args) \<longleftrightarrow> list_all (one_armed G) args"
| "one_armed G _ \<longleftrightarrow> True"

definition graph_ok :: "classes \<Rightarrow> bool" where
  "graph_ok G \<longleftrightarrow> list_all (\<lambda>(m, c). distinct (map fst (mc_fields c) @ mc_computed c) \<and> list_all (\<lambda>(n, a). one_armed G a) (mc_fields c)) G"

lemma graph_ok_class:
  "graph_ok G \<Longrightarrow> map_of G m = Some c \<Longrightarrow>
     distinct (map fst (mc_fields c)) \<and> set (map fst (mc_fields c)) \<inter> set (mc_computed c) = {} \<and>
     (\<forall>(n, a) \<in> set (mc_fields c). one_armed G a)"
  by (force simp: graph_ok_def list_all_iff dest: map_of_SomeD)

lemma plain_nothing: "plain a \<Longrightarrow> walk_annotation G seen a = None \<and> \<not> computed_at G seen a p"
  by (cases a) (simp_all add: plain_def computed_at_simps)

lemma plain_fields: "list_all (\<lambda>(n, a). plain a) fs \<Longrightarrow> walk_fields G seen fs ex = ex"
  by (induction fs arbitrary: ex) (auto simp: plain_nothing)

lemma flat_nothing: "flat G a \<Longrightarrow> walk_annotation G seen a = None \<and> \<not> computed_at G seen a p"
proof (cases "plain a")
  case False
  moreover assume "flat G a"
  ultimately show ?thesis
    by (auto simp: flat_def computed_at_simps plain_fields list_all_iff plain_nothing split: annotation.splits option.splits)
qed (simp add: plain_nothing)

lemma flat_arms: "\<forall>a \<in> set as. flat G a \<Longrightarrow> walk_union G seen as = None"
  by (induction as) (simp_all add: flat_nothing)

lemma leaves_out_nothing: "\<not> leaves_out (ExFields []) p"
  by (cases "(ExFields [], p)" rule: leaves_out.cases) simp_all

lemma leaves_out_each: "leaves_out (ExAll e) p \<longleftrightarrow> (\<exists>q. p = Each # q \<and> leaves_out e q)"
  by (cases "(ExAll e, p)" rule: leaves_out.cases) simp_all

lemma leaves_out_computed:
  "leaves_out (ExFields (map (\<lambda>n. (n, ExTrue)) ns)) p \<longleftrightarrow> (\<exists>n \<in> set ns. p = [At n])"
proof (cases p)
  case (Cons s q)
  have "map_of (map (\<lambda>n. (n, ExTrue)) ns) n = (if n \<in> set ns then Some ExTrue else None)" for n
    by (induction ns) auto
  then show ?thesis using Cons by (cases s) auto
qed simp

lemma leaves_out_update:
  "n \<notin> fst ` set ex \<Longrightarrow> leaves_out (ExFields (AList.update n e ex)) p \<longleftrightarrow>
     leaves_out (ExFields ex) p \<or> (\<exists>q. p = At n # q \<and> leaves_out e q)"
proof (cases p)
  case (Cons s q)
  assume n: "n \<notin> fst ` set ex"
  then have "map_of ex n = None" by (simp add: map_of_eq_None_iff)
  with Cons show ?thesis by (cases s) (auto simp: update_conv' split: option.split)
qed simp

lemma walk_is_exact:
  shows "graph_ok G \<Longrightarrow> one_armed G a \<Longrightarrow> (\<exists>e. walk_annotation G seen a = Some e \<and> leaves_out e p) \<longleftrightarrow> computed_at G seen a p"
    and "graph_ok G \<Longrightarrow> \<forall>a \<in> set as. one_armed G a \<Longrightarrow> length (filter (\<lambda>a. \<not> flat G a) as) \<le> 1 \<Longrightarrow>
      (\<exists>e. walk_union G seen as = Some e \<and> leaves_out e p) \<longleftrightarrow> (\<exists>a \<in> set as. computed_at G seen a p)"
    and "graph_ok G \<Longrightarrow> \<forall>(n, a) \<in> set fs. one_armed G a \<Longrightarrow> distinct (map fst fs) \<Longrightarrow> fst ` set ex \<inter> fst ` set fs = {} \<Longrightarrow>
      leaves_out (ExFields (walk_fields G seen fs ex)) p \<longleftrightarrow>
        leaves_out (ExFields ex) p \<or> (\<exists>n a q. (n, a) \<in> set fs \<and> p = At n # q \<and> computed_at G seen a q)"
proof (induction G seen a and G seen as and G seen fs ex arbitrary: p and p and p
    rule: walk_annotation_walk_union_walk_fields.induct)
  case (5 G seen m)
  show ?case
  proof (cases "m \<in> set seen \<or> map_of G m = None")
    case True
    then show ?thesis by (auto simp: computed_at_simps)
  next
    case False
    then obtain c where c: "map_of G m = Some c" "m \<notin> set seen" by auto
    let ?ex = "walk_fields G (m # seen) (mc_fields c) (map (\<lambda>n. (n, ExTrue)) (mc_computed c))"
    note ok = graph_ok_class [OF 5(2) c(1)]
    have "leaves_out (ExFields ?ex) p \<longleftrightarrow> (\<exists>n \<in> set (mc_computed c). p = [At n]) \<or>
        (\<exists>n a q. (n, a) \<in> set (mc_fields c) \<and> p = At n # q \<and> computed_at G (m # seen) a q)"
      unfolding leaves_out_computed [symmetric]
      by (rule 5(1) [OF c(2,1) 5(2)]) (use ok in \<open>auto simp: image_image\<close>)
    also have "\<dots> \<longleftrightarrow> computed_at G seen (ModelRef m) p" using c by (auto simp: computed_at_simps)
    finally have "leaves_out (ExFields ?ex) p \<longleftrightarrow> computed_at G seen (ModelRef m) p" .
    then show ?thesis using c leaves_out_nothing by (cases ?ex) auto
  qed
next
  case (6 G seen k args)
  have each: "(\<exists>e. map_option ExAll r = Some e \<and> leaves_out e p) \<longleftrightarrow> (\<exists>q. p = Each # q \<and> (\<exists>e. r = Some e \<and> leaves_out e q))" for r
    by (cases r) (auto simp: leaves_out_each)
  show ?case
  proof (cases "k = CDict")
    case True
    show ?thesis
    proof (cases "\<exists>x v as. args = x # v # as")
      case True
      then obtain x v as where args: "args = x # v # as" by blast
      with \<open>k = CDict\<close> each 6 show ?thesis by (auto simp: computed_at_simps)
    next
      case False
      with \<open>k = CDict\<close> show ?thesis by (auto simp: computed_at_simps split: list.splits)
    qed
  next
    case False
    with each 6 show ?thesis by (cases k; cases args) (auto simp: computed_at_simps)
  qed
next
  case (9 G seen a as)
  show ?case
  proof (cases "flat G a")
    case True
    with 9 show ?thesis by (auto simp: flat_nothing)
  next
    case False
    with 9(5) have "\<forall>b \<in> set as. flat G b" by (auto simp: filter_empty_conv)
    with 9 show ?thesis by (auto simp: flat_arms flat_nothing split: option.splits)
  qed
next
  case (11 G seen n a fs ex)
  show ?case
  proof (cases "walk_annotation G seen a")
    case None
    with 11 show ?thesis by (auto split: option.splits)
  next
    case (Some e)
    have names: "\<forall>(n, a) \<in> set fs. one_armed G a" "distinct (map fst fs)" "one_armed G a" "n \<notin> fst ` set ex"
      "fst ` set (AList.update n e ex) \<inter> fst ` set fs = {}"
      using 11(5-7) by (auto simp: dom_update)
    have "leaves_out (ExFields (walk_fields G seen ((n, a) # fs) ex)) p \<longleftrightarrow>
        leaves_out (ExFields (AList.update n e ex)) p \<or> (\<exists>n a q. (n, a) \<in> set fs \<and> p = At n # q \<and> computed_at G seen a q)"
      using 11(3) [OF Some 11(4) names(1,2,5)] Some by simp
    also have "leaves_out (ExFields (AList.update n e ex)) p \<longleftrightarrow>
        leaves_out (ExFields ex) p \<or> (\<exists>q. p = At n # q \<and> computed_at G seen a q)"
      using leaves_out_update [OF names(4)] 11(1) [OF 11(4) names(3)] Some by simp
    finally show ?thesis by auto
  qed
qed (simp_all add: computed_at_simps Bex_def list_all_iff)

text \<open>The map of a model leaves out the computed fields that can be reached without coming back to a class.\<close>

lemma build_exclude_map_is_exact:
  assumes "graph_ok G"
  shows "leaves_out (ExFields (build_exclude_map G m)) p \<longleftrightarrow> computed_at G [] (ModelRef m) p"
proof -
  have "build_exclude_map G m = [] \<and> walk_annotation G [] (ModelRef m) = None \<or>
      walk_annotation G [] (ModelRef m) = Some (ExFields (build_exclude_map G m))"
    by (auto simp: build_exclude_map_def split: option.split list.split)
  with walk_is_exact(1) [OF assms, of "ModelRef m" "[]" p] leaves_out_nothing show ?thesis by auto
qed

section \<open>The corpus\<close>

text \<open>
  The classes of \<open>factories.py\<close>, with the annotations that Pydantic reports for their fields; \<open>datetime\<close>, \<open>Decimal\<close>, enumerations,
  \<open>Literal\<close> and the like are plain types.  Their own annotations are strings.
\<close>

definition zoo_class :: "(string \<times> annotation) list \<Rightarrow> string list \<Rightarrow> model_class" where
  "zoo_class fs computed = \<lparr>mc_fields = fs, mc_computed = computed, mc_own_annotations = []\<rparr>"

abbreviation "an_int \<equiv> Plain ''int''"
abbreviation "an_str \<equiv> Plain ''str''"

definition zoo_classes :: classes where
  "zoo_classes =
     [(''WithComputed'', zoo_class [(''a'', an_int)] [''doubled'']),
      (''NestedComputed'', zoo_class
         [(''name'', an_str), (''child'', ModelRef ''WithComputed''), (''children'', Container CList [ModelRef ''WithComputed'']),
          (''mapping'', Container CDict [an_str, ModelRef ''WithComputed''])] [''total'']),
      (''DeepComputed'', zoo_class
         [(''tag'', an_str), (''nested'', ModelRef ''NestedComputed''),
          (''depth_two'', Container CList [ModelRef ''NestedComputed'']),
          (''depth_mapping'', Container CDict [an_str, ModelRef ''NestedComputed''])] [''upper'']),
      (''AllScalars'', zoo_class
         [(''id'', Plain ''UUID''), (''aware'', Plain ''datetime''), (''naive'', Plain ''datetime''), (''day'', Plain ''date''),
          (''clock'', Plain ''time''), (''amount'', Plain ''Decimal''), (''color'', Plain ''Color''), (''priority'', Plain ''Priority''),
          (''data'', Plain ''bytes''), (''path'', Plain ''Path''), (''optional'', Union [an_str, Plain ''None'']),
          (''with_default'', an_int), (''alias_field'', an_str)] []),
      (''WithValidators'', zoo_class [(''value'', an_int)] []),
      (''WithSerializers'', zoo_class [(''amount'', Plain ''Decimal'')] []),
      (''Square'', zoo_class [(''kind'', Plain ''Literal''), (''side'', Plain ''float'')] []),
      (''Circle'', zoo_class [(''kind'', Plain ''Literal''), (''radius'', Plain ''float'')] []),
      (''Shape'', zoo_class [(''shape'', Union [ModelRef ''Square'', ModelRef ''Circle''])] []),
      (''Container'', zoo_class
         [(''items'', Container CList [ModelRef ''WithComputed'']), (''tags'', Container CSet [an_str]),
          (''pair'', Container CTuple [an_int, an_str]), (''mapping'', Container CDict [an_str, an_int])] []),
      (''Empty'', zoo_class [] []),
      (''Recursive'', zoo_class [(''label'', an_str), (''next'', Union [ModelRef ''Recursive'', Plain ''None''])] []),
      (''WithSecret'', zoo_class [(''token'', Secret)] []),
      (''WithNestedSecret'', zoo_class [(''inner'', Container CList [ModelRef ''WithSecret''])] [])]"

definition zoo_members :: "string list" where
  "zoo_members =
     [''WithComputed'', ''NestedComputed'', ''DeepComputed'', ''AllScalars'', ''WithValidators'', ''WithSerializers'', ''Shape'',
      ''Container'', ''Empty'', ''Recursive'']"

lemma zoo_graph_ok: "graph_ok zoo_classes"
  by code_simp

text \<open>Where classes have ranks that fall along their fields, but for classes without computed fields, no way comes back.\<close>

fun refs :: "annotation \<Rightarrow> string set" where
  "refs (ModelRef m) = {m}"
| "refs (Union args) = (\<Union>a \<in> set args. refs a)"
| "refs (Annotated a) = refs a"
| "refs (Container k args) = (\<Union>a \<in> set args. refs a)"
| "refs _ = {}"

definition silent :: "classes \<Rightarrow> string \<Rightarrow> bool" where
  "silent G m \<longleftrightarrow> (\<forall>p. \<not> computed_anywhere G (ModelRef m) p)"

lemma ranked_ways:
  assumes rank: "\<And>m c n a m'. map_of G m = Some c \<Longrightarrow> (n, a) \<in> set (mc_fields c) \<Longrightarrow> m' \<in> refs a \<Longrightarrow> rank m' < (rank m :: nat) \<or> silent G m'"
  shows "computed_anywhere G a p \<Longrightarrow> \<forall>m \<in> set seen. \<forall>m' \<in> refs a. rank m' < rank m \<or> silent G m' \<Longrightarrow> computed_at G seen a p"
proof (induction arbitrary: seen rule: computed_anywhere.induct)
  case (any_own m c n)
  then have "\<not> silent G m" by (auto simp: silent_def intro: computed_anywhere.any_own)
  with any_own show ?case by (intro own) auto
next
  case (any_field m c n a p)
  have "\<not> silent G m" using any_field(1-3) by (auto simp: silent_def intro: computed_anywhere.any_field)
  with any_field.prems have low: "\<forall>x \<in> set seen. rank m < rank x" by auto
  have "computed_at G (m # seen) a p"
    by (rule any_field.IH) (use rank [OF any_field(1,2)] low in fastforce)
  with any_field(1,2) low show ?case by (intro of_field) auto
next
  case (any_arm a args p)
  then show ?case by (intro of_arm) auto
qed (auto intro: computed_at.intros)

text \<open>\<open>Recursive\<close> is the one class that comes back to itself.\<close>

lemma recursive_silent: "silent zoo_classes ''Recursive''"
proof -
  have "computed_anywhere zoo_classes a p \<Longrightarrow> refs a \<subseteq> {''Recursive''} \<Longrightarrow> False" for a p
  proof (induction rule: computed_anywhere.induct)
    case (any_own m c n)
    then show ?case by (auto simp: zoo_classes_def zoo_class_def)
  next
    case (any_field m c n a p)
    then have "a \<in> {an_str, Union [ModelRef ''Recursive'', Plain ''None'']}" by (auto simp: zoo_classes_def zoo_class_def)
    with any_field show ?case by auto
  qed auto
  from this [of "ModelRef ''Recursive''"] show ?thesis by (auto simp: silent_def)
qed

definition zoo_rank :: "string \<Rightarrow> nat" where
  "zoo_rank m =
     (if m = ''DeepComputed'' then 3 else if m \<in> set [''NestedComputed'', ''Container'', ''Shape'', ''WithNestedSecret''] then 2 else 1)"

lemma zoo_ranked:
  "list_all (\<lambda>(m, c). list_all (\<lambda>(n, a). \<forall>m' \<in> refs a. zoo_rank m' < zoo_rank m \<or> m' = ''Recursive'') (mc_fields c)) zoo_classes"
  by code_simp

section \<open>Properties\<close>



text \<open>
  C24: A recursive model keeps computed fields: where a field of a class is an optional value of the class itself, the
  computed fields of the outer value are left out, but those of the inner one are not, although computed fields are
  never to be stored.
\<close>

theorem recursive_models_keep_computed_fields:
  assumes "graph_ok G" "map_of G m = Some c" "(f, Union [ModelRef m, Plain t]) \<in> set (mc_fields c)" "n \<in> set (mc_computed c)"
  shows "leaves_out (ExFields (build_exclude_map G m)) [At n] \<and>
    computed_anywhere G (ModelRef m) [At f, At n] \<and>
    \<not> leaves_out (ExFields (build_exclude_map G m)) [At f, At n]"
proof -
  have "\<not> computed_at G [m] a [At n]" if "(f, a) \<in> set (mc_fields c)" for a
  proof -
    have "a = Union [ModelRef m, Plain t]"
      using graph_ok_class [OF assms(1,2)] assms(3) that by (auto intro: eq_key_imp_eq_value)
    then show ?thesis by (auto simp: computed_at_simps)
  qed
  with assms(2) have "\<not> computed_at G [] (ModelRef m) [At f, At n]" by (auto simp: computed_at_simps)
  moreover have "computed_anywhere G (ModelRef m) [At f, At n]"
    by (rule any_field [OF assms(2,3)]) (use assms(2,4) in \<open>auto intro: any_arm any_own\<close>)
  moreover have "computed_at G [] (ModelRef m) [At n]" using assms(2,4) by (auto intro: own)
  ultimately show ?thesis unfolding build_exclude_map_is_exact [OF assms(1)] by blast
qed

lemma recursive_models_keep_computed_fields_witness:
  "\<not> leaves_out (ExFields (build_exclude_map
     [(''Node'', zoo_class [(''label'', an_str), (''next'', Union [ModelRef ''Node'', Plain ''None''])] [''length''])] ''Node''))
     [At ''next'', At ''length'']"
  using recursive_models_keep_computed_fields [where G = "[(''Node'', zoo_class [(''label'', an_str),
      (''next'', Union [ModelRef ''Node'', Plain ''None''])] [''length''])]" and m = "''Node''" and f = "''next''"
      and t = "''None''" and n = "''length''"]
  by (simp add: graph_ok_def zoo_class_def plain_def flat_def)

text \<open>
  The corpus is stored without computed fields: every model of the type zoo is accepted, and what its map leaves out
  is all its computed fields, at any depth; the two models with a secret are rejected.
\<close>

theorem zoo_stores_no_computed_field:
  assumes "m \<in> set zoo_members"
  shows "\<not> contains_secret zoo_classes m \<and>
    (leaves_out (ExFields (build_exclude_map zoo_classes m)) p \<longleftrightarrow> computed_anywhere zoo_classes (ModelRef m) p) \<and>
    contains_secret zoo_classes ''WithSecret'' \<and> contains_secret zoo_classes ''WithNestedSecret''"
proof -
  have "list_all (\<lambda>m. \<not> contains_secret zoo_classes m) zoo_members" "contains_secret zoo_classes ''WithSecret''"
    "contains_secret zoo_classes ''WithNestedSecret''" by code_simp+
  moreover have "zoo_rank m' < zoo_rank k \<or> silent zoo_classes m'"
    if "map_of zoo_classes k = Some c" "(n, a) \<in> set (mc_fields c)" "m' \<in> refs a" for k c n a m'
    using zoo_ranked that recursive_silent by (fastforce simp: list_all_iff dest: map_of_SomeD)
  then have "computed_anywhere zoo_classes (ModelRef m) p \<Longrightarrow> computed_at zoo_classes [] (ModelRef m) p"
    by (rule ranked_ways) simp_all
  ultimately show ?thesis
    using assms computed_at_anywhere by (auto simp: build_exclude_map_is_exact [OF zoo_graph_ok] list_all_iff)
qed

lemma zoo_stores_no_computed_field_witness:
  "computed_anywhere zoo_classes (ModelRef ''DeepComputed'') [At ''nested'', At ''child'', At ''doubled'']"
proof -
  have "''DeepComputed'' \<in> set zoo_members" by (simp add: zoo_members_def)
  moreover have "leaves_out (ExFields (build_exclude_map zoo_classes ''DeepComputed'')) [At ''nested'', At ''child'', At ''doubled'']"
    by code_simp
  ultimately show ?thesis using zoo_stores_no_computed_field by blast
qed

text \<open>
  The bytes of a model with a set are not canonical: in JSON mode a set becomes a list in the order of its iteration,
  which for strings differs from process to process, and two orders of one set give two texts.
\<close>

theorem set_order_is_in_the_bytes:
  assumes "float_codec P" "xs \<noteq> ys"
    and "ad_dump A ex v = Inr (JObj [(f, JList (map JStr xs))])" "ad_dump B ex v = Inr (JObj [(f, JList (map JStr ys))])"
  shows "\<exists>b c. canonicalize P A ex v = Inr b \<and> canonicalize P B ex v = Inr c \<and> b \<noteq> c"
proof -
  let ?d = "\<lambda>xs. JObj [(f, JList (map JStr xs))]"
  have ok: "json_ok (?d zs)" "json_finite (?d zs)" "canon (?d zs) = ?d zs" for zs
    by (simp_all add: list_all_iff o_def map_idI)
  have "canonical_bytes P (?d xs) \<noteq> canonical_bytes P (?d ys)"
  proof -
    have "?d xs \<noteq> ?d ys" using assms(2) by (auto dest: map_injective simp: inj_on_def)
    then show ?thesis using canonical_bytes_eq_iff [OF assms(1) ok(1,1,2,2), of xs ys] unfolding ok(3) by blast
  qed
  then show ?thesis
    using assms(3,4) ok(2) [of xs] ok(2) [of ys] by (auto simp: canonicalize_def py_canonical_bytes_def canonical_bytes_alt)
qed

end
