(* ===== verification/Spec2Isabelle.thy ===== *)
theory Spec2Isabelle
  imports Scenario_Facts Pool Cli_Facts Admin_Facts Watermark Epochs Fencing Predicates Matches Matcher Log_Scan Lock_Order
    Drainers Live_Paging Envelopes Zoo
begin

text \<open>
  A verification development for Eventic (\<open>src/eventic\<close>), a versioned document store with transactional change
  notification, in Python on SQLite and PostgreSQL.

  \<^bold>\<open>The program.\<close>  An \<open>App\<close> declares streams (a Pydantic model, a schema version and upcasters), metadata and
  subscriptions.  A \<open>Runtime\<close> gives each stream a \<open>Collection\<close>: \<open>create\<close>, \<open>change\<close> and \<open>replace\<close> plan a commit
  request (canonical bytes, digest, expected revision, delivery intents), the store appends it to a log by
  compare-and-swap, moves the head of the aggregate and inserts the intents in the same transaction, and the
  runtime then hydrates the result and calls the inline handlers.  A \<open>Batch\<close> sends several requests in one call.
  A \<open>Worker\<close> claims intents under a lease, rebuilds the commit from the log, calls the handler and settles; a
  failure is retried after a delay or dead-lettered.  The admin operations rebuild and verify the heads from the
  log; the command line runs them.

  \<^bold>\<open>Theories, from the bottom up.\<close>
  \<^item> \<open>Eventic_Prelude\<close>: fallible computations as sums, Python dictionaries as association lists, shared lemmas.
    \<open>Effects\<close>: computations over a world, which raise, return or do not return.  \<open>Errors\<close>: \<open>errors.py\<close>.
    \<open>Paging\<close>: the locale \<open>keyset_pager\<close>, keyset paging once for the log, histories, searches and intents.
  \<^item> \<open>Json\<close>, \<open>Json_Facts\<close>: \<open>jsonx.py\<close>, with the writer and the reader of the JSON library and Python's equality
    of values.  \<open>Ids\<close>, \<open>Wire\<close>: \<open>ids.py\<close>, \<open>wire.py\<close>, the page of \<open>envelopes.py\<close>.
  \<^item> \<open>Encodings\<close>, \<open>Encoding_Facts\<close>: \<open>encodings/\<close>; the locale \<open>document_encoding\<close> and its two instances.
  \<^item> \<open>Tables\<close>: the rows of \<open>sql/tables.py\<close> and the statements of \<open>sql/statements.py\<close> and \<open>sql/dialect.py\<close>.
    \<open>Store\<close>: \<open>commit\<close>, \<open>head\<close>, \<open>revision\<close> and the decoding of windows of \<open>sql/store.py\<close>.  \<open>Store_Effects\<close>,
    \<open>Decode_Facts\<close>, \<open>Store_Inv\<close>, \<open>Store_Cas\<close>: what they change, what decoding yields, the invariant \<open>store_ok\<close>
    and when a request succeeds.  \<open>Samples\<close>: concrete values.  \<open>Store_Promises\<close>: the properties of commits.
    \<open>Concurrency\<close>: commits that overlap on PostgreSQL, with their reads, row locks and writes as the step relation
    \<open>overlap_step\<close>.  \<open>Frames\<close>: what a commit needs of the tables and what it is to others.  \<open>Batches\<close>, \<open>Deadlocks\<close>:
    batches that overlap, each read, each inserted key and each lock a step of \<open>batches_step\<close>.
    \<open>Lock_Order\<close>: batches in one order of aggregates.  \<open>Live_Paging\<close>: search pages read while others commit, and the window of a point read.
  \<^item> \<open>Reads\<close>: \<open>history\<close>, \<open>search\<close> and their JSON paths.  \<open>Delivery\<close>: \<open>claim\<close>, \<open>settle\<close>, \<open>redrive\<close>, and the
    interleavings of transactions on the outbox as the step relation \<open>outbox_step\<close>.  \<open>Drainers\<close>: claims that overlap
    on PostgreSQL, row by row and lock by lock, beside other transactions.  \<open>Admin\<close>, \<open>Admin_Facts\<close>:
    \<open>sql/admin.py\<close>, with the base64 texts of its cursors in \<open>Cursor\<close>.  \<open>Schema\<close>: the declared tables and the Alembic baseline as data, and running them.
  \<^item> \<open>Evolution\<close>, \<open>Canonical\<close>, \<open>Declarations\<close>, \<open>Planning\<close>, \<open>Hydration\<close>: the modules of these names, with
    \<open>stream.py\<close>, \<open>meta.py\<close>, \<open>subscription.py\<close> and \<open>app.py\<close> in \<open>Declarations\<close>.  \<open>Zoo\<close>: what the map of exclusions leaves
    out, and the model classes of \<open>testing/factories.py\<close>.
  \<^item> \<open>Protocols\<close>: the operations of a store as the record \<open>store_api\<close>, and \<open>dispatch.py\<close>.  \<open>Runtime\<close>: \<open>runtime.py\<close>.
    \<open>Contract\<close>: the locale \<open>store_contract\<close>, what the runtime relies on, and what follows.  \<open>Sql_Store\<close>: the SQL
    store as a \<open>store_api\<close>, and the interpretation of the contract on it.  \<open>Runtime_Promises\<close>: the properties.
  \<^item> \<open>Floats\<close>, \<open>Retry\<close>, \<open>Worker\<close>, \<open>Worker_Promises\<close>: \<open>retry.py\<close> with the float arithmetic it uses, and \<open>worker.py\<close>.
    \<open>Envelopes\<close>: the commit an inline handler gets and the one a worker rebuilds.
  \<^item> \<open>Cli\<close>, \<open>Cli_Facts\<close>: \<open>cli/\<close>.  \<open>Pool\<close>: the shared connection of the in-memory store of \<open>sql/store.py\<close>, as the
    steps of its threads.  \<open>Conformance\<close>, \<open>Conformance_Facts\<close>: \<open>testing/runner.py\<close> and the steps of
    \<open>testing/conformance/store.py\<close>.  \<open>Scenarios\<close>, \<open>Scenario_Facts\<close>: the corpus of
    \<open>testing/conformance/scenarios.py\<close> as data, and its run on the SQL store.
  \<^item> Projections, the design the repository works out in \<open>.scratch/projects/008-derived-projection/probes\<close>:
    a matcher scans the log, keeps partial matches of patterns and emits matches as documents of a stream.
    \<open>Watermark\<close> (\<open>p02\<close>): scanning while writers commit.  \<open>Epochs\<close> (\<open>p05\<close>, \<open>p02\<close>): restores into other clusters.
    \<open>Log_Scan\<close> (\<open>p06\<close>): documents and changed keys of the scanned rows.  \<open>Predicates\<close> (\<open>p03\<close>, \<open>p09\<close>): predicates on
    commits, the intents they filter and their fingerprint.  \<open>Matcher\<close> (\<open>p07\<close>, \<open>p10\<close>): selection of a path and the
    table of partial matches.  \<open>Matches\<close> (\<open>p01\<close>, \<open>p04\<close>, \<open>p07\<close>): references, ids and emission, over \<open>Sql_Store\<close> and
    \<open>Planning\<close>.  \<open>Fencing\<close> (\<open>p11\<close>): the checkpoint under a lease and the order of writes around a crash.

  \<^bold>\<open>State.\<close>  \<open>db\<close> is the four tables, each a list of rows in order of insertion; the constraints of \<open>tables.py\<close>
  are checked by the insert statements (\<open>revision_violation\<close>, \<open>intent_violation\<close>).  A transaction is a function
  on \<open>db\<close>: what raises leaves the tables as they were.  \<open>world\<close> adds the clock of the database and that of the
  process; handlers are functions on the world.  Timestamps are microseconds as \<open>int\<close>; floats are their 64 bits;
  a UUID is a 128-bit word; Python's integers are \<open>int\<close>.

  \<^bold>\<open>What the lemmas show.\<close>  Commits: the tables stay consistent, no update is lost, batches are atomic, what is
  committed reads back, history never changes; commits that overlap, batches too, are serial, but for a replay
  that missed the head, which moves it back; commits of one request do not deadlock, nor do batches in one
  order of aggregates; others may, and then end.  Outbox: intents leave only when delivered, leases exclude,
  drains settle what they claimed, drainers that overlap never share an intent, and a worker rebuilds the very commit
  that inline handlers were given.  Admin: a rebuild recovers the heads from the log, and a verification without
  mismatch has checked every digest; the text cursors of intents list each exactly once.  Reads: pages are gap-free and partition the matches, also while others commit; point reads are bounded.  Declarations,
  canonicalization, evolution and planning: what they accept and what they produce.  Runtime and worker: what
  callers see of all this, errors included.  Command line: exit codes and effects.  Kit: every scenario of its
  corpus passes on the SQL store on both dialects, the concurrent steps in any order.  Pool: one thread at a time,
  no deadlock.  Projections: which order of the log a scan may trust and when a scan reads every row once, that
  the scan strategies agree, that cursors do not move back, that the matcher implements the selection of paths,
  and that a match can be emitted again.

  \<^bold>\<open>Termination and bounds.\<close>  Functions whose recursion is not structural have their measures: the classes not
  yet entered for the walks of \<open>Canonical\<close>, the text left for scanners.  The loops over the chunks of the
  log and the pages of a scan end because the rows after the last key become fewer; a chunk of size 0 is empty
  and the last.  No function has fuel but the JSON scanner, whose fuel is the length of its text: enough for every
  text the writer produces (\<open>loads_dumps\<close>).  Upcasting and the
  worker's polling loop need not end and are partial functions; that they do is proved where it holds.
  Rounding of floats is written out for finite results, with overflow to infinity as IEEE 754 has it.

  \<^bold>\<open>Parameters.\<close>  The \<open>platform\<close> record holds \<open>repr\<close> and \<open>float\<close> of a float, SHA-256 and UUID version 5;
  \<open>float_codec\<close> says that the first two invert each other.  No theorem assumes that hashes do not collide:
  where it matters a hypothesis names the ids or digests.  The JSON functions of the databases are \<open>sql_json\<close>;
  Pydantic's validation and dumping are the adapters of a \<open>model\<close>; \<open>interp\<close> holds the interpreter's power
  function, its classes of non-ASCII characters and the text of an exception; \<open>iso_format\<close> is \<open>isoformat\<close> and
  \<open>fromisoformat\<close>, of which \<open>iso_codec\<close> says that the second inverts the first; \<open>env\<close> what the command line finds
  around it.  The snapshot horizon of PostgreSQL is a
  function of the transactions in progress, of which \<open>sound_horizon\<close> says what is documented: no transaction below
  it is in progress.  Each has a concrete instance that the witnesses use.

  \<^bold>\<open>Not modelled.\<close>  Connections other than the shared one of \<open>Pool\<close>, and failures of the driver: a statement
  succeeds or violates a constraint of ours.  Isolation: a transaction is one step, which on SQLite the write lock
  ensures, except in \<open>Concurrency\<close> (commits of one request), \<open>Batches\<close> (of several), \<open>Drainers\<close> (claims) and
  \<open>Watermark\<close>.  The wording of messages and of printed lines.  \<open>argparse\<close>,
  Alembic's environment, benchmarks, and the instances of \<open>testing/factories.py\<close>.  Of the probes: timing,
  printing, the bytecode fingerprints of \<open>p09\<close>, \<open>p08\<close>, which measures, and the probes of earlier projects, which
  are regression scripts or use an API the repository no longer has.  \<open>inspect\<close> and the walk over Python classes: what they report is data.
\<close>

end
